(* ===== verification/Prelude.thy ===== *)
theory Prelude
  imports Complex_Main "HOL-Library.Word"
begin

section \<open>Prelude: exceptions, programs over a state, triples, list facts\<close>

text \<open>
  What every component shares.  Python exceptions are values (\<open>exn\<close>: a class and the
  structured content of its message); a method that mutates state and may raise is a
  \<open>prog\<close>, a function from the state to an outcome and the state it leaves, so the mutations
  made before a raise are kept, as they are in Python.  \<open>triple\<close> is the proof rule of the
  development: a precondition, a postcondition for a normal return and one for a raise.
\<close>

type_synonym byte = "8 word"

subsection \<open>Exceptions\<close>

text \<open>
  The classes the client raises or catches.  \<open>ConnectionError\<close> and \<open>TimeoutError\<close> are
  subclasses of \<open>OSError\<close>; \<open>KeyboardInterrupt\<close> is not an \<open>Exception\<close>.
  \<open>NoReturn\<close> is not Python's: it marks a loop that used up the fuel of the model, and, like an
  interrupt, no handler of the code catches it.
\<close>

datatype exn_class =
    RuntimeError | ConnectionError | TimeoutError | OSError | ValueError | IndexError
  | KeyError | TypeError | AttributeError | AssertionError | ZeroDivisionError | OverflowError | StructError | IOError | SystemExit | KeyboardInterrupt | NoReturn

datatype reason =
    GatherDeadlinePassed
  | NoData rat
  | SelectNoData rat
  | SelectDeadlinePassed
  | ConnectionClosed nat nat
  | BadMagic nat
  | OutOfSync nat "nat option"
  | BadStatus nat
  | WrongCount nat nat
  | CarriedRowData
  | RowBytesMismatch nat nat
  | EmptyRange
  | RangeMoved
  | StillUnreachable
  | SplitGap nat nat
  | SplitOverlap nat nat
  | CoverMismatch nat nat
  | TooManyRows nat nat
  | Unroutable nat int nat
  | NotUsable
  | ListedTwice string
  | NoPeers
  | NotAnInteger string
  | FieldRange
  | NoSocket
  | NotWaiting nat
  | ShortRead nat nat nat
  | NoSuchKey nat
  | ShapeMismatch nat nat
  | Failed string
  | Env nat

datatype exn = Exn exn_class reason

primrec exn_kind :: "exn \<Rightarrow> exn_class" where
  "exn_kind (Exn c r) = c"

definition is_os_error :: "exn \<Rightarrow> bool" where
  "is_os_error e \<longleftrightarrow> exn_kind e \<in> {ConnectionError, TimeoutError, OSError, IOError}"

definition is_exception :: "exn \<Rightarrow> bool" where
  "is_exception e \<longleftrightarrow> exn_kind e \<notin> {SystemExit, KeyboardInterrupt, NoReturn}"

lemma is_os_error_Exn [simp]:
  "is_os_error (Exn c r) \<longleftrightarrow> c \<in> {ConnectionError, TimeoutError, OSError, IOError}"
  by (simp add: is_os_error_def)

lemma is_exception_Exn [simp]:
  "is_exception (Exn c r) \<longleftrightarrow> c \<notin> {SystemExit, KeyboardInterrupt, NoReturn}"
  by (simp add: is_exception_def)

lemma os_error_is_exception: "is_os_error e \<Longrightarrow> is_exception e"
  by (cases e) auto

subsection \<open>Programs\<close>

type_synonym ('s, 'a) prog = "'s \<Rightarrow> (exn + 'a) \<times> 's"

definition ret :: "'a \<Rightarrow> ('s, 'a) prog" where
  "ret x s = (Inr x, s)"

definition raise :: "exn \<Rightarrow> ('s, 'a) prog" where
  "raise e s = (Inl e, s)"

definition bnd :: "('s, 'a) prog \<Rightarrow> ('a \<Rightarrow> ('s, 'b) prog) \<Rightarrow> ('s, 'b) prog" where
  "bnd m f s = (case m s of (Inl e, s') \<Rightarrow> (Inl e, s') | (Inr x, s') \<Rightarrow> f x s')"

definition seq :: "('s, unit) prog \<Rightarrow> ('s, 'b) prog \<Rightarrow> ('s, 'b) prog" where
  "seq m n = bnd m (\<lambda>_. n)"

definition gets :: "('s \<Rightarrow> 'a) \<Rightarrow> ('s, 'a) prog" where
  "gets f s = (Inr (f s), s)"

definition modify :: "('s \<Rightarrow> 's) \<Rightarrow> ('s, unit) prog" where
  "modify f s = (Inr (), f s)"

text \<open>\<open>try m except <c> as e: h e\<close>, and \<open>try m finally: f\<close> for an \<open>f\<close> that only assigns.\<close>

definition handle :: "('s, 'a) prog \<Rightarrow> (exn \<Rightarrow> bool) \<Rightarrow> (exn \<Rightarrow> ('s, 'a) prog) \<Rightarrow> ('s, 'a) prog" where
  "handle m c h s = (case m s of
      (Inl e, s') \<Rightarrow> (if c e then h e s' else (Inl e, s'))
    | (Inr x, s') \<Rightarrow> (Inr x, s'))"

definition ensure :: "('s, 'a) prog \<Rightarrow> ('s \<Rightarrow> 's) \<Rightarrow> ('s, 'a) prog" where
  "ensure m f s = (case m s of (r, s') \<Rightarrow> (r, f s'))"

text \<open>\<open>for x in xs: f x\<close>, and the comprehension that collects the results.\<close>

primrec each :: "'b list \<Rightarrow> ('b \<Rightarrow> ('s, unit) prog) \<Rightarrow> ('s, unit) prog" where
  "each [] f = ret ()"
| "each (x # xs) f = seq (f x) (each xs f)"

primrec collect :: "'b list \<Rightarrow> ('b \<Rightarrow> ('s, 'a) prog) \<Rightarrow> ('s, 'a list) prog" where
  "collect [] f = ret []"
| "collect (x # xs) f = bnd (f x) (\<lambda>y. bnd (collect xs f) (\<lambda>ys. ret (y # ys)))"

named_theorems prog_simps \<open>equations that run a program\<close>

lemma ret_run [prog_simps]: "ret x s = (Inr x, s)"
  by (simp add: ret_def)

lemma raise_run [prog_simps]: "raise e s = (Inl e, s)"
  by (simp add: raise_def)

lemma gets_run [prog_simps, simp]: "gets f s = (Inr (f s), s)"
  by (simp add: gets_def)

lemma modify_run [prog_simps, simp]: "modify f s = (Inr (), f s)"
  by (simp add: modify_def)

lemma bnd_Inl: "m s = (Inl e, s') \<Longrightarrow> bnd m f s = (Inl e, s')"
  by (simp add: bnd_def)

lemma bnd_Inr: "m s = (Inr x, s') \<Longrightarrow> bnd m f s = f x s'"
  by (simp add: bnd_def)

lemma bnd_ret [simp]: "bnd (ret x) f = f x"
  by (rule ext) (simp add: bnd_def ret_run)

lemma bnd_raise [simp]: "bnd (raise e) f = raise e"
  by (rule ext) (simp add: bnd_def raise_run)

lemma bnd_gets [simp]: "bnd (gets f) g s = g (f s) s"
  by (simp add: bnd_def)

lemma seq_modify [simp]: "seq (modify f) m s = m (f s)"
  by (simp add: seq_def bnd_def)

lemma seq_run: "seq m n s = (case m s of (Inl e, s') \<Rightarrow> (Inl e, s') | (Inr x, s') \<Rightarrow> n s')"
  by (simp add: seq_def bnd_def)

lemma bnd_InrE:
  assumes "bnd m f s = (Inr y, s')"
  obtains x s1 where "m s = (Inr x, s1)" "f x s1 = (Inr y, s')"
  using assms by (auto simp: bnd_def split: prod.splits sum.splits)

lemma bnd_InlE:
  assumes "bnd m f s = (Inl e, s')"
  obtains "m s = (Inl e, s')" | x s1 where "m s = (Inr x, s1)" "f x s1 = (Inl e, s')"
  using assms by (auto simp: bnd_def split: prod.splits sum.splits)

lemma seq_InrE:
  assumes "seq m n s = (Inr y, s')"
  obtains s1 where "m s = (Inr (), s1)" "n s1 = (Inr y, s')"
  using assms by (auto simp: seq_def elim: bnd_InrE)

lemma seq_InlE:
  assumes "seq m n s = (Inl e, s')"
  obtains "m s = (Inl e, s')" | s1 where "m s = (Inr (), s1)" "n s1 = (Inl e, s')"
  using assms by (auto simp: seq_def elim: bnd_InlE)

lemma bnd_assoc: "bnd (bnd m f) g = bnd m (\<lambda>x. bnd (f x) g)"
  by (rule ext) (auto simp: bnd_def split: prod.splits sum.splits)

lemma bnd_cong [fundef_cong]:
  "m s = m' s \<Longrightarrow> (\<And>x s'. m' s = (Inr x, s') \<Longrightarrow> f x s' = g x s') \<Longrightarrow> s = t
   \<Longrightarrow> bnd m f s = bnd m' g t"
  by (auto simp: bnd_def split: prod.splits sum.splits)

lemmas prog_defs = bnd_def seq_def handle_def ensure_def

subsection \<open>Triples\<close>

definition triple ::
  "('s \<Rightarrow> bool) \<Rightarrow> ('s, 'a) prog \<Rightarrow> ('a \<Rightarrow> 's \<Rightarrow> bool) \<Rightarrow> (exn \<Rightarrow> 's \<Rightarrow> bool) \<Rightarrow> bool" where
  "triple P m Q R \<longleftrightarrow> (\<forall>s. P s \<longrightarrow>
     (case m s of (Inl e, s') \<Rightarrow> R e s' | (Inr x, s') \<Rightarrow> Q x s'))"

named_theorems triples \<open>triples of the operations, for composition\<close>

lemma tripleI:
  assumes "\<And>s x s'. P s \<Longrightarrow> m s = (Inr x, s') \<Longrightarrow> Q x s'"
    and "\<And>s e s'. P s \<Longrightarrow> m s = (Inl e, s') \<Longrightarrow> R e s'"
  shows "triple P m Q R"
  using assms by (auto simp: triple_def split: prod.splits sum.splits)

lemma triple_InrD: "triple P m Q R \<Longrightarrow> P s \<Longrightarrow> m s = (Inr x, s') \<Longrightarrow> Q x s'"
  by (auto simp: triple_def)

lemma triple_InlD: "triple P m Q R \<Longrightarrow> P s \<Longrightarrow> m s = (Inl e, s') \<Longrightarrow> R e s'"
  by (auto simp: triple_def split: prod.splits)

lemma triple_weaken:
  assumes "triple P m Q R"
    and "\<And>s. P' s \<Longrightarrow> P s" and "\<And>x s. Q x s \<Longrightarrow> Q' x s" and "\<And>e s. R e s \<Longrightarrow> R' e s"
  shows "triple P' m Q' R'"
  by (rule tripleI)
    (blast intro: assms triple_InrD [OF assms(1)] triple_InlD [OF assms(1)])+

lemma triple_pre: "triple P m Q R \<Longrightarrow> (\<And>s. P' s \<Longrightarrow> P s) \<Longrightarrow> triple P' m Q R"
  by (erule triple_weaken)

lemma triple_ret [intro]: "(\<And>s. P s \<Longrightarrow> Q x s) \<Longrightarrow> triple P (ret x) Q R"
  by (simp add: triple_def ret_run)

lemma triple_raise [intro]: "(\<And>s. P s \<Longrightarrow> R e s) \<Longrightarrow> triple P (raise e) Q R"
  by (simp add: triple_def raise_run)

lemma triple_modify [intro]: "(\<And>s. P s \<Longrightarrow> Q () (f s)) \<Longrightarrow> triple P (modify f) Q R"
  by (simp add: triple_def)

lemma triple_bnd:
  assumes "triple P m Q' R" and "\<And>x. triple (Q' x) (f x) Q R"
  shows "triple P (bnd m f) Q R"
  using assms by (fastforce simp: triple_def bnd_def split: prod.splits sum.splits)

lemma triple_seq:
  assumes "triple P m (\<lambda>_. Q') R" and "triple Q' n Q R"
  shows "triple P (seq m n) Q R"
  unfolding seq_def by (rule triple_bnd [OF assms(1)]) (rule assms(2))

lemma triple_gets:
  assumes "\<And>x. triple (\<lambda>s. P s \<and> f s = x) (g x) Q R"
  shows "triple P (bnd (gets f) g) Q R"
  using assms by (fastforce simp: triple_def bnd_def)

lemma triple_if:
  assumes "b \<Longrightarrow> triple P m Q R" and "\<not> b \<Longrightarrow> triple P n Q R"
  shows "triple P (if b then m else n) Q R"
  using assms by simp

lemma triple_handle:
  assumes "triple P m Q R'" and "\<And>e. c e \<Longrightarrow> triple (R' e) (h e) Q R"
    and "\<And>e s. \<not> c e \<Longrightarrow> R' e s \<Longrightarrow> R e s"
  shows "triple P (handle m c h) Q R"
  using assms by (fastforce simp: triple_def handle_def split: prod.splits sum.splits)

lemma triple_ensure:
  assumes "triple P m (\<lambda>x s. Q x (f s)) (\<lambda>e s. R e (f s))"
  shows "triple P (ensure m f) Q R"
  using assms by (fastforce simp: triple_def ensure_def split: prod.splits sum.splits)

text \<open>A loop over a list, with an invariant over what is done and what is left.\<close>

lemma triple_each:
  assumes "\<And>ys x zs. xs = ys @ x # zs \<Longrightarrow> triple (I ys (x # zs)) (f x) (\<lambda>_. I (ys @ [x]) zs) R"
  shows "triple (I [] xs) (each xs f) (\<lambda>_. I xs []) R"
proof -
  have "triple (I ys zs) (each zs f) (\<lambda>_. I xs []) R" if "xs = ys @ zs" for ys zs
    using that
  proof (induction zs arbitrary: ys)
    case Nil
    then show ?case by (simp add: triple_ret)
  next
    case (Cons x zs)
    have "triple (I (ys @ [x]) zs) (each zs f) (\<lambda>_. I xs []) R"
      by (rule Cons.IH) (simp add: Cons.prems)
    then show ?case
      by (simp add: triple_seq [OF assms [OF Cons.prems]])
  qed
  from this [of "[]" xs] show ?thesis by simp
qed

lemma triple_each_inv:
  assumes "\<And>x. x \<in> set xs \<Longrightarrow> triple I (f x) (\<lambda>_. I) R"
  shows "triple I (each xs f) (\<lambda>_. I) R"
  using triple_each [of xs "\<lambda>_ _. I" f R] assms by simp

end
