(* ===== verification/Wire.thy ===== *)
theory Wire
  imports Prelude
begin

section \<open>The wire format\<close>

text \<open>
  \<open>struct.pack\<close> and \<open>struct.unpack\<close> for the little-endian unsigned formats the program uses
  (\<open><IBBHII\<close>, \<open><IIII\<close>, \<open><QQIIQ\<close>, \<open><QQQIIII\<close>), over a format given as its list of field
  widths in bytes, and the messages of \<open>docs/protocol.md\<close> built from them.  Field values are
  Python integers; a value that does not fit its field raises \<open>struct.error\<close>.
\<close>

subsection \<open>Little-endian integers\<close>

fun le_encode :: "nat \<Rightarrow> nat \<Rightarrow> byte list" where
  "le_encode 0 v = []"
| "le_encode (Suc w) v = word_of_nat v # le_encode w (v div 256)"

fun le_decode :: "byte list \<Rightarrow> nat" where
  "le_decode [] = 0"
| "le_decode (b # bs) = unat b + 256 * le_decode bs"

lemma length_le_encode [simp]: "length (le_encode w v) = w"
  by (induction w v rule: le_encode.induct) auto

lemma unat_byte_of_nat: "unat (word_of_nat v :: byte) = v mod 256"
  by (simp add: unat_of_nat)

lemma unat_byte_less: "unat (b :: byte) < 256"
  by (rule order.strict_trans2 [OF unsigned_less]) simp

lemma le_decode_encode: "v < 256 ^ w \<Longrightarrow> le_decode (le_encode w v) = v"
proof (induction w v rule: le_encode.induct)
  case (1 v)
  then show ?case by simp
next
  case (2 w v)
  have "v div 256 < 256 ^ w"
    using "2.prems" by (simp add: less_mult_imp_div_less mult.commute)
  then show ?case
    using "2.IH" by (simp add: unat_byte_of_nat)
qed

lemma le_decode_less: "le_decode bs < 256 ^ length bs"
proof (induction bs)
  case Nil
  then show ?case by simp
next
  case (Cons b bs)
  have "unat b < 256"
    by (rule unat_byte_less)
  then show ?case
    using Cons.IH by simp
qed

lemma le_encode_decode: "le_encode (length bs) (le_decode bs) = bs"
proof (induction bs)
  case Nil
  then show ?case by simp
next
  case (Cons b bs)
  have b: "unat b < 256"
    by (rule unat_byte_less)
  have "(256 :: byte) = 0"
    by simp
  then have "word_of_nat (unat b + 256 * le_decode bs) = b"
    by (simp only: of_nat_add of_nat_mult of_nat_numeral of_nat_unat ucast_id
        mult_zero_left add_0_right)
  moreover have "(unat b + 256 * le_decode bs) div 256 = le_decode bs"
    using b by simp
  ultimately show ?case
    using Cons.IH by simp
qed

subsection \<open>Packing and unpacking a format\<close>

definition field_fits :: "nat \<Rightarrow> int \<Rightarrow> bool" where
  "field_fits w v \<longleftrightarrow> 0 \<le> v \<and> v < 256 ^ w"

fun struct_pack :: "nat list \<Rightarrow> int list \<Rightarrow> exn + byte list" where
  "struct_pack [] [] = Inr []"
| "struct_pack (w # ws) (v # vs) =
     (if field_fits w v
      then (case struct_pack ws vs of
              Inl e \<Rightarrow> Inl e
            | Inr bs \<Rightarrow> Inr (le_encode w (nat v) @ bs))
      else Inl (Exn StructError FieldRange))"
| "struct_pack _ _ = Inl (Exn StructError FieldRange)"

definition calcsize :: "nat list \<Rightarrow> nat" where
  "calcsize ws = sum_list ws"

text \<open>\<open>unpack_from\<close>: the format's fields off the front of a buffer that is long enough.\<close>

fun struct_fields :: "nat list \<Rightarrow> byte list \<Rightarrow> nat list" where
  "struct_fields [] bs = []"
| "struct_fields (w # ws) bs = le_decode (take w bs) # struct_fields ws (drop w bs)"

definition struct_unpack :: "nat list \<Rightarrow> byte list \<Rightarrow> exn + nat list" where
  "struct_unpack ws bs =
     (if length bs < calcsize ws then Inl (Exn StructError FieldRange)
      else Inr (struct_fields ws bs))"

lemma struct_pack_length: "struct_pack ws vs = Inr bs \<Longrightarrow> length bs = calcsize ws"
  by (induction ws vs arbitrary: bs rule: struct_pack.induct)
    (auto simp: calcsize_def split: if_splits sum.splits)

lemma length_struct_fields [simp]: "length (struct_fields ws bs) = length ws"
  by (induction ws arbitrary: bs) auto

lemma struct_fields_pack:
  "struct_pack ws vs = Inr bs \<Longrightarrow> struct_fields ws (bs @ rest) = map nat vs"
proof (induction ws vs arbitrary: bs rule: struct_pack.induct)
  case (2 w ws v vs)
  then obtain bs' where *: "field_fits w v" "struct_pack ws vs = Inr bs'"
      "bs = le_encode w (nat v) @ bs'"
    by (auto split: if_splits sum.splits)
  have "nat v < 256 ^ w"
    using * by (simp add: field_fits_def nat_less_iff)
  then show ?case
    using * "2.IH" by (simp add: le_decode_encode)
qed auto

lemma struct_pack_fields:
  "length bs = calcsize ws \<Longrightarrow> struct_pack ws (map int (struct_fields ws bs)) = Inr bs"
proof (induction ws arbitrary: bs)
  case Nil
  then show ?case by (simp add: calcsize_def)
next
  case (Cons w ws)
  have w: "length (take w bs) = w" "length (drop w bs) = calcsize ws"
    using Cons.prems by (auto simp: calcsize_def)
  have "le_decode (take w bs) < 256 ^ w"
    using le_decode_less [of "take w bs"] w by simp
  then have "int (le_decode (take w bs)) < int (256 ^ w)"
    by (simp only: of_nat_less_iff)
  then have fits: "field_fits w (int (le_decode (take w bs)))"
    by (simp add: field_fits_def)
  have "le_encode w (le_decode (take w bs)) = take w bs"
    using le_encode_decode [of "take w bs"] w by simp
  then show ?case
    using Cons.IH [OF w(2)] fits by simp
qed

lemma struct_pack_range:
  "struct_pack ws vs = Inr bs \<Longrightarrow> list_all2 field_fits ws vs"
  by (induction ws vs arbitrary: bs rule: struct_pack.induct)
    (auto split: if_splits sum.splits)

lemma struct_pack_ok:
  "list_all2 field_fits ws vs \<Longrightarrow> \<exists>bs. struct_pack ws vs = Inr bs"
  by (induction ws vs rule: struct_pack.induct) auto

subsection \<open>Constants of the client\<close>

definition MAGIC_REQ :: nat where "MAGIC_REQ = 0x52454C50"
definition MAGIC_RESP :: nat where "MAGIC_RESP = 0x50534552"
definition VERSION :: nat where "VERSION = 1"
definition OP_GATHER :: nat where "OP_GATHER = 1"
definition OP_PING :: nat where "OP_PING = 2"
definition OP_STAT :: nat where "OP_STAT = 3"
definition OP_RECHARGE :: nat where "OP_RECHARGE = 4"
definition HEADER :: nat where "HEADER = 16"
definition STAT_BODY :: nat where "STAT_BODY = 32"
definition RECHARGE_BODY :: nat where "RECHARGE_BODY = 40"

lemmas wire_consts = MAGIC_REQ_def MAGIC_RESP_def VERSION_def OP_GATHER_def OP_PING_def
  OP_STAT_def OP_RECHARGE_def HEADER_def STAT_BODY_def RECHARGE_BODY_def

definition REQ_FMT :: "nat list" where "REQ_FMT = [4, 1, 1, 2, 4, 4]"
definition RESP_FMT :: "nat list" where "RESP_FMT = [4, 4, 4, 4]"
definition STAT_FMT :: "nat list" where "STAT_FMT = [8, 8, 4, 4, 8]"
definition RECHARGE_FMT :: "nat list" where "RECHARGE_FMT = [8, 8, 8, 4, 4, 4, 4]"

lemmas wire_fmts = REQ_FMT_def RESP_FMT_def STAT_FMT_def RECHARGE_FMT_def

lemma calcsize_fmts [simp]:
  "calcsize REQ_FMT = 16" "calcsize RESP_FMT = 16" "calcsize STAT_FMT = 32"
  "calcsize RECHARGE_FMT = 40"
  by (simp_all add: calcsize_def wire_fmts)

subsection \<open>Messages\<close>

text \<open>
  A request header, the id array after it (\<open>np.uint32\<close> in a little-endian host's memory), a
  response header, and the body of a \<open>STAT\<close> answer.
\<close>

definition pack_request :: "nat \<Rightarrow> nat \<Rightarrow> nat \<Rightarrow> nat \<Rightarrow> exn + byte list" where
  "pack_request op arg req_id count =
     struct_pack REQ_FMT (map int [MAGIC_REQ, VERSION, op, arg, req_id, count])"

definition pack_response :: "nat \<Rightarrow> nat \<Rightarrow> nat \<Rightarrow> exn + byte list" where
  "pack_response req_id status count =
     struct_pack RESP_FMT (map int [MAGIC_RESP, req_id, status, count])"

definition id_bytes :: "nat list \<Rightarrow> byte list" where
  "id_bytes ids = concat (map (le_encode 4) ids)"

fun id_array :: "nat \<Rightarrow> byte list \<Rightarrow> nat list" where
  "id_array 0 bs = []"
| "id_array (Suc n) bs = le_decode (take 4 bs) # id_array n (drop 4 bs)"

lemma length_id_bytes [simp]: "length (id_bytes ids) = 4 * length ids"
  by (induction ids) (auto simp: id_bytes_def)

lemma length_id_array [simp]: "length (id_array n bs) = n"
  by (induction n arbitrary: bs) auto

lemma id_array_bytes:
  "\<forall>i\<in>set ids. i < 2 ^ 32 \<Longrightarrow> id_array (length ids) (id_bytes ids @ rest) = ids"
proof (induction ids)
  case Nil
  then show ?case by simp
next
  case (Cons i ids)
  have "le_decode (le_encode 4 i) = i"
    by (rule le_decode_encode) (use Cons.prems in auto)
  then show ?case
    using Cons by (auto simp: id_bytes_def)
qed

lemma pack_request_Inr:
  assumes "pack_request op arg rid n = Inr bs"
  shows "length bs = 16" "op < 256" "arg < 256 ^ 2" "rid < 2 ^ 32" "n < 2 ^ 32"
    and "struct_fields REQ_FMT (bs @ rest) = [MAGIC_REQ, VERSION, op, arg, rid, n]"
proof -
  note p = assms [unfolded pack_request_def]
  from struct_pack_length [OF p] show "length bs = 16" by simp
  from struct_pack_range [OF p]
  show "op < 256" "arg < 256 ^ 2" "rid < 2 ^ 32" "n < 2 ^ 32"
    by (simp_all add: wire_fmts field_fits_def)
  from struct_fields_pack [OF p]
  show "struct_fields REQ_FMT (bs @ rest) = [MAGIC_REQ, VERSION, op, arg, rid, n]"
    by simp
qed

lemma pack_request_ok:
  assumes "op < 256" "arg < 65536" "rid < 2 ^ 32" "n < 2 ^ 32"
  shows "\<exists>bs. pack_request op arg rid n = Inr bs"
  unfolding pack_request_def
  by (rule struct_pack_ok) (use assms in \<open>simp add: wire_fmts field_fits_def wire_consts\<close>)

lemma pack_response_Inr:
  assumes "pack_response rid st n = Inr bs"
  shows "length bs = 16"
    and "struct_fields RESP_FMT (bs @ rest) = [MAGIC_RESP, rid, st, n]"
  using struct_pack_length [OF assms [unfolded pack_response_def]]
    struct_fields_pack [OF assms [unfolded pack_response_def], of rest]
  by simp_all

end
