(* ===== verification/Net.thy ===== *)
theory Net
  imports Wire
begin

section \<open>The world outside the client\<close>

text \<open>
  Sockets, the clock and uninitialised memory are not code of the repository, so they are a
  parameter: a record of operations on a world of any type.  A socket is the number its
  connection got.  The two interfaces the client relies on are locales: \<open>row_service\<close> is what
  \<open>docs/protocol.md\<close> promises of a server's answer to one request, and \<open>honest_net\<close> is what
  TCP promises of the bytes in between (in order, none invented, none duplicated), while every
  operation stays free to fail, to deliver any prefix, and to take its time.
\<close>

type_synonym addr = "string \<times> int"

record 'w net =
  n_connect :: "addr \<Rightarrow> rat \<Rightarrow> 'w \<Rightarrow> (exn + nat) \<times> 'w"
  n_peername :: "nat \<Rightarrow> 'w \<Rightarrow> (exn + addr) \<times> 'w"
  n_send :: "nat \<Rightarrow> rat \<Rightarrow> byte list \<Rightarrow> 'w \<Rightarrow> (exn + unit) \<times> 'w"
  n_recv :: "nat \<Rightarrow> rat \<Rightarrow> nat \<Rightarrow> 'w \<Rightarrow> (exn + byte list) \<times> 'w"
  n_select :: "nat list \<Rightarrow> rat \<Rightarrow> 'w \<Rightarrow> (exn + nat list) \<times> 'w"
  n_close :: "nat \<Rightarrow> bool \<Rightarrow> 'w \<Rightarrow> (exn + unit) \<times> 'w"
  n_now :: "'w \<Rightarrow> rat \<times> 'w"
  n_sleep :: "rat \<Rightarrow> 'w \<Rightarrow> 'w"
  n_junk :: byte
  n_fuel :: nat

text \<open>A world operation run from a state that pairs an object with the world.\<close>

definition io :: "('w \<Rightarrow> (exn + 'a) \<times> 'w) \<Rightarrow> ('x \<times> 'w, 'a) prog" where
  "io f s = (case f (snd s) of (r, w') \<Rightarrow> (r, (fst s, w')))"

definition now :: "'w net \<Rightarrow> ('x \<times> 'w, rat) prog" where
  "now E = io (\<lambda>w. case n_now E w of (t, w') \<Rightarrow> (Inr t, w'))"

definition sleep :: "'w net \<Rightarrow> rat \<Rightarrow> ('x \<times> 'w, unit) prog" where
  "sleep E d = io (\<lambda>w. (Inr (), n_sleep E d w))"

subsection \<open>What a row server answers\<close>

text \<open>
  \<open>reply s m out\<close>: a server in state \<open>s\<close>, idle at a header boundary, may answer the complete
  request \<open>m\<close> with the bytes \<open>out\<close>.  Either it refuses with a bare header of non-zero status, or
  it answers in full; rows come back in request order, duplicates included.
\<close>

definition refusal :: "nat \<Rightarrow> byte list \<Rightarrow> bool" where
  "refusal rid out \<longleftrightarrow> (\<exists>st. st \<noteq> 0 \<and> pack_response rid st 0 = Inr out)"

locale row_service =
  fixes reply :: "'s \<Rightarrow> byte list \<Rightarrow> byte list \<Rightarrow> bool"
    and base :: "'s \<Rightarrow> nat" and count :: "'s \<Rightarrow> nat" and width :: "'s \<Rightarrow> nat"
    and row :: "'s \<Rightarrow> nat \<Rightarrow> byte list"
  assumes reply_gather:
      "reply s (h @ id_bytes ids) out \<Longrightarrow> pack_request OP_GATHER 0 rid (length ids) = Inr h
       \<Longrightarrow> \<forall>i\<in>set ids. i < 2 ^ 32
       \<Longrightarrow> refusal rid out \<or> (\<forall>i\<in>set ids. base s \<le> i \<and> i < base s + count s) \<and>
         (\<exists>g. pack_response rid 0 (length ids) = Inr g \<and> out = g @ concat (map (row s) ids))"
    and reply_stat:
      "reply s h out \<Longrightarrow> pack_request OP_STAT 0 rid 0 = Inr h
       \<Longrightarrow> refusal rid out \<or> (\<exists>g b res served. pack_response rid 0 0 = Inr g \<and> out = g @ b \<and>
         struct_pack STAT_FMT (map int [base s, count s, width s, res, served]) = Inr b)"
    and reply_ping:
      "reply s h out \<Longrightarrow> pack_request OP_PING 0 rid 0 = Inr h
       \<Longrightarrow> refusal rid out \<or> pack_response rid 0 0 = Inr out"
    and row_length:
      "base s \<le> i \<Longrightarrow> i < base s + count s \<Longrightarrow> length (row s i) = width s"

subsection \<open>What a connection carries\<close>

text \<open>
  The view of a world that the reasoning uses, none of it visible to the code: the sockets
  handed out, the bytes each connection may still deliver, and the server at its far end.
\<close>

record ('w, 's) view =
  v_wf :: "'w \<Rightarrow> bool"
  v_used :: "'w \<Rightarrow> nat set"
  v_out :: "'w \<Rightarrow> nat \<Rightarrow> byte list"
  v_srv :: "'w \<Rightarrow> nat \<Rightarrow> 's"

definition keeps :: "('w, 's) view \<Rightarrow> nat set \<Rightarrow> 'w \<Rightarrow> 'w \<Rightarrow> bool" where
  "keeps V K w w' \<longleftrightarrow> v_wf V w' \<and> v_used V w \<subseteq> v_used V w' \<and>
     (\<forall>j\<in>v_used V w. v_srv V w' j = v_srv V w j) \<and>
     (\<forall>j\<in>v_used V w - K. v_out V w' j = v_out V w j)"

lemma keeps_refl [simp, intro]: "v_wf V w \<Longrightarrow> keeps V K w w"
  by (simp add: keeps_def)

lemma keeps_trans: "keeps V K w w' \<Longrightarrow> keeps V K w' w'' \<Longrightarrow> keeps V K w w''"
  unfolding keeps_def by (metis DiffD1 DiffD2 DiffI subset_iff)

lemma keeps_mono: "keeps V K w w' \<Longrightarrow> K \<subseteq> K' \<Longrightarrow> keeps V K' w w'"
  by (auto simp: keeps_def)

lemma keeps_wf: "keeps V K w w' \<Longrightarrow> v_wf V w'"
  by (simp add: keeps_def)

lemma keeps_used: "keeps V K w w' \<Longrightarrow> k \<in> v_used V w \<Longrightarrow> k \<in> v_used V w'"
  by (auto simp: keeps_def)

lemma keeps_srv: "keeps V K w w' \<Longrightarrow> k \<in> v_used V w \<Longrightarrow> v_srv V w' k = v_srv V w k"
  by (auto simp: keeps_def)

lemma keeps_out: "keeps V K w w' \<Longrightarrow> k \<in> v_used V w \<Longrightarrow> k \<notin> K \<Longrightarrow> v_out V w' k = v_out V w k"
  by (auto simp: keeps_def)

locale honest_net = row_service reply base count width row
  for reply :: "'s \<Rightarrow> byte list \<Rightarrow> byte list \<Rightarrow> bool"
    and base :: "'s \<Rightarrow> nat" and count :: "'s \<Rightarrow> nat" and width :: "'s \<Rightarrow> nat"
    and row :: "'s \<Rightarrow> nat \<Rightarrow> byte list" +
  fixes E :: "'w net" and V :: "('w, 's) view" and deployed :: "'s \<Rightarrow> bool"
  assumes connect_ok:
      "v_wf V w \<Longrightarrow> n_connect E a t w = (Inr k, w')
       \<Longrightarrow> k \<notin> v_used V w \<and> k \<in> v_used V w' \<and> v_out V w' k = [] \<and> deployed (v_srv V w' k)"
    and connect_keeps: "v_wf V w \<Longrightarrow> n_connect E a t w = (r, w') \<Longrightarrow> keeps V {} w w'"
    and peername_keeps: "v_wf V w \<Longrightarrow> n_peername E k w = (p, w') \<Longrightarrow> keeps V {} w w'"
    and send_ok:
      "v_wf V w \<Longrightarrow> k \<in> v_used V w \<Longrightarrow> v_out V w k = [] \<Longrightarrow> n_send E k t m w = (Inr u, w')
       \<Longrightarrow> reply (v_srv V w k) m (v_out V w' k)"
    and send_keeps: "v_wf V w \<Longrightarrow> n_send E k t m w = (u', w') \<Longrightarrow> keeps V {k} w w'"
    and recv_ok:
      "v_wf V w \<Longrightarrow> k \<in> v_used V w \<Longrightarrow> n_recv E k t n w = (Inr bs, w')
       \<Longrightarrow> v_out V w k = bs @ v_out V w' k \<and> length bs \<le> n"
    and recv_keeps: "v_wf V w \<Longrightarrow> n_recv E k t n w = (b, w') \<Longrightarrow> keeps V {k} w w'"
    and select_ok:
      "v_wf V w \<Longrightarrow> n_select E ks t w = (Inr ready, w') \<Longrightarrow> distinct ready \<and> set ready \<subseteq> set ks"
    and select_keeps: "v_wf V w \<Longrightarrow> n_select E ks t w = (z, w') \<Longrightarrow> keeps V {} w w'"
    and close_keeps: "v_wf V w \<Longrightarrow> n_close E k ab w = (u', w') \<Longrightarrow> keeps V {k} w w'"
    and now_keeps: "v_wf V w \<Longrightarrow> n_now E w = (t', w') \<Longrightarrow> keeps V {} w w'"
    and sleep_keeps: "v_wf V w \<Longrightarrow> keeps V {} w (n_sleep E d w)"
    and net_errors:
      "n_connect E a t w = (Inl e, w') \<Longrightarrow> is_os_error e"
      "n_peername E k w = (Inl e, w') \<Longrightarrow> is_os_error e"
      "n_send E k t m w = (Inl e, w') \<Longrightarrow> is_os_error e"
      "n_recv E k t n w = (Inl e, w') \<Longrightarrow> is_os_error e"
      "n_select E ks t w = (Inl e, w') \<Longrightarrow> is_os_error e"
      "n_close E k ab w = (Inl e, w') \<Longrightarrow> is_os_error e"

end
