(* ===== verification/Peer.thy ===== *)
theory Peer
  imports Net
begin

section \<open>One peer: its socket, its range, its buffers\<close>

text \<open>
  The class \<open>_Peer\<close> of \<open>client/ple_remote.py\<close>, method by method, over a state that pairs the
  object with the world.  The socket's timeout is the cached \<open>armed\<close> (both are set together), so
  it is passed to the operations that obey it.
\<close>

record peer =
  host :: string
  port :: int
  addr :: addr
  sock :: "nat option"
  timeout :: rat
  armed :: rat
  deadline :: "rat option"
  answered :: bool
  base_row :: nat
  row_count :: nat
  row_bytes :: nat
  resident_pages :: nat
  served_requests :: nat
  cap :: nat
  pending :: "nat option"
  req_ids :: "nat list"
  rows :: "byte list"
  rd_want :: nat
  rd_got :: nat

definition new_peer :: "string \<Rightarrow> int \<Rightarrow> peer" where
  "new_peer h p = \<lparr>host = h, port = p, addr = (h, p), sock = None, timeout = 0, armed = 0,
     deadline = None, answered = False, base_row = 0, row_count = 0, row_bytes = 0,
     resident_pages = 0, served_requests = 0, cap = 0, pending = None, req_ids = [],
     rows = [], rd_want = 0, rd_got = 0\<rparr>"

record stat =
  st_base_row :: nat
  st_row_count :: nat
  st_row_bytes :: nat
  st_resident_pages :: nat
  st_served_requests :: nat

type_synonym ('w, 'a) pprog = "(peer \<times> 'w, 'a) prog"

definition upd :: "('x \<Rightarrow> 'x) \<Rightarrow> ('x \<times> 'w, unit) prog" where
  "upd f s = (Inr (), (f (fst s), snd s))"

lemma upd_run [prog_simps, simp]: "upd f s = (Inr (), (f (fst s), snd s))"
  by (simp add: upd_def)

lemma seq_upd [simp]: "seq (upd f) m s = m (f (fst s), snd s)"
  by (simp add: seq_def bnd_def upd_def)

definition with_sock :: "(nat \<Rightarrow> ('w, 'a) pprog) \<Rightarrow> ('w, 'a) pprog" where
  "with_sock f = bnd (gets (\<lambda>s. sock (fst s))) (\<lambda>so.
     case so of None \<Rightarrow> raise (Exn AttributeError NoSocket) | Some k \<Rightarrow> f k)"

subsection \<open>Connecting and closing\<close>

definition peer_connect :: "'w net \<Rightarrow> rat \<Rightarrow> rat \<Rightarrow> ('w, unit) pprog" where
  "peer_connect E ctimeout tmo =
     bnd (gets (\<lambda>s. addr (fst s))) (\<lambda>a.
     bnd (io (n_connect E a ctimeout)) (\<lambda>k.
     seq (upd (\<lambda>p. p\<lparr>sock := Some k, timeout := tmo, armed := tmo\<rparr>))
     (bnd (io (n_peername E k)) (\<lambda>a'. upd (\<lambda>p. p\<lparr>addr := a'\<rparr>)))))"

definition peer_close :: "'w net \<Rightarrow> bool \<Rightarrow> ('w, unit) pprog" where
  "peer_close E abort =
     bnd (gets (\<lambda>s. sock (fst s))) (\<lambda>so.
     seq (upd (\<lambda>p. p\<lparr>sock := None, pending := None\<rparr>))
     (case so of None \<Rightarrow> ret () | Some k \<Rightarrow> io (n_close E k abort)))"

subsection \<open>Sending and receiving under the gather deadline\<close>

definition arm :: "'w net \<Rightarrow> ('w, unit) pprog" where
  "arm E = bnd (gets fst) (\<lambda>p.
     bnd (case deadline p of
            None \<Rightarrow> ret (timeout p)
          | Some d \<Rightarrow> bnd (now E) (\<lambda>t.
              if min (timeout p) (d - t) \<le> 0
              then raise (Exn TimeoutError GatherDeadlinePassed)
              else ret (min (timeout p) (d - t))))
     (\<lambda>budget. if budget \<noteq> armed p
        then with_sock (\<lambda>k. upd (\<lambda>p. p\<lparr>armed := budget\<rparr>))
        else ret ()))"

definition is_timeout :: "exn \<Rightarrow> bool" where
  "is_timeout e \<longleftrightarrow> exn_kind e = TimeoutError"

text \<open>
  \<open>recv_into(mv, want)\<close> into a view of \<open>avail\<close> bytes: the buffer bounds what arrives, and asking
  for more than it holds raises.
\<close>

definition recv :: "'w net \<Rightarrow> nat \<Rightarrow> nat \<Rightarrow> ('w, byte list) pprog" where
  "recv E avail want = seq (arm E) (with_sock (\<lambda>k.
     bnd (gets (\<lambda>s. armed (fst s))) (\<lambda>t.
     if avail < want then raise (Exn ValueError (TooManyRows want avail))
     else handle (bnd (io (n_recv E k t want)) (\<lambda>bs. ret (take want bs)))
       is_timeout (\<lambda>_. raise (Exn TimeoutError (NoData t))))))"

function recv_exact :: "'w net \<Rightarrow> nat \<Rightarrow> byte list \<Rightarrow> ('w, byte list) pprog" where
  "recv_exact E want got s =
     (if length got < want then
        (case recv E (want - length got) (want - length got) s of
           (Inl e, s') \<Rightarrow> (Inl e, s')
         | (Inr bs, s') \<Rightarrow>
             if bs = []
             then (Inl (Exn ConnectionError (ConnectionClosed (length got) want)), s')
             else recv_exact E want (got @ bs) s')
      else (Inr got, s))"
  by pat_completeness auto
termination
  by (relation "measure (\<lambda>(E, want, got, s). want - length got)")
    (auto simp: length_greater_0_conv [symmetric] simp del: length_greater_0_conv)

declare recv_exact.simps [simp del]

definition reserve :: "'w net \<Rightarrow> nat \<Rightarrow> ('w, unit) pprog" where
  "reserve E n = bnd (gets (\<lambda>s. cap (fst s))) (\<lambda>c.
     if n \<le> c then ret ()
     else upd (\<lambda>p. p\<lparr>req_ids := replicate (max n 4096) 0,
       rows := replicate (max n 4096 * row_bytes p) (n_junk E), cap := max n 4096\<rparr>))"

definition of_sum :: "exn + 'a \<Rightarrow> ('s, 'a) prog" where
  "of_sum r = (case r of Inl e \<Rightarrow> raise e | Inr x \<Rightarrow> ret x)"

lemma of_sum_run: "of_sum r s = (r, s)"
  by (cases r) (auto simp: of_sum_def raise_run ret_run)

definition send_gather :: "'w net \<Rightarrow> nat \<Rightarrow> nat \<Rightarrow> ('w, unit) pprog" where
  "send_gather E rid n = bnd (of_sum (pack_request OP_GATHER 0 rid n)) (\<lambda>h.
     seq (arm E) (with_sock (\<lambda>k. bnd (gets fst) (\<lambda>p.
     seq (io (n_send E k (armed p) (h @ id_bytes (take n (req_ids p)))))
     (upd (\<lambda>p. p\<lparr>pending := Some rid\<rparr>))))))"

definition send_bare :: "'w net \<Rightarrow> nat \<Rightarrow> nat \<Rightarrow> ('w, unit) pprog" where
  "send_bare E op rid = bnd (of_sum (pack_request op 0 rid 0)) (\<lambda>h.
     seq (arm E) (with_sock (\<lambda>k. bnd (gets fst) (\<lambda>p.
     seq (io (n_send E k (armed p) h))
     (upd (\<lambda>p. p\<lparr>pending := Some rid\<rparr>))))))"

subsection \<open>Reading an answer\<close>

definition check_header :: "nat list \<Rightarrow> ('w, nat) pprog" where
  "check_header fs = (case fs of
     [magic, rid, status, n] \<Rightarrow>
       if magic \<noteq> MAGIC_RESP then raise (Exn RuntimeError (BadMagic magic))
       else bnd (gets (\<lambda>s. pending (fst s))) (\<lambda>pd.
         if Some rid \<noteq> pd then raise (Exn RuntimeError (OutOfSync rid pd))
         else seq (upd (\<lambda>p. p\<lparr>pending := None\<rparr>))
           (if status \<noteq> 0
            then raise (Exn (if status = 5 then ConnectionError else RuntimeError) (BadStatus status))
            else ret n))
   | _ \<Rightarrow> raise (Exn StructError FieldRange))"

definition read_header :: "'w net \<Rightarrow> ('w, nat) pprog" where
  "read_header E = bnd (recv_exact E HEADER []) (\<lambda>bs.
     bnd (of_sum (struct_unpack RESP_FMT bs)) check_header)"

definition begin_rows :: "'w net \<Rightarrow> nat \<Rightarrow> ('w, unit) pprog" where
  "begin_rows E n = bnd (read_header E) (\<lambda>got.
     if got \<noteq> n then raise (Exn RuntimeError (WrongCount got n))
     else upd (\<lambda>p. p\<lparr>rd_want := n * row_bytes p, rd_got := 0\<rparr>))"

definition store_body :: "byte list \<Rightarrow> peer \<Rightarrow> peer" where
  "store_body bs p = p\<lparr>
     rows := take (rd_got p) (rows p) @ bs @ drop (rd_got p + length bs) (rows p),
     rd_got := rd_got p + length bs\<rparr>"

definition pump_rows :: "'w net \<Rightarrow> ('w, bool) pprog" where
  "pump_rows E = bnd (gets fst) (\<lambda>p.
     bnd (recv E (length (take (rd_want p) (rows p)) - rd_got p) (rd_want p - rd_got p)) (\<lambda>bs.
     if bs = [] then raise (Exn ConnectionError (ConnectionClosed (rd_got p) (rd_want p)))
     else seq (upd (store_body bs))
       (seq (upd (\<lambda>p. p\<lparr>answered := rd_want p \<le> rd_got p\<rparr>))
       (gets (\<lambda>s. answered (fst s))))))"

subsection \<open>What the operations leave alone\<close>

text \<open>
  \<open>same_but_armed\<close>: nothing but the cached timeout moved.  A receive never does more to the
  peer itself, which is what makes the receive loops terminate and the frame lemmas short.
\<close>

definition same_but_armed :: "peer \<Rightarrow> peer \<Rightarrow> bool" where
  "same_but_armed p q \<longleftrightarrow> (\<exists>b. q = p\<lparr>armed := b\<rparr>)"

lemma same_but_armed_refl [simp, intro]: "same_but_armed p p"
  unfolding same_but_armed_def by (rule exI [of _ "armed p"]) simp

lemma same_but_armed_trans:
  "same_but_armed p q \<Longrightarrow> same_but_armed q r \<Longrightarrow> same_but_armed p r"
  by (auto simp: same_but_armed_def)

lemma same_but_armed_upd [simp, intro]: "same_but_armed p (p\<lparr>armed := b\<rparr>)"
  by (auto simp: same_but_armed_def)

lemma same_but_armed_sel:
  assumes "same_but_armed p q"
  shows "sock q = sock p" "rd_want q = rd_want p" "rd_got q = rd_got p" "rows q = rows p"
    "row_bytes q = row_bytes p" "pending q = pending p" "answered q = answered p"
    "base_row q = base_row p" "row_count q = row_count p" "cap q = cap p"
    "req_ids q = req_ids p" "deadline q = deadline p" "timeout q = timeout p"
  using assms by (auto simp: same_but_armed_def)

lemma same_but_armed_step:
  assumes "same_but_armed p q"
  shows "same_but_armed (p\<lparr>pending := x\<rparr>) (q\<lparr>pending := x\<rparr>)"
    and "same_but_armed (p\<lparr>rd_want := a, rd_got := b\<rparr>) (q\<lparr>rd_want := a, rd_got := b\<rparr>)"
    and "same_but_armed (store_body bs p) (store_body bs q)"
    and "same_but_armed (p\<lparr>answered := c\<rparr>) (q\<lparr>answered := c\<rparr>)"
  using assms by (cases p; auto simp: same_but_armed_def store_body_def)+

lemma io_fst: "io f s = (r, s') \<Longrightarrow> fst s' = fst s"
  by (auto simp: io_def split: prod.splits)

lemma now_fst: "now E s = (r, s') \<Longrightarrow> fst s' = fst s"
  by (auto simp: now_def dest: io_fst)

lemma arm_frame: "arm E s = (r, s') \<Longrightarrow> same_but_armed (fst s) (fst s')"
  by (auto simp: arm_def with_sock_def upd_def prog_defs prog_simps Let_def
      dest!: now_fst split: option.splits prod.splits sum.splits if_splits)

lemma recv_frame:
  assumes "recv E a n s = (r, s')"
  shows "same_but_armed (fst s) (fst s')"
    and "r = Inr bs \<Longrightarrow> length bs \<le> n \<and> n \<le> a"
proof -
  obtain ra s1 where 1: "arm E s = (ra, s1)"
    by (cases "arm E s")
  have "same_but_armed (fst s) (fst s1)"
    using 1 by (rule arm_frame)
  moreover have "fst s' = fst s1"
    using assms 1
    by (auto simp: recv_def with_sock_def prog_defs prog_simps
        dest!: io_fst split: option.splits prod.splits sum.splits if_splits)
  ultimately show "same_but_armed (fst s) (fst s')" by simp
  show "r = Inr bs \<Longrightarrow> length bs \<le> n \<and> n \<le> a"
    using assms 1
    by (auto simp: recv_def with_sock_def prog_defs prog_simps
        split: option.splits prod.splits sum.splits if_splits)
qed

text \<open>A pump either raises or gets strictly closer to the end of the body, never past it.\<close>

lemma pump_rows_progress:
  assumes "pump_rows E s = (Inr b, s')"
  shows "rd_want (fst s') = rd_want (fst s)" and "rd_got (fst s) < rd_got (fst s')"
    and "rd_got (fst s') \<le> rd_want (fst s)" and "b \<longleftrightarrow> rd_got (fst s') = rd_want (fst s)"
proof -
  let ?a = "length (take (rd_want (fst s)) (rows (fst s))) - rd_got (fst s)"
  obtain bs s1 where 1: "recv E ?a (rd_want (fst s) - rd_got (fst s)) s = (Inr bs, s1)"
    and 2: "bs \<noteq> []"
    and 3: "fst s' = store_body bs (fst s1)\<lparr>answered := rd_want (fst s1) \<le> rd_got (fst s1) + length bs\<rparr>"
    and 4: "b = answered (fst s')"
    using assms
    by (auto simp: pump_rows_def raise_run elim!: bnd_InrE split: if_splits)
      (auto simp: store_body_def)
  note sel = same_but_armed_sel [OF recv_frame(1) [OF 1]]
  have "length bs \<le> rd_want (fst s) - rd_got (fst s)"
    using recv_frame(2) [OF 1] by simp
  moreover obtain c cs where "bs = c # cs"
    using 2 by (cases bs) auto
  ultimately show "rd_want (fst s') = rd_want (fst s)" "rd_got (fst s) < rd_got (fst s')"
    "rd_got (fst s') \<le> rd_want (fst s)" "b \<longleftrightarrow> rd_got (fst s') = rd_want (fst s)"
    using 3 4 sel by (auto simp: store_body_def)
qed

lemma pump_rows_less:
  "(Inr b, s') = pump_rows E s \<Longrightarrow>
    rd_want (fst s') - rd_got (fst s') < rd_want (fst s) - rd_got (fst s)"
  using pump_rows_progress [of E s b s'] by auto

function finish_rows :: "'w net \<Rightarrow> ('w, unit) pprog" where
  "finish_rows E s =
     (if rd_got (fst s) < rd_want (fst s) then
        (case pump_rows E s of (Inl e, s') \<Rightarrow> (Inl e, s') | (Inr b, s') \<Rightarrow> finish_rows E s')
      else (Inr (), s))"
  by pat_completeness auto
termination
  by (relation "measure (\<lambda>(E, s). rd_want (fst s) - rd_got (fst s))")
    (auto dest!: pump_rows_less)

declare finish_rows.simps [simp del]

text \<open>Row \<open>j\<close> of the response buffer, and the rows a gather hands back.\<close>

definition row_at :: "peer \<Rightarrow> nat \<Rightarrow> byte list" where
  "row_at p j = take (row_bytes p) (drop (j * row_bytes p) (rows p))"

definition rows_upto :: "peer \<Rightarrow> nat \<Rightarrow> byte list list" where
  "rows_upto p n = map (row_at p) [0..<n]"

definition read_rows :: "'w net \<Rightarrow> nat \<Rightarrow> ('w, byte list list) pprog" where
  "read_rows E n = seq (begin_rows E n) (seq (finish_rows E) (gets (\<lambda>s. rows_upto (fst s) n)))"

definition read_ack :: "'w net \<Rightarrow> ('w, unit) pprog" where
  "read_ack E = bnd (read_header E) (\<lambda>n.
     if n \<noteq> 0 then raise (Exn RuntimeError CarriedRowData) else ret ())"

definition stat_of_fields :: "nat list \<Rightarrow> exn + stat" where
  "stat_of_fields fs = (case fs of
     [b, n, w, res, served] \<Rightarrow> Inr \<lparr>st_base_row = b, st_row_count = n, st_row_bytes = w,
       st_resident_pages = res, st_served_requests = served\<rparr>
   | _ \<Rightarrow> Inl (Exn StructError FieldRange))"

definition query_stat :: "'w net \<Rightarrow> nat \<Rightarrow> ('w, stat) pprog" where
  "query_stat E rid = seq (send_bare E OP_STAT rid) (bnd (read_header E) (\<lambda>n.
     if n \<noteq> 0 then raise (Exn RuntimeError CarriedRowData)
     else bnd (recv_exact E STAT_BODY []) (\<lambda>body.
       bnd (of_sum (struct_unpack STAT_FMT body)) (\<lambda>fs. of_sum (stat_of_fields fs)))))"

end
