(* ===== verification/Peer_Sync.thy ===== *)
theory Peer_Sync
  imports Peer
begin

section \<open>One peer over an honest network\<close>

text \<open>
  Framing, proved once for any network that keeps \<open>honest_net\<close>.  Each lemma follows one method
  from a state where the connection is at a known point of its byte stream: what a normal return
  leaves unread, and that a raise disturbs nothing but this connection.
\<close>

text \<open>What no method of a peer changes short of a reconnect.\<close>

definition same_conn :: "peer \<Rightarrow> peer \<Rightarrow> bool" where
  "same_conn p q \<longleftrightarrow> sock q = sock p \<and> base_row q = base_row p \<and> row_count q = row_count p \<and>
     row_bytes q = row_bytes p \<and> cap q = cap p \<and> req_ids q = req_ids p \<and>
     length (rows q) = length (rows p)"

definition same_link :: "peer \<Rightarrow> peer \<Rightarrow> bool" where
  "same_link p q \<longleftrightarrow> same_conn p q \<and> answered q = answered p"

lemma same_conn_refl [simp, intro]: "same_conn p p"
  by (simp add: same_conn_def)

lemma same_conn_trans: "same_conn p q \<Longrightarrow> same_conn q r \<Longrightarrow> same_conn p r"
  by (auto simp: same_conn_def)

lemma same_link_refl [simp, intro]: "same_link p p"
  by (simp add: same_link_def)

lemma same_link_trans: "same_link p q \<Longrightarrow> same_link q r \<Longrightarrow> same_link p r"
  by (auto simp: same_link_def intro: same_conn_trans)

lemma same_link_conn: "same_link p q \<Longrightarrow> same_conn p q"
  by (simp add: same_link_def)

lemma same_link_armed [intro]: "same_but_armed p q \<Longrightarrow> same_link p q"
  by (auto simp: same_but_armed_def same_link_def same_conn_def)

definition err_ok :: "(exn + 'a) \<Rightarrow> bool" where
  "err_ok r \<longleftrightarrow> (case r of Inl e \<Rightarrow> is_exception e | Inr _ \<Rightarrow> True)"

lemma err_ok_simps [simp]: "err_ok (Inr x)" "err_ok (Inl e) \<longleftrightarrow> is_exception e"
  by (simp_all add: err_ok_def)

text \<open>
  \<open>on_link V k s\<close>: the peer of \<open>s\<close> holds the live socket \<open>k\<close>.  \<open>moved V k s s'\<close>: from \<open>s\<close> to
  \<open>s'\<close> only this connection and this peer's read state changed.
\<close>

definition on_link :: "('w, 's) view \<Rightarrow> nat \<Rightarrow> peer \<times> 'w \<Rightarrow> bool" where
  "on_link V k s \<longleftrightarrow> v_wf V (snd s) \<and> sock (fst s) = Some k \<and> k \<in> v_used V (snd s)"

definition moved :: "('w, 's) view \<Rightarrow> nat \<Rightarrow> peer \<times> 'w \<Rightarrow> peer \<times> 'w \<Rightarrow> bool" where
  "moved V k s s' \<longleftrightarrow> same_link (fst s) (fst s') \<and> keeps V {k} (snd s) (snd s')"

definition pumped :: "('w, 's) view \<Rightarrow> nat \<Rightarrow> peer \<times> 'w \<Rightarrow> peer \<times> 'w \<Rightarrow> bool" where
  "pumped V k s s' \<longleftrightarrow> same_conn (fst s) (fst s') \<and> keeps V {k} (snd s) (snd s')"

lemma moved_pumped: "moved V k s t \<Longrightarrow> pumped V k s t"
  by (simp add: moved_def pumped_def same_link_conn)

lemma pumped_trans: "pumped V k s t \<Longrightarrow> pumped V k t u \<Longrightarrow> pumped V k s u"
  by (auto simp: pumped_def intro: same_conn_trans keeps_trans)

lemma on_link_pumped: "on_link V k s \<Longrightarrow> pumped V k s t \<Longrightarrow> on_link V k t"
  by (auto simp: on_link_def pumped_def same_conn_def dest: keeps_wf keeps_used)

lemma moved_refl [intro]: "on_link V k s \<Longrightarrow> moved V k s s"
  by (simp add: moved_def on_link_def)

lemma moved_trans: "moved V k s t \<Longrightarrow> moved V k t u \<Longrightarrow> moved V k s u"
  by (auto simp: moved_def intro: same_link_trans keeps_trans)

lemma on_link_moved: "on_link V k s \<Longrightarrow> moved V k s t \<Longrightarrow> on_link V k t"
  by (blast intro: on_link_pumped moved_pumped)

lemma moved_srv: "on_link V k s \<Longrightarrow> moved V k s t \<Longrightarrow> v_srv V (snd t) k = v_srv V (snd s) k"
  by (auto simp: on_link_def moved_def dest: keeps_srv)

lemma moved_armed:
  "same_but_armed (fst s) (fst t) \<Longrightarrow> keeps V {k} (snd s) (snd t) \<Longrightarrow> moved V k s t"
  by (auto simp: moved_def)

lemma moved_upd:
  "on_link V k s \<Longrightarrow> same_link (fst s) p \<Longrightarrow> moved V k s (p, snd s)"
  by (auto simp: moved_def on_link_def)

lemma bnd_moved:
  assumes "bnd m f s = (r, s')" and "on_link V k s"
    and "\<And>x t. m s = (x, t) \<Longrightarrow> moved V k s t \<and> err_ok x"
    and "\<And>x t. m s = (Inr x, t) \<Longrightarrow> on_link V k t \<Longrightarrow> f x t = (r, s') \<Longrightarrow> moved V k t s' \<and> err_ok r"
  shows "moved V k s s' \<and> err_ok r"
proof -
  obtain x t where m: "m s = (x, t)"
    by (cases "m s")
  show ?thesis
  proof (cases x)
    case (Inl e)
    then show ?thesis
      using assms(1) assms(3) [OF m] m by (auto simp: bnd_def)
  next
    case (Inr y)
    have "on_link V k t"
      using assms(2) assms(3) [OF m] by (auto intro: on_link_moved)
    moreover have "f y t = (r, s')"
      using assms(1) m Inr by (simp add: bnd_def)
    ultimately have "moved V k t s' \<and> err_ok r"
      using assms(4) m Inr by blast
    then show ?thesis
      using assms(3) [OF m] moved_trans by blast
  qed
qed

context honest_net begin

lemma now_step:
  assumes "now E s = (r, s')" and "v_wf V (snd s)"
  shows "fst s' = fst s" "keeps V {} (snd s) (snd s')" "\<exists>t. r = Inr t"
  using assms now_keeps
  by (auto simp: now_def io_def split: prod.splits)

lemma arm_step:
  assumes "arm E s = (r, s')" and "v_wf V (snd s)"
  shows "same_but_armed (fst s) (fst s')" "keeps V {} (snd s) (snd s')" "err_ok r"
proof -
  show "same_but_armed (fst s) (fst s')"
    using assms(1) by (rule arm_frame)
  have "keeps V {} (snd s) (snd s') \<and> err_ok r"
  proof (cases "deadline (fst s)")
    case None
    then show ?thesis
      using assms
      by (auto simp: arm_def with_sock_def upd_def raise_run ret_run
          split: if_splits option.splits)
  next
    case (Some d)
    obtain t s1 where 1: "now E s = (Inr t, s1)"
      using now_step(3) [OF _ assms(2)] by (cases "now E s") fastforce
    note n = now_step [OF 1 assms(2)]
    have "snd s' = snd s1 \<and> err_ok r"
      using assms(1) Some
      by (auto simp: arm_def bnd_assoc bnd_Inr [of "now E" s, OF 1] with_sock_def upd_def raise_run ret_run
          split: if_splits option.splits)
    then show ?thesis using n by simp
  qed
  then show "keeps V {} (snd s) (snd s')" "err_ok r" by auto
qed

lemma recv_step:
  assumes "recv E a n s = (r, s')" and "v_wf V (snd s)"
    and "sock (fst s) = Some k" and "k \<in> v_used V (snd s)"
  shows "same_but_armed (fst s) (fst s')" "keeps V {k} (snd s) (snd s')" "err_ok r"
    and "r = Inr bs \<Longrightarrow> v_out V (snd s) k = bs @ v_out V (snd s') k \<and> length bs \<le> n"
proof -
  show "same_but_armed (fst s) (fst s')"
    using assms(1) by (rule recv_frame)
  obtain ra s1 where 1: "arm E s = (ra, s1)"
    by (cases "arm E s")
  note a = arm_step [OF 1 assms(2)]
  have s1: "sock (fst s1) = Some k" "v_wf V (snd s1)" "k \<in> v_used V (snd s1)"
    "v_out V (snd s1) k = v_out V (snd s) k"
    using assms keeps_wf [OF a(2)] keeps_used [OF a(2)] keeps_out [OF a(2)]
    by (auto simp: same_but_armed_sel(1) [OF a(1)])
  obtain rb w2 where 2: "n_recv E k (armed (fst s1)) n (snd s1) = (rb, w2)"
    by (cases "n_recv E k (armed (fst s1)) n (snd s1)")
  have k2: "keeps V {k} (snd s1) w2"
    by (rule recv_keeps [OF s1(2) 2])
  have k1: "keeps V {k} (snd s) (snd s1)"
    using a(2) by (rule keeps_mono) simp
  consider "snd s' = snd s1" "\<exists>e. r = Inl e \<and> is_exception e"
    | e where "snd s' = w2" "rb = Inl e" "\<exists>e. r = Inl e \<and> is_exception e"
    | cs where "snd s' = w2" "rb = Inr cs" "r = Inr (take n cs)"
    using assms(1) 1 2 s1(1) a(3) net_errors(4)
    by (auto simp: recv_def with_sock_def io_def handle_def seq_def bnd_def raise_run ret_run
        os_error_is_exception split: prod.splits sum.splits if_splits)
  note outcome = this
  show "keeps V {k} (snd s) (snd s')"
    using outcome k1 keeps_trans [OF k1 k2] by cases auto
  show "err_ok r"
    using outcome by cases auto
  assume r: "r = Inr bs"
  show "v_out V (snd s) k = bs @ v_out V (snd s') k \<and> length bs \<le> n"
    using outcome
  proof cases
    case (3 cs)
    have "v_out V (snd s1) k = cs @ v_out V w2 k \<and> length cs \<le> n"
      using recv_ok [OF s1(2,3)] 2 3(2) by blast
    then show ?thesis
      using 3 r s1(4) by auto
  qed (use r in auto)
qed

lemma recv_exact_step:
  assumes "recv_exact E n got s = (r, s')" and "v_wf V (snd s)"
    and "sock (fst s) = Some k" and "k \<in> v_used V (snd s)"
  shows "same_but_armed (fst s) (fst s') \<and> keeps V {k} (snd s) (snd s') \<and> err_ok r \<and>
    (\<forall>bs. r = Inr bs \<longrightarrow> length got \<le> n \<longrightarrow> length bs = n \<and>
       (\<exists>cs. bs = got @ cs \<and> v_out V (snd s) k = cs @ v_out V (snd s') k))"
  using assms
proof (induction "n - length got" arbitrary: got s rule: less_induct)
  case less
  note run = less.prems(1) [unfolded recv_exact.simps [of E n got s]]
  show ?case
  proof (cases "length got < n")
    case False
    then show ?thesis
      using run less.prems by auto
  next
    case True
    obtain ra s1 where 1: "recv E (n - length got) (n - length got) s = (ra, s1)"
      by (cases "recv E (n - length got) (n - length got) s")
    note f = recv_step [OF 1 less.prems(2,3,4)]
    show ?thesis
    proof (cases ra)
      case (Inl e)
      then show ?thesis
        using run 1 True f by auto
    next
      case (Inr bs)
      note o = f(4) [OF Inr]
      show ?thesis
      proof (cases "bs = []")
        case True
        then show ?thesis
          using run 1 Inr f \<open>length got < n\<close> by auto
      next
        case False
        then have rest: "recv_exact E n (got @ bs) s1 = (r, s')"
          using run 1 Inr \<open>length got < n\<close> by auto
        have "same_but_armed (fst s1) (fst s') \<and> keeps V {k} (snd s1) (snd s') \<and> err_ok r \<and>
          (\<forall>cs. r = Inr cs \<longrightarrow> length (got @ bs) \<le> n \<longrightarrow> length cs = n \<and>
            (\<exists>ds. cs = (got @ bs) @ ds \<and> v_out V (snd s1) k = ds @ v_out V (snd s') k))"
          using False \<open>length got < n\<close> rest less.prems(3,4)
            keeps_wf [OF f(2)] keeps_used [OF f(2)] same_but_armed_sel(1) [OF f(1)]
          by (intro less.hyps) (auto simp: length_greater_0_conv [symmetric]
              simp del: length_greater_0_conv)
        moreover have "length (got @ bs) \<le> n"
          using o \<open>length got < n\<close> by auto
        ultimately show ?thesis
          using o same_but_armed_trans [OF f(1)] keeps_trans [OF f(2)] by auto
      qed
    qed
  qed
qed


lemma recv_exact_moved:
  assumes "recv_exact E n [] s = (r, s')" and "on_link V k s"
  shows "moved V k s s' \<and> err_ok r" and "same_but_armed (fst s) (fst s')"
    and "r = Inr bs \<Longrightarrow> length bs = n \<and> v_out V (snd s) k = bs @ v_out V (snd s') k"
  using recv_exact_step [OF assms(1), of k] assms(2)
  by (auto simp: on_link_def moved_def)

lemma check_header_moved:
  assumes "check_header fs s = (r, s')" and "on_link V k s"
  shows "moved V k s s' \<and> err_ok r"
proof (cases s)
  case (Pair p w)
  have "moved V k s (p\<lparr>pending := None\<rparr>, w)" "moved V k s s"
    using assms(2) Pair by (auto simp: moved_def on_link_def same_link_def same_conn_def)
  then show ?thesis
    using assms(1) Pair
    by (auto simp: check_header_def raise_run ret_run split: list.splits if_splits)
qed

lemma read_header_moved:
  assumes "read_header E s = (r, s')" and "on_link V k s"
  shows "moved V k s s' \<and> err_ok r"
  using assms(1) [unfolded read_header_def] assms(2)
  by (rule bnd_moved)
    (use assms(2) recv_exact_moved(1) check_header_moved in
      \<open>auto simp: of_sum_def struct_unpack_def raise_run intro: moved_refl split: if_splits\<close>)

text \<open>
  A header is accepted only if it is the answer to the request that is pending and reports
  success; then exactly its 16 bytes were consumed and nothing is pending any more.
\<close>

lemma check_header_Inr:
  assumes "check_header fs s = (Inr n, s')"
  shows "\<exists>rid. fs = [MAGIC_RESP, rid, 0, n] \<and> pending (fst s) = Some rid \<and>
    s' = ((fst s)\<lparr>pending := None\<rparr>, snd s)"
  using assms
  by (cases s) (auto simp: check_header_def raise_run ret_run split: list.splits if_splits)

lemma read_header_ok:
  assumes "read_header E s = (Inr m, s')" and "on_link V k s"
    and "v_out V (snd s) k = g @ X" and "pack_response rid st n = Inr g"
  shows "st = 0" "m = n" "pending (fst s) = Some rid" "v_out V (snd s') k = X"
    and "same_but_armed ((fst s)\<lparr>pending := None\<rparr>) (fst s')"
proof -
  obtain bs s1 where 1: "recv_exact E 16 [] s = (Inr bs, s1)"
    and 2: "bnd (of_sum (struct_unpack RESP_FMT bs)) check_header s1 = (Inr m, s')"
    using assms(1) by (auto simp: read_header_def HEADER_def elim: bnd_InrE)
  note x = recv_exact_moved [OF 1 assms(2)]
  note g = pack_response_Inr [OF assms(4)]
  have bs: "bs = g" "v_out V (snd s1) k = X"
    using x(3) [of bs] assms(3) g(1) by auto
  have "check_header (struct_fields RESP_FMT (g @ [])) s1 = (Inr m, s')"
    using 2 bs(1) g(1) by (simp add: struct_unpack_def of_sum_def)
  then have "[MAGIC_RESP, rid, st, n] = [MAGIC_RESP, rid, 0, m] \<and> pending (fst s1) = Some rid \<and>
      s' = ((fst s1)\<lparr>pending := None\<rparr>, snd s1)"
    unfolding g(2) by (auto dest!: check_header_Inr)
  then show "st = 0" "m = n" "pending (fst s) = Some rid" "v_out V (snd s') k = X"
    "same_but_armed ((fst s)\<lparr>pending := None\<rparr>) (fst s')"
    using bs(2) same_but_armed_step(1) [OF x(2)] same_but_armed_sel(6) [OF x(2)] by auto
qed

lemma read_header_refused:
  assumes "read_header E s = (Inr m, s')" and "on_link V k s"
    and "v_out V (snd s) k = out" and "refusal rid out"
  shows False
proof -
  obtain st where "st \<noteq> 0" "pack_response rid st 0 = Inr out"
    using assms(4) by (auto simp: refusal_def)
  then show False
    using read_header_ok(1) [OF assms(1,2), of out "[]" rid st 0] assms(3) by simp
qed

subsection \<open>Sending\<close>

lemma send_moved:
  assumes "seq (arm E) (with_sock (\<lambda>k. bnd (gets fst) (\<lambda>p.
     seq (io (n_send E k (armed p) (msg p))) (upd (\<lambda>p. p\<lparr>pending := Some rid\<rparr>))))) s = (r, s')"
    and "on_link V k s" and "\<And>p q. same_but_armed p q \<Longrightarrow> msg q = msg p"
  shows "moved V k s s' \<and> err_ok r"
    and "r = Inr () \<Longrightarrow> same_but_armed ((fst s)\<lparr>pending := Some rid\<rparr>) (fst s')"
    and "r = Inr () \<Longrightarrow> v_out V (snd s) k = [] \<Longrightarrow>
      reply (v_srv V (snd s) k) (msg (fst s)) (v_out V (snd s') k)"
proof -
  obtain ra s1 where 1: "arm E s = (ra, s1)"
    by (cases "arm E s")
  have wf: "v_wf V (snd s)"
    using assms(2) by (simp add: on_link_def)
  note a = arm_step [OF 1 wf]
  have m1: "moved V k s s1"
    using a(1) keeps_mono [OF a(2), of "{k}"] by (simp add: moved_armed)
  then have l1: "on_link V k s1"
    using assms(2) by (rule on_link_moved [rotated])
  obtain rb w2 where 2: "n_send E k (armed (fst s1)) (msg (fst s1)) (snd s1) = (rb, w2)"
    by (cases "n_send E k (armed (fst s1)) (msg (fst s1)) (snd s1)")
  have k2: "keeps V {k} (snd s1) w2"
    using send_keeps [OF _ 2] l1 by (simp add: on_link_def)
  have run: "(\<exists>e. ra = Inl e \<and> r = Inl e \<and> s' = s1) \<or>
     (\<exists>e. rb = Inl e \<and> r = Inl e \<and> s' = (fst s1, w2)) \<or>
     (ra = Inr () \<and> rb = Inr () \<and> r = Inr () \<and> s' = ((fst s1)\<lparr>pending := Some rid\<rparr>, w2))"
    using assms(1) 1 2 l1
    by (auto simp: seq_def bnd_def with_sock_def io_def upd_def on_link_def
        split: prod.splits sum.splits)
  have "moved V k s1 (fst s1, w2)" "moved V k s1 ((fst s1)\<lparr>pending := Some rid\<rparr>, w2)"
    using k2 by (auto simp: moved_def same_link_def same_conn_def)
  moreover have "err_ok rb"
    using net_errors(3) 2 by (cases rb) (auto intro: os_error_is_exception)
  ultimately show "moved V k s s' \<and> err_ok r"
    using run m1 a(3) by (auto intro: moved_trans)
  show "r = Inr () \<Longrightarrow> same_but_armed ((fst s)\<lparr>pending := Some rid\<rparr>) (fst s')"
    using run same_but_armed_step(1) [OF a(1)] by auto
  assume r: "r = Inr ()" and out: "v_out V (snd s) k = []"
  have "v_out V (snd s1) k = []" "v_srv V (snd s1) k = v_srv V (snd s) k"
    using out keeps_out [OF a(2)] keeps_srv [OF a(2)] assms(2) by (auto simp: on_link_def)
  then have "reply (v_srv V (snd s) k) (msg (fst s1)) (v_out V w2 k)"
    using send_ok [of "snd s1" k] 2 run r l1 by (auto simp: on_link_def)
  then show "reply (v_srv V (snd s) k) (msg (fst s)) (v_out V (snd s') k)"
    using run r assms(3) [OF a(1)] by auto
qed

lemma send_gather_moved:
  assumes "send_gather E rid n s = (r, s')" and "on_link V k s"
  shows "moved V k s s' \<and> err_ok r"
    and "r = Inr () \<Longrightarrow> same_but_armed ((fst s)\<lparr>pending := Some rid\<rparr>) (fst s')"
    and "r = Inr () \<Longrightarrow> v_out V (snd s) k = [] \<Longrightarrow> \<exists>h. pack_request OP_GATHER 0 rid n = Inr h \<and>
      reply (v_srv V (snd s) k) (h @ id_bytes (take n (req_ids (fst s)))) (v_out V (snd s') k)"
proof -
  have "moved V k s s' \<and> err_ok r \<and>
    (r = Inr () \<longrightarrow> same_but_armed ((fst s)\<lparr>pending := Some rid\<rparr>) (fst s')) \<and>
    (r = Inr () \<longrightarrow> v_out V (snd s) k = [] \<longrightarrow> (\<exists>h. pack_request OP_GATHER 0 rid n = Inr h \<and>
      reply (v_srv V (snd s) k) (h @ id_bytes (take n (req_ids (fst s)))) (v_out V (snd s') k)))"
  proof (cases "pack_request OP_GATHER 0 rid n")
    case (Inl e)
    then have "exn_kind e = StructError"
      by (auto simp: pack_request_def REQ_FMT_def split: if_splits sum.splits)
    then show ?thesis
      using assms Inl by (cases e) (auto simp: send_gather_def of_sum_def raise_run)
  next
    case (Inr h)
    have run: "seq (arm E) (with_sock (\<lambda>k. bnd (gets fst) (\<lambda>p.
        seq (io (n_send E k (armed p) (h @ id_bytes (take n (req_ids p)))))
        (upd (\<lambda>p. p\<lparr>pending := Some rid\<rparr>))))) s = (r, s')"
      using assms(1) Inr by (simp add: send_gather_def of_sum_def)
    show ?thesis
      using send_moved [OF run assms(2)] Inr by (auto simp: same_but_armed_sel)
  qed
  then show "moved V k s s' \<and> err_ok r"
    "r = Inr () \<Longrightarrow> same_but_armed ((fst s)\<lparr>pending := Some rid\<rparr>) (fst s')"
    "r = Inr () \<Longrightarrow> v_out V (snd s) k = [] \<Longrightarrow> \<exists>h. pack_request OP_GATHER 0 rid n = Inr h \<and>
      reply (v_srv V (snd s) k) (h @ id_bytes (take n (req_ids (fst s)))) (v_out V (snd s') k)"
    by auto
qed

lemma send_bare_moved:
  assumes "send_bare E op rid s = (r, s')" and "on_link V k s" and "op < 256"
  shows "moved V k s s' \<and> err_ok r"
    and "r = Inr () \<Longrightarrow> same_but_armed ((fst s)\<lparr>pending := Some rid\<rparr>) (fst s')"
    and "r = Inr () \<Longrightarrow> v_out V (snd s) k = [] \<Longrightarrow> \<exists>h. pack_request op 0 rid 0 = Inr h \<and>
      reply (v_srv V (snd s) k) h (v_out V (snd s') k)"
proof -
  have "moved V k s s' \<and> err_ok r \<and>
    (r = Inr () \<longrightarrow> same_but_armed ((fst s)\<lparr>pending := Some rid\<rparr>) (fst s')) \<and>
    (r = Inr () \<longrightarrow> v_out V (snd s) k = [] \<longrightarrow> (\<exists>h. pack_request op 0 rid 0 = Inr h \<and>
      reply (v_srv V (snd s) k) h (v_out V (snd s') k)))"
  proof (cases "pack_request op 0 rid 0")
    case (Inl e)
    then have "exn_kind e = StructError"
      by (auto simp: pack_request_def REQ_FMT_def split: if_splits sum.splits)
    then show ?thesis
      using assms Inl by (cases e) (auto simp: send_bare_def of_sum_def raise_run)
  next
    case (Inr h)
    have run: "seq (arm E) (with_sock (\<lambda>k. bnd (gets fst) (\<lambda>p.
        seq (io (n_send E k (armed p) h))
        (upd (\<lambda>p. p\<lparr>pending := Some rid\<rparr>))))) s = (r, s')"
      using assms(1) Inr by (simp add: send_bare_def of_sum_def)
    show ?thesis
      using send_moved [OF run assms(2)] Inr by auto
  qed
  then show "moved V k s s' \<and> err_ok r"
    "r = Inr () \<Longrightarrow> same_but_armed ((fst s)\<lparr>pending := Some rid\<rparr>) (fst s')"
    "r = Inr () \<Longrightarrow> v_out V (snd s) k = [] \<Longrightarrow> \<exists>h. pack_request op 0 rid 0 = Inr h \<and>
      reply (v_srv V (snd s) k) h (v_out V (snd s') k)"
    by auto
qed

subsection \<open>The body of a gather\<close>

lemma begin_rows_moved:
  assumes "begin_rows E n s = (r, s')" and "on_link V k s"
  shows "moved V k s s' \<and> err_ok r"
  using assms(1) [unfolded begin_rows_def] assms(2)
proof (rule bnd_moved)
  fix x t assume "read_header E s = (x, t)"
  then show "moved V k s t \<and> err_ok x"
    using assms(2) by (rule read_header_moved)
next
  fix x t
  assume "on_link V k t"
    and "(if x \<noteq> n then raise (Exn RuntimeError (WrongCount x n))
      else upd (\<lambda>p. p\<lparr>rd_want := n * row_bytes p, rd_got := 0\<rparr>)) t = (r, s')"
  then show "moved V k t s' \<and> err_ok r"
    by (cases t) (auto simp: raise_run upd_def same_link_def same_conn_def moved_def on_link_def
        split: if_splits)
qed

end

text \<open>
  Part way through a body \<open>B\<close>: what has been stored and what the connection still holds are
  together exactly \<open>B\<close>.
\<close>

definition reading :: "('w, 's) view \<Rightarrow> nat \<Rightarrow> byte list \<Rightarrow> peer \<times> 'w \<Rightarrow> bool" where
  "reading V k B s \<longleftrightarrow> rd_want (fst s) = length B \<and> rd_got (fst s) \<le> length B \<and>
     length B \<le> length (rows (fst s)) \<and> take (rd_got (fst s)) (rows (fst s)) @ v_out V (snd s) k = B"

lemma reading_done:
  assumes "reading V k B s" and "rd_got (fst s) = rd_want (fst s)"
  shows "take (length B) (rows (fst s)) = B" and "v_out V (snd s) k = []"
  using assms by (auto simp: reading_def dest: arg_cong [of _ _ length])

context honest_net begin

lemma begin_rows_ok:
  assumes "begin_rows E n s = (Inr (), s')" and "on_link V k s"
    and "v_out V (snd s) k = g @ B" and "pack_response rid st m = Inr g"
    and "length B = n * row_bytes (fst s)" and "length B \<le> length (rows (fst s))"
  shows "m = n" and "reading V k B s'" and "pending (fst s) = Some rid"
proof -
  obtain j s1 where 1: "read_header E s = (Inr j, s1)" "j = n"
    and 2: "s' = ((fst s1)\<lparr>rd_want := n * row_bytes (fst s1), rd_got := 0\<rparr>, snd s1)"
    using assms(1) by (auto simp: begin_rows_def raise_run upd_def elim!: bnd_InrE split: if_splits)
  note h = read_header_ok [OF 1(1) assms(2,3,4)]
  show "m = n" "pending (fst s) = Some rid"
    using h(2,3) 1(2) by simp_all
  show "reading V k B s'"
    using h(4) 2 assms(5,6) same_but_armed_sel(4,5) [OF h(5)] by (simp add: reading_def)
qed

lemma pump_rows_step:
  assumes "pump_rows E s = (r, s')" and "on_link V k s"
  shows "pumped V k s s' \<and> err_ok r"
    and "r = Inl e \<Longrightarrow> answered (fst s') = answered (fst s)"
    and "r = Inr b \<Longrightarrow> answered (fst s') = b"
    and "r = Inr b \<Longrightarrow> reading V k B s \<Longrightarrow> reading V k B s'"
proof -
  let ?p = "fst s"
  let ?a = "length (take (rd_want ?p) (rows ?p)) - rd_got ?p"
  obtain ra s1 where 1: "recv E ?a (rd_want ?p - rd_got ?p) s = (ra, s1)"
    by (cases "recv E ?a (rd_want ?p - rd_got ?p) s")
  have l: "v_wf V (snd s)" "sock ?p = Some k" "k \<in> v_used V (snd s)"
    using assms(2) by (auto simp: on_link_def)
  note f = recv_step [OF 1 l]
  note sel = same_but_armed_sel [OF f(1)]
  have m1: "moved V k s s1"
    using f(1,2) by (rule moved_armed)
  consider (err) e where "r = Inl e" "is_exception e" "s' = s1"
    | (ok) c cs where "ra = Inr (c # cs)"
      "s' = ((store_body (c # cs) (fst s1))\<lparr>answered := rd_want ?p \<le> rd_got ?p + length (c # cs)\<rparr>, snd s1)"
      "r = Inr (rd_want ?p \<le> rd_got ?p + length (c # cs))"
  proof (cases ra)
    case (Inl e)
    then show ?thesis
      using that(1) assms(1) 1 f(3) by (auto simp: pump_rows_def bnd_def)
  next
    case (Inr bs)
    show ?thesis
    proof (cases bs)
      case Nil
      then show ?thesis
        using that(1) assms(1) 1 Inr by (auto simp: pump_rows_def bnd_def raise_run)
    next
      case (Cons c cs)
      have "store_body (c # cs) (fst s1) = store_body (c # cs) (fst s1)
          \<lparr>rd_want := rd_want ?p, rd_got := rd_got ?p + length (c # cs)\<rparr>"
        by (simp add: store_body_def sel)
      then show ?thesis
        using that(2) [of c cs] assms(1) 1 Inr Cons
        by (simp add: pump_rows_def bnd_def) (simp add: store_body_def sel seq_def bnd_def upd_def)
    qed
  qed
  note outcome = this
  have room: "rd_got ?p + length bs \<le> rd_want ?p" "rd_want ?p \<le> length (rows ?p)"
    if "ra = Inr bs" "bs \<noteq> []" for bs
  proof -
    have "0 < length bs"
      using that(2) by simp
    then show "rd_got ?p + length bs \<le> rd_want ?p" "rd_want ?p \<le> length (rows ?p)"
      using recv_frame(2) [OF 1 that(1)] by (simp_all only: length_take) linarith+
  qed
  show "pumped V k s s' \<and> err_ok r"
    using outcome
  proof cases
    case ok
    note room = room [OF ok(1), simplified]
    have "same_link ?p (fst s1)"
      using m1 by (simp add: moved_def)
    then have "same_conn ?p (fst s')"
      using ok(2) room by (auto simp: same_link_def same_conn_def store_body_def sel)
    then show ?thesis
      using m1 ok by (simp add: moved_def pumped_def)
  qed (use m1 in \<open>simp add: moved_pumped\<close>)
  show "r = Inl e \<Longrightarrow> answered (fst s') = answered (fst s)"
    using outcome by cases (auto simp: sel)
  show "r = Inr b \<Longrightarrow> answered (fst s') = b"
    using outcome by cases auto
  show "r = Inr b \<Longrightarrow> reading V k B s \<Longrightarrow> reading V k B s'"
    using outcome
  proof cases
    case ok
    note room = room [OF ok(1), simplified] and out = f(4) [OF ok(1)]
    assume "reading V k B s"
    then show ?thesis
      using ok(2) room out by (auto simp: reading_def store_body_def sel)
  qed auto
qed

lemma finish_rows_step:
  assumes "finish_rows E s = (r, s')" and "on_link V k s"
  shows "pumped V k s s' \<and> err_ok r \<and>
    (\<forall>e. r = Inl e \<longrightarrow> answered (fst s') \<longrightarrow> answered (fst s)) \<and>
    (reading V k B s \<longrightarrow> r = Inr () \<longrightarrow> reading V k B s' \<and> rd_got (fst s') = rd_want (fst s'))"
  using assms
proof (induction "rd_want (fst s) - rd_got (fst s)" arbitrary: s rule: less_induct)
  case less
  note run = less.prems(1) [unfolded finish_rows.simps [of E s]]
  have refl: "pumped V k s s"
    using moved_refl [OF less.prems(2)] by (rule moved_pumped)
  show ?case
  proof (cases "rd_got (fst s) < rd_want (fst s)")
    case False
    then show ?thesis
      using run refl by (auto simp: reading_def)
  next
    case True
    obtain ra s1 where 1: "pump_rows E s = (ra, s1)"
      by (cases "pump_rows E s")
    note p = pump_rows_step [OF 1 less.prems(2)]
    show ?thesis
    proof (cases ra)
      case (Inl e)
      then show ?thesis
        using run 1 True p by auto
    next
      case (Inr b)
      have rest: "finish_rows E s1 = (r, s')"
        using run 1 Inr True by simp
      have l1: "on_link V k s1"
        using less.prems(2) p(1) by (blast intro: on_link_pumped)
      have "rd_want (fst s1) - rd_got (fst s1) < rd_want (fst s) - rd_got (fst s)"
        using 1 Inr by (metis pump_rows_less)
      note ih = less.hyps [OF this rest l1]
      have "b \<Longrightarrow> r = Inr ()"
        using rest pump_rows_progress(1,4) [of E s b s1] 1 Inr
        by (simp add: finish_rows.simps [of E s1])
      then show ?thesis
        using ih p(1) p(3,4) [OF Inr] by (auto intro: pumped_trans)
    qed
  qed
qed

subsection \<open>Header-only answers and STAT\<close>

lemma read_ack_moved:
  assumes "read_ack E s = (r, s')" and "on_link V k s"
  shows "moved V k s s' \<and> err_ok r"
  using assms(1) [unfolded read_ack_def] assms(2)
proof (rule bnd_moved)
  fix x t assume "read_header E s = (x, t)"
  then show "moved V k s t \<and> err_ok x"
    using assms(2) by (rule read_header_moved)
qed (auto simp: raise_run ret_run moved_refl split: if_splits)

lemma read_ack_ok:
  assumes "read_ack E s = (Inr (), s')" and "on_link V k s"
    and "pack_request OP_PING 0 rid 0 = Inr h" and "reply (v_srv V (snd s) k) h (v_out V (snd s) k)"
  shows "v_out V (snd s') k = []"
proof -
  have 1: "read_header E s = (Inr 0, s')"
    using assms(1) by (auto simp: read_ack_def raise_run ret_run elim!: bnd_InrE split: if_splits)
  have "\<not> refusal rid (v_out V (snd s) k)"
    using read_header_refused [OF 1 assms(2)] by blast
  then have "pack_response rid 0 0 = Inr (v_out V (snd s) k)"
    using reply_ping [OF assms(4,3)] by simp
  then show ?thesis
    using read_header_ok(4) [OF 1 assms(2), of "v_out V (snd s) k" "[]"] by simp
qed

lemma query_stat_moved:
  assumes "query_stat E rid s = (r, s')" and "on_link V k s"
  shows "moved V k s s' \<and> err_ok r"
  using assms(1) [unfolded query_stat_def seq_def] assms(2)
proof (rule bnd_moved)
  fix x t assume "send_bare E OP_STAT rid s = (x, t)"
  then show "moved V k s t \<and> err_ok x"
    using assms(2) by (rule send_bare_moved) (simp add: wire_consts)
next
  fix x t
  assume l: "on_link V k t" and run: "bnd (read_header E) (\<lambda>n.
     if n \<noteq> 0 then raise (Exn RuntimeError CarriedRowData)
     else bnd (recv_exact E STAT_BODY []) (\<lambda>body.
       bnd (of_sum (struct_unpack STAT_FMT body)) (\<lambda>fs. of_sum (stat_of_fields fs)))) t = (r, s')"
  from run l show "moved V k t s' \<and> err_ok r"
  proof (rule bnd_moved)
    fix x u assume "read_header E t = (x, u)"
    then show "moved V k t u \<and> err_ok x"
      using l by (rule read_header_moved)
  next
    fix n u
    assume lu: "on_link V k u" and run: "(if n \<noteq> 0 then raise (Exn RuntimeError CarriedRowData)
      else bnd (recv_exact E STAT_BODY []) (\<lambda>body.
        bnd (of_sum (struct_unpack STAT_FMT body)) (\<lambda>fs. of_sum (stat_of_fields fs)))) u = (r, s')"
    show "moved V k u s' \<and> err_ok r"
    proof (cases "n = 0")
      case True
      with run have "bnd (recv_exact E STAT_BODY []) (\<lambda>body.
        bnd (of_sum (struct_unpack STAT_FMT body)) (\<lambda>fs. of_sum (stat_of_fields fs))) u = (r, s')"
        by simp
      then show ?thesis using lu
        by (rule bnd_moved)
          (use lu recv_exact_moved(1) in
            \<open>auto simp: bnd_def of_sum_run struct_unpack_def stat_of_fields_def intro: moved_refl
              split: if_splits list.splits\<close>)
    qed (use run lu in \<open>auto simp: raise_run\<close>)
  qed
qed

lemma query_stat_ok:
  assumes "query_stat E rid s = (Inr st, s')" and "on_link V k s" and "v_out V (snd s) k = []"
  shows "v_out V (snd s') k = []" and "st_base_row st = base (v_srv V (snd s) k)"
    and "st_row_count st = count (v_srv V (snd s) k)"
    and "st_row_bytes st = width (v_srv V (snd s) k)"
proof -
  let ?srv = "v_srv V (snd s) k"
  obtain s1 s2 bs fs where 1: "send_bare E OP_STAT rid s = (Inr (), s1)"
    and 2: "read_header E s1 = (Inr 0, s2)" and 3: "recv_exact E STAT_BODY [] s2 = (Inr bs, s')"
    and 4: "struct_unpack STAT_FMT bs = Inr fs" "stat_of_fields fs = Inr st"
    using assms(1)
    by (auto simp: query_stat_def raise_run of_sum_run elim!: seq_InrE bnd_InrE split: if_splits)
  have op: "OP_STAT < 256"
    by (simp add: wire_consts)
  note sent = send_bare_moved [OF 1 assms(2) op]
  have l1: "on_link V k s1"
    using assms(2) sent(1) by (blast intro: on_link_moved)
  note got = read_header_moved [OF 2 l1]
  have l2: "on_link V k s2"
    using l1 got by (blast intro: on_link_moved)
  note body = recv_exact_moved [OF 3 l2]
  obtain h where h: "pack_request OP_STAT 0 rid 0 = Inr h" "reply ?srv h (v_out V (snd s1) k)"
    using sent(3) assms(3) by auto
  have "\<not> refusal rid (v_out V (snd s1) k)"
    using read_header_refused [OF 2 l1] by blast
  then obtain g b res served where g: "pack_response rid 0 0 = Inr g" "v_out V (snd s1) k = g @ b"
    and b: "struct_pack STAT_FMT (map int [base ?srv, count ?srv, width ?srv, res, served]) = Inr b"
    using reply_stat [OF h(2,1)] by auto
  have "v_out V (snd s2) k = b"
    using read_header_ok(4) [OF 2 l1 g(2,1)] .
  moreover have "length b = 32"
    using struct_pack_length [OF b] by simp
  ultimately have bs: "bs = b" "v_out V (snd s') k = []"
    using body(3) [of bs] by (auto simp: STAT_BODY_def)
  have "fs = [base ?srv, count ?srv, width ?srv, res, served]"
    using 4(1) struct_fields_pack [OF b, of "[]"] bs
    by (simp add: struct_unpack_def split: if_splits)
  then show "v_out V (snd s') k = []" "st_base_row st = base ?srv"
    "st_row_count st = count ?srv" "st_row_bytes st = width ?srv"
    using 4(2) bs(2) by (auto simp: stat_of_fields_def)
qed

subsection \<open>Connecting and closing\<close>

lemma peer_connect_step:
  assumes "peer_connect E ct tmo s = (r, s')" and "v_wf V (snd s)"
  shows "keeps V {} (snd s) (snd s') \<and> (\<forall>e. r = Inl e \<longrightarrow> is_os_error e) \<and>
    same_link (fst s) ((fst s')\<lparr>sock := sock (fst s)\<rparr>) \<and>
    (sock (fst s') = sock (fst s) \<and> r \<noteq> Inr () \<or>
     (\<exists>k. sock (fst s') = Some k \<and> k \<notin> v_used V (snd s) \<and>
         k \<in> v_used V (snd s') \<and> v_out V (snd s') k = [] \<and> deployed (v_srv V (snd s') k)))"
proof -
  let ?p = "fst s"
  obtain rc w1 where 1: "n_connect E (addr ?p) ct (snd s) = (rc, w1)"
    by (cases "n_connect E (addr ?p) ct (snd s)")
  note k1 = connect_keeps [OF assms(2) 1]
  show ?thesis
  proof (cases rc)
    case (Inl e)
    then have "r = Inl e" "s' = (?p, w1)"
      using assms(1) 1 by (auto simp: peer_connect_def bnd_def io_def)
    then show ?thesis
      using k1 net_errors(1) 1 Inl by auto
  next
    case (Inr k)
    obtain rp w2 where 2: "n_peername E k w1 = (rp, w2)"
      by (cases "n_peername E k w1")
    note k2 = peername_keeps [OF keeps_wf [OF k1] 2]
    have fresh: "k \<notin> v_used V (snd s)" "k \<in> v_used V w1" "v_out V w1 k = []" "deployed (v_srv V w1 k)"
      using connect_ok [OF assms(2)] 1 Inr by auto
    have run: "snd s' = w2 \<and> (\<forall>e. r = Inl e \<longrightarrow> rp = Inl e) \<and> sock (fst s') = Some k \<and>
        same_link ?p ((fst s')\<lparr>sock := sock ?p\<rparr>)"
      using assms(1) 1 2 Inr
      by (cases rp) (auto simp: peer_connect_def bnd_def io_def upd_def same_link_def same_conn_def)
    have "v_out V w2 k = []" "v_srv V w2 k = v_srv V w1 k" "k \<in> v_used V w2"
      using fresh keeps_out [OF k2] keeps_srv [OF k2] keeps_used [OF k2] by auto
    then show ?thesis
      using run fresh keeps_trans [OF k1 k2] net_errors(2) 2 by auto
  qed
qed

lemma peer_close_step:
  assumes "peer_close E ab s = (r, s')" and "v_wf V (snd s)"
  shows "keeps V (set_option (sock (fst s))) (snd s) (snd s')"
    and "fst s' = (fst s)\<lparr>sock := None, pending := None\<rparr>"
    and "r = Inl e \<Longrightarrow> is_os_error e"
proof -
  have "keeps V (set_option (sock (fst s))) (snd s) (snd s') \<and>
    fst s' = (fst s)\<lparr>sock := None, pending := None\<rparr> \<and> (\<forall>e. r = Inl e \<longrightarrow> is_os_error e)"
  proof (cases "sock (fst s)")
    case None
    then show ?thesis
      using assms by (auto simp: peer_close_def ret_run)
  next
    case (Some k)
    obtain rc w1 where 1: "n_close E k ab (snd s) = (rc, w1)"
      by (cases "n_close E k ab (snd s)")
    then show ?thesis
      using assms Some close_keeps [OF assms(2) 1] net_errors(6)
      by (auto simp: peer_close_def io_def)
  qed
  then show "keeps V (set_option (sock (fst s))) (snd s) (snd s')"
    "fst s' = (fst s)\<lparr>sock := None, pending := None\<rparr>" "r = Inl e \<Longrightarrow> is_os_error e"
    by auto
qed

end

lemma reserve_step:
  assumes "reserve E n s = (r, s')" and "length (req_ids (fst s)) = cap (fst s)"
    and "length (rows (fst s)) = cap (fst s) * row_bytes (fst s)"
  shows "r = Inr ()" "snd s' = snd s" "sock (fst s') = sock (fst s)"
    and "n \<le> cap (fst s')" "length (req_ids (fst s')) = cap (fst s')"
    and "length (rows (fst s')) = cap (fst s') * row_bytes (fst s')"
    and "base_row (fst s') = base_row (fst s)" "row_count (fst s') = row_count (fst s)"
    and "row_bytes (fst s') = row_bytes (fst s)"
  using assms by (auto simp: reserve_def ret_run upd_def split: if_splits)

end
