(* ===== verification/Settings.thy ===== *)
theory Settings
  imports Peer
begin

section \<open>Settings: environment, integers, the list of peers\<close>

text \<open>
  The string handling of \<open>client/ple_remote.py\<close>: \<open>_env\<close>, the \<open>int()\<close> and \<open>str()\<close> it relies on,
  and \<open>_parse_peers\<close>, with the round trip from a list of addresses through their printed form.
  Strings are lists of ASCII characters.
\<close>

subsection \<open>The parts of \<open>str\<close> that are used\<close>

definition py_space :: "char \<Rightarrow> bool" where
  "py_space c \<longleftrightarrow> (let n = of_char c :: nat in n = 32 \<or> 9 \<le> n \<and> n \<le> 13 \<or> 28 \<le> n \<and> n \<le> 31)"

definition py_strip :: "string \<Rightarrow> string" where
  "py_strip s = rev (dropWhile py_space (rev (dropWhile py_space s)))"

fun split_on :: "char \<Rightarrow> string \<Rightarrow> string list" where
  "split_on c [] = [[]]"
| "split_on c (x # xs) =
     (if x = c then [] # split_on c xs
      else (case split_on c xs of [] \<Rightarrow> [[x]] | y # ys \<Rightarrow> (x # y) # ys))"

definition rpartition :: "char \<Rightarrow> string \<Rightarrow> string \<times> bool \<times> string" where
  "rpartition c s =
     (if c \<in> set s
      then (rev (tl (dropWhile (\<lambda>x. x \<noteq> c) (rev s))), True, rev (takeWhile (\<lambda>x. x \<noteq> c) (rev s)))
      else ([], False, s))"

definition digit_val :: "char \<Rightarrow> nat option" where
  "digit_val c = (let n = of_char c :: nat in if 48 \<le> n \<and> n \<le> 57 then Some (n - 48) else None)"

definition digit_char :: "nat \<Rightarrow> char" where
  "digit_char d = char_of (48 + d)"

text \<open>\<open>int(s)\<close>: spaces around, one sign, digits with single underscores between them.\<close>

fun py_digits :: "nat \<Rightarrow> bool \<Rightarrow> string \<Rightarrow> nat option" where
  "py_digits acc ok [] = (if ok then Some acc else None)"
| "py_digits acc ok (c # cs) =
     (case digit_val c of
        Some d \<Rightarrow> py_digits (10 * acc + d) True cs
      | None \<Rightarrow> if c = CHR ''_'' \<and> ok then py_digits acc False cs else None)"

definition py_int :: "string \<Rightarrow> exn + int" where
  "py_int s =
     (let t = py_strip s;
          neg = (t \<noteq> [] \<and> hd t = CHR ''-'');
          u = (if t \<noteq> [] \<and> (hd t = CHR ''-'' \<or> hd t = CHR ''+'') then tl t else t)
      in case py_digits 0 False u of
           None \<Rightarrow> Inl (Exn ValueError (NotAnInteger s))
         | Some n \<Rightarrow> Inr (if neg then - int n else int n))"

fun show_nat :: "nat \<Rightarrow> string" where
  "show_nat n = (if n < 10 then [digit_char n] else show_nat (n div 10) @ [digit_char (n mod 10)])"

declare show_nat.simps [simp del]

definition show_int :: "int \<Rightarrow> string" where
  "show_int i = (if i < 0 then CHR ''-'' # show_nat (nat (- i)) else show_nat (nat i))"

subsection \<open>\<open>_env\<close> and \<open>_parse_peers\<close>\<close>

definition TABLE_ROWS :: int where "TABLE_ROWS = 320001536"
definition ROW_BYTES :: int where "ROW_BYTES = 160"
definition DEFAULT_PEERS :: string where "DEFAULT_PEERS = ''node1:9000,node2:9000''"
definition DEFAULT_PORT :: int where "DEFAULT_PORT = 9000"
definition DEFAULT_MAX_ROWS :: int where "DEFAULT_MAX_ROWS = 131072"

definition env_or :: "(string \<Rightarrow> string option) \<Rightarrow> string \<Rightarrow> string \<Rightarrow> string" where
  "env_or environ name dflt =
     (case filter (\<lambda>v. v \<noteq> []) (List.map_filter (\<lambda>prefix. environ (prefix @ name))
             [''QWEN4EXP_PLE_REMOTE_'', ''PLE_REMOTE_'']) of
        [] \<Rightarrow> dflt
      | v # _ \<Rightarrow> v)"

definition peer_name :: "peer \<Rightarrow> string" where
  "peer_name p = host p @ '':'' @ show_int (port p)"

definition host_port :: "string \<Rightarrow> string \<times> string" where
  "host_port item =
     (case rpartition (CHR '':'') item of (h, sep, p) \<Rightarrow>
        if sep then (h, p) else (item, show_int DEFAULT_PORT))"

fun parse_items :: "string list \<Rightarrow> addr list \<Rightarrow> exn + peer list" where
  "parse_items [] seen = Inr []"
| "parse_items (raw # items) seen =
     (let item = py_strip raw in
      if item = [] then parse_items items seen
      else (case host_port item of (h, ps) \<Rightarrow>
        (case py_int ps of
           Inl e \<Rightarrow> Inl e
         | Inr p \<Rightarrow>
             if (h, p) \<in> set seen then Inl (Exn ValueError (ListedTwice item))
             else (case parse_items items ((h, p) # seen) of
                     Inl e \<Rightarrow> Inl e
                   | Inr ps \<Rightarrow> Inr (new_peer h p # ps)))))"

definition parse_peers :: "string \<Rightarrow> exn + peer list" where
  "parse_peers spec =
     (case parse_items (split_on (CHR '','') spec) [] of
        Inl e \<Rightarrow> Inl e
      | Inr [] \<Rightarrow> Inl (Exn ValueError NoPeers)
      | Inr ps \<Rightarrow> Inr ps)"

subsection \<open>Printing and reading integers\<close>

lemma digit_val_char [simp]: "d < 10 \<Longrightarrow> digit_val (digit_char d) = Some d"
  by (simp add: digit_val_def digit_char_def Let_def)

lemma py_space_digit [simp]: "d < 10 \<Longrightarrow> \<not> py_space (digit_char d)"
  by (simp add: py_space_def digit_char_def Let_def)

lemma digit_val_None:
  "digit_val (CHR ''-'') = None" "digit_val (CHR ''+'') = None" "digit_val (CHR '','') = None"
  "digit_val (CHR '':'') = None"
  by (simp_all add: digit_val_def)

lemma show_nat_digits: "c \<in> set (show_nat n) \<Longrightarrow> \<exists>d<10. c = digit_char d"
proof (induction n rule: show_nat.induct)
  case (1 n)
  have "n mod 10 < 10"
    by simp
  then have "\<exists>d<10. digit_char (n mod 10) = digit_char d"
    by blast
  then show ?case
    using 1 show_nat.simps [of n] by (cases "n < 10") auto
qed

lemma show_nat_nonempty [simp]: "show_nat n \<noteq> []"
  by (subst show_nat.simps) simp

lemma py_digits_show:
  "py_digits acc ok (show_nat n @ cs) = py_digits (acc * 10 ^ length (show_nat n) + n) True cs"
proof (induction n arbitrary: cs ok rule: show_nat.induct)
  case (1 n)
  show ?case
  proof (cases "n < 10")
    case True
    then show ?thesis
      by (simp add: show_nat.simps [of n] mult.commute)
  next
    case False
    have "acc * 10 ^ length (show_nat (n div 10)) * 10 + n div 10 * 10 + n mod 10 =
        acc * 10 ^ Suc (length (show_nat (n div 10))) + n"
      using div_mult_mod_eq [of n 10] by simp
    then show ?thesis
      using False "1.IH" by (simp add: show_nat.simps [of n] algebra_simps)
  qed
qed

lemma py_digits_show_nat [simp]: "py_digits 0 False (show_nat n) = Some n"
  using py_digits_show [of 0 False n "[]"] by simp

lemma dropWhile_none: "\<forall>x\<in>set xs. \<not> P x \<Longrightarrow> dropWhile P xs = xs"
  by (cases xs) auto

lemma py_strip_none: "\<forall>c\<in>set s. \<not> py_space c \<Longrightarrow> py_strip s = s"
  by (simp add: py_strip_def dropWhile_none)

lemma show_nat_no_space: "\<forall>c\<in>set (show_nat n). \<not> py_space c"
  using show_nat_digits [of _ n] by (metis py_space_digit)

lemma show_int_no_space: "\<forall>c\<in>set (show_int i). \<not> py_space c"
  using show_nat_no_space by (auto simp: show_int_def py_space_def)

lemma show_nat_hd: "\<exists>d<10. hd (show_nat n) = digit_char d"
  by (rule show_nat_digits [of _ n]) simp

lemma show_nat_sign: "hd (show_nat n) \<noteq> CHR ''-''" "hd (show_nat n) \<noteq> CHR ''+''"
proof -
  obtain d where "d < 10" "hd (show_nat n) = digit_char d"
    using show_nat_hd by blast
  then have "digit_val (hd (show_nat n)) = Some d"
    by simp
  then show "hd (show_nat n) \<noteq> CHR ''-''" "hd (show_nat n) \<noteq> CHR ''+''"
    using digit_val_None by auto
qed

lemma show_int_nonempty [simp]: "show_int i \<noteq> []"
  by (simp add: show_int_def)

lemma py_int_show [simp]: "py_int (show_int i) = Inr i"
  using show_nat_sign
  by (auto simp: py_int_def py_strip_none [OF show_int_no_space] Let_def)
    (auto simp: show_int_def)

lemma show_int_plain:
  "CHR '':'' \<notin> set (show_int i)" "CHR '','' \<notin> set (show_int i)"
  using show_nat_digits [of "CHR '':''"] show_nat_digits [of "CHR '',''"] digit_val_None digit_val_char
  by (auto simp: show_int_def) fastforce+

subsection \<open>Reading back a printed list of peers\<close>

text \<open>A host name that survives: no comma, no space.  A colon is fine, the last one splits.\<close>

definition plain_host :: "string \<Rightarrow> bool" where
  "plain_host h \<longleftrightarrow> (\<forall>c\<in>set h. c \<noteq> CHR '','' \<and> \<not> py_space c)"

primrec join_commas :: "string list \<Rightarrow> string" where
  "join_commas [] = []"
| "join_commas (x # xs) = (if xs = [] then x else x @ '','' @ join_commas xs)"

lemma split_on_none: "c \<notin> set s \<Longrightarrow> split_on c s = [s]"
  by (induction s) auto

lemma split_on_append: "c \<notin> set s \<Longrightarrow> split_on c (s @ c # t) = s # split_on c t"
  by (induction s) auto

lemma split_join:
  "\<forall>x\<in>set xs. CHR '','' \<notin> set x \<Longrightarrow> xs \<noteq> [] \<Longrightarrow> split_on (CHR '','') (join_commas xs) = xs"
  by (induction xs) (auto simp: split_on_none split_on_append)

lemma rpartition_last:
  "c \<notin> set t \<Longrightarrow> rpartition c (s @ c # t) = (s, True, t)"
  by (auto simp: rpartition_def dropWhile_append takeWhile_append dropWhile_eq_Nil_conv)

lemma host_port_name:
  "host_port (peer_name p) = (host p, show_int (port p))"
  using rpartition_last [OF show_int_plain(1) [of "port p"], of "host p"]
  by (simp add: host_port_def peer_name_def)

lemma peer_name_strip: "plain_host (host p) \<Longrightarrow> py_strip (peer_name p) = peer_name p"
  using show_int_no_space
  by (intro py_strip_none) (auto simp: peer_name_def plain_host_def py_space_def)

lemma parse_items_names:
  assumes "\<forall>p\<in>set ps. plain_host (host p)" and "distinct (map (\<lambda>p. (host p, port p)) ps)"
    and "set seen \<inter> (\<lambda>p. (host p, port p)) ` set ps = {}"
  shows "parse_items (map peer_name ps) seen = Inr (map (\<lambda>p. new_peer (host p) (port p)) ps)"
  using assms
proof (induction ps arbitrary: seen)
  case Nil
  then show ?case by simp
next
  case (Cons p ps)
  have "parse_items (map peer_name ps) ((host p, port p) # seen) =
      Inr (map (\<lambda>p. new_peer (host p) (port p)) ps)"
    by (rule Cons.IH) (use Cons.prems in auto)
  moreover have "peer_name p \<noteq> []"
    by (simp add: peer_name_def)
  ultimately show ?case
    using Cons.prems by (auto simp: peer_name_strip host_port_name Let_def)
qed

lemma parse_items_keys:
  assumes "parse_items items seen = Inr ps"
  shows "distinct (map (\<lambda>p. (host p, port p)) ps) \<and>
    (\<forall>p\<in>set ps. (host p, port p) \<notin> set seen \<and> p = new_peer (host p) (port p))"
  using assms
proof (induction items seen arbitrary: ps rule: parse_items.induct)
  case (2 raw items seen)
  show ?case
  proof (cases "py_strip raw = []")
    case True
    then show ?thesis
      using 2 by simp
  next
    case False
    obtain h s where hp: "host_port (py_strip raw) = (h, s)"
      by (cases "host_port (py_strip raw)")
    then obtain p qs where *: "py_int s = Inr p" "(h, p) \<notin> set seen"
      "parse_items items ((h, p) # seen) = Inr qs" "ps = new_peer h p # qs"
      using 2(3) False by (auto simp: Let_def split: sum.splits if_splits)
    then show ?thesis
      using "2.IH"(2) [OF refl False hp [symmetric] *(1,2,3)] *
      by (auto simp: new_peer_def)
  qed
qed simp

end
