(* ===== verification/Table.thy ===== *)
theory Table
  imports Peer Settings "HOL-Library.Multiset"
begin

section \<open>The table: its peers, how it connects, how it checks the split\<close>

text \<open>
  The class \<open>PLERemoteTable\<close> of \<open>client/ple_remote.py\<close> up to the point where it is ready to
  gather: the constructor, \<open>_connect\<close>, \<open>_check_range\<close>, \<open>_apply_stat\<close>, \<open>_check_split\<close>,
  \<open>_next_req_id\<close>, \<open>_check_usable\<close>, \<open>stat\<close>, \<open>ping\<close> and \<open>close\<close>.  The state pairs the table with
  the world; a peer is addressed by its position in \<open>peers\<close>.
\<close>

datatype failure = FailedWith exn | Closed

record table =
  t_row_bytes :: int
  rows_total :: int
  max_rows :: int
  t_timeout :: rat
  connect_timeout :: rat
  connect_deadline :: rat
  gather_deadline :: rat
  peers :: "peer list"
  req_id :: nat
  failed :: "failure option"
  staging :: "byte list list option"
  sel :: "nat list list"
  workspace :: nat
  num_shards :: nat
  shard_rows :: nat

type_synonym ('w, 'a) tprog = "(table \<times> 'w, 'a) prog"

definition on_peer :: "nat \<Rightarrow> ('w, 'a) pprog \<Rightarrow> ('w, 'a) tprog" where
  "on_peer i m s =
     (if i < length (peers (fst s))
      then (case m (peers (fst s) ! i, snd s) of
              (r, (p', w')) \<Rightarrow> (r, ((fst s)\<lparr>peers := (peers (fst s))[i := p']\<rparr>, w')))
      else (Inl (Exn IndexError (NoSuchKey i)), s))"

definition next_req_id :: "('w, nat) tprog" where
  "next_req_id = bnd (gets (\<lambda>s. (req_id (fst s) + 1) mod 2 ^ 32)) (\<lambda>r.
     seq (upd (\<lambda>t. t\<lparr>req_id := r\<rparr>)) (ret r))"

definition check_usable :: "('w, unit) tprog" where
  "check_usable = bnd (gets (\<lambda>s. failed (fst s))) (\<lambda>f.
     case f of None \<Rightarrow> ret () | Some _ \<Rightarrow> raise (Exn RuntimeError NotUsable))"

subsection \<open>Connecting\<close>

text \<open>
  \<open>_connect\<close>: the first argument bounds the number of tries the model follows.  Seconds are
  rationals; 0.001 is 1/1000.
\<close>

primrec connect_loop ::
  "nat \<Rightarrow> 'w net \<Rightarrow> rat \<Rightarrow> rat \<Rightarrow> rat \<Rightarrow> rat \<Rightarrow> ('w, unit) pprog" where
  "connect_loop 0 E ctimeout tmo dl pause = raise (Exn NoReturn StillUnreachable)"
| "connect_loop (Suc fuel) E ctimeout tmo dl pause =
     bnd (now E) (\<lambda>t.
     handle (peer_connect E (min ctimeout (max (dl - t) (1 / 1000))) tmo) is_os_error (\<lambda>e.
       bnd (now E) (\<lambda>t'.
       if dl - t' \<le> 0 then raise (Exn TimeoutError StillUnreachable)
       else seq (sleep E (min pause (dl - t')))
              (connect_loop fuel E ctimeout tmo dl (min (pause * 2) 5)))))"

definition connect_peer :: "'w net \<Rightarrow> nat \<Rightarrow> rat \<Rightarrow> ('w, unit) tprog" where
  "connect_peer E i dl = bnd (gets fst) (\<lambda>t.
     on_peer i (connect_loop (n_fuel E) E (connect_timeout t) (t_timeout t) dl (1 / 2)))"

definition stat_peer :: "'w net \<Rightarrow> nat \<Rightarrow> ('w, stat) tprog" where
  "stat_peer E i = bnd next_req_id (\<lambda>r. on_peer i (query_stat E r))"

definition note_stat :: "stat \<Rightarrow> peer \<Rightarrow> peer" where
  "note_stat st p = p\<lparr>resident_pages := st_resident_pages st,
     served_requests := st_served_requests st\<rparr>"

definition check_range :: "stat \<Rightarrow> ('w, unit) pprog" where
  "check_range st = bnd (gets fst) (\<lambda>p.
     if (st_base_row st, st_row_count st, st_row_bytes st) \<noteq> (base_row p, row_count p, row_bytes p)
     then raise (Exn RuntimeError RangeMoved)
     else upd (note_stat st))"

definition apply_stat :: "int \<Rightarrow> stat \<Rightarrow> ('w, unit) pprog" where
  "apply_stat width st =
     seq (upd (\<lambda>p. p\<lparr>base_row := st_base_row st, row_count := st_row_count st,
       row_bytes := st_row_bytes st\<rparr>))
     (seq (upd (note_stat st))
     (bnd (gets fst) (\<lambda>p.
        if int (row_bytes p) \<noteq> width
        then raise (Exn RuntimeError (RowBytesMismatch (row_bytes p) (nat width)))
        else if row_count p \<le> 0 then raise (Exn RuntimeError EmptyRange) else ret ())))"

subsection \<open>The split\<close>

fun split_walk :: "nat \<Rightarrow> peer list \<Rightarrow> exn + nat" where
  "split_walk expect [] = Inr expect"
| "split_walk expect (p # ps) =
     (if base_row p \<noteq> expect
      then Inl (Exn RuntimeError (if base_row p > expect then SplitGap (base_row p) expect
                                  else SplitOverlap (base_row p) expect))
      else split_walk (expect + row_count p) ps)"

definition check_split :: "('w, unit) tprog" where
  "check_split =
     seq (upd (\<lambda>t. t\<lparr>peers := sort_key base_row (peers t)\<rparr>))
     (bnd (gets fst) (\<lambda>t.
      bnd (of_sum (split_walk 0 (peers t))) (\<lambda>expect.
        if int expect \<noteq> rows_total t
        then raise (Exn RuntimeError (CoverMismatch expect (nat (rows_total t))))
        else ret ())))"

subsection \<open>The constructor\<close>

record config =
  c_peers :: "string option"
  c_rows_total :: "int option"
  c_row_bytes :: int
  c_max_rows :: "int option"
  c_timeout :: "rat option"
  c_connect_timeout :: "rat option"
  c_connect_deadline :: "rat option"
  c_gather_deadline :: "rat option"

definition int_setting :: "(string \<Rightarrow> string option) \<Rightarrow> string \<Rightarrow> int \<Rightarrow> int option \<Rightarrow> exn + int" where
  "int_setting environ name dflt arg = (case arg of
     Some v \<Rightarrow> Inr v | None \<Rightarrow> py_int (env_or environ name (show_int dflt)))"

definition DEFAULT_TIMEOUT :: string where "DEFAULT_TIMEOUT = ''30.0''"
definition DEFAULT_CONNECT_TIMEOUT :: string where "DEFAULT_CONNECT_TIMEOUT = ''5.0''"
definition DEFAULT_CONNECT_DEADLINE :: string where "DEFAULT_CONNECT_DEADLINE = ''60.0''"
definition DEFAULT_GATHER_DEADLINE :: string where "DEFAULT_GATHER_DEADLINE = ''120.0''"

text \<open>\<open>float()\<close> on an environment string is the argument \<open>to_float\<close>.\<close>

definition float_setting ::
  "(string \<Rightarrow> exn + rat) \<Rightarrow> (string \<Rightarrow> string option) \<Rightarrow> string \<Rightarrow> string \<Rightarrow> rat option \<Rightarrow> exn + rat" where
  "float_setting to_float environ name dflt arg = (case arg of
     Some v \<Rightarrow> Inr v | None \<Rightarrow> to_float (env_or environ name dflt))"

definition new_table ::
  "(string \<Rightarrow> exn + rat) \<Rightarrow> (string \<Rightarrow> string option) \<Rightarrow> config \<Rightarrow> ('w, table) prog" where
  "new_table to_float environ c =
     bnd (of_sum (int_setting environ ''ROWS'' TABLE_ROWS (c_rows_total c))) (\<lambda>total.
     bnd (of_sum (int_setting environ ''MAX_ROWS'' DEFAULT_MAX_ROWS (c_max_rows c))) (\<lambda>mr.
     bnd (of_sum (float_setting to_float environ ''TIMEOUT'' DEFAULT_TIMEOUT (c_timeout c))) (\<lambda>tmo.
     bnd (of_sum (float_setting to_float environ ''CONNECT_TIMEOUT'' DEFAULT_CONNECT_TIMEOUT
       (c_connect_timeout c))) (\<lambda>ct.
     bnd (of_sum (float_setting to_float environ ''CONNECT_DEADLINE'' DEFAULT_CONNECT_DEADLINE
       (c_connect_deadline c))) (\<lambda>cd.
     bnd (of_sum (float_setting to_float environ ''GATHER_DEADLINE'' DEFAULT_GATHER_DEADLINE
       (c_gather_deadline c))) (\<lambda>gd.
     bnd (of_sum (parse_peers (case c_peers c of Some s \<Rightarrow> s
       | None \<Rightarrow> env_or environ ''PEERS'' DEFAULT_PEERS))) (\<lambda>ps.
     ret \<lparr>t_row_bytes = c_row_bytes c, rows_total = total, max_rows = mr, t_timeout = tmo,
       connect_timeout = ct, connect_deadline = cd, gather_deadline = gd, peers = ps,
       req_id = 0, failed = None, staging = None, sel = replicate (length ps) [],
       workspace = 0, num_shards = 0, shard_rows = 0\<rparr>)))))))"

definition peer_indices :: "table \<times> 'w \<Rightarrow> nat list" where
  "peer_indices s = [0..<length (peers (fst s))]"

definition close_all :: "'w net \<Rightarrow> ('w, unit) tprog" where
  "close_all E = bnd (gets peer_indices) (\<lambda>is. each is (\<lambda>i. on_peer i (peer_close E False)))"

definition bring_up :: "'w net \<Rightarrow> rat \<Rightarrow> nat \<Rightarrow> ('w, unit) tprog" where
  "bring_up E dl i =
     seq (connect_peer E i dl)
     (bnd (stat_peer E i) (\<lambda>st. bnd (gets fst) (\<lambda>t. on_peer i (apply_stat (t_row_bytes t) st))))"

definition connect_all :: "'w net \<Rightarrow> ('w, unit) tprog" where
  "connect_all E =
     handle
       (bnd (now E) (\<lambda>t0. bnd (gets (\<lambda>s. t0 + connect_deadline (fst s))) (\<lambda>dl.
        bnd (gets peer_indices) (\<lambda>is. seq (each is (bring_up E dl)) check_split))))
       is_exception
       (\<lambda>e. seq (close_all E) (raise e))"

definition init_table ::
  "'w net \<Rightarrow> (string \<Rightarrow> exn + rat) \<Rightarrow> (string \<Rightarrow> string option) \<Rightarrow> config \<Rightarrow> ('w, table) prog" where
  "init_table E to_float environ c = bnd (new_table to_float environ c) (\<lambda>t w.
     (case connect_all E (t, w) of
        (Inl e, s) \<Rightarrow> (Inl e, snd s)
      | (Inr _, s) \<Rightarrow> (Inr ((fst s)\<lparr>num_shards := length (peers (fst s)),
            shard_rows := row_count (peers (fst s) ! 0)\<rparr>), snd s)))"

subsection \<open>ping, stat, close\<close>

text \<open>A raise inside \<open>ping\<close>, \<open>stat\<close> or \<open>gather_cpu\<close> condemns the table.\<close>

definition condemn :: "('w, 'a) tprog \<Rightarrow> ('w, 'a) tprog" where
  "condemn m = handle m is_exception (\<lambda>e. seq (upd (\<lambda>t. t\<lparr>failed := Some (FailedWith e)\<rparr>)) (raise e))"

definition ping :: "'w net \<Rightarrow> ('w, unit) tprog" where
  "ping E = seq check_usable (condemn (bnd (gets peer_indices) (\<lambda>is.
     seq (each is (\<lambda>i. bnd next_req_id (\<lambda>r. on_peer i (send_bare E OP_PING r))))
         (each is (\<lambda>i. on_peer i (read_ack E))))))"

definition stat :: "'w net \<Rightarrow> ('w, stat list) tprog" where
  "stat E = seq check_usable (bnd (gets peer_indices) (\<lambda>is.
     bnd (condemn (collect is (stat_peer E))) (\<lambda>stats.
     seq (each (zip is stats) (\<lambda>(i, st). on_peer i (check_range st))) (ret stats))))"

definition close :: "'w net \<Rightarrow> ('w, unit) tprog" where
  "close E = seq (close_all E)
     (upd (\<lambda>t. t\<lparr>failed := (case failed t of None \<Rightarrow> Some Closed | Some f \<Rightarrow> Some f)\<rparr>))"

subsection \<open>What the split check decides\<close>

definition owns :: "peer \<Rightarrow> nat \<Rightarrow> bool" where
  "owns p x \<longleftrightarrow> base_row p \<le> x \<and> x < base_row p + row_count p"

text \<open>
  The promise of \<open>_check_split\<close>, without an order or a running total: every row below the total
  has exactly one owner, and no other row has any.
\<close>

definition owners :: "peer list \<Rightarrow> nat \<Rightarrow> nat" where
  "owners ps x = length (filter (\<lambda>p. owns p x) ps)"

definition tiling :: "peer list \<Rightarrow> nat \<Rightarrow> nat \<Rightarrow> bool" where
  "tiling ps lo hi \<longleftrightarrow> (\<forall>x. owners ps x = (if lo \<le> x \<and> x < hi then 1 else 0))"

lemma owners_Cons [simp]: "owners (p # ps) x = (if owns p x then 1 else 0) + owners ps x"
  by (simp add: owners_def)

lemma owners_Nil [simp]: "owners [] x = 0"
  by (simp add: owners_def)

lemma owners_pos: "0 < owners ps x \<longleftrightarrow> (\<exists>p\<in>set ps. owns p x)"
  by (induction ps) auto

lemma owners_sort [simp]: "owners (sort_key f ps) x = owners ps x"
proof -
  have "mset (filter (\<lambda>p. owns p x) (sort_key f ps)) = mset (filter (\<lambda>p. owns p x) ps)"
    by (simp add: mset_filter)
  then show ?thesis
    unfolding owners_def by (rule mset_eq_length)
qed

lemma split_walk_tiling:
  "split_walk lo ps = Inr hi \<Longrightarrow> lo \<le> hi \<and> tiling ps lo hi"
proof (induction lo ps rule: split_walk.induct)
  case (1 lo)
  then show ?case by (simp add: tiling_def)
next
  case (2 lo p ps)
  then have "base_row p = lo" "lo + row_count p \<le> hi" "tiling ps (lo + row_count p) hi"
    by (auto split: if_splits)
  then show ?case
    by (auto simp: tiling_def owns_def)
qed

lemma tiling_split_walk:
  assumes "tiling ps lo hi" and "lo \<le> hi" and "sorted (map base_row ps)"
    and "\<forall>p\<in>set ps. 0 < row_count p"
  shows "split_walk lo ps = Inr hi"
  using assms
proof (induction lo ps rule: split_walk.induct)
  case (1 lo)
  have "\<not> lo < hi"
    using "1.prems"(1) [unfolded tiling_def, rule_format, of lo] by auto
  then show ?case
    using "1.prems"(2) by simp
next
  case (2 lo p ps)
  let ?b = "base_row p" and ?c = "row_count p"
  have tile: "(if owns p x then 1 else 0) + owners ps x = (if lo \<le> x \<and> x < hi then 1 else 0)" for x
    using "2.prems"(1) by (simp add: tiling_def)
  have in_range: "lo \<le> x \<and> x < hi \<and> owners ps x = 0" if "owns p x" for x
    using tile [of x] that by (auto split: if_splits)
  have c: "0 < ?c"
    using "2.prems"(4) by simp
  then have "lo \<le> ?b" "?b + ?c - 1 < hi"
    using in_range [of ?b] in_range [of "?b + ?c - 1"] by (auto simp: owns_def)
  moreover have "?b \<le> lo"
  proof -
    have "0 < owners (p # ps) lo"
      using tile [of lo] \<open>lo \<le> ?b\<close> \<open>?b + ?c - 1 < hi\<close> c by auto
    then obtain q where "q \<in> set (p # ps)" "owns q lo"
      unfolding owners_pos by blast
    then show ?thesis
      using "2.prems"(3) by (auto simp: owns_def)
  qed
  ultimately have b: "?b = lo" "lo + ?c \<le> hi"
    using c by auto
  have "tiling ps (lo + ?c) hi"
    unfolding tiling_def
  proof
    fix x
    show "owners ps x = (if lo + ?c \<le> x \<and> x < hi then 1 else 0)"
      using tile [of x] in_range [of x] b by (cases "owns p x") (auto simp: owns_def)
  qed
  then have "split_walk (lo + ?c) ps = Inr hi"
    using "2.IH" b "2.prems"(3,4) by auto
  then show ?case
    using b by simp
qed

lemma check_split_run:
  "fst (check_split s) = (case split_walk 0 (sort_key base_row (peers (fst s))) of
     Inl e \<Rightarrow> Inl e | Inr n \<Rightarrow> if int n = rows_total (fst s) then Inr ()
       else Inl (Exn RuntimeError (CoverMismatch n (nat (rows_total (fst s))))))"
  by (auto simp: check_split_def bnd_def of_sum_def raise_run ret_run split: sum.splits)

lemma snd_check_split [simp]:
  "snd (check_split s) = ((fst s)\<lparr>peers := sort_key base_row (peers (fst s))\<rparr>, snd s)"
  by (auto simp: check_split_def bnd_def of_sum_def raise_run ret_run split: sum.splits)

lemma check_split_iff:
  assumes "\<forall>p\<in>set (peers (fst s)). 0 < row_count p"
  shows "fst (check_split s) = Inr () \<longleftrightarrow>
    (\<exists>n. rows_total (fst s) = int n \<and> tiling (peers (fst s)) 0 n)"
proof
  assume "fst (check_split s) = Inr ()"
  then obtain n where "split_walk 0 (sort_key base_row (peers (fst s))) = Inr n"
    and n: "int n = rows_total (fst s)"
    by (auto simp: check_split_run split: sum.splits if_splits)
  then have "tiling (sort_key base_row (peers (fst s))) 0 n"
    using split_walk_tiling by blast
  then show "\<exists>n. rows_total (fst s) = int n \<and> tiling (peers (fst s)) 0 n"
    using n by (auto simp: tiling_def intro!: exI [of _ n])
next
  assume "\<exists>n. rows_total (fst s) = int n \<and> tiling (peers (fst s)) 0 n"
  then obtain n where n: "rows_total (fst s) = int n" "tiling (peers (fst s)) 0 n"
    by blast
  then have "split_walk 0 (sort_key base_row (peers (fst s))) = Inr n"
    by (intro tiling_split_walk) (use assms in \<open>auto simp: tiling_def\<close>)
  then show "fst (check_split s) = Inr ()"
    using n by (simp add: check_split_run)
qed

end
