(* ===== verification/Link.thy ===== *)
theory Link
  imports Peer_Sync Table
begin

section \<open>A table of connections: reasoning peer by peer\<close>

text \<open>
  A table holds several connections to one world.  \<open>stage V D F t0 s\<close> says of each peer of \<open>s\<close>
  where its connection stands, by a predicate \<open>F i\<close> on the peer and on its \<open>link\<close> (the bytes still
  to come, the server at the far end).  The rule for \<open>on_peer i\<close> moves the predicate of peer
  \<open>i\<close> and carries the others over, because no two peers share a socket.
\<close>

type_synonym 's wire = "(byte list \<times> 's) option"
type_synonym 's stages = "nat \<Rightarrow> peer \<Rightarrow> 's wire \<Rightarrow> bool"

definition link :: "('w, 's) view \<Rightarrow> 'w \<Rightarrow> peer \<Rightarrow> 's wire" where
  "link V w p = map_option (\<lambda>k. (v_out V w k, v_srv V w k)) (sock p)"

definition buffered :: "peer \<Rightarrow> bool" where
  "buffered p \<longleftrightarrow> length (req_ids p) = cap p \<and> length (rows p) = cap p * row_bytes p"

definition linked :: "('w, 's) view \<Rightarrow> ('s \<Rightarrow> bool) \<Rightarrow> table \<times> 'w \<Rightarrow> bool" where
  "linked V D s \<longleftrightarrow> v_wf V (snd s) \<and>
     (\<forall>i<length (peers (fst s)). \<forall>k. sock (peers (fst s) ! i) = Some k \<longrightarrow>
        k \<in> v_used V (snd s) \<and> D (v_srv V (snd s) k)) \<and>
     (\<forall>i<length (peers (fst s)). \<forall>j<length (peers (fst s)). \<forall>k.
        sock (peers (fst s) ! i) = Some k \<longrightarrow> sock (peers (fst s) ! j) = Some k \<longrightarrow> i = j) \<and>
     (\<forall>i<length (peers (fst s)). buffered (peers (fst s) ! i))"

text \<open>What a gather may change of the table besides its peers: the request counter.\<close>

definition same_table :: "table \<Rightarrow> table \<Rightarrow> bool" where
  "same_table t0 t \<longleftrightarrow> length (peers t) = length (peers t0) \<and>
     t = t0\<lparr>peers := peers t, req_id := req_id t\<rparr>"

definition stage ::
  "('w, 's) view \<Rightarrow> ('s \<Rightarrow> bool) \<Rightarrow> 's stages \<Rightarrow> table \<Rightarrow> table \<times> 'w \<Rightarrow> bool" where
  "stage V D F t0 s \<longleftrightarrow> linked V D s \<and> same_table t0 (fst s) \<and>
     (\<forall>i<length (peers (fst s)). F i (peers (fst s) ! i) (link V (snd s) (peers (fst s) ! i)))"

definition effect :: "('w, 's) view \<Rightarrow> ('s \<Rightarrow> bool) \<Rightarrow> peer \<times> 'w \<Rightarrow> peer \<times> 'w \<Rightarrow> bool" where
  "effect V D s s' \<longleftrightarrow> keeps V (set_option (sock (fst s))) (snd s) (snd s') \<and> buffered (fst s') \<and>
     (\<forall>k. sock (fst s') = Some k \<longrightarrow> sock (fst s) = Some k \<or>
        k \<notin> v_used V (snd s) \<and> k \<in> v_used V (snd s') \<and> D (v_srv V (snd s') k))"

text \<open>What is known of one peer of a linked table.\<close>

definition ready_peer :: "('w, 's) view \<Rightarrow> ('s \<Rightarrow> bool) \<Rightarrow> peer \<times> 'w \<Rightarrow> bool" where
  "ready_peer V D s \<longleftrightarrow> v_wf V (snd s) \<and> buffered (fst s) \<and>
     (\<forall>k. sock (fst s) = Some k \<longrightarrow> k \<in> v_used V (snd s) \<and> D (v_srv V (snd s) k))"

lemma linked_ready:
  "linked V D s \<Longrightarrow> i < length (peers (fst s)) \<Longrightarrow> ready_peer V D (peers (fst s) ! i, snd s)"
  by (auto simp: linked_def ready_peer_def)

lemma same_table_refl [simp, intro]: "same_table t t"
  by (simp add: same_table_def)

lemma same_table_trans: "same_table t u \<Longrightarrow> same_table u v \<Longrightarrow> same_table t v"
  by (cases t; cases u; cases v) (auto simp: same_table_def)

lemma same_table_peers [intro]: "length ps = length (peers t) \<Longrightarrow> same_table t (t\<lparr>peers := ps\<rparr>)"
  by (cases t) (simp add: same_table_def)

lemma same_table_req_id [intro]: "same_table t (t\<lparr>req_id := r\<rparr>)"
  by (cases t) (simp add: same_table_def)

lemma same_table_sel:
  assumes "same_table t0 t"
  shows "t_row_bytes t = t_row_bytes t0" "rows_total t = rows_total t0" "max_rows t = max_rows t0"
    "t_timeout t = t_timeout t0" "gather_deadline t = gather_deadline t0" "failed t = failed t0"
    "staging t = staging t0" "sel t = sel t0" "workspace t = workspace t0"
    "length (peers t) = length (peers t0)"
  using assms by (cases t0; cases t; simp add: same_table_def)+

lemma effect_linked:
  assumes "linked V D s" and i: "i < length (peers (fst s))"
    and e: "effect V D (peers (fst s) ! i, snd s) (p', w')"
  shows "linked V D ((fst s)\<lparr>peers := (peers (fst s))[i := p']\<rparr>, w')"
    and "j < length (peers (fst s)) \<Longrightarrow> j \<noteq> i \<Longrightarrow>
      link V w' (peers (fst s) ! j) = link V (snd s) (peers (fst s) ! j)"
proof -
  let ?ps = "peers (fst s)" and ?w = "snd s"
  have wf: "v_wf V ?w"
    and live: "\<And>j k. j < length ?ps \<Longrightarrow> sock (?ps ! j) = Some k \<Longrightarrow> k \<in> v_used V ?w \<and> D (v_srv V ?w k)"
    and dist: "\<And>j l k. j < length ?ps \<Longrightarrow> l < length ?ps \<Longrightarrow> sock (?ps ! j) = Some k \<Longrightarrow>
      sock (?ps ! l) = Some k \<Longrightarrow> j = l"
    and buf: "\<And>j. j < length ?ps \<Longrightarrow> buffered (?ps ! j)"
    using assms(1) unfolding linked_def by blast+
  have k: "keeps V (set_option (sock (?ps ! i))) ?w w'" and b: "buffered p'"
    and new: "\<And>k. sock p' = Some k \<Longrightarrow> sock (?ps ! i) = Some k \<or>
      k \<notin> v_used V ?w \<and> k \<in> v_used V w' \<and> D (v_srv V w' k)"
    using e by (auto simp: effect_def)
  have old: "k \<in> v_used V w' \<and> D (v_srv V w' k) \<and> v_srv V w' k = v_srv V ?w k"
    if "j < length ?ps" "sock (?ps ! j) = Some k" for j k
    using live [OF that] keeps_used [OF k] keeps_srv [OF k] by auto
  show "link V w' (?ps ! j) = link V ?w (?ps ! j)" if "j < length ?ps" "j \<noteq> i"
  proof (cases "sock (?ps ! j)")
    case (Some l)
    then have "l \<notin> set_option (sock (?ps ! i))"
      using dist [of j i l] that i by auto
    then show ?thesis
      using Some keeps_out [OF k] old [OF that(1) Some] live [OF that(1) Some] by (simp add: link_def)
  qed (simp add: link_def)
  have other: "sock p' = Some l \<Longrightarrow> sock (?ps ! j) \<noteq> Some l" if "j < length ?ps" "j \<noteq> i" for j l
    using new [of l] dist [of j i l] live [of j l] that i by auto
  show "linked V D ((fst s)\<lparr>peers := ?ps[i := p']\<rparr>, w')"
    unfolding linked_def
  proof (intro conjI allI impI)
    show "v_wf V (snd ((fst s)\<lparr>peers := ?ps[i := p']\<rparr>, w'))"
      using keeps_wf [OF k] by simp
  next
    fix j l
    assume "j < length (peers (fst ((fst s)\<lparr>peers := ?ps[i := p']\<rparr>, w')))"
      and "sock (peers (fst ((fst s)\<lparr>peers := ?ps[i := p']\<rparr>, w')) ! j) = Some l"
    then have "j < length ?ps" "sock (?ps[i := p'] ! j) = Some l"
      by simp_all
    then have "l \<in> v_used V w' \<and> D (v_srv V w' l)"
      using old [of j l] old [of i l] new [of l] i by (cases "j = i") auto
    then show "l \<in> v_used V (snd ((fst s)\<lparr>peers := ?ps[i := p']\<rparr>, w'))"
      and "D (v_srv V (snd ((fst s)\<lparr>peers := ?ps[i := p']\<rparr>, w')) l)"
      by simp_all
  next
    fix j m l
    assume "j < length (peers (fst ((fst s)\<lparr>peers := ?ps[i := p']\<rparr>, w')))"
      and "m < length (peers (fst ((fst s)\<lparr>peers := ?ps[i := p']\<rparr>, w')))"
      and "sock (peers (fst ((fst s)\<lparr>peers := ?ps[i := p']\<rparr>, w')) ! j) = Some l"
      and "sock (peers (fst ((fst s)\<lparr>peers := ?ps[i := p']\<rparr>, w')) ! m) = Some l"
    then show "j = m"
      using other [of m l] other [of j l] dist [of j m l] i
      by (cases "j = i"; cases "m = i") simp_all
  next
    fix j assume "j < length (peers (fst ((fst s)\<lparr>peers := ?ps[i := p']\<rparr>, w')))"
    then show "buffered (peers (fst ((fst s)\<lparr>peers := ?ps[i := p']\<rparr>, w')) ! j)"
      using b buf i by (cases "j = i") auto
  qed
qed

lemma stage_weaken:
  "stage V D F t0 s \<Longrightarrow> (\<And>i p l. i < length (peers t0) \<Longrightarrow> F i p l \<Longrightarrow> G i p l) \<Longrightarrow> stage V D G t0 s"
  by (auto simp: stage_def same_table_def)

text \<open>The rule for an operation on one peer.\<close>

lemma on_peer_stage:
  assumes "i < length (peers t0)"
    and run: "\<And>p w r p' w'. m (p, w) = (r, (p', w')) \<Longrightarrow> ready_peer V D (p, w) \<Longrightarrow>
      F i p (link V w p) \<Longrightarrow> effect V D (p, w) (p', w') \<and>
        (case r of Inr x \<Rightarrow> G x p' (link V w' p') | Inl e \<Rightarrow> H e p' (link V w' p'))"
  shows "triple (stage V D F t0) (on_peer i m)
    (\<lambda>x. stage V D (F(i := G x)) t0) (\<lambda>e. stage V D (F(i := H e)) t0)"
proof -
  have step: "case r of Inr x \<Rightarrow> stage V D (F(i := G x)) t0 s' | Inl e \<Rightarrow> stage V D (F(i := H e)) t0 s'"
    if s: "stage V D F t0 s" and m: "on_peer i m s = (r, s')" for s r s'
  proof -
    let ?ps = "peers (fst s)"
    have i: "i < length ?ps"
      using s assms(1) by (simp add: stage_def same_table_def)
    obtain p' w' where 1: "m (?ps ! i, snd s) = (r, (p', w'))"
      and s': "s' = ((fst s)\<lparr>peers := ?ps[i := p']\<rparr>, w')"
      using m i by (auto simp: on_peer_def split: prod.splits)
    have l: "linked V D s" and F: "\<And>j. j < length ?ps \<Longrightarrow> F j (?ps ! j) (link V (snd s) (?ps ! j))"
      using s by (auto simp: stage_def)
    note r = run [OF 1 linked_ready [OF l i] F [OF i]]
    note e = effect_linked [OF l i conjunct1 [OF r]]
    have "same_table t0 (fst s')"
      using s s' same_table_trans [OF _ same_table_peers, of t0 "fst s" "?ps[i := p']"]
      by (simp add: stage_def)
    then show ?thesis
      using e r F i s' by (cases r) (auto simp: stage_def nth_list_update)
  qed
  show ?thesis
    by (rule tripleI) (use step in fastforce)+
qed

lemma on_peer_triple:
  assumes i: "i < length (peers t0)"
    and run: "\<And>p w r p' w'. m (p, w) = (r, (p', w')) \<Longrightarrow> ready_peer V D (p, w) \<Longrightarrow>
      F i p (link V w p) \<Longrightarrow> effect V D (p, w) (p', w') \<and>
        (case r of Inr x \<Rightarrow> G x p' (link V w' p') | Inl e \<Rightarrow> W p' (link V w' p') \<and> ok e)"
  shows "triple (stage V D F t0) (on_peer i m)
    (\<lambda>x. stage V D (F(i := G x)) t0) (\<lambda>e s. stage V D (F(i := W)) t0 s \<and> ok e)"
proof (rule triple_weaken)
  show "triple (stage V D F t0) (on_peer i m)
    (\<lambda>x. stage V D (F(i := G x)) t0) (\<lambda>e. stage V D (F(i := (\<lambda>p l. W p l \<and> ok e))) t0)"
    by (rule on_peer_stage [OF i]) (use run in blast)
next
  fix e s assume s: "stage V D (F(i := (\<lambda>p l. W p l \<and> ok e))) t0 s"
  then have "ok e"
    using i by (auto simp: stage_def same_table_def)
  then show "stage V D (F(i := W)) t0 s \<and> ok e"
    using s by (auto elim!: stage_weaken split: if_splits)
qed

lemma next_req_id_stage: "triple (stage V D F t0) next_req_id (\<lambda>_. stage V D F t0) R"
  by (rule tripleI)
    (auto simp: next_req_id_def ret_run stage_def linked_def intro: same_table_trans)

lemma stage_keeps:
  assumes "stage V D F t0 s" and "keeps V {} (snd s) w'"
  shows "stage V D F t0 (fst s, w')"
proof -
  have "linked V D (fst s, w')" "\<And>i. i < length (peers (fst s)) \<Longrightarrow>
      link V w' (peers (fst s) ! i) = link V (snd s) (peers (fst s) ! i)"
    using assms keeps_wf [OF assms(2)] keeps_used [OF assms(2)] keeps_srv [OF assms(2)]
      keeps_out [OF assms(2)]
    unfolding stage_def linked_def link_def by (auto intro!: map_option_cong)
  then show ?thesis
    using assms(1) by (simp add: stage_def)
qed

end
