(* ===== verification/Partition.thy ===== *)
theory Partition
  imports Table
begin

section \<open>Routing a request: staging, partition, the error for an unroutable id\<close>

text \<open>
  \<open>_staging_for\<close>, \<open>_workspace_for\<close>, \<open>_partition\<close> and \<open>_raise_unroutable\<close> of
  \<open>PLERemoteTable\<close>: everything a gather decides before any byte is sent.  The staging tensor is
  its list of rows; the two mask arrays and \<open>_take\<close> are only their common length.
\<close>

definition staging_for :: "'w net \<Rightarrow> nat \<Rightarrow> ('w, unit) tprog" where
  "staging_for E n = bnd (gets fst) (\<lambda>t.
     if (case staging t of None \<Rightarrow> True | Some st \<Rightarrow> length st < n)
     then upd (\<lambda>t. t\<lparr>staging := Some (replicate (max n 4096)
       (replicate (nat (t_row_bytes t)) (n_junk E)))\<rparr>)
     else ret ())"

definition workspace_for :: "nat \<Rightarrow> ('w, unit) tprog" where
  "workspace_for n = bnd (gets fst) (\<lambda>t.
     if workspace t < n then upd (\<lambda>t. t\<lparr>workspace := max n 4096\<rparr>) else ret ())"

definition owns_id :: "peer \<Rightarrow> int \<Rightarrow> bool" where
  "owns_id p x \<longleftrightarrow> int (base_row p) \<le> x \<and> x < int (base_row p + row_count p)"

definition positions :: "int list \<Rightarrow> peer \<Rightarrow> nat list" where
  "positions ids p = filter (\<lambda>j. owns_id p (ids ! j)) [0..<length ids]"

primrec partition_loop :: "int list \<Rightarrow> nat list \<Rightarrow> nat \<Rightarrow> ('w, nat) tprog" where
  "partition_loop ids [] routed = ret routed"
| "partition_loop ids (i # is) routed = bnd (gets fst) (\<lambda>t.
     let s = positions ids (peers t ! i) in
     if int (length s) > max_rows t
     then raise (Exn ValueError (TooManyRows (length s) (nat (max_rows t))))
     else seq (upd (\<lambda>t. t\<lparr>sel := (sel t)[i := s]\<rparr>)) (partition_loop ids is (routed + length s)))"

definition partition_ids :: "int list \<Rightarrow> ('w, nat) tprog" where
  "partition_ids ids = bnd (gets peer_indices) (\<lambda>is. partition_loop ids is 0)"

definition covered :: "nat list list \<Rightarrow> nat \<Rightarrow> bool list" where
  "covered sels n = fold (\<lambda>s c. fold (\<lambda>j c. c[j := True]) s c) sels (replicate n False)"

definition raise_unroutable :: "int list \<Rightarrow> ('w, 'a) tprog" where
  "raise_unroutable ids = bnd (gets (\<lambda>s. sel (fst s))) (\<lambda>sels.
     case filter (\<lambda>j. \<not> covered sels (length ids) ! j) [0..<length ids] of
       [] \<Rightarrow> raise (Exn IndexError (NoSuchKey 0))
     | first # rest \<Rightarrow>
         raise (Exn IndexError (Unroutable (Suc (length rest)) (ids ! first) first)))"

subsection \<open>Positions\<close>

lemma set_positions: "set (positions ids p) = {j. j < length ids \<and> owns_id p (ids ! j)}"
  by (auto simp: positions_def)

lemma positions_sorted [simp]: "sorted (positions ids p)" "distinct (positions ids p)"
  by (simp_all add: positions_def sorted_wrt_filter)

lemma owns_id_owns: "owns_id p x \<longleftrightarrow> 0 \<le> x \<and> owns p (nat x)"
  by (auto simp: owns_id_def owns_def)

lemma length_filter_sum: "length (filter Q xs) = (\<Sum>x\<leftarrow>xs. if Q x then 1 else 0)"
  by (induction xs) auto

lemma sum_filter_swap:
  "(\<Sum>p\<leftarrow>ps. length (filter (P p) xs)) = (\<Sum>x\<leftarrow>xs. length (filter (\<lambda>p. P p x) ps))"
proof (induction ps)
  case Nil
  then show ?case by (simp add: sum_list_triv)
next
  case (Cons p ps)
  have "(\<Sum>x\<leftarrow>xs. length (filter (\<lambda>p. P p x) (p # ps))) =
      (\<Sum>x\<leftarrow>xs. (if P p x then 1 else 0) + length (filter (\<lambda>p. P p x) ps))"
    by (intro arg_cong [of _ _ sum_list] map_cong) auto
  then show ?case
    using Cons by (simp add: sum_list_addf length_filter_sum [of "P p" xs])
qed

lemma map_nth_filter: "length (filter (\<lambda>j. Q (xs ! j)) [0..<length xs]) = length (filter Q xs)"
proof -
  have "filter Q xs = map ((!) xs) (filter (\<lambda>j. Q (xs ! j)) [0..<length xs])"
    using filter_map [of Q "(!) xs" "[0..<length xs]"] by (simp add: map_nth o_def)
  then show ?thesis
    by (metis length_map)
qed

text \<open>The ids routed are counted once per owner, so under a tiling they count the ids in range.\<close>

lemma routed_sum:
  assumes "tiling ps 0 n"
  shows "(\<Sum>p\<leftarrow>ps. length (positions ids p)) = length (filter (\<lambda>x. 0 \<le> x \<and> x < int n) ids)"
proof -
  have "length (filter (\<lambda>p. owns_id p x) ps) = (if 0 \<le> x \<and> x < int n then 1 else 0)" for x
  proof (cases "0 \<le> x")
    case True
    then have "length (filter (\<lambda>p. owns_id p x) ps) = owners ps (nat x)"
      by (simp add: owns_id_owns owners_def)
    then show ?thesis
      using assms True by (simp add: tiling_def nat_less_iff)
  qed (simp add: owns_id_owns)
  then have "(\<Sum>x\<leftarrow>ids. length (filter (\<lambda>p. owns_id p x) ps)) =
      (\<Sum>x\<leftarrow>ids. if 0 \<le> x \<and> x < int n then 1 else 0)"
    by simp
  moreover have "(\<Sum>p\<leftarrow>ps. length (positions ids p)) = (\<Sum>p\<leftarrow>ps. length (filter (owns_id p) ids))"
    unfolding positions_def by (simp add: map_nth_filter)
  ultimately show ?thesis
    by (simp only: sum_filter_swap length_filter_sum [of _ ids])
qed

subsection \<open>What \<open>_partition\<close> does\<close>

definition fits :: "table \<Rightarrow> int list \<Rightarrow> peer \<Rightarrow> bool" where
  "fits t ids p \<longleftrightarrow> int (length (positions ids p)) \<le> max_rows t"

lemma partition_loop_run:
  assumes "length (sel (fst s)) = length (peers (fst s))" and "k \<le> length (peers (fst s))"
  shows "(\<forall>p\<in>set (drop k (peers (fst s))). fits (fst s) ids p) \<Longrightarrow>
      partition_loop ids [k..<length (peers (fst s))] r s =
        (Inr (r + (\<Sum>p\<leftarrow>drop k (peers (fst s)). length (positions ids p))),
         ((fst s)\<lparr>sel := take k (sel (fst s)) @ map (positions ids) (drop k (peers (fst s)))\<rparr>, snd s))"
    and "p \<in> set (drop k (peers (fst s))) \<Longrightarrow> \<not> fits (fst s) ids p \<Longrightarrow>
      \<exists>q ss. q \<in> set (peers (fst s)) \<and> \<not> fits (fst s) ids q \<and>
      length ss = length (sel (fst s)) \<and>
      partition_loop ids [k..<length (peers (fst s))] r s =
        (Inl (Exn ValueError (TooManyRows (length (positions ids q)) (nat (max_rows (fst s))))),
         ((fst s)\<lparr>sel := ss\<rparr>, snd s))"
proof -
  have "((\<forall>p\<in>set (drop k (peers (fst s))). fits (fst s) ids p) \<longrightarrow>
      partition_loop ids [k..<length (peers (fst s))] r s =
        (Inr (r + (\<Sum>p\<leftarrow>drop k (peers (fst s)). length (positions ids p))),
         ((fst s)\<lparr>sel := take k (sel (fst s)) @ map (positions ids) (drop k (peers (fst s)))\<rparr>, snd s)))
    \<and> ((\<exists>p\<in>set (drop k (peers (fst s))). \<not> fits (fst s) ids p) \<longrightarrow>
      (\<exists>q ss. q \<in> set (peers (fst s)) \<and> \<not> fits (fst s) ids q \<and>
      length ss = length (sel (fst s)) \<and>
      partition_loop ids [k..<length (peers (fst s))] r s =
        (Inl (Exn ValueError (TooManyRows (length (positions ids q)) (nat (max_rows (fst s))))),
         ((fst s)\<lparr>sel := ss\<rparr>, snd s))))"
    using assms
  proof (induction "length (peers (fst s)) - k" arbitrary: k r s)
    case 0
    then show ?case
      by (simp add: ret_run)
  next
    case (Suc m)
    let ?ps = "peers (fst s)" and ?s = "positions ids (peers (fst s) ! k)"
    let ?t = "((fst s)\<lparr>sel := (sel (fst s))[k := ?s]\<rparr>, snd s)"
    have k: "k < length ?ps"
      using Suc.hyps(2) by simp
    have d: "drop k ?ps = ?ps ! k # drop (Suc k) ?ps"
      using k by (simp add: Cons_nth_drop_Suc)
    have run: "partition_loop ids [k..<length ?ps] r s =
      (if \<not> fits (fst s) ids (?ps ! k)
       then (Inl (Exn ValueError (TooManyRows (length ?s) (nat (max_rows (fst s))))), s)
       else partition_loop ids [Suc k..<length ?ps] (r + length ?s) ?t)"
      using k by (simp add: upt_conv_Cons Let_def fits_def raise_run not_le)
    have f: "fits (fst ?t) ids = fits (fst s) ids"
      by (simp add: fits_def fun_eq_iff)
    have "m = length (peers (fst ?t)) - Suc k" "length (sel (fst ?t)) = length (peers (fst ?t))"
      "Suc k \<le> length (peers (fst ?t))"
      using Suc k by simp_all
    note ih = Suc.hyps(1) [OF this, of "r + length ?s", unfolded f]
    have tk: "take (Suc k) ((sel (fst s))[k := ?s]) = take k (sel (fst s)) @ [?s]"
      using k Suc.prems by (simp add: take_Suc_conv_app_nth)
    show ?case
    proof (cases "fits (fst s) ids (?ps ! k)")
      case False
      then show ?thesis
        using run k d by (auto intro!: exI [of _ "?ps ! k"] exI [of _ "sel (fst s)"])
    next
      case True
      then show ?thesis
        using run ih d tk by (auto simp: add.assoc)
    qed
  qed
  then show "(\<forall>p\<in>set (drop k (peers (fst s))). fits (fst s) ids p) \<Longrightarrow>
      partition_loop ids [k..<length (peers (fst s))] r s =
        (Inr (r + (\<Sum>p\<leftarrow>drop k (peers (fst s)). length (positions ids p))),
         ((fst s)\<lparr>sel := take k (sel (fst s)) @ map (positions ids) (drop k (peers (fst s)))\<rparr>, snd s))"
    and "p \<in> set (drop k (peers (fst s))) \<Longrightarrow> \<not> fits (fst s) ids p \<Longrightarrow>
      \<exists>q ss. q \<in> set (peers (fst s)) \<and> \<not> fits (fst s) ids q \<and>
      length ss = length (sel (fst s)) \<and>
      partition_loop ids [k..<length (peers (fst s))] r s =
        (Inl (Exn ValueError (TooManyRows (length (positions ids q)) (nat (max_rows (fst s))))),
         ((fst s)\<lparr>sel := ss\<rparr>, snd s))"
    by blast+
qed

lemma partition_ids_ok:
  assumes "length (sel (fst s)) = length (peers (fst s))"
    and "\<forall>p\<in>set (peers (fst s)). fits (fst s) ids p"
  shows "partition_ids ids s =
    (Inr (\<Sum>p\<leftarrow>peers (fst s). length (positions ids p)),
     ((fst s)\<lparr>sel := map (positions ids) (peers (fst s))\<rparr>, snd s))"
  using partition_loop_run(1) [of s 0 ids 0] assms by (simp add: partition_ids_def peer_indices_def)

lemma partition_ids_over:
  assumes "length (sel (fst s)) = length (peers (fst s))"
    and "p \<in> set (peers (fst s))" and "\<not> fits (fst s) ids p"
  shows "\<exists>q ss. q \<in> set (peers (fst s)) \<and> \<not> fits (fst s) ids q \<and> length ss = length (sel (fst s)) \<and>
    partition_ids ids s =
      (Inl (Exn ValueError (TooManyRows (length (positions ids q)) (nat (max_rows (fst s))))),
       ((fst s)\<lparr>sel := ss\<rparr>, snd s))"
  using partition_loop_run(2) [of s 0 p ids 0] assms by (simp add: partition_ids_def peer_indices_def)

subsection \<open>What \<open>_raise_unroutable\<close> reports\<close>

lemma nth_mark: "j < length c \<Longrightarrow> c[a := True] ! j \<longleftrightarrow> c ! j \<or> j = a"
  by (cases "j = a") auto

lemma fold_mark: "length (fold (\<lambda>j c. c[j := True]) js c) = length c"
  "j < length c \<Longrightarrow> fold (\<lambda>j c. c[j := True]) js c ! j \<longleftrightarrow> c ! j \<or> j \<in> set js"
  by (induction js arbitrary: c) (auto simp: nth_mark)

lemma covered_fold:
  "length (fold (\<lambda>s c. fold (\<lambda>j c. c[j := True]) s c) sels c) = length c"
  "j < length c \<Longrightarrow> fold (\<lambda>s c. fold (\<lambda>j c. c[j := True]) s c) sels c ! j \<longleftrightarrow>
     c ! j \<or> (\<exists>s\<in>set sels. j \<in> set s)"
  by (induction sels arbitrary: c) (auto simp: fold_mark)

lemma covered_iff: "j < n \<Longrightarrow> covered sels n ! j \<longleftrightarrow> (\<exists>s\<in>set sels. j \<in> set s)"
  by (simp add: covered_def covered_fold)

lemma routed_iff:
  assumes "tiling ps 0 n" and "j < length ids"
  shows "(\<exists>s\<in>set (map (positions ids) ps). j \<in> set s) \<longleftrightarrow> 0 \<le> ids ! j \<and> ids ! j < int n"
proof -
  have "(\<exists>s\<in>set (map (positions ids) ps). j \<in> set s) \<longleftrightarrow> (\<exists>p\<in>set ps. owns_id p (ids ! j))"
    using assms(2) by (auto simp: set_positions)
  also have "\<dots> \<longleftrightarrow> 0 \<le> ids ! j \<and> 0 < owners ps (nat (ids ! j))"
    by (auto simp: owns_id_owns owners_pos)
  also have "\<dots> \<longleftrightarrow> 0 \<le> ids ! j \<and> ids ! j < int n"
    using assms(1) by (auto simp: tiling_def nat_less_iff)
  finally show ?thesis .
qed

lemma raise_unroutable_run:
  assumes "tiling (peers (fst s)) 0 n" and "sel (fst s) = map (positions ids) (peers (fst s))"
    and "\<exists>x\<in>set ids. \<not> (0 \<le> x \<and> x < int n)"
  shows "\<exists>first < length ids. (\<forall>j<first. 0 \<le> ids ! j \<and> ids ! j < int n) \<and>
    \<not> (0 \<le> ids ! first \<and> ids ! first < int n) \<and>
    raise_unroutable ids s = (Inl (Exn IndexError (Unroutable
      (length (filter (\<lambda>x. \<not> (0 \<le> x \<and> x < int n)) ids)) (ids ! first) first)), s)"
proof -
  let ?bad = "\<lambda>x. \<not> (0 \<le> x \<and> x < int n)"
  let ?js = "filter (\<lambda>j. ?bad (ids ! j)) [0..<length ids]"
  have js: "filter (\<lambda>j. \<not> covered (sel (fst s)) (length ids) ! j) [0..<length ids] = ?js"
    by (rule filter_cong) (use routed_iff [OF assms(1)] covered_iff in \<open>auto simp: assms(2)\<close>)
  have len: "length ?js = length (filter ?bad ids)"
    by (rule map_nth_filter)
  have "filter ?bad ids \<noteq> []"
    using assms(3) by (auto simp: filter_empty_conv)
  then obtain first rest where f: "?js = first # rest"
    using len by (cases ?js) auto
  have "first \<in> set ?js" "sorted ?js" "distinct ?js"
    by (subst f, simp) (simp_all add: sorted_wrt_filter)
  moreover have "j \<notin> set ?js" if "j < first" for j
    using calculation(2) that f by auto
  moreover have "raise_unroutable ids s =
      (Inl (Exn IndexError (Unroutable (length ?js) (ids ! first) first)), s)"
    using js f by (simp add: raise_unroutable_def raise_run)
  ultimately show ?thesis
    using len by (intro exI [of _ first]) auto
qed

end
