(* ===== verification/Exchange.thy ===== *)
theory Exchange
  imports Partition "HOL-Library.AList"
begin

section \<open>One exchange: send, read, drain, reissue\<close>

text \<open>
  \<open>_exchange\<close> and \<open>_drain\<close> of \<open>PLERemoteTable\<close>.  \<open>active\<close> is the list of (peer, positions) pairs;
  a peer is its index.  \<open>waiting\<close> is the dictionary from socket to peer, in insertion order.
\<close>

type_synonym work = "(nat \<times> nat list) list"

subsection \<open>Draining several bodies\<close>

fun drain_ready ::
  "'w net \<Rightarrow> nat list \<Rightarrow> (nat \<times> nat) list \<Rightarrow> ('w, (nat \<times> nat) list) tprog" where
  "drain_ready E [] waiting = ret waiting"
| "drain_ready E (k # ready) waiting = (case map_of waiting k of
     None \<Rightarrow> raise (Exn KeyError (NotWaiting k))
   | Some i \<Rightarrow> bnd (on_peer i (pump_rows E)) (\<lambda>done.
       drain_ready E ready (if done then AList.delete k waiting else waiting)))"

definition drain_select :: "'w net \<Rightarrow> nat list \<Rightarrow> rat \<Rightarrow> ('w, nat list) tprog" where
  "drain_select E ks dl = bnd (gets (\<lambda>s. t_timeout (fst s))) (\<lambda>tmo. bnd (now E) (\<lambda>t.
     let wait = min tmo (dl - t) in
     bnd (if wait > 0 then io (n_select E ks wait) else ret []) (\<lambda>ready.
     if ready = []
     then raise (Exn TimeoutError (if wait > 0 then SelectNoData wait else SelectDeadlinePassed))
     else ret ready)))"

text \<open>What is left to read: the termination measure of the loop.\<close>

definition unread :: "peer list \<Rightarrow> (nat \<times> nat) list \<Rightarrow> nat" where
  "unread ps waiting = (\<Sum>(k, i)\<leftarrow>waiting.
     Suc (if i < length ps then rd_want (ps ! i) - rd_got (ps ! i) else 0))"

lemma on_peer_Inr:
  assumes "on_peer i m s = (Inr x, s')"
  obtains p' w' where "i < length (peers (fst s))" "m (peers (fst s) ! i, snd s) = (Inr x, (p', w'))"
    "s' = ((fst s)\<lparr>peers := (peers (fst s))[i := p']\<rparr>, w')"
  using assms by (auto simp: on_peer_def split: if_splits prod.splits)

lemma unread_mono:
  assumes "\<And>i. i < length ps \<Longrightarrow> rd_want (qs ! i) - rd_got (qs ! i) \<le> rd_want (ps ! i) - rd_got (ps ! i)"
    and "length qs = length ps"
  shows "unread qs waiting \<le> unread ps waiting"
  unfolding unread_def using assms by (auto intro!: sum_list_mono)

lemma unread_delete: "unread ps (AList.delete k waiting) \<le> unread ps waiting"
  by (induction waiting) (auto simp: unread_def)

lemma unread_less:
  assumes "(k, i) \<in> set waiting" and "i < length ps"
    and "rd_want p - rd_got p < rd_want (ps ! i) - rd_got (ps ! i)"
  shows "unread (ps[i := p]) waiting < unread ps waiting"
proof -
  have "unread (ps[i := p]) ws \<le> unread ps ws" for ws
    by (rule unread_mono) (use assms(2,3) in \<open>auto simp: nth_list_update\<close>)
  then show ?thesis
    using assms
  proof (induction waiting)
    case (Cons x ws)
    have le: "unread (ps[i := p]) ws \<le> unread ps ws"
      by (rule Cons.prems(1))
    show ?case
    proof (cases "x = (k, i)")
      case True
      then show ?thesis
        using le Cons.prems(3,4) by (simp add: unread_def)
    next
      case False
      then have "unread (ps[i := p]) ws < unread ps ws"
        using Cons by auto
      moreover have "unread (ps[i := p]) [x] \<le> unread ps [x]"
        by (rule Cons.prems(1))
      ultimately show ?thesis
        by (auto simp: unread_def split: prod.splits)
    qed
  qed simp
qed

lemma drain_ready_unread:
  assumes "drain_ready E ready waiting s = (Inr waiting', s')"
  shows "unread (peers (fst s')) waiting' \<le> unread (peers (fst s)) waiting"
    and "ready \<noteq> [] \<Longrightarrow> unread (peers (fst s')) waiting' < unread (peers (fst s)) waiting"
proof -
  have "unread (peers (fst s')) waiting' \<le> unread (peers (fst s)) waiting \<and>
    (ready \<noteq> [] \<longrightarrow> unread (peers (fst s')) waiting' < unread (peers (fst s)) waiting)"
    using assms
  proof (induction ready arbitrary: waiting s)
    case Nil
    then show ?case by (simp add: ret_run)
  next
    case (Cons k ready)
    obtain i where i: "map_of waiting k = Some i"
      using Cons.prems by (auto simp: raise_run split: option.splits)
    obtain b s1 where 1: "on_peer i (pump_rows E) s = (Inr b, s1)"
      and 2: "drain_ready E ready (if b then AList.delete k waiting else waiting) s1 = (Inr waiting', s')"
      using Cons.prems i by (auto elim!: bnd_InrE)
    obtain p' w' where p: "i < length (peers (fst s))"
      "pump_rows E (peers (fst s) ! i, snd s) = (Inr b, (p', w'))"
      and s1: "s1 = ((fst s)\<lparr>peers := (peers (fst s))[i := p']\<rparr>, w')"
      using 1 by (rule on_peer_Inr)
    have "rd_want p' - rd_got p' < rd_want (peers (fst s) ! i) - rd_got (peers (fst s) ! i)"
      using pump_rows_less [OF p(2) [symmetric]] by simp
    then have "unread (peers (fst s1)) waiting < unread (peers (fst s)) waiting"
      using unread_less [OF map_of_SomeD [OF i] p(1)] s1 by simp
    moreover have "unread (peers (fst s')) waiting' \<le>
        unread (peers (fst s1)) (if b then AList.delete k waiting else waiting)"
      using Cons.IH [OF 2] by simp
    moreover have "unread (peers (fst s1)) (if b then AList.delete k waiting else waiting) \<le>
        unread (peers (fst s1)) waiting"
      using unread_delete by auto
    ultimately show ?case
      by simp
  qed
  then show "unread (peers (fst s')) waiting' \<le> unread (peers (fst s)) waiting"
    "ready \<noteq> [] \<Longrightarrow> unread (peers (fst s')) waiting' < unread (peers (fst s)) waiting"
    by auto
qed

lemma drain_select_frame:
  "drain_select E ks dl s = (r, s') \<Longrightarrow> fst s' = fst s \<and> (\<forall>ready. r = Inr ready \<longrightarrow> ready \<noteq> [])"
  by (auto simp: drain_select_def bnd_def Let_def raise_run ret_run dest!: now_fst io_fst
      split: prod.splits sum.splits if_splits)

lemma drain_step_less:
  assumes "(Inr ready, s1) = drain_select E ks dl s"
    and "(Inr waiting', s2) = drain_ready E ready waiting s1"
  shows "unread (peers (fst s2)) waiting' < unread (peers (fst s)) waiting"
  using drain_select_frame [OF assms(1) [symmetric]] drain_ready_unread(2) [OF assms(2) [symmetric]]
  by simp

function drain_loop :: "'w net \<Rightarrow> rat \<Rightarrow> (nat \<times> nat) list \<Rightarrow> ('w, unit) tprog" where
  "drain_loop E dl waiting s =
     (if waiting = [] then (Inr (), s)
      else (case drain_select E (map fst waiting) dl s of
          (Inl e, s1) \<Rightarrow> (Inl e, s1)
        | (Inr ready, s1) \<Rightarrow> (case drain_ready E ready waiting s1 of
              (Inl e, s2) \<Rightarrow> (Inl e, s2)
            | (Inr waiting', s2) \<Rightarrow> drain_loop E dl waiting' s2)))"
  by pat_completeness auto
termination
  by (relation "measure (\<lambda>(E, dl, waiting, s). unread (peers (fst s)) waiting)")
    (auto dest: drain_step_less)

declare drain_loop.simps [simp del]

primrec waiting_for :: "nat list \<Rightarrow> (nat \<times> nat) list \<Rightarrow> ('w, (nat \<times> nat) list) tprog" where
  "waiting_for [] waiting = ret waiting"
| "waiting_for (i # is) waiting = bnd (on_peer i (gets (\<lambda>s. sock (fst s)))) (\<lambda>so.
     case so of
       None \<Rightarrow> raise (Exn TypeError NoSocket)
     | Some k \<Rightarrow> waiting_for is (AList.update k i waiting))"

definition drain :: "'w net \<Rightarrow> nat list \<Rightarrow> rat \<Rightarrow> ('w, unit) tprog" where
  "drain E is dl = bnd (waiting_for is []) (drain_loop E dl)"

subsection \<open>Attempts\<close>

definition GATHER_ATTEMPTS :: nat where "GATHER_ATTEMPTS = 3"

definition prepare :: "'w net \<Rightarrow> rat \<Rightarrow> nat \<times> nat list \<Rightarrow> ('w, unit) tprog" where
  "prepare E dl x =
     seq (on_peer (fst x) (upd (\<lambda>p. p\<lparr>answered := False\<rparr>)))
     (bnd (on_peer (fst x) (gets (\<lambda>s. sock (fst s)))) (\<lambda>so.
     if so = None
     then seq (connect_peer E (fst x) dl)
            (bnd (stat_peer E (fst x)) (\<lambda>st. on_peer (fst x) (check_range st)))
     else ret ()))"

definition ask :: "'w net \<Rightarrow> nat \<times> nat list \<Rightarrow> ('w, unit) tprog" where
  "ask E x = bnd next_req_id (\<lambda>r. on_peer (fst x) (send_gather E r (length (snd x))))"

definition begin_answer :: "'w net \<Rightarrow> nat \<times> nat list \<Rightarrow> ('w, unit) tprog" where
  "begin_answer E x = on_peer (fst x) (begin_rows E (length (snd x)))"

definition read_bodies :: "'w net \<Rightarrow> rat \<Rightarrow> work \<Rightarrow> ('w, unit) tprog" where
  "read_bodies E dl todo =
     (if length todo > 1 then drain E (map fst todo) dl
      else (case todo of
              [] \<Rightarrow> raise (Exn IndexError (NoSuchKey 0))
            | x # _ \<Rightarrow> on_peer (fst x) (finish_rows E)))"

definition attempt :: "'w net \<Rightarrow> rat \<Rightarrow> work \<Rightarrow> ('w, unit) tprog" where
  "attempt E dl todo =
     seq (each todo (prepare E dl))
     (seq (each todo (ask E))
     (seq (each todo (begin_answer E))
     (read_bodies E dl todo)))"

definition unanswered :: "work \<Rightarrow> table \<times> 'w \<Rightarrow> work" where
  "unanswered todo s = filter (\<lambda>x. \<not> answered (peers (fst s) ! fst x)) todo"

definition abort_all :: "'w net \<Rightarrow> work \<Rightarrow> ('w, unit) tprog" where
  "abort_all E todo = each todo (\<lambda>x. on_peer (fst x) (peer_close E True))"

text \<open>
  The \<open>for attempt in range(...)\<close> loop, counting the attempts left.  A recovery reads the clock
  once for its log line.
\<close>

primrec exchange_loop :: "'w net \<Rightarrow> rat \<Rightarrow> nat \<Rightarrow> work \<Rightarrow> ('w, unit) tprog" where
  "exchange_loop E dl 0 todo = ret ()"
| "exchange_loop E dl (Suc left) todo =
     handle
       (seq (attempt E dl todo)
         (if Suc left < GATHER_ATTEMPTS then bnd (now E) (\<lambda>_. ret ()) else ret ()))
       is_os_error
       (\<lambda>e. bnd (gets (unanswered todo)) (\<lambda>todo'.
          seq (abort_all E todo')
          (if left = 0 then raise e
           else bnd (now E) (\<lambda>t. if t \<ge> dl then raise e else exchange_loop E dl left todo'))))"

definition set_deadline :: "rat option \<Rightarrow> nat \<Rightarrow> table \<Rightarrow> table" where
  "set_deadline d i t = t\<lparr>peers := (peers t)[i := (peers t ! i)\<lparr>deadline := d\<rparr>]\<rparr>"

definition set_deadlines :: "rat option \<Rightarrow> work \<Rightarrow> table \<Rightarrow> table" where
  "set_deadlines d active = fold (\<lambda>x. set_deadline d (fst x)) active"

definition exchange :: "'w net \<Rightarrow> work \<Rightarrow> ('w, unit) tprog" where
  "exchange E active = bnd (now E) (\<lambda>start.
     bnd (gets (\<lambda>s. start + gather_deadline (fst s))) (\<lambda>dl.
     seq (upd (set_deadlines (Some dl) active))
     (ensure (exchange_loop E dl GATHER_ATTEMPTS active)
       (\<lambda>s. (set_deadlines None active (fst s), snd s)))))"

end
