(* ===== verification/Exchange_Sync.thy ===== *)
theory Exchange_Sync
  imports Link Exchange
begin

section \<open>An exchange over an honest network\<close>

text \<open>
  The phases of an exchange, peer by peer.  A network is \<open>trusted\<close> when the servers that can be
  reached agree with one table \<open>truth\<close> on the rows they serve.  Against a reference peer \<open>q\<close> (its
  range, its buffers' capacity, the ids written for it) a peer is \<open>idle\<close>, \<open>asked\<close>, \<open>reading\<close> or has
  \<open>got\<close> its whole answer; whatever fails leaves it \<open>safe\<close>: if it counts as answered, it has got it.
\<close>

locale trusted_net = honest_net reply base count width row E V deployed
  for reply :: "'s \<Rightarrow> byte list \<Rightarrow> byte list \<Rightarrow> bool"
    and base :: "'s \<Rightarrow> nat" and count :: "'s \<Rightarrow> nat" and width :: "'s \<Rightarrow> nat"
    and row :: "'s \<Rightarrow> nat \<Rightarrow> byte list"
    and E :: "'w net" and V :: "('w, 's) view" and deployed :: "'s \<Rightarrow> bool" +
  fixes truth :: "nat \<Rightarrow> byte list"
  assumes agree:
    "deployed s \<Longrightarrow> base s \<le> i \<Longrightarrow> i < base s + count s \<Longrightarrow> row s i = truth i"

text \<open>What of a peer an exchange leaves alone.\<close>

definition same_ident :: "peer \<Rightarrow> peer \<Rightarrow> bool" where
  "same_ident q p \<longleftrightarrow> base_row p = base_row q \<and> row_count p = row_count q \<and>
     row_bytes p = row_bytes q \<and> cap p = cap q \<and> req_ids p = req_ids q"

lemma same_ident_refl [simp, intro]: "same_ident p p"
  by (simp add: same_ident_def)

lemma same_ident_conn: "same_conn p p' \<Longrightarrow> same_ident q p \<Longrightarrow> same_ident q p'"
  by (auto simp: same_conn_def same_ident_def)

lemma buffered_conn: "same_conn p p' \<Longrightarrow> buffered p \<Longrightarrow> buffered p'"
  by (auto simp: same_conn_def buffered_def)

lemma link_on:
  assumes "ready_peer V D (p, w)" and "link V w p = Some (out, s)"
  obtains k where "sock p = Some k" "on_link V k (p, w)" "v_out V w k = out" "v_srv V w k = s"
    "D s"
  using assms by (auto simp: ready_peer_def link_def on_link_def)

lemma pumped_link:
  assumes "pumped V k (p, w) (p', w')" and "on_link V k (p, w)" and "ready_peer V D (p, w)"
  shows "effect V D (p, w) (p', w')" and "same_ident q p \<Longrightarrow> same_ident q p'"
    and "link V w' p' = Some (v_out V w' k, v_srv V w k)"
proof -
  have c: "same_conn p p'" "keeps V {k} w w'" "sock p = Some k" "sock p' = Some k"
    using assms by (auto simp: pumped_def on_link_def same_conn_def)
  then show "effect V D (p, w) (p', w')" "same_ident q p \<Longrightarrow> same_ident q p'"
    using assms(3) buffered_conn same_ident_conn by (auto simp: effect_def ready_peer_def)
  show "link V w' p' = Some (v_out V w' k, v_srv V w k)"
    using c keeps_srv [OF c(2)] assms(2) by (simp add: link_def on_link_def)
qed

text \<open>\<open>mix T Q F\<close>: the peers in \<open>T\<close> are at \<open>Q\<close>, the others where \<open>F\<close> says.\<close>

definition mix :: "nat set \<Rightarrow> 's stages \<Rightarrow> 's stages \<Rightarrow> 's stages" where
  "mix T Q F = (\<lambda>i. if i \<in> T then Q i else F i)"

lemma each_stage:
  fixes todo :: "(nat \<times> 'c) list"
  assumes step: "\<And>x F. x \<in> set todo \<Longrightarrow> F (fst x) = P (fst x) \<Longrightarrow>
      triple (stage V D F t0) (f x) (\<lambda>_. stage V D (F(fst x := Q (fst x))) t0)
        (\<lambda>e s. stage V D (F(fst x := W (fst x))) t0 s \<and> ok e)"
    and dist: "distinct (map fst todo)"
    and weak: "\<And>i p l. i \<in> fst ` set todo \<Longrightarrow> P i p l \<or> Q i p l \<Longrightarrow> W i p l"
  shows "triple (stage V D (mix (fst ` set todo) P F) t0) (each todo f)
    (\<lambda>_. stage V D (mix (fst ` set todo) Q F) t0)
    (\<lambda>e s. stage V D (mix (fst ` set todo) W F) t0 s \<and> ok e)"
proof -
  define I where "I ys zs = stage V D (mix (fst ` set zs) P (mix (fst ` set ys) Q F)) t0"
    for ys zs :: "(nat \<times> 'c) list"
  have "triple (I [] todo) (each todo f) (\<lambda>_. I todo [])
    (\<lambda>e s. stage V D (mix (fst ` set todo) W F) t0 s \<and> ok e)"
  proof (rule triple_each)
    fix ys x zs assume todo: "todo = ys @ x # zs"
    let ?G = "mix (fst ` set (x # zs)) P (mix (fst ` set ys) Q F)"
    have x: "fst x \<notin> fst ` set ys" "fst x \<notin> fst ` set zs"
      using dist todo by auto
    have G: "?G (fst x) = P (fst x)"
      by (simp add: mix_def)
    have "x \<in> set todo"
      using todo by simp
    note s = step [where F = ?G, OF this G]
    have 1: "?G(fst x := Q (fst x)) = mix (fst ` set zs) P (mix (fst ` set (ys @ [x])) Q F)"
      using x by (auto simp: mix_def fun_eq_iff)
    have 2: "mix (fst ` set todo) W F i p l" if "(?G(fst x := W (fst x))) i p l" for i p l
      using that weak [of i p l] todo by (auto simp: mix_def split: if_splits)
    show "triple (I ys (x # zs)) (f x) (\<lambda>_. I (ys @ [x]) zs)
      (\<lambda>e s. stage V D (mix (fst ` set todo) W F) t0 s \<and> ok e)"
      unfolding I_def using s unfolding 1
      by (rule triple_weaken) (auto intro: 2 elim!: stage_weaken)
  qed
  then show ?thesis
    by (simp add: I_def mix_def)
qed

definition halting :: "exn \<Rightarrow> bool" where
  "halting e \<longleftrightarrow> is_exception e \<or> exn_kind e = NoReturn"

lemma halting_exception [intro]: "is_exception e \<Longrightarrow> halting e"
  by (simp add: halting_def)

lemma halting_os: "is_os_error e \<Longrightarrow> halting e"
  by (simp add: halting_def os_error_is_exception)

text \<open>The ids written for a peer fit its buffer and the wire.\<close>

definition written :: "peer \<Rightarrow> nat \<Rightarrow> bool" where
  "written q n \<longleftrightarrow> n \<le> cap q \<and> (\<forall>i\<in>set (take n (req_ids q)). i < 2 ^ 32)"

context trusted_net begin

definition serves :: "'s \<Rightarrow> peer \<Rightarrow> bool" where
  "serves s q \<longleftrightarrow> deployed s \<and> base s = base_row q \<and> count s = row_count q \<and> width s = row_bytes q"

definition body :: "peer \<Rightarrow> nat \<Rightarrow> byte list" where
  "body q n = concat (map truth (take n (req_ids q)))"

definition idle :: "peer \<Rightarrow> peer \<Rightarrow> 's wire \<Rightarrow> bool" where
  "idle q p l \<longleftrightarrow> same_ident q p \<and> (\<exists>s. l = Some ([], s) \<and> serves s q)"

definition got :: "peer \<Rightarrow> nat \<Rightarrow> peer \<Rightarrow> 's wire \<Rightarrow> bool" where
  "got q n p l \<longleftrightarrow> idle q p l \<and> take (length (body q n)) (rows p) = body q n \<and>
     length (body q n) = n * row_bytes q \<and>
     (\<forall>i\<in>set (take n (req_ids q)). length (truth i) = row_bytes q)"

definition safe :: "peer \<Rightarrow> nat \<Rightarrow> peer \<Rightarrow> 's wire \<Rightarrow> bool" where
  "safe q n p l \<longleftrightarrow> same_ident q p \<and> (answered p \<longrightarrow> got q n p l)"

definition down :: "peer \<Rightarrow> peer \<Rightarrow> 's wire \<Rightarrow> bool" where
  "down q p l \<longleftrightarrow> \<not> answered p \<and> same_ident q p \<and> (l = None \<or> idle q p l)"

definition fresh :: "peer \<Rightarrow> peer \<Rightarrow> 's wire \<Rightarrow> bool" where
  "fresh q p l \<longleftrightarrow> \<not> answered p \<and> idle q p l"

definition asked :: "peer \<Rightarrow> nat \<Rightarrow> peer \<Rightarrow> 's wire \<Rightarrow> bool" where
  "asked q n p l \<longleftrightarrow> \<not> answered p \<and> same_ident q p \<and> (\<exists>s out rid h. l = Some (out, s) \<and> serves s q \<and>
     pack_request OP_GATHER 0 rid n = Inr h \<and> reply s (h @ id_bytes (take n (req_ids q))) out)"

definition receiving :: "peer \<Rightarrow> nat \<Rightarrow> peer \<Rightarrow> 's wire \<Rightarrow> bool" where
  "receiving q n p l \<longleftrightarrow> same_ident q p \<and> (\<exists>s out. l = Some (out, s) \<and> serves s q \<and>
     rd_want p = length (body q n) \<and> rd_got p \<le> length (body q n) \<and>
     length (body q n) \<le> length (rows p) \<and> take (rd_got p) (rows p) @ out = body q n) \<and>
     length (body q n) = n * row_bytes q \<and>
     (\<forall>i\<in>set (take n (req_ids q)). length (truth i) = row_bytes q)"

definition reading_body :: "peer \<Rightarrow> nat \<Rightarrow> peer \<Rightarrow> 's wire \<Rightarrow> bool" where
  "reading_body q n p l \<longleftrightarrow> \<not> answered p \<and> receiving q n p l"

lemma idle_on:
  assumes "idle q p (link V w p)" and "ready_peer V deployed (p, w)"
  obtains k s where "sock p = Some k" "on_link V k (p, w)" "v_out V w k = []" "v_srv V w k = s"
    "serves s q" "same_ident q p"
proof -
  obtain s where l: "link V w p = Some ([], s)" "serves s q" "same_ident q p"
    using assms(1) by (auto simp: idle_def)
  show thesis
    by (rule link_on [OF assms(2) l(1)]) (use l that in blast)
qed

lemma ask_step:
  assumes "send_gather E rid n (p, w) = (r, (p', w'))" and "ready_peer V deployed (p, w)"
    and "fresh q p (link V w p)" and "written q n" and "length (req_ids q) = cap q"
  shows "effect V deployed (p, w) (p', w') \<and>
    (case r of Inr _ \<Rightarrow> asked q n p' (link V w' p')
             | Inl e \<Rightarrow> safe q n p' (link V w' p') \<and> halting e)"
proof -
  obtain k s where k: "sock p = Some k" "on_link V k (p, w)" "v_out V w k = []" "v_srv V w k = s"
      "serves s q" "same_ident q p" "\<not> answered p"
    using assms(3) idle_on [OF _ assms(2)] unfolding fresh_def by blast
  note sent = send_gather_moved [OF assms(1) k(2)]
  note link = pumped_link [OF moved_pumped k(2) assms(2), of p' w']
  have a: "\<not> answered p'" "same_ident q p'"
    using sent(1) link(2) k(6,7) by (auto simp: moved_def same_link_def)
  show ?thesis
  proof (cases r)
    case (Inl e)
    then show ?thesis
      using sent(1) link a by (auto simp: safe_def)
  next
    case (Inr u)
    have "req_ids p = req_ids q"
      using k(6) by (simp add: same_ident_def)
    then show ?thesis
      using sent(1) sent(3) link a Inr k by (auto simp: asked_def)
  qed
qed

lemma answer_bytes:
  assumes "reply s (h @ id_bytes xs) out" and "pack_request OP_GATHER 0 rid (length xs) = Inr h"
    and "\<forall>i\<in>set xs. i < 2 ^ 32" and "serves s q"
  shows "refusal rid out \<or> (\<exists>g. pack_response rid 0 (length xs) = Inr g \<and>
      out = g @ concat (map truth xs) \<and> (\<forall>i\<in>set xs. length (truth i) = row_bytes q))"
proof (rule disjCI)
  assume "\<not> (\<exists>g. pack_response rid 0 (length xs) = Inr g \<and>
      out = g @ concat (map truth xs) \<and> (\<forall>i\<in>set xs. length (truth i) = row_bytes q))"
  moreover have "(\<exists>g. pack_response rid 0 (length xs) = Inr g \<and>
      out = g @ concat (map truth xs) \<and> (\<forall>i\<in>set xs. length (truth i) = row_bytes q))"
    if range: "\<forall>i\<in>set xs. base s \<le> i \<and> i < base s + count s"
      and g: "pack_response rid 0 (length xs) = Inr g" "out = g @ concat (map (row s) xs)" for g
  proof -
    have rows: "row s i = truth i \<and> length (truth i) = row_bytes q" if "i \<in> set xs" for i
      using range that agree [of s i] row_length [of s i] assms(4) by (auto simp: serves_def)
    then have "concat (map (row s) xs) = concat (map truth xs)"
      by (intro arg_cong [of _ _ concat] map_cong) auto
    then show ?thesis
      using g rows by auto
  qed
  ultimately show "refusal rid out"
    using reply_gather [OF assms(1,2,3)] by blast
qed

lemma length_concat_const: "\<forall>i\<in>set xs. length (f i) = w \<Longrightarrow> length (concat (map f xs)) = length xs * w"
  by (induction xs) auto

lemma begin_step:
  assumes "begin_rows E n (p, w) = (r, (p', w'))" and "ready_peer V deployed (p, w)"
    and "asked q n p (link V w p)" and "written q n" and "length (req_ids q) = cap q"
  shows "effect V deployed (p, w) (p', w') \<and>
    (case r of Inr _ \<Rightarrow> reading_body q n p' (link V w' p')
             | Inl e \<Rightarrow> safe q n p' (link V w' p') \<and> halting e)"
proof -
  let ?xs = "take n (req_ids q)"
  obtain s out rid h where a: "link V w p = Some (out, s)" "serves s q" "same_ident q p" "\<not> answered p"
    and h: "pack_request OP_GATHER 0 rid n = Inr h" "reply s (h @ id_bytes ?xs) out"
    using assms(3) by (auto simp: asked_def)
  obtain k where k: "sock p = Some k" "on_link V k (p, w)" "v_out V w k = out" "v_srv V w k = s"
    using link_on [OF assms(2) a(1)] by blast
  note m = begin_rows_moved [OF assms(1) k(2)]
  note link = pumped_link [OF moved_pumped k(2) assms(2), of p' w']
  have p': "\<not> answered p'" "same_ident q p'"
    using m link(2) a(3,4) by (auto simp: moved_def same_link_def)
  have n: "n \<le> cap q" "\<forall>i\<in>set ?xs. i < 2 ^ 32" "length ?xs = n"
    using assms(4,5) by (auto simp: written_def)
  show ?thesis
  proof (cases r)
    case (Inl e)
    then show ?thesis
      using m link p' by (auto simp: safe_def)
  next
    case (Inr u)
    have ok: "begin_rows E n (p, w) = (Inr (), (p', w'))"
      using assms(1) Inr by simp
    then obtain j t where "read_header E (p, w) = (Inr j, t)"
      by (auto simp: begin_rows_def elim!: bnd_InrE)
    then have "\<not> refusal rid out"
      using read_header_refused [OF _ k(2)] k(3) by auto
    then obtain g where g: "pack_response rid 0 n = Inr g" "out = g @ body q n"
        "\<forall>i\<in>set ?xs. length (truth i) = row_bytes q"
      using answer_bytes [of s h ?xs out rid q] h n a(2) unfolding body_def by auto
    have len: "length (body q n) = n * row_bytes q"
      using length_concat_const [OF g(3)] n(3) by (simp add: body_def)
    have rb: "row_bytes p = row_bytes q" "cap p = cap q"
      using a(3) by (auto simp: same_ident_def)
    have "n * row_bytes q \<le> length (rows p)"
      using assms(2) n(1) rb by (simp add: ready_peer_def buffered_def)
    then have "reading V k (body q n) (p', w')"
      using begin_rows_ok(2) [OF ok k(2) _ g(1), of "body q n"] k(3) g(2) len rb by simp
    then show ?thesis
      using m link p' Inr len g(3) a(2) k(4)
      by (auto simp: reading_body_def receiving_def reading_def)
  qed
qed

lemma receiving_on:
  assumes "receiving q n p (link V w p)" and "ready_peer V deployed (p, w)"
  obtains k s where "sock p = Some k" "on_link V k (p, w)" "v_srv V w k = s" "serves s q"
    "reading V k (body q n) (p, w)" "same_ident q p" "length (body q n) = n * row_bytes q"
    "\<forall>i\<in>set (take n (req_ids q)). length (truth i) = row_bytes q"
proof -
  obtain s out where l: "link V w p = Some (out, s)" "serves s q" "same_ident q p"
    "rd_want p = length (body q n)" "rd_got p \<le> length (body q n)"
    "length (body q n) \<le> length (rows p)" "take (rd_got p) (rows p) @ out = body q n"
    "length (body q n) = n * row_bytes q"
    "\<forall>i\<in>set (take n (req_ids q)). length (truth i) = row_bytes q"
    using assms(1) by (auto simp: receiving_def)
  show thesis
    by (rule link_on [OF assms(2) l(1)], rule that) (use l in \<open>auto simp: reading_def\<close>)
qed

text \<open>One receive: the body is complete and the peer answered, or it is still being read.\<close>

lemma pump_step:
  assumes "pump_rows E (p, w) = (r, (p', w'))" and "ready_peer V deployed (p, w)"
    and "reading_body q n p (link V w p)"
  shows "effect V deployed (p, w) (p', w') \<and>
    (case r of Inr b \<Rightarrow> (if b then got q n p' (link V w' p') else reading_body q n p' (link V w' p'))
             | Inl e \<Rightarrow> safe q n p' (link V w' p') \<and> halting e)"
proof -
  have rc: "receiving q n p (link V w p)" "\<not> answered p"
    using assms(3) by (auto simp: reading_body_def)
  obtain k s where k: "sock p = Some k" "on_link V k (p, w)" "v_srv V w k = s" "serves s q"
    "reading V k (body q n) (p, w)" "same_ident q p" "length (body q n) = n * row_bytes q"
    "\<forall>i\<in>set (take n (req_ids q)). length (truth i) = row_bytes q"
    using receiving_on [OF rc(1) assms(2)] by blast
  note m = pump_rows_step [OF assms(1) k(2)]
  note link = pumped_link [OF conjunct1 [OF m(1)] k(2) assms(2)]
  show ?thesis
  proof (cases r)
    case (Inl e)
    then show ?thesis
      using m link(1,2) k(6) rc(2) by (auto simp: safe_def)
  next
    case (Inr b)
    have rd: "reading V k (body q n) (p', w')" "answered p' = b"
      using m(3,4) Inr k(5) by auto
    show ?thesis
    proof (cases b)
      case True
      then have "rd_got p' = rd_want p'"
        using pump_rows_progress(1,4) [of E "(p, w)" b "(p', w')"] assms(1) Inr by simp
      then show ?thesis
        using reading_done [OF rd(1)] Inr True link k by (auto simp: got_def idle_def)
    next
      case False
      then show ?thesis
        using Inr rd link k by (auto simp: reading_body_def receiving_def reading_def)
    qed
  qed
qed

lemma finish_step:
  assumes "finish_rows E (p, w) = (r, (p', w'))" and "ready_peer V deployed (p, w)"
    and "reading_body q n p (link V w p)"
  shows "effect V deployed (p, w) (p', w') \<and>
    (case r of Inr _ \<Rightarrow> got q n p' (link V w' p')
             | Inl e \<Rightarrow> safe q n p' (link V w' p') \<and> halting e)"
proof -
  have rc: "receiving q n p (link V w p)" "\<not> answered p"
    using assms(3) by (auto simp: reading_body_def)
  obtain k s where k: "sock p = Some k" "on_link V k (p, w)" "v_srv V w k = s" "serves s q"
    "reading V k (body q n) (p, w)" "same_ident q p" "length (body q n) = n * row_bytes q"
    "\<forall>i\<in>set (take n (req_ids q)). length (truth i) = row_bytes q"
    using receiving_on [OF rc(1) assms(2)] by blast
  note m = finish_rows_step [OF assms(1) k(2), of "body q n"]
  have pu: "pumped V k (p, w) (p', w')"
    using m by blast
  note link = pumped_link [OF pu k(2) assms(2)]
  show ?thesis
  proof (cases r)
    case (Inl e)
    then show ?thesis
      using m link(1,2) k(6) rc(2) by (auto simp: safe_def)
  next
    case (Inr b)
    then have rd: "reading V k (body q n) (p', w')" "rd_got p' = rd_want p'"
      using m k(5) by auto
    show ?thesis
      using reading_done [OF rd(1)] rd(2) Inr link k by (auto simp: got_def idle_def)
  qed
qed

subsection \<open>Preparing a peer\<close>

lemma connect_loop_step:
  assumes "connect_loop fuel E ct tmo dl pause s = (r, s')" and "v_wf V (snd s)"
  shows "keeps V {} (snd s) (snd s') \<and> (\<forall>e. r = Inl e \<longrightarrow> halting e) \<and>
    same_link (fst s) ((fst s')\<lparr>sock := sock (fst s)\<rparr>) \<and>
    (sock (fst s') = sock (fst s) \<and> r \<noteq> Inr () \<or>
     (\<exists>k. sock (fst s') = Some k \<and> k \<notin> v_used V (snd s) \<and>
         k \<in> v_used V (snd s') \<and> v_out V (snd s') k = [] \<and> deployed (v_srv V (snd s') k)))"
  using assms
proof (induction fuel arbitrary: s pause)
  case 0
  then show ?case
    by (auto simp: raise_run halting_def same_link_def same_conn_def)
next
  case (Suc fuel)
  obtain t0 s0 where 0: "now E s = (Inr t0, s0)"
    using now_step(3) [OF _ Suc.prems(2)] by (cases "now E s") fastforce
  note n0 = now_step [OF 0 Suc.prems(2)]
  obtain rc s1 where 1: "peer_connect E (min ct (max (dl - t0) (1 / 1000))) tmo s0 = (rc, s1)"
    by (cases "peer_connect E (min ct (max (dl - t0) (1 / 1000))) tmo s0")
  note c = peer_connect_step [OF 1 keeps_wf [OF n0(2)]]
  have wf1: "v_wf V (snd s1)"
    using c by (blast intro: keeps_wf)
  obtain t1 s2 where 2: "now E s1 = (Inr t1, s2)"
    using now_step(3) [OF _ wf1] by (cases "now E s1") fastforce
  note n2 = now_step [OF 2 wf1]
  have used: "v_used V (snd s) \<subseteq> v_used V (snd s0)"
    using n0(2) by (auto simp: keeps_def)
  have k01: "keeps V {} (snd s) (snd s1)"
    by (rule keeps_trans [OF n0(2) conjunct1 [OF c]])
  have k02: "keeps V {} (snd s) (snd s2)"
    by (rule keeps_trans [OF k01 n2(2)])
  have fresh2: "\<exists>k. sock (fst s2) = Some k \<and> k \<notin> v_used V (snd s) \<and> k \<in> v_used V (snd s2) \<and>
      v_out V (snd s2) k = [] \<and> deployed (v_srv V (snd s2) k)" if "sock (fst s1) \<noteq> sock (fst s)"
    using c that n0(1) n2(1) used keeps_out [OF n2(2)] keeps_srv [OF n2(2)] keeps_used [OF n2(2)]
    by auto
  have l1: "same_link (fst s) ((fst s1)\<lparr>sock := sock (fst s)\<rparr>)"
    using c n0(1) by simp
  consider (ok) "rc = Inr ()" "r = Inr ()" "s' = s1"
    | (stop) e where "rc = Inl e" "r = Inl (Exn TimeoutError StillUnreachable)" "s' = s2"
    | (again) e w3 where "rc = Inl e" "w3 = n_sleep E (min pause (dl - t1)) (snd s2)"
        "connect_loop fuel E ct tmo dl (min (pause * 2) 5) (fst s2, w3) = (r, s')"
  proof (cases rc)
    case (Inl e)
    have "is_os_error e"
      using c Inl by simp
    then have run: "(if dl - t1 \<le> 0 then raise (Exn TimeoutError StillUnreachable)
       else seq (sleep E (min pause (dl - t1)))
              (connect_loop fuel E ct tmo dl (min (pause * 2) 5))) s2 = (r, s')"
      using Suc.prems(1) Inl 1 by (simp add: bnd_Inr [of "now E" s, OF 0] handle_def bnd_Inr [of "now E" s1, OF 2])
    show ?thesis
    proof (cases "dl - t1 \<le> 0")
      case True
      then show ?thesis
        using that(2) run Inl by (simp add: raise_run)
    next
      case False
      then show ?thesis
        using that(3) run Inl by (simp add: seq_def bnd_def sleep_def io_def)
    qed
  next
    case (Inr u)
    then show ?thesis
      using that(1) Suc.prems(1) 1 by (simp add: bnd_Inr [of "now E" s, OF 0] handle_def)
  qed
  then show ?case
  proof cases
    case ok
    then show ?thesis
      using c k01 l1 n0(1) used by auto
  next
    case stop
    then show ?thesis
      using k02 fresh2 l1 n2(1) by (auto simp: halting_def)
  next
    case again
    have k3: "keeps V {} (snd s2) w3"
      using sleep_keeps keeps_wf [OF k02] again(2) by simp
    have wf3: "v_wf V (snd (fst s2, w3))"
      using keeps_wf [OF k3] by simp
    note ih = Suc.IH [OF again(3) wf3, simplified]
    have k: "keeps V {} (snd s) (snd s')"
      by (rule keeps_trans [OF keeps_trans [OF k02 k3] conjunct1 [OF ih]])
    have link: "same_link (fst s) ((fst s')\<lparr>sock := sock (fst s)\<rparr>)"
      using l1 ih n2(1) by (auto simp: same_link_def same_conn_def)
    have sub: "v_used V (snd s) \<subseteq> v_used V w3"
      using k02 k3 by (auto simp: keeps_def)
    have stay: "\<exists>k. sock (fst s') = Some k \<and> k \<notin> v_used V (snd s) \<and> k \<in> v_used V (snd s') \<and>
        v_out V (snd s') k = [] \<and> deployed (v_srv V (snd s') k)"
      if new: "sock (fst s1) \<noteq> sock (fst s)" and same: "sock (fst s') = sock (fst s2)"
    proof -
      obtain k where k: "sock (fst s2) = Some k" "k \<notin> v_used V (snd s)" "k \<in> v_used V (snd s2)"
        "v_out V (snd s2) k = []" "deployed (v_srv V (snd s2) k)"
        using fresh2 [OF new] by blast
      have "keeps V {} (snd s2) (snd s')"
        by (rule keeps_trans [OF k3 conjunct1 [OF ih]])
      note k' = keeps_out [OF this k(3)] keeps_srv [OF this k(3)] keeps_used [OF this k(3)]
      show ?thesis
        using k same k' by auto
    qed
    show ?thesis
      using ih k link sub stay n2(1) by (cases "sock (fst s1) = sock (fst s)") auto
  qed
qed

definition dialled :: "peer \<Rightarrow> peer \<Rightarrow> 's wire \<Rightarrow> bool" where
  "dialled q p l \<longleftrightarrow> \<not> answered p \<and> same_ident q p \<and> (\<exists>s. l = Some ([], s) \<and> deployed s)"

definition heard :: "peer \<Rightarrow> stat \<Rightarrow> peer \<Rightarrow> 's wire \<Rightarrow> bool" where
  "heard q st p l \<longleftrightarrow> \<not> answered p \<and> same_ident q p \<and> (\<exists>s. l = Some ([], s) \<and> deployed s \<and>
     st_base_row st = base s \<and> st_row_count st = count s \<and> st_row_bytes st = width s)"

lemma dial_step:
  assumes "connect_loop fuel E ct tmo dl pause (p, w) = (r, (p', w'))"
    and "ready_peer V deployed (p, w)" and "\<not> answered p" and "same_ident q p"
  shows "effect V deployed (p, w) (p', w') \<and>
    (case r of Inr _ \<Rightarrow> dialled q p' (link V w' p')
             | Inl e \<Rightarrow> (\<not> answered p' \<and> same_ident q p') \<and> halting e)"
proof -
  have wf: "v_wf V (snd (p, w))"
    using assms(2) by (simp add: ready_peer_def)
  note c = connect_loop_step [OF assms(1) wf, simplified]
  have l: "same_link p (p'\<lparr>sock := sock p\<rparr>)" and "keeps V {} w w'"
    using c by blast+
  then have p': "\<not> answered p'" "same_ident q p'" "buffered p'" "keeps V (set_option (sock p)) w w'"
    using assms by (auto simp: same_link_def same_conn_def same_ident_def ready_peer_def buffered_def
        intro: keeps_mono)
  then show ?thesis
    using c by (cases r) (auto simp: effect_def dialled_def link_def)
qed

lemma hear_step:
  assumes "query_stat E rid (p, w) = (r, (p', w'))" and "ready_peer V deployed (p, w)"
    and "dialled q p (link V w p)"
  shows "effect V deployed (p, w) (p', w') \<and>
    (case r of Inr st \<Rightarrow> heard q st p' (link V w' p')
             | Inl e \<Rightarrow> (\<not> answered p' \<and> same_ident q p') \<and> halting e)"
proof -
  obtain s where l: "link V w p = Some ([], s)" "same_ident q p" "\<not> answered p" "deployed s"
    using assms(3) by (auto simp: dialled_def)
  obtain k where k: "sock p = Some k" "on_link V k (p, w)" "v_out V w k = []" "v_srv V w k = s"
    using link_on [OF assms(2) l(1)] by blast
  note m = query_stat_moved [OF assms(1) k(2)]
  note link = pumped_link [OF moved_pumped k(2) assms(2), of p' w']
  have p': "\<not> answered p'" "same_ident q p'"
    using m link(2) l(2,3) by (auto simp: moved_def same_link_def)
  show ?thesis
  proof (cases r)
    case (Inl e)
    then show ?thesis
      using m link p' by (auto simp: halting_def)
  next
    case (Inr st)
    then show ?thesis
      using m link p' k l(4) query_stat_ok [of rid "(p, w)" st "(p', w')" k] assms(1)
      by (auto simp: heard_def)
  qed
qed

lemma check_step:
  assumes "check_range st (p, w) = (r, (p', w'))" and "ready_peer V deployed (p, w)"
    and "heard q st p (link V w p)"
  shows "effect V deployed (p, w) (p', w') \<and>
    (case r of Inr _ \<Rightarrow> fresh q p' (link V w' p')
             | Inl e \<Rightarrow> (\<not> answered p' \<and> same_ident q p') \<and> halting e)"
proof -
  obtain s where h: "link V w p = Some ([], s)" "same_ident q p" "\<not> answered p" "deployed s"
    "st_base_row st = base s" "st_row_count st = count s" "st_row_bytes st = width s"
    using assms(3) by (auto simp: heard_def)
  have eff: "effect V deployed (p, w) (p, w)" "effect V deployed (p, w) (note_stat st p, w)"
    using assms(2) by (auto simp: effect_def ready_peer_def note_stat_def buffered_def)
  show ?thesis
    using assms(1) h eff
    by (auto simp: check_range_def raise_run note_stat_def fresh_def idle_def link_def serves_def
        same_ident_def halting_def split: if_splits)
qed

lemma quiet_step:
  assumes "ready_peer V deployed (p, w)"
  shows "effect V deployed (p, w) (p\<lparr>answered := b\<rparr>, w)" "effect V deployed (p, w) (p, w)"
  using assms by (auto simp: effect_def ready_peer_def buffered_def)

text \<open>\<open>prepare\<close> on a peer that may be down, and on one that is connected.\<close>

lemma prepare_down:
  assumes i: "fst x < length (peers t0)" and F: "F (fst x) = down q"
  shows "triple (stage V deployed F t0) (prepare E dl x)
    (\<lambda>_. stage V deployed (F(fst x := fresh q)) t0)
    (\<lambda>e s. stage V deployed (F(fst x := safe q n)) t0 s \<and> halting e)"
proof -
  let ?i = "fst x"
  let ?up = "\<lambda>p l. \<not> answered p \<and> same_ident q p"
  let ?R = "\<lambda>e s. stage V deployed (F(?i := ?up)) t0 s \<and> halting e"
  let ?G = "\<lambda>so p l. down q p l \<and> (so = None \<longleftrightarrow> l = None)"
  have "triple (stage V deployed F t0) (on_peer ?i (upd (\<lambda>p. p\<lparr>answered := False\<rparr>)))
     (\<lambda>_. stage V deployed (F(?i := down q)) t0) ?R"
    by (rule on_peer_triple [OF i])
      (use F quiet_step in \<open>auto simp: down_def same_ident_def link_def idle_def\<close>)
  moreover have "triple (stage V deployed (F(?i := down q)) t0) (on_peer ?i (gets (\<lambda>s. sock (fst s))))
     (\<lambda>so. stage V deployed (F(?i := ?G so)) t0) ?R"
    by (rule on_peer_triple [OF i, where F = "F(?i := down q)" and W = ?up, simplified fun_upd_upd])
      (use quiet_step in \<open>auto simp: link_def\<close>)
  moreover have "triple (stage V deployed (F(?i := ?G so)) t0)
     (if so = None then seq (connect_peer E ?i dl)
        (bnd (stat_peer E ?i) (\<lambda>st. on_peer ?i (check_range st))) else ret ())
     (\<lambda>_. stage V deployed (F(?i := fresh q)) t0) ?R" for so
  proof (cases "so = None")
    case False
    then show ?thesis
      by (auto intro!: triple_ret elim!: stage_weaken simp: down_def fresh_def split: if_splits)
  next
    case True
    have dial: "triple (stage V deployed (F(?i := ?G so)) t0) (connect_peer E ?i dl)
       (\<lambda>_. stage V deployed (F(?i := dialled q)) t0) ?R"
      unfolding connect_peer_def
      by (rule triple_gets, rule triple_pre [where P = "stage V deployed (F(?i := ?G so)) t0"],
          rule on_peer_triple [OF i, where F = "F(?i := ?G so)" and W = ?up, simplified fun_upd_upd])
        (use dial_step in \<open>auto simp: down_def\<close>)
    have hear: "triple (stage V deployed (F(?i := dialled q)) t0) (stat_peer E ?i)
       (\<lambda>st. stage V deployed (F(?i := heard q st)) t0) ?R"
      unfolding stat_peer_def
      by (rule triple_bnd [OF next_req_id_stage],
          rule on_peer_triple [OF i, where F = "F(?i := dialled q)" and W = ?up, simplified fun_upd_upd])
        (use hear_step in auto)
    have check: "triple (stage V deployed (F(?i := heard q st)) t0) (on_peer ?i (check_range st))
       (\<lambda>_. stage V deployed (F(?i := fresh q)) t0) ?R" for st
      by (rule on_peer_triple [OF i, where F = "F(?i := heard q st)" and W = ?up, simplified fun_upd_upd])
        (use check_step in auto)
    show ?thesis
      using True triple_seq [OF dial triple_bnd [OF hear check]] by simp
  qed
  ultimately have "triple (stage V deployed F t0) (prepare E dl x)
    (\<lambda>_. stage V deployed (F(?i := fresh q)) t0) ?R"
    unfolding prepare_def by (intro triple_seq triple_bnd) (simp_all only: fun_upd_upd)
  then show ?thesis
    by (rule triple_weaken) (auto elim!: stage_weaken simp: safe_def split: if_splits)
qed

lemma prepare_up:
  assumes i: "fst x < length (peers t0)" and F: "F (fst x) = idle q"
  shows "triple (stage V deployed F t0) (prepare E dl x)
    (\<lambda>_. stage V deployed (F(fst x := fresh q)) t0) (\<lambda>e s. False)"
proof -
  let ?i = "fst x"
  let ?R = "\<lambda>(e :: exn) s. stage V deployed (F(?i := (\<lambda>p l. True))) t0 s \<and> False"
  have "triple (stage V deployed F t0) (on_peer ?i (upd (\<lambda>p. p\<lparr>answered := False\<rparr>)))
     (\<lambda>_. stage V deployed (F(?i := fresh q)) t0) ?R"
    by (rule on_peer_triple [OF i])
      (use F quiet_step in \<open>auto simp: fresh_def same_ident_def link_def idle_def\<close>)
  moreover have "triple (stage V deployed (F(?i := fresh q)) t0) (on_peer ?i (gets (\<lambda>s. sock (fst s))))
     (\<lambda>so. stage V deployed (F(?i := (\<lambda>p l. fresh q p l \<and> so \<noteq> None))) t0) ?R"
    by (rule on_peer_triple [OF i, where F = "F(?i := fresh q)" and W = "\<lambda>p l. True", simplified fun_upd_upd])
      (use quiet_step in \<open>auto simp: link_def fresh_def idle_def\<close>)
  moreover have "triple (stage V deployed (F(?i := (\<lambda>p l. fresh q p l \<and> so \<noteq> None))) t0)
     (if so = None then seq (connect_peer E ?i dl)
        (bnd (stat_peer E ?i) (\<lambda>st. on_peer ?i (check_range st))) else ret ())
     (\<lambda>_. stage V deployed (F(?i := fresh q)) t0) ?R" for so
  proof (cases "so = None")
    case True
    have "\<not> stage V deployed (F(?i := (\<lambda>p l. fresh q p l \<and> so \<noteq> None))) t0 s" for s
      using True i by (auto simp: stage_def same_table_def)
    then show ?thesis
      by (simp add: triple_def)
  next
    case False
    then show ?thesis
      by (auto intro!: triple_ret elim!: stage_weaken split: if_splits)
  qed
  ultimately have "triple (stage V deployed F t0) (prepare E dl x)
    (\<lambda>_. stage V deployed (F(?i := fresh q)) t0) ?R"
    unfolding prepare_def by (intro triple_seq triple_bnd) (simp_all only: fun_upd_upd)
  then show ?thesis
    by (rule triple_weaken) auto
qed

end

end
