(* ===== verification/Exchange_Proof.thy ===== *)
theory Exchange_Proof
  imports Exchange_Sync
begin

section \<open>From one peer to the whole exchange\<close>

text \<open>
  The phases over all peers at work, the drain, the attempts, and the result: an exchange that
  returns has got every answer in full, and one that raises leaves no two peers on one socket.
\<close>

lemma on_peer_gets:
  "i < length (peers (fst s)) \<Longrightarrow> on_peer i (gets f) s = (Inr (f (peers (fst s) ! i, snd s)), s)"
  by (cases s) (simp add: on_peer_def)

definition need :: "work \<Rightarrow> nat \<Rightarrow> nat" where
  "need active i = length (the (map_of active i))"

lemma need_eq: "distinct (map fst active) \<Longrightarrow> x \<in> set active \<Longrightarrow> need active (fst x) = length (snd x)"
  by (cases x) (simp add: need_def)

text \<open>Work a table of peers can do: each peer once, its ids written into its buffer.\<close>

definition workable :: "table \<Rightarrow> work \<Rightarrow> bool" where
  "workable t0 active \<longleftrightarrow> distinct (map fst active) \<and> (\<forall>x\<in>set active.
     fst x < length (peers t0) \<and> written (peers t0 ! fst x) (length (snd x)) \<and>
     length (req_ids (peers t0 ! fst x)) = cap (peers t0 ! fst x))"

context trusted_net begin

abbreviation Idle :: "table \<Rightarrow> 's stages" where
  "Idle t0 \<equiv> \<lambda>i. idle (peers t0 ! i)"

abbreviation Fresh :: "table \<Rightarrow> 's stages" where
  "Fresh t0 \<equiv> \<lambda>i. fresh (peers t0 ! i)"

abbreviation Down :: "table \<Rightarrow> 's stages" where
  "Down t0 \<equiv> \<lambda>i. down (peers t0 ! i)"

abbreviation Got :: "table \<Rightarrow> work \<Rightarrow> 's stages" where
  "Got t0 a \<equiv> \<lambda>i. got (peers t0 ! i) (need a i)"

abbreviation Safe :: "table \<Rightarrow> work \<Rightarrow> 's stages" where
  "Safe t0 a \<equiv> \<lambda>i. safe (peers t0 ! i) (need a i)"

abbreviation Asked :: "table \<Rightarrow> work \<Rightarrow> 's stages" where
  "Asked t0 a \<equiv> \<lambda>i. asked (peers t0 ! i) (need a i)"

abbreviation Reading :: "table \<Rightarrow> work \<Rightarrow> 's stages" where
  "Reading t0 a \<equiv> \<lambda>i. reading_body (peers t0 ! i) (need a i)"

abbreviation sits :: "'s stages \<Rightarrow> table \<Rightarrow> table \<times> 'w \<Rightarrow> bool" where
  "sits F t0 \<equiv> stage V deployed F t0"

abbreviation fails :: "'s stages \<Rightarrow> table \<Rightarrow> exn \<Rightarrow> table \<times> 'w \<Rightarrow> bool" where
  "fails F t0 \<equiv> \<lambda>e s. sits F t0 s \<and> halting e"

lemma prepare_all_down:
  assumes "workable t0 active" and "set todo \<subseteq> set active" and "distinct (map fst todo)"
  shows "triple (sits (mix (fst ` set todo) (Down t0) F) t0) (each todo (prepare E dl))
    (\<lambda>_. sits (mix (fst ` set todo) (Fresh t0) F) t0) (fails (mix (fst ` set todo) (Safe t0 active) F) t0)"
  by (rule each_stage [where Q = "Fresh t0", OF _ assms(3)], rule prepare_down)
    (use assms in \<open>auto simp: workable_def down_def fresh_def safe_def idle_def\<close>)

lemma prepare_all_up:
  assumes "workable t0 active" and "set todo \<subseteq> set active" and "distinct (map fst todo)"
  shows "triple (sits (mix (fst ` set todo) (Idle t0) F) t0) (each todo (prepare E dl))
    (\<lambda>_. sits (mix (fst ` set todo) (Fresh t0) F) t0) (fails (mix (fst ` set todo) (Safe t0 active) F) t0)"
proof -
  have "triple (sits (mix (fst ` set todo) (Idle t0) F) t0) (each todo (prepare E dl))
    (\<lambda>_. sits (mix (fst ` set todo) (Fresh t0) F) t0)
    (\<lambda>e s. sits (mix (fst ` set todo) (\<lambda>i p l. True) F) t0 s \<and> False)"
    by (rule each_stage [where Q = "Fresh t0", OF _ assms(3)],
        rule triple_weaken [OF prepare_up])
      (use assms in \<open>auto simp: workable_def\<close>)
  then show ?thesis
    by (rule triple_weaken) auto
qed

lemma ask_all:
  assumes w: "workable t0 active" and sub: "set todo \<subseteq> set active" and d: "distinct (map fst todo)"
  shows "triple (sits (mix (fst ` set todo) (Fresh t0) F) t0) (each todo (ask E))
    (\<lambda>_. sits (mix (fst ` set todo) (Asked t0 active) F) t0)
    (fails (mix (fst ` set todo) (Safe t0 active) F) t0)"
proof (rule each_stage [OF _ d])
  fix x F assume x: "x \<in> set todo" and F: "F (fst x) = fresh (peers t0 ! fst x)"
  have n: "need active (fst x) = length (snd x)"
    using w sub x by (auto simp: workable_def intro!: need_eq)
  have o: "fst x < length (peers t0)" "written (peers t0 ! fst x) (length (snd x))"
    "length (req_ids (peers t0 ! fst x)) = cap (peers t0 ! fst x)"
    using w sub x by (auto simp: workable_def)
  show "triple (sits F t0) (ask E x) (\<lambda>_. sits (F(fst x := Asked t0 active (fst x))) t0)
      (fails (F(fst x := Safe t0 active (fst x))) t0)"
    unfolding ask_def n
    by (rule triple_bnd [OF next_req_id_stage], rule on_peer_triple [OF o(1)], rule ask_step)
      (use o F in auto)
qed (auto simp: fresh_def asked_def safe_def idle_def)

lemma begin_all:
  assumes w: "workable t0 active" and sub: "set todo \<subseteq> set active" and d: "distinct (map fst todo)"
  shows "triple (sits (mix (fst ` set todo) (Asked t0 active) F) t0) (each todo (begin_answer E))
    (\<lambda>_. sits (mix (fst ` set todo) (Reading t0 active) F) t0)
    (fails (mix (fst ` set todo) (Safe t0 active) F) t0)"
proof (rule each_stage [OF _ d])
  fix x F assume x: "x \<in> set todo" and F: "F (fst x) = asked (peers t0 ! fst x) (need active (fst x))"
  have n: "need active (fst x) = length (snd x)"
    using w sub x by (auto simp: workable_def intro!: need_eq)
  have o: "fst x < length (peers t0)" "written (peers t0 ! fst x) (length (snd x))"
    "length (req_ids (peers t0 ! fst x)) = cap (peers t0 ! fst x)"
    using w sub x by (auto simp: workable_def)
  show "triple (sits F t0) (begin_answer E x) (\<lambda>_. sits (F(fst x := Reading t0 active (fst x))) t0)
      (fails (F(fst x := Safe t0 active (fst x))) t0)"
    unfolding begin_answer_def n
    by (rule on_peer_triple [OF o(1)], rule begin_step) (use o F n in auto)
qed (auto simp: reading_body_def receiving_def asked_def safe_def)

subsection \<open>The drain\<close>

abbreviation Keyed :: "table \<Rightarrow> work \<Rightarrow> (nat \<Rightarrow> nat) \<Rightarrow> 's stages" where
  "Keyed t0 a key \<equiv> \<lambda>i p l. reading_body (peers t0 ! i) (need a i) p l \<and> sock p = Some (key i)"

definition draining ::
  "table \<Rightarrow> work \<Rightarrow> (nat \<Rightarrow> nat) \<Rightarrow> nat set \<Rightarrow> 's stages \<Rightarrow> (nat \<times> nat) list \<Rightarrow> table \<times> 'w \<Rightarrow> bool" where
  "draining t0 a key T F waiting s \<longleftrightarrow> (\<exists>is. waiting = map (\<lambda>i. (key i, i)) is \<and> distinct is \<and>
     inj_on key (set is) \<and> set is \<subseteq> T \<and> T \<subseteq> {..<length (peers t0)} \<and>
     sits (mix (set is) (Keyed t0 a key) (mix T (Got t0 a) F)) t0 s)"

lemma draining_safe:
  "draining t0 a key T F waiting s \<Longrightarrow> sits (mix T (Safe t0 a) F) t0 s"
  by (auto simp: draining_def mix_def safe_def reading_body_def receiving_def got_def idle_def
      elim!: stage_weaken split: if_splits)

lemma delete_map:
  "AList.delete k (map (\<lambda>i. (key i, i)) is) = map (\<lambda>i. (key i, i)) (filter (\<lambda>i. key i \<noteq> k) is)"
  by (induction "is") auto

lemma pump_sock:
  assumes "pump_rows E (p, w) = (r, (p', w'))" and "ready_peer V deployed (p, w)"
    and "reading_body q n p (link V w p)"
  shows "sock p' = sock p"
proof -
  obtain k where k: "on_link V k (p, w)"
    using receiving_on [OF _ assms(2)] assms(3) unfolding reading_body_def by blast
  show ?thesis
    using pump_rows_step(1) [OF assms(1) k] by (auto simp: pumped_def same_conn_def)
qed

lemma pump_draining:
  assumes "draining t0 a key T F waiting s" and "map_of waiting k = Some i"
    and "on_peer i (pump_rows E) s = (r, s')"
  shows "case r of
      Inr b \<Rightarrow> draining t0 a key T F (if b then AList.delete k waiting else waiting) s'
    | Inl e \<Rightarrow> fails (mix T (Safe t0 a) F) t0 e s'"
proof -
  obtain "is" where d: "waiting = map (\<lambda>i. (key i, i)) is" "distinct is" "inj_on key (set is)"
      "set is \<subseteq> T" "T \<subseteq> {..<length (peers t0)}"
    and s: "sits (mix (set is) (Keyed t0 a key) (mix T (Got t0 a) F)) t0 s"
    using assms(1) by (auto simp: draining_def)
  have i: "i \<in> set is" "k = key i"
    using map_of_SomeD [OF assms(2)] d(1) by auto
  then have len: "i < length (peers t0)" "i \<in> T"
    using d(4,5) by auto
  let ?F = "mix (set is) (Keyed t0 a key) (mix T (Got t0 a) F)"
  have "triple (sits ?F t0) (on_peer i (pump_rows E))
    (\<lambda>b. sits (?F(i := if b then Got t0 a i else Keyed t0 a key i)) t0)
    (fails (?F(i := Safe t0 a i)) t0)"
  proof (rule on_peer_triple [OF len(1)])
    fix p w r p' w'
    assume 1: "pump_rows E (p, w) = (r, (p', w'))" "ready_peer V deployed (p, w)"
      and "?F i p (link V w p)"
    then have 2: "Reading t0 a i p (link V w p)" "sock p = Some (key i)"
      using i by (auto simp: mix_def)
    show "effect V deployed (p, w) (p', w') \<and> (case r of
        Inr b \<Rightarrow> (if b then Got t0 a i else Keyed t0 a key i) p' (link V w' p')
      | Inl e \<Rightarrow> Safe t0 a i p' (link V w' p') \<and> halting e)"
      using pump_step [OF 1 2(1)] pump_sock [OF 1 2(1)] 2(2)
      by (cases r) (simp_all split: if_splits)
  qed
  note t = triple_InrD [OF this s] triple_InlD [OF this s]
  show ?thesis
  proof (cases r)
    case (Inl e)
    have "sits (?F(i := Safe t0 a i)) t0 s' \<and> halting e"
      using t(2) assms(3) Inl by blast
    then show ?thesis
      using Inl len d(4) by (auto simp: mix_def safe_def reading_body_def receiving_def got_def idle_def
        elim!: stage_weaken split: if_splits)
  next
    case (Inr b)
    have s': "sits (?F(i := if b then Got t0 a i else Keyed t0 a key i)) t0 s'"
      using t(1) assms(3) Inr by blast
    show ?thesis
    proof (cases b)
      case True
      let ?js = "filter (\<lambda>j. key j \<noteq> k) is"
      have js: "set ?js = set is - {i}"
        using i d(3) by (auto simp: inj_on_def)
      have "?F(i := Got t0 a i) = mix (set ?js) (Keyed t0 a key) (mix T (Got t0 a) F)"
        using len unfolding js by (auto simp: mix_def fun_eq_iff)
      then show ?thesis
        using s' True Inr d by (auto simp: draining_def delete_map inj_on_def
            intro!: exI [of _ ?js])
    next
      case False
      have "?F(i := Keyed t0 a key i) = ?F"
        using i by (auto simp: mix_def fun_eq_iff)
      then show ?thesis
        using s' False Inr d by (auto simp: draining_def)
    qed
  qed
qed

lemma drain_ready_step:
  assumes "drain_ready E ready waiting s = (r, s')" and "draining t0 a key T F waiting s"
    and "distinct ready" and "set ready \<subseteq> fst ` set waiting"
  shows "case r of Inr waiting' \<Rightarrow> draining t0 a key T F waiting' s'
    | Inl e \<Rightarrow> fails (mix T (Safe t0 a) F) t0 e s'"
  using assms
proof (induction ready arbitrary: waiting s)
  case Nil
  then show ?case by (auto simp: ret_run)
next
  case (Cons k ready)
  obtain i where i: "map_of waiting k = Some i"
    using Cons.prems(4) by (cases "map_of waiting k") (auto simp: map_of_eq_None_iff)
  obtain rp s1 where 1: "on_peer i (pump_rows E) s = (rp, s1)"
    by (cases "on_peer i (pump_rows E) s")
  note p = pump_draining [OF Cons.prems(2) i 1]
  show ?case
  proof (cases rp)
    case (Inl e)
    then show ?thesis
      using Cons.prems(1) i 1 p by (auto simp: bnd_def)
  next
    case (Inr b)
    let ?w = "if b then AList.delete k waiting else waiting"
    have rest: "drain_ready E ready ?w s1 = (r, s')"
      using Cons.prems(1) i 1 Inr by (simp add: bnd_def)
    have "fst ` set (AList.delete k waiting) = fst ` set waiting - {k}"
      using arg_cong [OF AList.delete_keys, of set k waiting] by auto
    then have "set ready \<subseteq> fst ` set ?w"
      using Cons.prems(3,4) by auto
    then show ?thesis
      using Cons.IH [OF rest] p Inr Cons.prems(3) by simp
  qed
qed

lemma drain_select_step:
  assumes "drain_select E ks dl s = (r, s')" and "v_wf V (snd s)"
  shows "fst s' = fst s" "keeps V {} (snd s) (snd s')"
    and "case r of Inr ready \<Rightarrow> distinct ready \<and> set ready \<subseteq> set ks | Inl e \<Rightarrow> halting e"
proof -
  show "fst s' = fst s"
    using drain_select_frame [OF assms(1)] by simp
  obtain t0 s0 where 0: "now E s = (Inr t0, s0)"
    using now_step(3) [OF _ assms(2)] by (cases "now E s") fastforce
  note n = now_step [OF 0 assms(2)]
  let ?wait = "min (t_timeout (fst s)) (dl - t0)"
  obtain rs w1 where 1: "n_select E ks ?wait (snd s0) = (rs, w1)"
    by (cases "n_select E ks ?wait (snd s0)")
  note k1 = select_keeps [OF keeps_wf [OF n(2)] 1]
  have run: "(snd s' = snd s0 \<and> r = Inl (Exn TimeoutError SelectDeadlinePassed)) \<or>
    (snd s' = w1 \<and> (case rs of Inl e \<Rightarrow> r = Inl e
       | Inr ready \<Rightarrow> r = Inr ready \<or> r = Inl (Exn TimeoutError (SelectNoData ?wait))))"
    using assms(1) 0 1
    by (auto simp: drain_select_def bnd_def Let_def io_def raise_run ret_run
        split: if_splits sum.splits)
  then show "keeps V {} (snd s) (snd s')"
    using n(2) keeps_trans [OF n(2) k1] by auto
  show "case r of Inr ready \<Rightarrow> distinct ready \<and> set ready \<subseteq> set ks | Inl e \<Rightarrow> halting e"
  proof (cases rs)
    case (Inl e)
    then show ?thesis
      using run 1 net_errors(5) by (auto simp: halting_def os_error_is_exception)
  next
    case (Inr ready)
    have "distinct ready \<and> set ready \<subseteq> set ks"
      using select_ok [OF keeps_wf [OF n(2)]] 1 Inr by blast
    then show ?thesis
      using run Inr by (auto simp: halting_def)
  qed
qed

lemma draining_world:
  assumes "draining t0 a key T F waiting s" and "fst s' = fst s" and "keeps V {} (snd s) (snd s')"
  shows "draining t0 a key T F waiting s'"
proof -
  have "sits F t0 s'" if "sits F t0 s" for F
    using stage_keeps [OF that assms(3)] assms(2) by (cases s') simp
  then show ?thesis
    using assms(1) unfolding draining_def by blast
qed

lemma drain_loop_step:
  assumes "drain_loop E dl waiting s = (r, s')" and "draining t0 a key T F waiting s"
  shows "case r of Inr _ \<Rightarrow> sits (mix T (Got t0 a) F) t0 s' | Inl e \<Rightarrow> fails (mix T (Safe t0 a) F) t0 e s'"
  using assms
proof (induction "unread (peers (fst s)) waiting" arbitrary: waiting s rule: less_induct)
  case less
  note run = less.prems(1) [unfolded drain_loop.simps [of E dl waiting s]]
  show ?case
  proof (cases "waiting = []")
    case True
    then show ?thesis
      using run less.prems(2) by (auto simp: draining_def mix_def)
  next
    case False
    obtain r1 s1 where 1: "drain_select E (map fst waiting) dl s = (r1, s1)"
      by (cases "drain_select E (map fst waiting) dl s")
    have wf: "v_wf V (snd s)"
      using less.prems(2) by (auto simp: draining_def stage_def linked_def)
    note sl = drain_select_step [OF 1 wf]
    have d1: "draining t0 a key T F waiting s1"
      using less.prems(2) sl(1,2) by (rule draining_world)
    show ?thesis
    proof (cases r1)
      case (Inl e)
      then show ?thesis
        using run 1 False sl(3) draining_safe [OF d1] by auto
    next
      case (Inr ready)
      obtain r2 s2 where 2: "drain_ready E ready waiting s1 = (r2, s2)"
        by (cases "drain_ready E ready waiting s1")
      have "distinct ready" "set ready \<subseteq> fst ` set waiting"
        using sl(3) Inr by auto
      note dr = drain_ready_step [OF 2 d1 this]
      show ?thesis
      proof (cases r2)
        case (Inl e)
        then show ?thesis
          using run 1 2 False Inr dr by auto
      next
        case r2: (Inr waiting')
        have "drain_loop E dl waiting' s2 = (r, s')"
          using run 1 2 False Inr r2 by simp
        moreover have "unread (peers (fst s2)) waiting' < unread (peers (fst s)) waiting"
          using drain_step_less [of ready s1 E "map fst waiting" dl s waiting' s2 waiting] 1 2 Inr r2
          by simp
        ultimately show ?thesis
          using less.hyps dr r2 by simp
      qed
    qed
  qed
qed

lemma waiting_for_run:
  assumes "\<forall>i\<in>set is. i < length (peers (fst s)) \<and> sock (peers (fst s) ! i) = Some (key i)"
    and "distinct (map key (js @ is))"
  shows "waiting_for is (map (\<lambda>i. (key i, i)) js) s = (Inr (map (\<lambda>i. (key i, i)) (js @ is)), s)"
  using assms
proof (induction "is" arbitrary: js)
  case Nil
  then show ?case by (simp add: ret_run)
next
  case (Cons i "is")
  have "AList.update (key i) i (map (\<lambda>i. (key i, i)) js) = map (\<lambda>i. (key i, i)) (js @ [i])"
    using Cons.prems(2) by (induction js) auto
  then show ?case
    using Cons.IH [of "js @ [i]"] Cons.prems by (simp add: bnd_def on_peer_gets)
qed

lemma drain_start:
  assumes w: "workable t0 active" and sub: "set todo \<subseteq> set active" and d: "distinct (map fst todo)"
    and s: "sits (mix (fst ` set todo) (Reading t0 active) F) t0 s"
  obtains key where "drain E (map fst todo) dl s = drain_loop E dl (map (\<lambda>i. (key i, i)) (map fst todo)) s"
    "draining t0 active key (fst ` set todo) F (map (\<lambda>i. (key i, i)) (map fst todo)) s"
proof -
  let ?T = "fst ` set todo"
  define key where "key = (\<lambda>i. the (sock (peers (fst s) ! i)))"
  have T: "?T \<subseteq> {..<length (peers t0)}"
    using w sub by (auto simp: workable_def)
  have same: "length (peers (fst s)) = length (peers t0)" "linked V deployed s"
    using s by (auto simp: stage_def same_table_def)
  have at: "mix ?T (Reading t0 active) F i (peers (fst s) ! i) (link V (snd s) (peers (fst s) ! i))"
    if "i < length (peers (fst s))" for i
    using s that unfolding stage_def by blast
  have rd: "Reading t0 active i (peers (fst s) ! i) (link V (snd s) (peers (fst s) ! i))"
    if "i \<in> ?T" for i
    using at [of i] T that same(1) by (auto simp: mix_def)
  have sk: "sock (peers (fst s) ! i) = Some (key i)" if "i \<in> ?T" for i
    using rd [OF that] by (auto simp: key_def reading_body_def receiving_def link_def)
  have inj: "inj_on key ?T"
    using T sk same unfolding inj_on_def linked_def by (metis in_mono lessThan_iff)
  have lt: "\<forall>i\<in>set (map fst todo). i < length (peers (fst s)) \<and> sock (peers (fst s) ! i) = Some (key i)"
    using T sk same by auto
  have dk: "distinct (map key ([] @ map fst todo))"
    using d inj by (simp add: distinct_map inj_on_def)
  have "mix ?T (Keyed t0 active key) (mix ?T (Got t0 active) F) i (peers (fst s) ! i)
      (link V (snd s) (peers (fst s) ! i))" if "i < length (peers (fst s))" for i
    using at [OF that] sk rd by (cases "i \<in> ?T") (simp_all add: mix_def)
  then have "sits (mix ?T (Keyed t0 active key) (mix ?T (Got t0 active) F)) t0 s"
    using s by (simp add: stage_def)
  then have "draining t0 active key ?T F (map (\<lambda>i. (key i, i)) (map fst todo)) s"
    unfolding draining_def using d inj T by (intro exI [of _ "map fst todo"]) simp
  moreover have "drain E (map fst todo) dl s = drain_loop E dl (map (\<lambda>i. (key i, i)) (map fst todo)) s"
    using waiting_for_run [OF lt dk] by (simp add: drain_def bnd_def)
  ultimately show thesis
    using that by blast
qed

lemma drain_step:
  assumes w: "workable t0 active" and sub: "set todo \<subseteq> set active" and d: "distinct (map fst todo)"
  shows "triple (sits (mix (fst ` set todo) (Reading t0 active) F) t0) (drain E (map fst todo) dl)
    (\<lambda>_. sits (mix (fst ` set todo) (Got t0 active) F) t0)
    (fails (mix (fst ` set todo) (Safe t0 active) F) t0)"
proof -
  have step: "case r of Inr _ \<Rightarrow> sits (mix (fst ` set todo) (Got t0 active) F) t0 s'
      | Inl e \<Rightarrow> fails (mix (fst ` set todo) (Safe t0 active) F) t0 e s'"
    if s: "sits (mix (fst ` set todo) (Reading t0 active) F) t0 s"
      and run: "drain E (map fst todo) dl s = (r, s')" for s r s'
  proof -
    obtain key where k: "drain E (map fst todo) dl s = drain_loop E dl (map (\<lambda>i. (key i, i)) (map fst todo)) s"
      "draining t0 active key (fst ` set todo) F (map (\<lambda>i. (key i, i)) (map fst todo)) s"
      using drain_start [OF w sub d s] by blast
    show ?thesis
      using drain_loop_step [OF _ k(2)] k(1) run by simp
  qed
  show ?thesis
    by (rule tripleI) (use step in fastforce)+
qed

subsection \<open>Attempts\<close>

lemma bodies_step:
  assumes w: "workable t0 active" and sub: "set todo \<subseteq> set active" and d: "distinct (map fst todo)"
  shows "triple (sits (mix (fst ` set todo) (Reading t0 active) F) t0) (read_bodies E dl todo)
    (\<lambda>_. sits (mix (fst ` set todo) (Got t0 active) F) t0)
    (fails (mix (fst ` set todo) (Safe t0 active) F) t0)"
proof (cases "length todo > 1")
  case True
  then show ?thesis
    using drain_step [OF assms] by (simp add: read_bodies_def)
next
  case False
  show ?thesis
  proof (cases todo)
    case Nil
    then show ?thesis
      by (auto simp: read_bodies_def triple_def raise_run mix_def halting_def)
  next
    case (Cons x xs)
    then have todo: "todo = [x]" "fst ` set todo = {fst x}"
      using False by (cases xs; simp)+
    have i: "fst x < length (peers t0)"
      using w sub todo by (auto simp: workable_def)
    have upd: "mix {fst x} G F = F(fst x := G (fst x))" for G
      by (auto simp: mix_def fun_eq_iff)
    have "triple (sits (F(fst x := Reading t0 active (fst x))) t0) (on_peer (fst x) (finish_rows E))
      (\<lambda>_. sits (F(fst x := Got t0 active (fst x))) t0) (fails (F(fst x := Safe t0 active (fst x))) t0)"
      by (rule on_peer_triple [OF i, where F = "F(fst x := Reading t0 active (fst x))" and
            G = "\<lambda>_. Got t0 active (fst x)" and W = "Safe t0 active (fst x)", simplified fun_upd_upd],
          rule finish_step) auto
    then show ?thesis
      unfolding todo(2) upd by (simp add: read_bodies_def todo(1))
  qed
qed

definition preparable :: "'s stages \<Rightarrow> table \<Rightarrow> work \<Rightarrow> rat \<Rightarrow> work \<Rightarrow> bool" where
  "preparable P t0 active dl todo \<longleftrightarrow> (\<forall>F. triple (sits (mix (fst ` set todo) P F) t0)
     (each todo (prepare E dl)) (\<lambda>_. sits (mix (fst ` set todo) (Fresh t0) F) t0)
     (fails (mix (fst ` set todo) (Safe t0 active) F) t0))"

lemma attempt_step:
  assumes w: "workable t0 active" and sub: "set todo \<subseteq> set active" and d: "distinct (map fst todo)"
    and "preparable P t0 active dl todo"
  shows "triple (sits (mix (fst ` set todo) P F) t0) (attempt E dl todo)
    (\<lambda>_. sits (mix (fst ` set todo) (Got t0 active) F) t0)
    (fails (mix (fst ` set todo) (Safe t0 active) F) t0)"
  unfolding attempt_def
  using assms(4) ask_all [OF w sub d] begin_all [OF w sub d] bodies_step [OF w sub d]
  unfolding preparable_def by (intro triple_seq) blast+

text \<open>Closing what was not answered, so that it can be dialled again.\<close>

abbreviation Stale :: "table \<Rightarrow> 's stages" where
  "Stale t0 \<equiv> \<lambda>i p l. \<not> answered p \<and> same_ident (peers t0 ! i) p"

lemma close_step:
  assumes "peer_close E ab (p, w) = (r, (p', w'))" and "ready_peer V deployed (p, w)"
  shows "effect V deployed (p, w) (p', w')" and "p' = p\<lparr>sock := None, pending := None\<rparr>"
    and "r = Inl e \<Longrightarrow> halting e"
proof -
  have wf: "v_wf V (snd (p, w))"
    using assms(2) by (simp add: ready_peer_def)
  note c = peer_close_step [OF assms(1) wf, simplified]
  show "effect V deployed (p, w) (p', w')" "p' = p\<lparr>sock := None, pending := None\<rparr>"
    "r = Inl e \<Longrightarrow> halting e"
    using c assms(2) by (auto simp: effect_def ready_peer_def buffered_def halting_os)
qed

lemma abort_step:
  assumes w: "workable t0 active" and sub: "set todo \<subseteq> set active" and d: "distinct (map fst todo)"
  shows "triple (sits (mix (fst ` set todo) (Stale t0) F) t0) (abort_all E todo)
    (\<lambda>_. sits (mix (fst ` set todo) (Down t0) F) t0) (fails (\<lambda>_ _ _. True) t0)"
proof -
  have "triple (sits (mix (fst ` set todo) (Stale t0) F) t0) (abort_all E todo)
    (\<lambda>_. sits (mix (fst ` set todo) (Down t0) F) t0)
    (fails (mix (fst ` set todo) (\<lambda>_ _ _. True) F) t0)"
    unfolding abort_all_def
  proof (rule each_stage [OF _ d])
    fix x F assume x: "x \<in> set todo" and F: "F (fst x) = Stale t0 (fst x)"
    have i: "fst x < length (peers t0)"
      using w sub x by (auto simp: workable_def)
    show "triple (sits F t0) (on_peer (fst x) (peer_close E True))
      (\<lambda>_. sits (F(fst x := Down t0 (fst x))) t0) (fails (F(fst x := (\<lambda>_ _. True))) t0)"
    proof (rule on_peer_triple [OF i])
      fix p w r p' w'
      assume "peer_close E True (p, w) = (r, (p', w'))" "ready_peer V deployed (p, w)"
        "F (fst x) p (link V w p)"
      then show "effect V deployed (p, w) (p', w') \<and> (case r of
          Inr _ \<Rightarrow> Down t0 (fst x) p' (link V w' p') | Inl e \<Rightarrow> True \<and> halting e)"
        using close_step [of True p w r p' w'] F
        by (auto simp: down_def same_ident_def link_def split: sum.splits)
    qed
  qed simp
  then show ?thesis
    by (rule triple_weaken) (auto elim!: stage_weaken)
qed

text \<open>
  The heart of it: with the unanswered peers down and the rest in possession of their answers,
  the remaining attempts end with every answer in full, or raise.
\<close>

lemma unanswered_stage:
  assumes s: "sits (mix (fst ` set todo) (Safe t0 active) F) t0 s" and w: "workable t0 active"
    and sub: "set todo \<subseteq> set active" and d: "distinct (map fst todo)"
  shows "sits (mix (fst ` set (unanswered todo s)) (Stale t0) (mix (fst ` set todo) (Got t0 active) F)) t0 s"
proof -
  let ?T = "fst ` set todo" and ?U = "fst ` set (unanswered todo s)"
  have U: "?U = {i \<in> ?T. \<not> answered (peers (fst s) ! i)}"
    by (auto simp: unanswered_def)
  have "mix ?U (Stale t0) (mix ?T (Got t0 active) F) i (peers (fst s) ! i)
      (link V (snd s) (peers (fst s) ! i))" if "i < length (peers (fst s))" for i
  proof -
    have "mix ?T (Safe t0 active) F i (peers (fst s) ! i) (link V (snd s) (peers (fst s) ! i))"
      using s that unfolding stage_def by blast
    then show ?thesis
      unfolding U by (cases "i \<in> ?T") (simp_all add: mix_def safe_def)
  qed
  then show "sits (mix ?U (Stale t0) (mix ?T (Got t0 active) F)) t0 s"
    using s by (simp add: stage_def)
qed

lemma unanswered_sub:
  assumes "distinct (map fst todo)"
  shows "set (unanswered todo s) \<subseteq> set todo" and "distinct (map fst (unanswered todo s))"
  using assms by (auto simp: unanswered_def distinct_map inj_on_def)

lemma now_stage:
  "triple (sits F t0) (now E) (\<lambda>_. sits F t0) (fails G t0)"
proof -
  have step: "sits F t0 s' \<and> (\<exists>t. r = Inr t)" if "sits F t0 s" "now E s = (r, s')" for s r s'
  proof -
    have "v_wf V (snd s)"
      using that(1) by (simp add: stage_def linked_def)
    note n = now_step [OF that(2) this]
    show ?thesis
      using stage_keeps [OF that(1) n(2)] n(1,3) by (cases s') simp
  qed
  show ?thesis
    by (rule tripleI) (use step in blast)+
qed

lemma retry_step:
  assumes w: "workable t0 active" and sub: "set todo \<subseteq> set active" and d: "distinct (map fst todo)"
    and e: "halting e"
    and more: "\<And>todo' F. left \<noteq> 0 \<Longrightarrow> set todo' \<subseteq> set active \<Longrightarrow> distinct (map fst todo') \<Longrightarrow>
      triple (sits (mix (fst ` set todo') (Down t0) F) t0) (exchange_loop E dl left todo')
        (\<lambda>_. sits (mix (fst ` set todo') (Got t0 active) F) t0) (fails (\<lambda>_ _ _. True) t0)"
  shows "triple (sits (mix (fst ` set todo) (Safe t0 active) F) t0)
    (bnd (gets (unanswered todo)) (\<lambda>todo'. seq (abort_all E todo')
       (if left = 0 then raise e
        else bnd (now E) (\<lambda>t. if t \<ge> dl then raise e else exchange_loop E dl left todo'))))
    (\<lambda>_. sits (mix (fst ` set todo) (Got t0 active) F) t0) (fails (\<lambda>_ _ _. True) t0)"
proof (rule triple_gets)
  fix todo' :: work
  let ?T = "fst ` set todo" and ?U = "fst ` set todo'" and ?G = "mix (fst ` set todo) (Got t0 active) F"
  show "triple (\<lambda>s. sits (mix ?T (Safe t0 active) F) t0 s \<and> unanswered todo s = todo')
    (seq (abort_all E todo') (if left = 0 then raise e
       else bnd (now E) (\<lambda>t. if t \<ge> dl then raise e else exchange_loop E dl left todo')))
    (\<lambda>_. sits ?G t0) (fails (\<lambda>_ _ _. True) t0)"
  proof (cases "\<exists>s :: table \<times> 'w. unanswered todo s = todo'")
    case False
    then show ?thesis
      by (simp add: triple_def)
  next
    case True
    then have u: "set todo' \<subseteq> set todo" "distinct (map fst todo')"
      using unanswered_sub [OF d] by blast+
    then have sub': "set todo' \<subseteq> set active"
      using sub by blast
    have G: "mix ?U (Got t0 active) ?G = ?G"
      using u(1) by (auto simp: mix_def fun_eq_iff)
    have stop: "triple (sits (mix ?U (Down t0) ?G) t0) (raise e) (\<lambda>_. sits ?G t0)
        (fails (\<lambda>_ _ _. True) t0)"
      using e by (auto elim!: stage_weaken)
    have "triple (sits (mix ?U (Down t0) ?G) t0)
      (if left = 0 then raise e
       else bnd (now E) (\<lambda>t. if t \<ge> dl then raise e else exchange_loop E dl left todo'))
      (\<lambda>_. sits ?G t0) (fails (\<lambda>_ _ _. True) t0)"
    proof (rule triple_if [OF stop])
      assume "left \<noteq> 0"
      then have go: "triple (sits (mix ?U (Down t0) ?G) t0) (exchange_loop E dl left todo')
          (\<lambda>_. sits ?G t0) (fails (\<lambda>_ _ _. True) t0)"
        using more [OF _ sub' u(2), of ?G] G by simp
      show "triple (sits (mix ?U (Down t0) ?G) t0)
        (bnd (now E) (\<lambda>t. if t \<ge> dl then raise e else exchange_loop E dl left todo'))
        (\<lambda>_. sits ?G t0) (fails (\<lambda>_ _ _. True) t0)"
        by (rule triple_bnd [OF now_stage], rule triple_if [OF stop go])
    qed
    then have "triple (sits (mix ?U (Stale t0) ?G) t0) (seq (abort_all E todo')
      (if left = 0 then raise e
       else bnd (now E) (\<lambda>t. if t \<ge> dl then raise e else exchange_loop E dl left todo')))
      (\<lambda>_. sits ?G t0) (fails (\<lambda>_ _ _. True) t0)"
      by (rule triple_seq [OF abort_step [OF w sub' u(2)]])
    then show ?thesis
      by (rule triple_pre) (use unanswered_stage [OF _ w sub d] in blast)
  qed
qed

lemma loop_body:
  assumes w: "workable t0 active" and sub: "set todo \<subseteq> set active" and d: "distinct (map fst todo)"
    and prep: "preparable P t0 active dl todo"
    and more: "\<And>todo' F. left \<noteq> 0 \<Longrightarrow> set todo' \<subseteq> set active \<Longrightarrow> distinct (map fst todo') \<Longrightarrow>
      triple (sits (mix (fst ` set todo') (Down t0) F) t0) (exchange_loop E dl left todo')
        (\<lambda>_. sits (mix (fst ` set todo') (Got t0 active) F) t0) (fails (\<lambda>_ _ _. True) t0)"
  shows "triple (sits (mix (fst ` set todo) P F) t0)
    (handle
       (seq (attempt E dl todo)
         (if Suc left < GATHER_ATTEMPTS then bnd (now E) (\<lambda>_. ret ()) else ret ()))
       is_os_error
       (\<lambda>e. bnd (gets (unanswered todo)) (\<lambda>todo'.
          seq (abort_all E todo')
          (if left = 0 then raise e
           else bnd (now E) (\<lambda>t. if t \<ge> dl then raise e else exchange_loop E dl left todo')))))
    (\<lambda>_. sits (mix (fst ` set todo) (Got t0 active) F) t0) (fails (\<lambda>_ _ _. True) t0)"
proof (rule triple_handle)
  let ?G = "mix (fst ` set todo) (Got t0 active) F" and ?S = "mix (fst ` set todo) (Safe t0 active) F"
  have "triple (sits ?G t0) (if Suc left < GATHER_ATTEMPTS then bnd (now E) (\<lambda>_. ret ()) else ret ())
      (\<lambda>_. sits ?G t0) (fails ?S t0)"
    by (rule triple_if, rule triple_bnd [OF now_stage]) blast+
  then show "triple (sits (mix (fst ` set todo) P F) t0)
    (seq (attempt E dl todo)
         (if Suc left < GATHER_ATTEMPTS then bnd (now E) (\<lambda>_. ret ()) else ret ()))
    (\<lambda>_. sits ?G t0) (fails ?S t0)"
    by (rule triple_seq [OF attempt_step [OF w sub d prep]])
next
  fix e assume "is_os_error e"
  then have "halting e"
    by (rule halting_os)
  then show "triple (fails (mix (fst ` set todo) (Safe t0 active) F) t0 e)
    (bnd (gets (unanswered todo)) (\<lambda>todo'. seq (abort_all E todo')
       (if left = 0 then raise e
        else bnd (now E) (\<lambda>t. if t \<ge> dl then raise e else exchange_loop E dl left todo'))))
    (\<lambda>_. sits (mix (fst ` set todo) (Got t0 active) F) t0) (fails (\<lambda>_ _ _. True) t0)"
    by (intro triple_pre [OF retry_step [OF w sub d _ more]]) auto
next
  fix e s assume "fails (mix (fst ` set todo) (Safe t0 active) F) t0 e s"
  then show "fails (\<lambda>_ _ _. True) t0 e s"
    by (auto elim!: stage_weaken)
qed

lemma exchange_loop_step:
  assumes w: "workable t0 active" and "set todo \<subseteq> set active" and "distinct (map fst todo)"
    and "preparable P t0 active dl todo"
  shows "triple (sits (mix (fst ` set todo) P F) t0) (exchange_loop E dl (Suc left) todo)
    (\<lambda>_. sits (mix (fst ` set todo) (Got t0 active) F) t0) (fails (\<lambda>_ _ _. True) t0)"
  using assms(2-)
proof (induction left arbitrary: todo P F)
  case (0 todo P F)
  show ?case
    unfolding exchange_loop.simps(2) [of E dl 0]
    by (rule loop_body [OF w "0.prems"]) simp
next
  case (Suc left todo P F)
  have down: "preparable (Down t0) t0 active dl todo'"
    if "set todo' \<subseteq> set active" "distinct (map fst todo')" for todo'
    unfolding preparable_def using prepare_all_down [OF w that] by blast
  show ?case
    unfolding exchange_loop.simps(2) [of E dl "Suc left"]
    by (rule loop_body [OF w Suc.prems]) (rule Suc.IH, use down in auto)
qed

subsection \<open>The deadline is set and cleared around the attempts\<close>

lemma set_deadline_peers:
  "length (peers (set_deadline d i t)) = length (peers t)"
  "j < length (peers t) \<Longrightarrow>
    peers (set_deadline d i t) ! j = (if j = i then (peers t ! j)\<lparr>deadline := d\<rparr> else peers t ! j)"
  "same_table t (set_deadline d i t)"
  by (auto simp: set_deadline_def nth_list_update)

lemma deadline_stage:
  assumes "sits F t0 (t, w)" and "\<And>i p l d. F i p l \<Longrightarrow> F i (p\<lparr>deadline := d\<rparr>) l"
  shows "sits F t0 (set_deadlines d a t, w)"
  using assms(1)
proof (induction a arbitrary: t)
  case Nil
  then show ?case by (simp add: set_deadlines_def)
next
  case (Cons x a)
  have "sits F t0 (set_deadline d (fst x) t, w)"
    using Cons.prems assms(2) same_table_trans [OF _ set_deadline_peers(3)]
    by (auto simp: stage_def linked_def set_deadline_peers link_def buffered_def split: if_splits)
  then show ?case
    using Cons.IH by (simp add: set_deadlines_def)
qed

text \<open>An exchange over idle peers: every answer in full, or a raise.\<close>

lemma exchange_step:
  assumes w: "workable t0 active"
    and F: "\<And>i p l d. F i p l \<Longrightarrow> F i (p\<lparr>deadline := d\<rparr>) l"
  shows "triple (sits (mix (fst ` set active) (Idle t0) F) t0) (exchange E active)
    (\<lambda>_. sits (mix (fst ` set active) (Got t0 active) F) t0) (fails (\<lambda>_ _ _. True) t0)"
proof -
  let ?T = "fst ` set active"
  have d: "distinct (map fst active)"
    using w by (simp add: workable_def)
  have idle: "mix ?T (Idle t0) F i (p\<lparr>deadline := d\<rparr>) l" if "mix ?T (Idle t0) F i p l" for i p l d
    using that F by (simp add: mix_def idle_def same_ident_def split: if_splits)
  have got: "mix ?T (Got t0 active) F i (p\<lparr>deadline := d\<rparr>) l" if "mix ?T (Got t0 active) F i p l" for i p l d
    using that F by (auto simp: mix_def got_def idle_def same_ident_def split: if_splits)
  have clear: "sits (mix ?T (Got t0 active) F) t0 s \<Longrightarrow>
      sits (mix ?T (Got t0 active) F) t0 (set_deadlines None active (fst s), snd s)" for s
    using deadline_stage [of "mix ?T (Got t0 active) F" t0 "fst s" "snd s"] got by simp
  have clear': "fails (\<lambda>_ _ _. True) t0 e s \<Longrightarrow>
      fails (\<lambda>_ _ _. True) t0 e (set_deadlines None active (fst s), snd s)" for e s
    using deadline_stage [of "\<lambda>_ _ _. True" t0 "fst s" "snd s"] by simp
  have up: "preparable (Idle t0) t0 active dl active" for dl
    unfolding preparable_def using prepare_all_up [OF w subset_refl d] by blast
  have loop: "triple (sits (mix ?T (Idle t0) F) t0)
    (ensure (exchange_loop E dl GATHER_ATTEMPTS active) (\<lambda>s. (set_deadlines None active (fst s), snd s)))
    (\<lambda>_. sits (mix ?T (Got t0 active) F) t0) (fails (\<lambda>_ _ _. True) t0)" for dl
    unfolding GATHER_ATTEMPTS_def numeral_3_eq_3
    by (rule triple_ensure, rule triple_weaken [OF exchange_loop_step [OF w subset_refl d up]])
      (use clear clear' in blast)+
  have set: "triple (sits (mix ?T (Idle t0) F) t0) (upd (set_deadlines (Some dl) active))
    (\<lambda>_. sits (mix ?T (Idle t0) F) t0) (fails (\<lambda>_ _ _. True) t0)" for dl
    by (rule tripleI) (use deadline_stage idle in auto)
  show ?thesis
    unfolding exchange_def
    by (rule triple_bnd [OF now_stage], rule triple_gets,
        rule triple_pre [OF triple_seq [OF set loop]]) blast
qed

end

end
