(* ===== verification/Gather.thy ===== *)
theory Gather
  imports Exchange
begin

section \<open>Gathers\<close>

text \<open>
  \<open>gather_cpu\<close>, \<open>gather\<close> and \<open>read_rows_contiguous\<close> of \<open>PLERemoteTable\<close>.  A tensor of rows is the
  list of its rows; devices, pinned memory and the view as float8 do not change the bytes and are
  left out.  The result of \<open>gather_cpu\<close> is the front of the staging buffer at the time of return:
  in the code it is a view that the next gather overwrites, which is why \<open>gather\<close> and
  \<open>read_rows_contiguous\<close> copy it.
\<close>

text \<open>\<open>np.copyto(..., casting="unsafe")\<close>: an id is written modulo \<open>2 ^ 32\<close>.\<close>

definition wire_id :: "int \<Rightarrow> nat" where
  "wire_id x = nat (x mod 2 ^ 32)"

definition write_ids :: "int list \<Rightarrow> nat list \<Rightarrow> peer \<Rightarrow> peer" where
  "write_ids ids s p =
     p\<lparr>req_ids := map (\<lambda>j. wire_id (ids ! j)) s @ drop (length s) (req_ids p)\<rparr>"

definition marshal :: "'w net \<Rightarrow> int list \<Rightarrow> nat \<times> nat list \<Rightarrow> ('w, unit) tprog" where
  "marshal E ids x =
     on_peer (fst x) (seq (reserve E (length (snd x))) (upd (write_ids ids (snd x))))"

definition active_work :: "table \<Rightarrow> work" where
  "active_work t = filter (\<lambda>x. snd x \<noteq> []) (zip [0..<length (peers t)] (sel t))"

definition place_rows :: "nat list \<Rightarrow> byte list list \<Rightarrow> byte list list \<Rightarrow> byte list list" where
  "place_rows s rs st = fold (\<lambda>(j, r) st. st[j := r]) (zip s rs) st"

definition scatter :: "work \<Rightarrow> table \<Rightarrow> table" where
  "scatter active t = t\<lparr>staging := map_option
     (fold (\<lambda>x. place_rows (snd x) (rows_upto (peers t ! fst x) (length (snd x)))) active)
     (staging t)\<rparr>"

definition staged :: "nat \<Rightarrow> table \<Rightarrow> byte list list" where
  "staged n t = (case staging t of None \<Rightarrow> [] | Some st \<Rightarrow> take n st)"

definition gather_cpu :: "'w net \<Rightarrow> int list \<Rightarrow> ('w, byte list list) tprog" where
  "gather_cpu E ids = seq (staging_for E (length ids))
     (if length ids = 0 then gets (\<lambda>s. staged 0 (fst s))
      else seq check_usable
       (seq (workspace_for (length ids))
       (bnd (partition_ids ids) (\<lambda>routed.
        seq (if routed \<noteq> length ids then raise_unroutable ids else ret ())
        (seq (condemn (bnd (gets (\<lambda>s. active_work (fst s))) (\<lambda>active.
            seq (each active (marshal E ids))
            (seq (exchange E active) (upd (scatter active))))))
        (gets (\<lambda>s. staged (length ids) (fst s))))))))"

text \<open>
  \<open>out[:n].copy_(rows)\<close>: a destination with too few rows raises, except that one source row is
  broadcast into an empty destination.
\<close>

definition copy_rows :: "byte list list \<Rightarrow> byte list list \<Rightarrow> exn + byte list list" where
  "copy_rows out rs =
     (if length rs \<le> length out then Inr (rs @ drop (length rs) out)
      else if length rs = 1 then Inr out
      else Inl (Exn RuntimeError (ShapeMismatch (length out) (length rs))))"

definition gather :: "'w net \<Rightarrow> int list \<Rightarrow> byte list list option \<Rightarrow>
    ('w, byte list list \<times> byte list list) tprog" where
  "gather E ids out = bnd (gather_cpu E ids) (\<lambda>rs. bnd (gets fst) (\<lambda>t.
     bnd (of_sum (copy_rows (case out of Some dst \<Rightarrow> dst
         | None \<Rightarrow> replicate (length rs) (replicate (nat (t_row_bytes t)) (n_junk E))) rs)) (\<lambda>o'.
     ret (take (length rs) o', o'))))"

text \<open>
  \<open>read_rows_contiguous\<close>: the buffer is what has been copied so far.  The step the caller passes is
  at least 1; the loop says so again to be total.
\<close>

definition id_range :: "int \<Rightarrow> nat \<Rightarrow> int list" where
  "id_range start n = map (\<lambda>j. start + int j) [0..<n]"

function read_chunks ::
  "'w net \<Rightarrow> int \<Rightarrow> nat \<Rightarrow> nat \<Rightarrow> byte list list \<Rightarrow> nat \<Rightarrow> ('w, byte list list) tprog" where
  "read_chunks E start nrows step buf done s =
     (if done < nrows then
        (let n = min (max step 1) (nrows - done) in
         case gather_cpu E (id_range (start + int done) n) s of
           (Inl e, s') \<Rightarrow> (Inl e, s')
         | (Inr rs, s') \<Rightarrow> read_chunks E start nrows step (buf @ rs) (done + n) s')
      else (Inr buf, s))"
  by pat_completeness auto
termination
  by (relation "measure (\<lambda>(E, start, nrows, step, buf, done, s). nrows - done)") (auto simp: Let_def)

declare read_chunks.simps [simp del]

definition read_rows_contiguous ::
  "'w net \<Rightarrow> int \<Rightarrow> int \<Rightarrow> int \<Rightarrow> ('w, byte list list) tprog" where
  "read_rows_contiguous E start nrows chunk_rows =
     (if nrows \<le> 0 then ret []
      else bnd (gets fst) (\<lambda>t.
        read_chunks E start (nat nrows) (nat (max 1 (min chunk_rows (max_rows t)))) [] 0))"

subsection \<open>Rows placed\<close>

lemma length_place_rows [simp]: "length (place_rows s rs st) = length st"
proof (induction s arbitrary: rs st)
  case Nil
  then show ?case by (simp add: place_rows_def)
next
  case (Cons j s)
  then show ?case
    by (cases rs) (simp_all add: place_rows_def)
qed

lemma place_rows_nth:
  "j < length st \<Longrightarrow> place_rows s (map f s) st ! j = (if j \<in> set s then f j else st ! j)"
proof (induction s arbitrary: st)
  case Nil
  then show ?case by (simp add: place_rows_def)
next
  case (Cons k s)
  have "place_rows (k # s) (map f (k # s)) st = place_rows s (map f s) (st[k := f k])"
    by (simp add: place_rows_def)
  then show ?case
    using Cons.IH [of "st[k := f k]"] Cons.prems by (cases "j = k") auto
qed

lemma length_place_all [simp]:
  "length (fold (\<lambda>x. place_rows (snd x) (rs x)) active st) = length st"
  by (induction active arbitrary: st) auto

lemma place_all_nth:
  assumes "\<forall>x\<in>set active. rs x = map f (snd x)" and "j < length st"
  shows "fold (\<lambda>x. place_rows (snd x) (rs x)) active st ! j =
      (if \<exists>x\<in>set active. j \<in> set (snd x) then f j else st ! j)"
  using assms
proof (induction active arbitrary: st)
  case (Cons x active)
  then show ?case
    by (auto simp: place_rows_nth)
qed simp

text \<open>Row \<open>j\<close> of a buffer that starts with the concatenation of rows of one width.\<close>

lemma concat_slice:
  assumes "\<forall>r\<in>set rs. length r = w" and "j < length rs"
  shows "take w (drop (j * w) (concat rs @ rest)) = rs ! j"
  using assms
proof (induction rs arbitrary: j)
  case (Cons r rs)
  show ?case
  proof (cases j)
    case 0
    then show ?thesis
      using Cons.prems by simp
  next
    case (Suc m)
    then show ?thesis
      using Cons.IH [of m] Cons.prems by simp
  qed
qed simp

lemma rows_upto_eq:
  assumes "take (n * row_bytes p) (rows p) = concat (map f xs)" and "length xs = n"
    and "\<forall>x\<in>set xs. length (f x) = row_bytes p"
  shows "rows_upto p n = map f xs"
proof (rule nth_equalityI)
  show "length (rows_upto p n) = length (map f xs)"
    using assms(2) by (simp add: rows_upto_def)
next
  fix j assume "j < length (rows_upto p n)"
  then have j: "j < n"
    by (simp add: rows_upto_def)
  have "rows p = concat (map f xs) @ drop (n * row_bytes p) (rows p)"
    using assms(1) append_take_drop_id [of "n * row_bytes p" "rows p"] by simp
  then have "row_at p j = map f xs ! j"
    unfolding row_at_def
    using concat_slice [of "map f xs" "row_bytes p" j "drop (n * row_bytes p) (rows p)"] assms(2,3) j
    by simp
  then show "rows_upto p n ! j = map f xs ! j"
    using j by (simp add: rows_upto_def)
qed

end
