(* ===== verification/Gather_Proof.thy ===== *)
theory Gather_Proof
  imports Exchange_Proof Gather
begin

section \<open>Every operation keeps the table in step, and a gather returns the truth\<close>

text \<open>
  \<open>inv N\<close> is the invariant of a table over rows \<open>0 .. N - 1\<close>: no two peers share a socket, and
  while the table counts as usable every connection is idle with nothing unread, its server serves
  the range the table has on record, and the ranges tile the rows.
\<close>

definition same_geo :: "peer \<Rightarrow> peer \<Rightarrow> bool" where
  "same_geo q p \<longleftrightarrow> base_row p = base_row q \<and> row_count p = row_count q \<and> row_bytes p = row_bytes q"

lemma same_geo_refl [simp]: "same_geo p p"
  by (simp add: same_geo_def)

lemma same_ident_geo: "same_ident q p \<Longrightarrow> same_geo q p"
  by (simp add: same_ident_def same_geo_def)

lemma owners_map: "owners ps x = length (filter (\<lambda>(b, c). b \<le> x \<and> x < b + c) (map (\<lambda>p. (base_row p, row_count p)) ps))"
  by (induction ps) (auto simp: owns_def)

lemma tiling_geo:
  assumes "length qs = length ps" and "\<And>i. i < length ps \<Longrightarrow> same_geo (ps ! i) (qs ! i)"
  shows "tiling qs lo hi \<longleftrightarrow> tiling ps lo hi"
proof -
  have "map (\<lambda>p. (base_row p, row_count p)) qs = map (\<lambda>p. (base_row p, row_count p)) ps"
    by (rule nth_equalityI) (use assms in \<open>auto simp: same_geo_def\<close>)
  then show ?thesis
    by (simp add: tiling_def owners_map)
qed

lemma linked_fields:
  assumes "linked V D s" and "peers t = peers (fst s)"
  shows "linked V D (t, snd s)"
  using assms by (simp add: linked_def)

lemma staging_for_run:
  "\<exists>st. n \<le> length st \<and> staging_for E n s = (Inr (), ((fst s)\<lparr>staging := Some st\<rparr>, snd s))"
proof (cases "case staging (fst s) of None \<Rightarrow> True | Some st \<Rightarrow> length st < n")
  case True
  then show ?thesis
    by (intro exI [of _ "replicate (max n 4096) (replicate (nat (t_row_bytes (fst s))) (n_junk E))"])
      (auto simp: staging_for_def)
next
  case False
  then obtain st where "staging (fst s) = Some st" "n \<le> length st"
    by (cases "staging (fst s)") auto
  then show ?thesis
    by (intro exI [of _ st]) (cases s, auto simp: staging_for_def ret_run)
qed

lemma workspace_for_run: "\<exists>m. workspace_for n s = (Inr (), ((fst s)\<lparr>workspace := m\<rparr>, snd s))"
proof (cases "workspace (fst s) < n")
  case True
  then show ?thesis
    by (auto simp: workspace_for_def)
next
  case False
  then show ?thesis
    by (intro exI [of _ "workspace (fst s)"]) (cases s, simp add: workspace_for_def ret_run)
qed

lemma check_usable_run:
  "check_usable s = (case failed (fst s) of None \<Rightarrow> (Inr (), s)
     | Some _ \<Rightarrow> (Inl (Exn RuntimeError NotUsable), s))"
  by (simp add: check_usable_def ret_run raise_run split: option.splits)

lemma wire_id_less: "wire_id x < 2 ^ 32"
  by (simp add: wire_id_def nat_less_iff)

lemma wire_id_small: "0 \<le> x \<Longrightarrow> x < 2 ^ 32 \<Longrightarrow> wire_id x = nat x"
  by (simp add: wire_id_def)

lemma active_work_elem:
  assumes "x \<in> set (active_work t)" and "sel t = map (positions ids) (peers t)"
  shows "fst x < length (peers t)" "snd x = positions ids (peers t ! fst x)"
  using assms by (auto simp: active_work_def set_zip)

lemma active_work_distinct: "distinct (map fst (active_work t))"
  unfolding active_work_def by (rule distinct_map_filter) (simp add: map_fst_zip_take)

context trusted_net begin

definition live :: "peer \<Rightarrow> peer \<Rightarrow> 's wire \<Rightarrow> bool" where
  "live q p l \<longleftrightarrow> same_geo q p \<and> idle p p l"

definition synced :: "nat \<Rightarrow> table \<times> 'w \<Rightarrow> bool" where
  "synced N s \<longleftrightarrow> (\<forall>i<length (peers (fst s)).
       idle (peers (fst s) ! i) (peers (fst s) ! i) (link V (snd s) (peers (fst s) ! i))) \<and>
     tiling (peers (fst s)) 0 N \<and> rows_total (fst s) = int N"

definition inv :: "nat \<Rightarrow> table \<times> 'w \<Rightarrow> bool" where
  "inv N s \<longleftrightarrow> linked V deployed s \<and> length (sel (fst s)) = length (peers (fst s)) \<and>
     (failed (fst s) = None \<longrightarrow> synced N s)"

lemma inv_fields:
  assumes "inv N s" and "peers t = peers (fst s)" and "rows_total t = rows_total (fst s)"
    and "failed t = failed (fst s) \<or> failed t \<noteq> None" and "length (sel t) = length (sel (fst s))"
  shows "inv N (t, snd s)"
  using assms by (auto simp: inv_def synced_def linked_def)

lemma idle_self: "idle q p l \<Longrightarrow> idle p p l"
  by (auto simp: idle_def serves_def same_ident_def)

lemma synced_stage:
  assumes "synced N s" and "linked V deployed s"
  shows "sits (\<lambda>i. live (peers (fst s) ! i)) (fst s) s"
  using assms by (simp add: stage_def synced_def live_def)

lemma stage_synced:
  assumes "sits F t0 s" and "\<And>i p l. i < length (peers t0) \<Longrightarrow> F i p l \<Longrightarrow> same_geo (peers t0 ! i) p \<and> idle p p l"
    and "tiling (peers t0) 0 N" and "rows_total t0 = int N"
  shows "synced N s"
proof -
  have len: "length (peers (fst s)) = length (peers t0)" "rows_total (fst s) = rows_total t0"
    using assms(1) by (auto simp: stage_def dest: same_table_sel)
  have F: "same_geo (peers t0 ! i) (peers (fst s) ! i) \<and>
      idle (peers (fst s) ! i) (peers (fst s) ! i) (link V (snd s) (peers (fst s) ! i))"
    if "i < length (peers t0)" for i
  proof -
    have "F i (peers (fst s) ! i) (link V (snd s) (peers (fst s) ! i))"
      using assms(1) that len(1) by (simp add: stage_def)
    then show ?thesis
      using assms(2) [OF that] by blast
  qed
  have "tiling (peers (fst s)) 0 N"
    using tiling_geo [of "peers (fst s)" "peers t0" 0 N] len F assms(3) by blast
  then show ?thesis
    using F len assms(4) by (simp add: synced_def)
qed

text \<open>Writing the ids.\<close>

definition primed :: "int list \<Rightarrow> nat list \<Rightarrow> peer \<Rightarrow> peer \<Rightarrow> 's wire \<Rightarrow> bool" where
  "primed ids js q p l \<longleftrightarrow> live q p l \<and> length js \<le> cap p \<and>
     take (length js) (req_ids p) = map (\<lambda>j. wire_id (ids ! j)) js"

lemma marshal_step:
  assumes "seq (reserve E (length js)) (upd (write_ids ids js)) (p, w) = (r, (p', w'))"
    and "ready_peer V deployed (p, w)" and "live q p (link V w p)"
  shows "effect V deployed (p, w) (p', w') \<and> r = Inr () \<and> primed ids js q p' (link V w' p')"
proof -
  obtain rr s1 where 1: "reserve E (length js) (p, w) = (rr, s1)"
    by (cases "reserve E (length js) (p, w)")
  have "length (req_ids (fst (p, w))) = cap (fst (p, w))"
    "length (rows (fst (p, w))) = cap (fst (p, w)) * row_bytes (fst (p, w))"
    using assms(2) by (simp_all add: ready_peer_def buffered_def)
  note rs = reserve_step [OF 1 this]
  have p': "r = Inr ()" "w' = w" "p' = write_ids ids js (fst s1)"
    using assms(1) 1 rs(1,2) by (auto simp: seq_def bnd_def)
  have "sock p' = sock p" "cap p' = cap (fst s1)" "length js \<le> cap p'" "length (req_ids p') = cap p'"
    "length (rows p') = cap p' * row_bytes p'" "same_geo p p'"
    "take (length js) (req_ids p') = map (\<lambda>j. wire_id (ids ! j)) js"
    using rs p'(3) by (auto simp: write_ids_def same_geo_def)
  then show ?thesis
    using assms(2,3) p'(1,2)
    by (auto simp: effect_def ready_peer_def buffered_def primed_def live_def same_geo_def link_def
        idle_def serves_def)
qed

lemma marshal_all:
  assumes d: "distinct (map fst active)" and i: "\<forall>x\<in>set active. fst x < length (peers t0)"
  shows "triple (sits (\<lambda>i. live (peers t0 ! i)) t0) (each active (marshal E ids))
    (\<lambda>_. sits (mix (fst ` set active)
       (\<lambda>i. primed ids (the (map_of active i)) (peers t0 ! i)) (\<lambda>i. live (peers t0 ! i))) t0)
    (\<lambda>e s. False)"
proof -
  let ?L = "\<lambda>i. live (peers t0 ! i)" and ?Q = "\<lambda>i. primed ids (the (map_of active i)) (peers t0 ! i)"
  have "triple (sits (mix (fst ` set active) ?L ?L) t0) (each active (marshal E ids))
    (\<lambda>_. sits (mix (fst ` set active) ?Q ?L) t0)
    (\<lambda>e s. sits (mix (fst ` set active) (\<lambda>_ _ _. True) ?L) t0 s \<and> False)"
  proof (rule each_stage [OF _ d])
    fix x F assume x: "x \<in> set active" and F: "F (fst x) = ?L (fst x)"
    have m: "the (map_of active (fst x)) = snd x"
      using d x by (cases x) simp
    show "triple (sits F t0) (marshal E ids x) (\<lambda>_. sits (F(fst x := ?Q (fst x))) t0)
      (\<lambda>e s. sits (F(fst x := (\<lambda>_ _. True))) t0 s \<and> False)"
      unfolding marshal_def m
      by (rule on_peer_triple) (use i x F marshal_step in \<open>fastforce split: sum.splits\<close>)+
  qed simp
  then show ?thesis
    by (rule triple_weaken) (auto simp: mix_def fun_eq_iff elim!: stage_weaken)
qed

subsection \<open>The critical section of a gather\<close>

lemma scatter_run:
  assumes "staging t = Some st"
    and "\<And>x. x \<in> set active \<Longrightarrow> rows_upto (peers t ! fst x) (length (snd x)) = map f (snd x)"
    and "n \<le> length st" and "\<And>j. j < n \<Longrightarrow> \<exists>x\<in>set active. j \<in> set (snd x)"
  shows "staged n (scatter active t) = map f [0..<n]"
proof (rule nth_equalityI)
  note p = place_all_nth [of active "\<lambda>x. rows_upto (peers t ! fst x) (length (snd x))" f]
  show len: "length (staged n (scatter active t)) = length (map f [0..<n])"
    using assms(1,3) by (simp add: staged_def scatter_def)
  fix j assume "j < length (staged n (scatter active t))"
  then have "j < n"
    using len by simp
  then show "staged n (scatter active t) ! j = map f [0..<n] ! j"
    using assms p by (simp add: staged_def scatter_def)
qed

text \<open>The state in which the exchange starts.\<close>

lemma marshalled:
  assumes inv: "synced N s" "linked V deployed s"
    and sel: "sel (fst s) = map (positions ids) (peers (fst s))"
  obtains s2 where "each (active_work (fst s)) (marshal E ids) s = (Inr (), s2)"
    "same_table (fst s) (fst s2)" "linked V deployed s2" "workable (fst s2) (active_work (fst s))"
    "sits (mix (fst ` set (active_work (fst s))) (Idle (fst s2)) (Idle (fst s2))) (fst s2) s2"
    "\<And>i. i < length (peers (fst s2)) \<Longrightarrow>
      live (peers (fst s) ! i) (peers (fst s2) ! i) (link V (snd s2) (peers (fst s2) ! i))"
    "\<And>x. x \<in> set (active_work (fst s)) \<Longrightarrow> primed ids (snd x) (peers (fst s) ! fst x)
      (peers (fst s2) ! fst x) (link V (snd s2) (peers (fst s2) ! fst x))"
proof -
  let ?a = "active_work (fst s)" and ?t1 = "fst s"
  let ?T = "fst ` set ?a"
  have d: "distinct (map fst ?a)"
    by (rule active_work_distinct)
  have el: "fst x < length (peers ?t1)" "the (map_of ?a (fst x)) = snd x" if "x \<in> set ?a" for x
    using active_work_elem [OF that sel] d that by (cases x, auto)+
  let ?M = "mix ?T (\<lambda>i. primed ids (the (map_of ?a i)) (peers ?t1 ! i)) (\<lambda>i. live (peers ?t1 ! i))"
  obtain rm s2 where 2: "each ?a (marshal E ids) s = (rm, s2)"
    by (cases "each ?a (marshal E ids) s")
  have "triple (sits (\<lambda>i. live (peers ?t1 ! i)) ?t1) (each ?a (marshal E ids)) (\<lambda>_. sits ?M ?t1) (\<lambda>e s. False)"
    using d el(1) by (intro marshal_all) auto
  note mt = triple_InrD [OF this synced_stage [OF inv]] triple_InlD [OF this synced_stage [OF inv]]
  have rm: "rm = Inr ()"
    using mt(2) 2 by (cases rm) auto
  have m2: "sits ?M ?t1 s2"
    using mt(1) 2 rm by blast
  let ?t2 = "fst s2"
  have t2: "same_table ?t1 ?t2" "linked V deployed s2"
    using m2 by (auto simp: stage_def)
  note sel2 = same_table_sel [OF t2(1)]
  have M: "?M i (peers ?t2 ! i) (link V (snd s2) (peers ?t2 ! i))" if "i < length (peers ?t2)" for i
    using m2 that unfolding stage_def by blast
  have lv: "live (peers ?t1 ! i) (peers ?t2 ! i) (link V (snd s2) (peers ?t2 ! i))"
    if "i < length (peers ?t2)" for i
    using M [OF that] by (auto simp: mix_def primed_def split: if_splits)
  have pr: "primed ids (snd x) (peers ?t1 ! fst x) (peers ?t2 ! fst x) (link V (snd s2) (peers ?t2 ! fst x))"
    if "x \<in> set ?a" for x
    using M [of "fst x"] el [OF that] that sel2 by (simp add: mix_def)
  have w: "workable ?t2 ?a"
    unfolding workable_def
  proof (intro conjI ballI)
    fix x assume x: "x \<in> set ?a"
    show len: "fst x < length (peers ?t2)"
      using el(1) [OF x] sel2 by simp
    show "written (peers ?t2 ! fst x) (length (snd x))"
      using pr [OF x] wire_id_less by (auto simp: written_def primed_def)
    show "length (req_ids (peers ?t2 ! fst x)) = cap (peers ?t2 ! fst x)"
      using t2(2) len by (simp add: linked_def buffered_def)
  qed (rule d)
  have "sits (mix ?T (Idle ?t2) (Idle ?t2)) ?t2 s2"
    using t2(2) lv by (simp add: stage_def mix_def live_def)
  then show thesis
    using that [of s2] 2 rm t2 w lv pr by blast
qed

lemma gather_section:
  assumes inv: "synced N s" "linked V deployed s" and N: "N \<le> 2 ^ 32"
    and sel: "sel (fst s) = map (positions ids) (peers (fst s))"
    and st: "staging (fst s) = Some st" "length ids \<le> length st"
    and range: "\<forall>x\<in>set ids. 0 \<le> x \<and> x < int N"
    and run: "seq (each (active_work (fst s)) (marshal E ids))
      (seq (exchange E (active_work (fst s))) (upd (scatter (active_work (fst s))))) s = (r, s')"
  shows "linked V deployed s' \<and> length (sel (fst s')) = length (peers (fst s')) \<and>
    failed (fst s') = failed (fst s) \<and> (case r of
      Inr _ \<Rightarrow> synced N s' \<and> staged (length ids) (fst s') = map (\<lambda>x. truth (nat x)) ids
    | Inl e \<Rightarrow> halting e)"
proof -
  let ?a = "active_work (fst s)" and ?t1 = "fst s"
  let ?T = "fst ` set ?a"
  have d: "distinct (map fst ?a)"
    by (rule active_work_distinct)
  have el: "fst x < length (peers ?t1)" "snd x = positions ids (peers ?t1 ! fst x)" if "x \<in> set ?a" for x
    using active_work_elem [OF that sel] by auto
  obtain s2 where 2: "each ?a (marshal E ids) s = (Inr (), s2)"
    and t2: "same_table ?t1 (fst s2)" "linked V deployed s2" and w: "workable (fst s2) ?a"
    and i2: "sits (mix ?T (Idle (fst s2)) (Idle (fst s2))) (fst s2) s2"
    and lv: "\<And>i. i < length (peers (fst s2)) \<Longrightarrow>
      live (peers ?t1 ! i) (peers (fst s2) ! i) (link V (snd s2) (peers (fst s2) ! i))"
    and pr: "\<And>x. x \<in> set ?a \<Longrightarrow> primed ids (snd x) (peers ?t1 ! fst x)
      (peers (fst s2) ! fst x) (link V (snd s2) (peers (fst s2) ! fst x))"
    using marshalled [OF inv sel] by blast
  let ?t2 = "fst s2"
  note sel2 = same_table_sel [OF t2(1)]
  obtain re s3 where 3: "exchange E ?a s2 = (re, s3)"
    by (cases "exchange E ?a s2")
  have dl: "Idle ?t2 i p l \<Longrightarrow> Idle ?t2 i (p\<lparr>deadline := d\<rparr>) l" for i p l d
    by (simp add: idle_def same_ident_def)
  note ex = exchange_step [OF w, of "Idle ?t2", OF dl]
  show ?thesis
  proof (cases re)
    case (Inl e)
    have f: "fails (\<lambda>_ _ _. True) ?t2 e s3"
      using triple_InlD [OF ex i2] 3 Inl by blast
    then have "same_table ?t2 (fst s3)"
      by (simp add: stage_def)
    then show ?thesis
      using f Inl run 2 3 same_table_sel [of ?t2 "fst s3"] sel2 sel
      by (auto simp: seq_def bnd_def stage_def)
  next
    case (Inr u)
    have g: "sits (mix ?T (Got ?t2 ?a) (Idle ?t2)) ?t2 s3"
      using triple_InrD [OF ex i2] 3 Inr by blast
    have t3: "same_table ?t2 (fst s3)" "linked V deployed s3"
      using g by (auto simp: stage_def)
    note sel3 = same_table_sel [OF t3(1)]
    have s': "s' = (scatter ?a (fst s3), snd s3)" "r = Inr ()"
      using run 2 3 Inr by (auto simp: seq_def bnd_def)
    have tile2: "tiling (peers ?t2) 0 N" "rows_total ?t2 = int N"
      using inv(1) lv sel2 tiling_geo [of "peers ?t2" "peers ?t1" 0 N]
      by (auto simp: synced_def live_def)
    have "synced N s3"
    proof (rule stage_synced [OF g _ tile2])
      fix i p l assume "mix ?T (Got ?t2 ?a) (Idle ?t2) i p l"
      then have "idle (peers ?t2 ! i) p l"
        by (simp add: mix_def got_def split: if_splits)
      then show "same_geo (peers ?t2 ! i) p \<and> idle p p l"
        using idle_self same_ident_geo idle_def by blast
    qed
    then have sy: "synced N s'"
      using s' by (simp add: synced_def scatter_def)
    have rows: "rows_upto (peers (fst s3) ! fst x) (length (snd x)) = map (\<lambda>j. truth (nat (ids ! j))) (snd x)"
      if x: "x \<in> set ?a" for x
    proof -
      let ?q = "peers ?t2 ! fst x" and ?p = "peers (fst s3) ! fst x" and ?n = "length (snd x)"
      have "mix ?T (Got ?t2 ?a) (Idle ?t2) (fst x) ?p (link V (snd s3) ?p)"
        using g el(1) [OF x] sel2 sel3 by (simp add: stage_def)
      then have "got ?q ?n ?p (link V (snd s3) ?p)"
        using x need_eq [OF d x] by (simp add: mix_def)
      then have q: "take (?n * row_bytes ?p) (rows ?p) = concat (map truth (take ?n (req_ids ?q)))"
        "\<forall>i\<in>set (take ?n (req_ids ?q)). length (truth i) = row_bytes ?p"
        by (auto simp: got_def idle_def same_ident_def body_def)
      have ids: "take ?n (req_ids ?q) = map (\<lambda>j. wire_id (ids ! j)) (snd x)"
        using pr [OF x] by (simp add: primed_def)
      have "rows_upto ?p ?n = map truth (take ?n (req_ids ?q))"
        by (rule rows_upto_eq) (use q ids in auto)
      moreover have "wire_id (ids ! j) = nat (ids ! j)" if "j \<in> set (snd x)" for j
      proof -
        have "ids ! j \<in> set ids"
          using that el(2) [OF x] by (simp add: set_positions)
        then show ?thesis
          using range N by (intro wire_id_small) auto
      qed
      ultimately show ?thesis
        by (simp add: ids)
    qed
    have cover: "\<exists>x\<in>set ?a. j \<in> set (snd x)" if jn: "j < length ids" for j
    proof -
      obtain p where p: "p \<in> set (peers ?t1)" "j \<in> set (positions ids p)"
        using routed_iff [of "peers ?t1" N j ids] inv(1) jn range by (auto simp: synced_def)
      obtain i where i: "i < length (peers ?t1)" "j \<in> set (positions ids (peers ?t1 ! i))"
        using p(2) in_set_conv_nth [THEN iffD1, OF p(1)] by blast
      then have "(i, positions ids (peers ?t1 ! i)) \<in> set ?a"
        using sel by (auto simp: active_work_def set_zip intro!: exI [of _ i])
      then show ?thesis
        using i(2) by force
    qed
    have "staged (length ids) (scatter ?a (fst s3)) = map (\<lambda>j. truth (nat (ids ! j))) [0..<length ids]"
      by (rule scatter_run [OF _ rows st(2) cover]) (use st(1) sel2 sel3 in auto)
    also have "\<dots> = map (\<lambda>x. truth (nat x)) ids"
      by (rule nth_equalityI) auto
    finally show ?thesis
      using s' sy t3(2) sel sel2 sel3 linked_fields [OF t3(2), of "scatter ?a (fst s3)"]
      by (simp add: scatter_def)
  qed
qed

end

lemma condemn_run:
  "condemn m s = (case m s of
     (Inr x, s') \<Rightarrow> (Inr x, s')
   | (Inl e, s') \<Rightarrow> (Inl e, if is_exception e
       then ((fst s')\<lparr>failed := Some (FailedWith e)\<rparr>, snd s') else s'))"
  by (auto simp: condemn_def handle_def raise_run split: prod.splits sum.splits)

lemma length_filter_full: "length (filter P xs) = length xs \<longleftrightarrow> (\<forall>x\<in>set xs. P x)"
  by (metis filter_True filter_id_conv length_filter_less linorder_neq_iff)

lemma id_range_add: "id_range start (a + b) = id_range start a @ id_range (start + int a) b"
  by (rule nth_equalityI) (auto simp: id_range_def nth_append)

text \<open>
  \<open>gather_cpu\<close> in its parts: what is decided before any traffic, and the critical section.
\<close>

definition section_of :: "'w net \<Rightarrow> int list \<Rightarrow> ('w, unit) tprog" where
  "section_of E ids = bnd (gets (\<lambda>s. active_work (fst s))) (\<lambda>active.
     seq (each active (marshal E ids)) (seq (exchange E active) (upd (scatter active))))"

lemma gather_cpu_cases:
  assumes run: "gather_cpu E ids s = (r, s')"
    and len: "length (sel (fst s)) = length (peers (fst s))"
    and "failed (fst s) = None \<longrightarrow> tiling (peers (fst s)) 0 N"
  obtains (empty) t where "ids = []" "r = Inr []" "s' = (t, snd s)" "peers t = peers (fst s)"
      "rows_total t = rows_total (fst s)" "failed t = failed (fst s)" "sel t = sel (fst s)"
    | (refused) t e where "ids \<noteq> []" "r = Inl e" "s' = (t, snd s)" "is_exception e"
      "peers t = peers (fst s)" "rows_total t = rows_total (fst s)" "failed t = failed (fst s)"
      "length (sel t) = length (sel (fst s))"
      "t = (fst s)\<lparr>staging := staging t, workspace := workspace t, sel := sel t\<rparr>"
      "failed (fst s) \<noteq> None \<or> (\<exists>p\<in>set (peers (fst s)). \<not> fits (fst s) ids p) \<or>
        (\<exists>x\<in>set ids. \<not> (0 \<le> x \<and> x < int N))"
    | (sent) t st where "ids \<noteq> []" "failed (fst s) = None" "peers t = peers (fst s)"
      "rows_total t = rows_total (fst s)" "failed t = None" "sel t = map (positions ids) (peers t)"
      "staging t = Some st" "length ids \<le> length st" "\<forall>x\<in>set ids. 0 \<le> x \<and> x < int N"
      "\<forall>p\<in>set (peers (fst s)). fits (fst s) ids p"
      "bnd (condemn (section_of E ids)) (\<lambda>_. gets (\<lambda>s. staged (length ids) (fst s))) (t, snd s) = (r, s')"
proof -
  have tile: "failed (fst s) = None \<Longrightarrow> tiling (peers (fst s)) 0 N"
    using assms(3) by blast
  obtain st where st: "length ids \<le> length st"
    "staging_for E (length ids) s = (Inr (), ((fst s)\<lparr>staging := Some st\<rparr>, snd s))"
    using staging_for_run by blast
  let ?s1 = "((fst s)\<lparr>staging := Some st\<rparr>, snd s)"
  show thesis
  proof (cases "ids = []")
    case True
    then have "r = Inr []" "s' = ?s1"
      using run st(2) by (auto simp: gather_cpu_def seq_def bnd_def staged_def)
    then show thesis
      using empty True by simp
  next
    case False
    obtain m where m: "workspace_for (length ids) ?s1 = (Inr (), ((fst ?s1)\<lparr>workspace := m\<rparr>, snd ?s1))"
      using workspace_for_run by blast
    let ?t2 = "(fst ?s1)\<lparr>workspace := m\<rparr>"
    show thesis
    proof (cases "failed (fst s)")
      case (Some f)
      then have "r = Inl (Exn RuntimeError NotUsable)" "s' = ?s1"
        using run st(2) False by (auto simp: gather_cpu_def seq_def bnd_def check_usable_run)
      then show thesis
        using refused [of "Exn RuntimeError NotUsable" "fst ?s1"] Some False by simp
    next
      case None
      have rest: "bnd (partition_ids ids) (\<lambda>routed.
        seq (if routed \<noteq> length ids then raise_unroutable ids else ret ())
        (seq (condemn (section_of E ids)) (gets (\<lambda>s. staged (length ids) (fst s)))))
        (?t2, snd s) = (r, s')"
        using run st(2) m False None
        by (simp add: gather_cpu_def seq_def bnd_def check_usable_run section_of_def)
      show thesis
      proof (cases "\<forall>p\<in>set (peers (fst s)). fits (fst s) ids p")
        case False
        then obtain p where "p \<in> set (peers (fst (?t2, snd s)))" "\<not> fits (fst (?t2, snd s)) ids p"
          by (auto simp: fits_def)
        then obtain q ss where q: "length ss = length (sel ?t2)"
          "partition_ids ids (?t2, snd s) = (Inl (Exn ValueError (TooManyRows (length (positions ids q))
             (nat (max_rows ?t2)))), (?t2\<lparr>sel := ss\<rparr>, snd s))"
          using partition_ids_over [of "(?t2, snd s)" p ids] len by auto
        then show thesis
          using refused [of "Exn ValueError (TooManyRows (length (positions ids q)) (nat (max_rows ?t2)))"
              "?t2\<lparr>sel := ss\<rparr>"] rest \<open>ids \<noteq> []\<close> False
          by (simp add: bnd_def)
      next
        case True
        let ?t3 = "?t2\<lparr>sel := map (positions ids) (peers (fst s))\<rparr>"
        let ?n = "length (filter (\<lambda>x. 0 \<le> x \<and> x < int N) ids)"
        have "\<forall>p\<in>set (peers (fst (?t2, snd s))). fits (fst (?t2, snd s)) ids p"
          using True by (simp add: fits_def)
        then have part: "partition_ids ids (?t2, snd s) = (Inr ?n, (?t3, snd s))"
          using partition_ids_ok [of "(?t2, snd s)" ids] len routed_sum [OF tile [OF None]] by simp
        show thesis
        proof (cases "?n = length ids")
          case full: True
          then have "\<forall>x\<in>set ids. 0 \<le> x \<and> x < int N"
            by (simp only: length_filter_full)
          moreover have "bnd (condemn (section_of E ids))
              (\<lambda>_. gets (\<lambda>s. staged (length ids) (fst s))) (?t3, snd s) = (r, s')"
            using rest part full by (simp add: bnd_def seq_def ret_run)
          ultimately show thesis
            using sent [of ?t3 st] \<open>ids \<noteq> []\<close> None st(1) True by simp
        next
          case False
          then have bad: "\<exists>x\<in>set ids. \<not> (0 \<le> x \<and> x < int N)"
            by (simp only: length_filter_full) blast
          have "tiling (peers (fst (?t3, snd s))) 0 N"
            "sel (fst (?t3, snd s)) = map (positions ids) (peers (fst (?t3, snd s)))"
            using tile [OF None] by simp_all
          from raise_unroutable_run [OF this bad] obtain e where
            "(raise_unroutable ids (?t3, snd s) :: (exn + unit) \<times> _) = (Inl e, (?t3, snd s))"
            "is_exception e"
            using is_exception_Exn [of IndexError] by blast
          then show thesis
            using refused [of e ?t3, OF \<open>ids \<noteq> []\<close> _ _ _ _ _ _ _ _ disjI2 [OF disjI2 [OF bad]]]
              rest part False len
            by (simp add: bnd_def seq_def)
        qed
      qed
    qed
  qed
qed

context trusted_net begin

lemma gather_cpu_step:
  assumes inv: "inv N s" and N: "N \<le> 2 ^ 32" and run: "gather_cpu E ids s = (r, s')"
  shows "case r of
      Inr out \<Rightarrow> inv N s' \<and> out = map (\<lambda>x. truth (nat x)) ids \<and> (\<forall>x\<in>set ids. 0 \<le> x \<and> x < int N)
    | Inl e \<Rightarrow> halting e \<and> (is_exception e \<longrightarrow> inv N s')"
proof -
  have len: "length (sel (fst s)) = length (peers (fst s))"
    and tile: "failed (fst s) = None \<longrightarrow> tiling (peers (fst s)) 0 N"
    using inv by (auto simp: inv_def synced_def)
  show ?thesis
    using run len tile
  proof (cases rule: gather_cpu_cases)
    case (empty t)
    then show ?thesis
      using inv_fields [OF inv, of t] by simp
  next
    case (refused t e)
    then show ?thesis
      using inv_fields [OF inv, of t] by (simp add: halting_def)
  next
    case (sent t st)
    have sy: "synced N (t, snd s)" "linked V deployed (t, snd s)"
      using inv sent by (auto simp: inv_def synced_def intro: linked_fields)
    obtain rm s1 where 1: "section_of E ids (t, snd s) = (rm, s1)"
      by (cases "section_of E ids (t, snd s)")
    have "linked V deployed s1 \<and> length (sel (fst s1)) = length (peers (fst s1)) \<and>
      failed (fst s1) = failed (fst (t, snd s)) \<and> (case rm of
        Inr _ \<Rightarrow> synced N s1 \<and> staged (length ids) (fst s1) = map (\<lambda>x. truth (nat x)) ids
      | Inl e \<Rightarrow> halting e)"
      by (rule gather_section [OF sy N, of ids st]) (use sent 1 in \<open>simp_all add: section_of_def\<close>)
    note sec = this
    show ?thesis
    proof (cases rm)
      case (Inl e)
      then have "r = Inl e" "s' = (if is_exception e
          then ((fst s1)\<lparr>failed := Some (FailedWith e)\<rparr>, snd s1) else s1)"
        using sent 1 by (auto simp: bnd_def condemn_run)
      then show ?thesis
        using sec Inl linked_fields [of V deployed s1 "(fst s1)\<lparr>failed := Some (FailedWith e)\<rparr>"]
        by (simp add: inv_def)
    next
      case (Inr u)
      then have "r = Inr (staged (length ids) (fst s1))" "s' = s1"
        using sent 1 by (auto simp: bnd_def condemn_run)
      then show ?thesis
        using sec Inr sent by (simp add: inv_def)
    qed
  qed
qed

lemma gather_step:
  assumes inv: "inv N s" and N: "N \<le> 2 ^ 32" and run: "gather E ids dst s = (r, s')"
  shows "case r of
      Inr (out, buf) \<Rightarrow> inv N s' \<and> (dst = None \<or> length ids \<le> length (the dst) \<longrightarrow>
        out = map (\<lambda>x. truth (nat x)) ids) \<and> (\<forall>x\<in>set ids. 0 \<le> x \<and> x < int N)
    | Inl e \<Rightarrow> halting e \<and> (is_exception e \<longrightarrow> inv N s')"
proof -
  obtain rg s1 where 1: "gather_cpu E ids s = (rg, s1)"
    by (cases "gather_cpu E ids s")
  note g = gather_cpu_step [OF inv N 1]
  show ?thesis
  proof (cases rg)
    case (Inl e)
    then show ?thesis
      using run 1 g by (auto simp: gather_def bnd_def)
  next
    case (Inr rs)
    then show ?thesis
      using run 1 g
      by (cases dst) (auto simp: gather_def bnd_def of_sum_run copy_rows_def ret_run halting_def
          split: if_splits)
  qed
qed

lemma read_chunks_step:
  assumes "inv N s" and N: "N \<le> 2 ^ 32" and "read_chunks E start n step buf done s = (r, s')"
    and "buf = map (\<lambda>x. truth (nat x)) (id_range start done)" and "done \<le> n"
  shows "case r of
      Inr out \<Rightarrow> inv N s' \<and> out = map (\<lambda>x. truth (nat x)) (id_range start n)
    | Inl e \<Rightarrow> halting e \<and> (is_exception e \<longrightarrow> inv N s')"
  using assms(1,3-)
proof (induction "n - done" arbitrary: "done" buf s rule: less_induct)
  case less
  note run = less.prems(2) [unfolded read_chunks.simps [of E start n step buf "done" s]]
  show ?case
  proof (cases "done < n")
    case False
    then show ?thesis
      using run less.prems by auto
  next
    case True
    let ?k = "min (max step 1) (n - done)"
    have k: "0 < ?k" "done + ?k \<le> n"
      using True by auto
    obtain rg s1 where 1: "gather_cpu E (id_range (start + int done) ?k) s = (rg, s1)"
      by (cases "gather_cpu E (id_range (start + int done) ?k) s")
    note g = gather_cpu_step [OF less.prems(1) N 1]
    show ?thesis
    proof (cases rg)
      case (Inl e)
      then show ?thesis
        using run 1 g True by (auto simp: Let_def)
    next
      case (Inr rs)
      have "id_range start (done + ?k) = id_range start done @ id_range (start + int done) ?k"
        by (rule id_range_add)
      then have buf: "buf @ rs = map (\<lambda>x. truth (nat x)) (id_range start (done + ?k))"
        using g Inr less.prems(3) by simp
      have rest: "read_chunks E start n step (buf @ rs) (done + ?k) s1 = (r, s')"
        using run 1 Inr True by (simp add: Let_def)
      have "n - (done + ?k) < n - done"
        using k True by linarith
      then show ?thesis
        by (rule less.hyps [OF _ _ rest buf k(2)]) (use g Inr in simp)
    qed
  qed
qed

lemma read_rows_contiguous_step:
  assumes inv: "inv N s" and N: "N \<le> 2 ^ 32"
    and run: "read_rows_contiguous E start n chunk s = (r, s')"
  shows "case r of
      Inr out \<Rightarrow> inv N s' \<and> out = map (\<lambda>x. truth (nat x)) (id_range start (nat n))
    | Inl e \<Rightarrow> halting e \<and> (is_exception e \<longrightarrow> inv N s')"
proof (cases "n \<le> 0")
  case True
  then show ?thesis
    using run inv by (auto simp: read_rows_contiguous_def ret_run id_range_def)
next
  case False
  then have "read_chunks E start (nat n) (nat (max 1 (min chunk (max_rows (fst s))))) [] 0 s = (r, s')"
    using run by (simp add: read_rows_contiguous_def)
  then show ?thesis
    by (rule read_chunks_step [OF inv N]) (simp_all add: id_range_def)
qed

end

end
