(* ===== verification/Table_Proof.thy ===== *)
theory Table_Proof
  imports Gather_Proof
begin

section \<open>The constructor, ping, stat and close\<close>

text \<open>
  The remaining operations of the table over a trusted network: a constructor that returns
  establishes the invariant, \<open>ping\<close>, \<open>stat\<close> and \<open>close\<close> keep it.
\<close>

text \<open>A loop over all peers, and the comprehension over all peers.\<close>

lemma each_index_with:
  assumes "\<And>i F. i < length (peers t0) \<Longrightarrow> F i = P i \<Longrightarrow>
      triple (\<lambda>s. stage V D F t0 s \<and> K s) (f i) (\<lambda>_ s. stage V D (F(i := Q i)) t0 s \<and> K s) R"
  shows "triple (\<lambda>s. stage V D P t0 s \<and> K s) (each [0..<length (peers t0)] f)
    (\<lambda>_ s. stage V D Q t0 s \<and> K s) R"
proof -
  define I where "I ys (zs :: nat list) = (\<lambda>s. stage V D (\<lambda>i. if i \<in> set ys then Q i else P i) t0 s \<and> K s)"
    for ys zs
  have "triple (I [] [0..<length (peers t0)]) (each [0..<length (peers t0)] f)
    (\<lambda>_. I [0..<length (peers t0)] []) R"
  proof (rule triple_each)
    fix ys x zs assume xs: "[0..<length (peers t0)] = ys @ x # zs"
    have x: "x < length (peers t0)" "x \<notin> set ys"
      using arg_cong [OF xs, of set] arg_cong [OF xs, of distinct] by auto
    let ?F = "\<lambda>i. if i \<in> set ys then Q i else P i"
    have "?F(x := Q x) = (\<lambda>i. if i \<in> set (ys @ [x]) then Q i else P i)"
      by (auto simp: fun_eq_iff)
    then show "triple (I ys (x # zs)) (f x) (\<lambda>_. I (ys @ [x]) zs) R"
      unfolding I_def using assms [OF x(1), of ?F] x(2) by simp
  qed
  then show ?thesis
    unfolding I_def by (rule triple_weaken) (auto elim!: stage_weaken)
qed

lemma each_index:
  assumes "\<And>i F. i < length (peers t0) \<Longrightarrow> F i = P i \<Longrightarrow>
      triple (stage V D F t0) (f i) (\<lambda>_. stage V D (F(i := Q i)) t0) R"
  shows "triple (stage V D P t0) (each [0..<length (peers t0)] f) (\<lambda>_. stage V D Q t0) R"
  by (rule each_index_with [where K = "\<lambda>_. True", simplified]) (rule assms)

lemma collect_index:
  assumes "\<And>i. i < n \<Longrightarrow> triple P (f i) (\<lambda>x s. P s \<and> good i x) R"
  shows "triple P (collect [0..<n] f)
    (\<lambda>xs s. P s \<and> length xs = n \<and> (\<forall>i<n. good i (xs ! i))) R"
proof -
  have "triple P (collect [k..<n] f)
    (\<lambda>xs s. P s \<and> length xs = n - k \<and> (\<forall>i<n - k. good (k + i) (xs ! i))) R"
    if "k \<le> n" for k
    using that
  proof (induction "n - k" arbitrary: k)
    case 0
    then show ?case
      by (auto intro!: triple_ret)
  next
    case (Suc m)
    then have k: "k < n" "m = n - Suc k"
      by auto
    have "triple (\<lambda>s. P s \<and> good k x) (bnd (collect [Suc k..<n] f) (\<lambda>xs. ret (x # xs)))
      (\<lambda>xs s. P s \<and> length xs = n - k \<and> (\<forall>i<n - k. good (k + i) (xs ! i))) R" for x
    proof (cases "good k x")
      case True
      show ?thesis
      proof (rule triple_bnd)
        show "triple (\<lambda>s. P s \<and> good k x) (collect [Suc k..<n] f) (\<lambda>xs s.
          P s \<and> length xs = n - Suc k \<and> (\<forall>i<n - Suc k. good (Suc k + i) (xs ! i))) R"
          by (rule triple_pre [OF Suc.hyps(1)]) (use k in auto)
      next
        fix xs
        show "triple (\<lambda>s. P s \<and> length xs = n - Suc k \<and>
            (\<forall>i<n - Suc k. good (Suc k + i) (xs ! i))) (ret (x # xs))
          (\<lambda>xs s. P s \<and> length xs = n - k \<and> (\<forall>i<n - k. good (k + i) (xs ! i))) R"
          using True k by (auto intro!: triple_ret simp: nth_Cons split: nat.splits)
      qed
    qed (simp add: triple_def)
    then have "triple P (bnd (f k) (\<lambda>x. bnd (collect [Suc k..<n] f) (\<lambda>xs. ret (x # xs))))
      (\<lambda>xs s. P s \<and> length xs = n - k \<and> (\<forall>i<n - k. good (k + i) (xs ! i))) R"
      using assms k by (intro triple_bnd [OF assms(1)]) auto
    then show ?case
      using k by (simp add: upt_conv_Cons)
  qed
  from this [of 0] show ?thesis
    by simp
qed

subsection \<open>Reordering the peers\<close>

lemma map_filter_distinct:
  "distinct (List.map_filter f xs) \<longleftrightarrow>
    (\<forall>i<length xs. \<forall>j<length xs. \<forall>k. f (xs ! i) = Some k \<longrightarrow> f (xs ! j) = Some k \<longrightarrow> i = j)"
proof (induction xs)
  case Nil
  then show ?case by (simp add: List.map_filter_def)
next
  case (Cons x xs)
  have mem: "k \<in> set (List.map_filter f xs) \<longleftrightarrow> (\<exists>i<length xs. f (xs ! i) = Some k)" for k
    by (force simp: List.map_filter_def in_set_conv_nth)
  have cons: "List.map_filter f (x # xs) = (case f x of None \<Rightarrow> [] | Some k \<Rightarrow> [k]) @ List.map_filter f xs"
    by (simp add: List.map_filter_def split: option.splits)
  show ?case
  proof (cases "f x")
    case None
    then show ?thesis
      using Cons.IH cons by (simp add: All_less_Suc2)
  next
    case (Some k)
    have "distinct (List.map_filter f (x # xs)) \<longleftrightarrow>
        (\<forall>i<length xs. f (xs ! i) \<noteq> Some k) \<and> distinct (List.map_filter f xs)"
      using cons Some mem by auto
    then show ?thesis
      using Cons.IH Some by (auto simp: All_less_Suc2)
  qed
qed

lemma map_filter_mset:
  "mset xs = mset ys \<Longrightarrow> mset (List.map_filter f xs) = mset (List.map_filter f ys)"
  by (simp add: List.map_filter_def mset_filter)

lemma linked_reorder:
  assumes "linked V D s" and "mset ps = mset (peers (fst s))"
  shows "linked V D ((fst s)\<lparr>peers := ps\<rparr>, snd s)"
proof -
  have set: "set ps = set (peers (fst s))"
    using assms(2) by (rule mset_eq_setD)
  have "distinct (List.map_filter sock (peers (fst s)))"
    using assms(1) unfolding linked_def map_filter_distinct by blast
  then have "distinct (List.map_filter sock ps)"
    using map_filter_mset [OF assms(2), of sock] by (metis mset_eq_imp_distinct_iff)
  then have d: "\<forall>i<length ps. \<forall>j<length ps. \<forall>k. sock (ps ! i) = Some k \<longrightarrow> sock (ps ! j) = Some k \<longrightarrow> i = j"
    unfolding map_filter_distinct by blast
  have "\<exists>j<length (peers (fst s)). ps ! i = peers (fst s) ! j" if "i < length ps" for i
    using that set by (metis in_set_conv_nth)
  then show ?thesis
    using assms(1) d unfolding linked_def by (simp, metis)
qed

context trusted_net begin

abbreviation lost :: "table \<Rightarrow> exn \<Rightarrow> table \<times> 'w \<Rightarrow> bool" where
  "lost t0 \<equiv> fails (\<lambda>_ _ _. True) t0"

lemma synced_idle: "synced N s \<Longrightarrow> linked V deployed s \<Longrightarrow> sits (Idle (fst s)) (fst s) s"
  by (simp add: stage_def synced_def)

lemma idle_synced:
  assumes "sits (Idle t0) t0 s" and "tiling (peers t0) 0 N" and "rows_total t0 = int N"
  shows "synced N s"
  by (rule stage_synced [OF assms(1) _ assms(2,3)])
    (blast intro: idle_self same_ident_geo dest: idle_def [THEN iffD1])

lemma on_peer_lost:
  assumes "i < length (peers t0)" and "F i = P"
    and "\<And>p w r p' w'. m (p, w) = (r, (p', w')) \<Longrightarrow> ready_peer V deployed (p, w) \<Longrightarrow>
      P p (link V w p) \<Longrightarrow> effect V deployed (p, w) (p', w') \<and>
        (case r of Inr x \<Rightarrow> G x p' (link V w' p') | Inl e \<Rightarrow> halting e)"
  shows "triple (sits F t0) (on_peer i m) (\<lambda>x. sits (F(i := G x)) t0) (lost t0)"
proof (rule triple_weaken)
  show "triple (sits F t0) (on_peer i m) (\<lambda>x. sits (F(i := G x)) t0) (fails (F(i := (\<lambda>_ _. True))) t0)"
  proof (rule on_peer_triple [OF assms(1)])
    fix p w r p' w'
    assume "m (p, w) = (r, (p', w'))" "ready_peer V deployed (p, w)" "F i p (link V w p)"
    then show "effect V deployed (p, w) (p', w') \<and>
        (case r of Inr x \<Rightarrow> G x p' (link V w' p') | Inl e \<Rightarrow> True \<and> halting e)"
      using assms(2) assms(3) [of p w r p' w'] by (cases r) auto
  qed
qed (auto elim!: stage_weaken)

subsection \<open>ping\<close>

definition pinged :: "peer \<Rightarrow> peer \<Rightarrow> 's wire \<Rightarrow> bool" where
  "pinged q p l \<longleftrightarrow> same_ident q p \<and> (\<exists>s out rid h. l = Some (out, s) \<and> serves s q \<and>
     pack_request OP_PING 0 rid 0 = Inr h \<and> reply s h out)"

lemma ping_send_step:
  assumes "send_bare E OP_PING rid (p, w) = (r, (p', w'))" and "ready_peer V deployed (p, w)"
    and "idle q p (link V w p)"
  shows "effect V deployed (p, w) (p', w') \<and>
    (case r of Inr _ \<Rightarrow> pinged q p' (link V w' p') | Inl e \<Rightarrow> halting e)"
proof -
  obtain k s where k: "sock p = Some k" "on_link V k (p, w)" "v_out V w k = []" "v_srv V w k = s"
      "serves s q" "same_ident q p"
    using idle_on [OF assms(3,2)] by blast
  have op: "OP_PING < 256"
    by (simp add: wire_consts)
  note m = send_bare_moved [OF assms(1) k(2) op]
  note link = pumped_link [OF moved_pumped k(2) assms(2), of p' w']
  show ?thesis
    using m link k by (cases r) (auto simp: pinged_def)
qed

lemma ping_read_step:
  assumes "read_ack E (p, w) = (r, (p', w'))" and "ready_peer V deployed (p, w)"
    and "pinged q p (link V w p)"
  shows "effect V deployed (p, w) (p', w') \<and>
    (case r of Inr _ \<Rightarrow> idle q p' (link V w' p') | Inl e \<Rightarrow> halting e)"
proof -
  obtain s out rid h where l: "link V w p = Some (out, s)" "serves s q" "same_ident q p"
    "pack_request OP_PING 0 rid 0 = Inr h" "reply s h out"
    using assms(3) by (auto simp: pinged_def)
  obtain k where k: "sock p = Some k" "on_link V k (p, w)" "v_out V w k = out" "v_srv V w k = s"
    using link_on [OF assms(2) l(1)] by blast
  note m = read_ack_moved [OF assms(1) k(2)]
  note link = pumped_link [OF moved_pumped k(2) assms(2), of p' w']
  show ?thesis
    using m link k l read_ack_ok [of "(p, w)" "(p', w')" k rid h] assms(1)
    by (cases r) (auto simp: idle_def)
qed

lemma condemn_step:
  assumes inv: "inv N s" and f: "failed (fst s) = None"
    and t: "triple (\<lambda>u. u = s) m (\<lambda>x u. sits (Idle (fst s)) (fst s) u \<and> good x u) (lost (fst s))"
    and run: "condemn m s = (r, s')"
  shows "case r of
      Inr x \<Rightarrow> inv N s' \<and> good x s' \<and> failed (fst s') = None \<and> sits (Idle (fst s)) (fst s) s'
    | Inl e \<Rightarrow> halting e \<and> (is_exception e \<longrightarrow> inv N s')"
proof -
  obtain rm s1 where 1: "m s = (rm, s1)"
    by (cases "m s")
  have sy: "synced N s" "length (sel (fst s)) = length (peers (fst s))"
    using inv f by (auto simp: inv_def)
  show ?thesis
  proof (cases rm)
    case (Inl e)
    have l: "lost (fst s) e s1"
      using triple_InlD [OF t refl] 1 Inl by blast
    then have "same_table (fst s) (fst s1)" "linked V deployed s1"
      by (auto simp: stage_def)
    then have "inv N ((fst s1)\<lparr>failed := Some (FailedWith e)\<rparr>, snd s1)"
      using linked_fields [of V deployed s1 "(fst s1)\<lparr>failed := Some (FailedWith e)\<rparr>"]
        same_table_sel [of "fst s" "fst s1"] sy by (simp add: inv_def)
    then show ?thesis
      using run 1 Inl l by (auto simp: condemn_run)
  next
    case (Inr x)
    have g: "sits (Idle (fst s)) (fst s) s1" "good x s1"
      using triple_InrD [OF t refl] 1 Inr by blast+
    then have "same_table (fst s) (fst s1)" "linked V deployed s1"
      by (auto simp: stage_def)
    moreover have "tiling (peers (fst s)) 0 N" "rows_total (fst s) = int N"
      using sy by (simp_all add: synced_def)
    moreover from this have "synced N s1"
      by (rule idle_synced [OF g(1)])
    ultimately show ?thesis
      using run 1 Inr g same_table_sel [of "fst s" "fst s1"] sy f by (auto simp: condemn_run inv_def)
  qed
qed

lemma ping_step:
  assumes inv: "inv N s" and run: "ping E s = (r, s')"
  shows "(case r of Inr _ \<Rightarrow> True | Inl e \<Rightarrow> halting e) \<and> (r = Inr () \<or> is_exception (projl r) \<longrightarrow> inv N s')"
proof (cases "failed (fst s)")
  case (Some f)
  then show ?thesis
    using run inv by (auto simp: ping_def seq_def bnd_def check_usable_run halting_def)
next
  case None
  let ?t = "fst s"
  have i: "sits (Idle ?t) ?t s"
    using inv None by (intro synced_idle) (auto simp: inv_def)
  have send: "triple (sits (Idle ?t) ?t)
    (each [0..<length (peers ?t)] (\<lambda>i. bnd next_req_id (\<lambda>r. on_peer i (send_bare E OP_PING r))))
    (\<lambda>_. sits (\<lambda>i. pinged (peers ?t ! i)) ?t) (lost ?t)"
    by (rule each_index, rule triple_bnd [OF next_req_id_stage], rule on_peer_lost [OF _ _ ping_send_step])
      simp_all
  have ack: "triple (sits (\<lambda>i. pinged (peers ?t ! i)) ?t)
    (each [0..<length (peers ?t)] (\<lambda>i. on_peer i (read_ack E))) (\<lambda>_. sits (Idle ?t) ?t) (lost ?t)"
    by (rule each_index, rule on_peer_lost [OF _ _ ping_read_step]) simp_all
  have t: "triple (\<lambda>u. u = s) (bnd (gets peer_indices) (\<lambda>is.
     seq (each is (\<lambda>i. bnd next_req_id (\<lambda>r. on_peer i (send_bare E OP_PING r))))
         (each is (\<lambda>i. on_peer i (read_ack E)))))
     (\<lambda>x u. sits (Idle ?t) ?t u \<and> True) (lost ?t)"
  proof (rule triple_gets)
    fix "is"
    show "triple (\<lambda>u. u = s \<and> peer_indices u = is)
      (seq (each is (\<lambda>i. bnd next_req_id (\<lambda>r. on_peer i (send_bare E OP_PING r))))
         (each is (\<lambda>i. on_peer i (read_ack E))))
      (\<lambda>x u. sits (Idle ?t) ?t u \<and> True) (lost ?t)"
    proof (cases "is = peer_indices s")
      case True
      then show ?thesis
        using triple_pre [OF triple_seq [OF send ack], of "\<lambda>u. u = s \<and> peer_indices u = is"] i
        by (simp add: peer_indices_def)
    qed (simp add: triple_def)
  qed
  have "condemn (bnd (gets peer_indices) (\<lambda>is.
     seq (each is (\<lambda>i. bnd next_req_id (\<lambda>r. on_peer i (send_bare E OP_PING r))))
         (each is (\<lambda>i. on_peer i (read_ack E))))) s = (r, s')"
    using run None by (simp add: ping_def seq_def [of check_usable] bnd_def [of check_usable] check_usable_run)
  from condemn_step [OF inv None t this] show ?thesis
    by (cases r) auto
qed

subsection \<open>stat\<close>

definition agrees :: "stat \<Rightarrow> peer \<Rightarrow> bool" where
  "agrees st q \<longleftrightarrow>
     st_base_row st = base_row q \<and> st_row_count st = row_count q \<and> st_row_bytes st = row_bytes q"

lemma stat_query_step:
  assumes "query_stat E rid (p, w) = (r, (p', w'))" and "ready_peer V deployed (p, w)"
    and "idle q p (link V w p)"
  shows "effect V deployed (p, w) (p', w') \<and>
    (case r of Inr st \<Rightarrow> idle q p' (link V w' p') \<and> agrees st q | Inl e \<Rightarrow> halting e)"
proof -
  obtain k s where k: "sock p = Some k" "on_link V k (p, w)" "v_out V w k = []" "v_srv V w k = s"
      "serves s q" "same_ident q p"
    using idle_on [OF assms(3,2)] by blast
  note m = query_stat_moved [OF assms(1) k(2)]
  note link = pumped_link [OF moved_pumped k(2) assms(2), of p' w']
  show ?thesis
    using m link k query_stat_ok [of rid "(p, w)" _ "(p', w')" k] assms(1)
    by (cases r) (auto simp: idle_def agrees_def serves_def)
qed

lemma check_range_step:
  assumes "check_range st (p, w) = (r, (p', w'))" and "ready_peer V deployed (p, w)"
    and "idle q p (link V w p)" and "agrees st q"
  shows "effect V deployed (p, w) (p', w') \<and> r = Inr () \<and> idle q p' (link V w' p')"
proof -
  have "(st_base_row st, st_row_count st, st_row_bytes st) = (base_row p, row_count p, row_bytes p)"
    using assms(3,4) by (simp add: idle_def same_ident_def agrees_def)
  then have "r = Inr ()" "p' = note_stat st p" "w' = w"
    using assms(1) by (auto simp: check_range_def)
  then show ?thesis
    using assms(2,3)
    by (auto simp: effect_def ready_peer_def note_stat_def buffered_def idle_def same_ident_def link_def)
qed

lemma stat_step:
  assumes inv: "inv N s" and run: "stat E s = (r, s')"
  shows "(case r of Inr _ \<Rightarrow> True | Inl e \<Rightarrow> halting e) \<and> (isl r \<longrightarrow> is_exception (projl r) \<longrightarrow> inv N s') \<and>
    (\<not> isl r \<longrightarrow> inv N s' \<and> list_all2 agrees (projr r) (peers (fst s)))"
proof (cases "failed (fst s)")
  case (Some f)
  then show ?thesis
    using run inv by (auto simp: stat_def seq_def bnd_def check_usable_run halting_def)
next
  case None
  let ?t = "fst s" and ?n = "length (peers (fst s))"
  let ?good = "\<lambda>sts. length sts = ?n \<and> (\<forall>i<?n. agrees (sts ! i) (peers ?t ! i))"
  have i: "sits (Idle ?t) ?t s"
    using inv None by (intro synced_idle) (auto simp: inv_def)
  have one: "triple (sits (Idle ?t) ?t) (stat_peer E i)
      (\<lambda>x u. sits (Idle ?t) ?t u \<and> agrees x (peers ?t ! i)) (lost ?t)" if "i < ?n" for i
  proof -
    have "triple (sits (Idle ?t) ?t) (stat_peer E i)
      (\<lambda>x. sits ((Idle ?t)(i := (\<lambda>p l. Idle ?t i p l \<and> agrees x (peers ?t ! i)))) ?t) (lost ?t)"
      unfolding stat_peer_def
      by (rule triple_bnd [OF next_req_id_stage], rule on_peer_lost [OF that _ stat_query_step]) simp_all
    then show ?thesis
      by (rule triple_weaken)
        (use that in \<open>auto simp: stage_def same_table_def split: if_splits\<close>)
  qed
  have all: "triple (\<lambda>u. u = s) (collect [0..<?n] (stat_peer E))
     (\<lambda>x u. sits (Idle ?t) ?t u \<and> ?good x) (lost ?t)"
    by (rule triple_pre, rule collect_index [OF one]) (use i in simp_all)
  obtain rc s1 where 1: "condemn (collect [0..<?n] (stat_peer E)) s = (rc, s1)"
    by (cases "condemn (collect [0..<?n] (stat_peer E)) s")
  have run1: "bnd (condemn (collect [0..<?n] (stat_peer E))) (\<lambda>stats.
     seq (each (zip [0..<?n] stats) (\<lambda>(i, st). on_peer i (check_range st))) (ret stats)) s = (r, s')"
    using run None by (simp add: stat_def seq_def [of check_usable] bnd_def [of check_usable]
        check_usable_run peer_indices_def)
  have c: "case rc of
      Inr x \<Rightarrow> inv N s1 \<and> ?good x \<and> failed (fst s1) = None \<and> sits (Idle ?t) ?t s1
    | Inl e \<Rightarrow> halting e \<and> (is_exception e \<longrightarrow> inv N s1)"
    by (rule condemn_step [OF inv None _ 1]) (use all in simp)
  show ?thesis
  proof (cases rc)
    case (Inl e)
    then show ?thesis
      using run1 1 c by (auto simp: bnd_def)
  next
    case (Inr sts)
    then have g: "?good sts" "sits (Idle ?t) ?t s1" "inv N s1" "failed (fst s1) = None"
      using c by auto
    let ?z = "zip [0..<?n] sts"
    have d: "distinct (map fst ?z)"
      using g(1) by simp
    have z: "fst x < ?n" "agrees (snd x) (peers ?t ! fst x)" if "x \<in> set ?z" for x
      using that g(1) by (auto simp: set_zip)
    have "triple (sits (mix (fst ` set ?z) (Idle ?t) (Idle ?t)) ?t)
      (each ?z (\<lambda>(i, st). on_peer i (check_range st)))
      (\<lambda>_. sits (mix (fst ` set ?z) (Idle ?t) (Idle ?t)) ?t)
      (\<lambda>e u. sits (mix (fst ` set ?z) (\<lambda>_ _ _. True) (Idle ?t)) ?t u \<and> False)"
    proof (rule each_stage [OF _ d])
      fix x F assume x: "x \<in> set ?z" and F: "F (fst x) = Idle ?t (fst x)"
      show "triple (sits F ?t) (case x of (i, st) \<Rightarrow> on_peer i (check_range st))
        (\<lambda>_. sits (F(fst x := Idle ?t (fst x))) ?t)
        (\<lambda>e u. sits (F(fst x := (\<lambda>_ _. True))) ?t u \<and> False)"
        unfolding case_prod_beta
      proof (rule on_peer_triple [OF z(1) [OF x]])
        fix p w r p' w'
        assume "check_range (snd x) (p, w) = (r, (p', w'))" "ready_peer V deployed (p, w)"
          "F (fst x) p (link V w p)"
        then show "effect V deployed (p, w) (p', w') \<and> (case r of
            Inr _ \<Rightarrow> Idle ?t (fst x) p' (link V w' p') | Inl e \<Rightarrow> True \<and> False)"
          using check_range_step [of "snd x" p w r p' w'] F z(2) [OF x] by auto
      qed
    qed simp
    then have t: "triple (sits (Idle ?t) ?t) (each ?z (\<lambda>(i, st). on_peer i (check_range st)))
      (\<lambda>_. sits (Idle ?t) ?t) (\<lambda>e u. False)"
      by (rule triple_weaken) (auto simp: mix_def elim!: stage_weaken)
    obtain rz s2 where 2: "each ?z (\<lambda>(i, st). on_peer i (check_range st)) s1 = (rz, s2)"
      by (cases "each ?z (\<lambda>(i, st). on_peer i (check_range st)) s1")
    have rz: "rz = Inr ()"
      using triple_InlD [OF t g(2)] 2 by (cases rz) auto
    have s2: "sits (Idle ?t) ?t s2"
      using triple_InrD [OF t g(2)] 2 rz by blast
    have "tiling (peers ?t) 0 N" "rows_total ?t = int N" and len: "length (sel ?t) = length (peers ?t)"
      using inv None by (auto simp: inv_def synced_def)
    from idle_synced [OF s2 this(1,2)] have sy: "synced N s2" .
    have st2: "same_table ?t (fst s2)" "linked V deployed s2"
      using s2 by (auto simp: stage_def)
    have "inv N s2"
      using sy st2(2) same_table_sel [OF st2(1)] len by (simp add: inv_def)
    moreover have "r = Inr sts" "s' = s2"
      using run1 1 Inr 2 rz by (auto simp: bnd_def seq_def ret_run)
    moreover have "list_all2 agrees sts (peers ?t)"
      using g(1) by (simp add: list_all2_conv_all_nth)
    ultimately show ?thesis
      by simp
  qed
qed

subsection \<open>close\<close>

lemma close_all_step:
  "triple (\<lambda>u. u = s \<and> linked V deployed s) (close_all E)
     (\<lambda>_ u. sits (\<lambda>_ p l. sock p = None) (fst s) u) (lost (fst s))"
proof -
  have t: "triple (sits (\<lambda>_ _ _. True) (fst s))
    (each [0..<length (peers (fst s))] (\<lambda>i. on_peer i (peer_close E False)))
    (\<lambda>_. sits (\<lambda>_ p l. sock p = None) (fst s)) (lost (fst s))"
  proof (rule each_index, rule on_peer_lost)
    fix p w r p' w'
    assume "peer_close E False (p, w) = (r, (p', w'))" "ready_peer V deployed (p, w)"
    note c = close_step [OF this]
    show "effect V deployed (p, w) (p', w') \<and>
      (case r of Inr _ \<Rightarrow> sock p' = None | Inl e \<Rightarrow> halting e)"
      using c by (cases r) auto
  qed simp_all
  show ?thesis
    unfolding close_all_def
  proof (rule triple_gets)
    fix "is"
    show "triple (\<lambda>u. (u = s \<and> linked V deployed s) \<and> peer_indices u = is)
      (each is (\<lambda>i. on_peer i (peer_close E False)))
      (\<lambda>_ u. sits (\<lambda>_ p l. sock p = None) (fst s) u) (lost (fst s))"
    proof (cases "is = peer_indices s")
      case True
      then have "is": "is = [0..<length (peers (fst s))]"
        by (simp add: peer_indices_def)
      show ?thesis
        unfolding "is" by (rule triple_pre [OF t]) (auto simp: stage_def)
    qed (auto simp: triple_def)
  qed
qed

lemma close_table_step:
  assumes inv: "inv N s" and run: "Table.close E s = (Inr (), s')"
  shows "inv N s'" and "failed (fst s') \<noteq> None" and "\<forall>p\<in>set (peers (fst s')). sock p = None"
proof -
  obtain s1 where 1: "close_all E s = (Inr (), s1)"
    and 2: "s' = ((fst s1)\<lparr>failed := (case failed (fst s1) of None \<Rightarrow> Some Closed | Some f \<Rightarrow> Some f)\<rparr>, snd s1)"
    using run by (auto simp: Table.close_def elim!: seq_InrE)
  have l: "linked V deployed s"
    using inv by (simp add: inv_def)
  have c: "sits (\<lambda>_ p l. sock p = None) (fst s) s1"
    using triple_InrD [OF close_all_step _ 1] l by blast
  then have st: "same_table (fst s) (fst s1)" "linked V deployed s1"
    by (auto simp: stage_def)
  show f: "failed (fst s') \<noteq> None"
    using 2 by (auto split: option.splits)
  show "inv N s'"
    using f 2 inv same_table_sel [OF st(1)] linked_fields [OF st(2), of "fst s'"]
    by (auto simp: inv_def split: option.splits)
  show "\<forall>p\<in>set (peers (fst s')). sock p = None"
    using c 2 by (auto simp: stage_def in_set_conv_nth)
qed

end

end
