(* ===== verification/Session.thy ===== *)
theory Session
  imports Table_Proof
begin

section \<open>A table's life: from the constructor through any sequence of operations\<close>

text \<open>
  The constructor over a trusted network, then sessions: the states a table can reach by operations
  that returned or raised a Python exception.
\<close>

text \<open>A peer as \<open>_parse_peers\<close> makes it.\<close>

definition blank :: "peer \<Rightarrow> bool" where
  "blank p \<longleftrightarrow> sock p = None \<and> cap p = 0 \<and> req_ids p = [] \<and> rows p = [] \<and> \<not> answered p \<and> pending p = None"

lemma parse_items_blank: "parse_items items seen = Inr ps \<Longrightarrow> \<forall>p\<in>set ps. blank p"
  using parse_items_keys [of items seen ps] by (metis blank_def new_peer_def peer.select_convs)

lemma parse_peers_Inr:
  assumes "parse_peers spec = Inr ps"
  shows "ps \<noteq> []" "\<forall>p\<in>set ps. blank p" "distinct (map (\<lambda>p. (host p, port p)) ps)"
proof -
  have "parse_items (split_on (CHR '','') spec) [] = Inr ps \<and> ps \<noteq> []"
    using assms by (auto simp: parse_peers_def split: sum.splits list.splits)
  then show "ps \<noteq> []" "\<forall>p\<in>set ps. blank p" "distinct (map (\<lambda>p. (host p, port p)) ps)"
    using parse_items_blank parse_items_keys by blast+
qed

lemma new_table_Inr:
  assumes "new_table to_float environ c w = (Inr t, w')"
  shows "w' = w" "peers t \<noteq> []" "\<forall>p\<in>set (peers t). blank p" "length (sel t) = length (peers t)"
    "failed t = None" "t_row_bytes t = c_row_bytes c" "staging t = None" "req_id t = 0"
  using assms parse_peers_Inr
  by (auto simp: new_table_def of_sum_run ret_run elim!: bnd_InrE)

context trusted_net begin

definition sited :: "int \<Rightarrow> peer \<Rightarrow> 's wire \<Rightarrow> bool" where
  "sited wb p l \<longleftrightarrow> idle p p l \<and> 0 < row_count p \<and> int (row_bytes p) = wb"

lemma apply_step:
  assumes "apply_stat wb st (p, w) = (r, (p', w'))" and "ready_peer V deployed (p, w)"
    and "heard q st p (link V w p)" and "blank q"
  shows "effect V deployed (p, w) (p', w') \<and>
    (case r of Inr _ \<Rightarrow> sited wb p' (link V w' p') | Inl e \<Rightarrow> halting e)"
proof -
  obtain s where h: "link V w p = Some ([], s)" "same_ident q p" "deployed s"
    "st_base_row st = base s" "st_row_count st = count s" "st_row_bytes st = width s"
    using assms(3) by (auto simp: heard_def)
  have p: "cap p = 0" "req_ids p = []" "rows p = []" "sock p \<noteq> None"
    using h(1,2) assms(2,4) by (auto simp: same_ident_def blank_def ready_peer_def buffered_def link_def)
  have run: "w' = w" "p' = note_stat st (p\<lparr>base_row := st_base_row st, row_count := st_row_count st,
       row_bytes := st_row_bytes st\<rparr>)" "case r of Inr _ \<Rightarrow> 0 < row_count p' \<and> int (row_bytes p') = wb
       | Inl e \<Rightarrow> halting e"
    using assms(1) by (auto simp: apply_stat_def raise_run ret_run halting_def split: if_splits)
  have "effect V deployed (p, w) (p', w')"
    using assms(2) p run(1,2) by (auto simp: effect_def ready_peer_def note_stat_def buffered_def)
  moreover have "idle p' p' (link V w' p')"
    using h run(1,2) by (auto simp: idle_def link_def note_stat_def serves_def)
  ultimately show ?thesis
    using run(3) by (cases r) (auto simp: sited_def)
qed

lemma bring_up_step:
  assumes i: "i < length (peers t0)" and F: "F i = (\<lambda>p l. p = peers t0 ! i)"
    and b: "blank (peers t0 ! i)"
  shows "triple (sits F t0) (bring_up E dl i)
    (\<lambda>_. sits (F(i := sited (t_row_bytes t0))) t0) (lost t0)"
proof -
  let ?q = "peers t0 ! i"
  have dial: "triple (sits F t0) (connect_peer E i dl) (\<lambda>_. sits (F(i := dialled ?q)) t0) (lost t0)"
    unfolding connect_peer_def
  proof (rule triple_gets)
    fix t :: table
    have "triple (sits F t0) (on_peer i (connect_loop (n_fuel E) E (connect_timeout t) (t_timeout t) dl (1 / 2)))
      (\<lambda>_. sits (F(i := dialled ?q)) t0) (lost t0)"
    proof (rule on_peer_lost [where P = "\<lambda>p l. p = ?q" and F = F and i = i, OF i F])
      fix p w r p' w'
      assume run: "connect_loop (n_fuel E) E (connect_timeout t) (t_timeout t) dl (1 / 2) (p, w) = (r, (p', w'))"
        "ready_peer V deployed (p, w)" and p: "p = ?q"
      show "effect V deployed (p, w) (p', w') \<and>
        (case r of Inr _ \<Rightarrow> dialled ?q p' (link V w' p') | Inl e \<Rightarrow> halting e)"
        using dial_step [OF run, of ?q] b p by (cases r) (auto simp: blank_def)
    qed
    then show "triple (\<lambda>s. sits F t0 s \<and> fst s = t)
      (on_peer i (connect_loop (n_fuel E) E (connect_timeout t) (t_timeout t) dl (1 / 2)))
      (\<lambda>_. sits (F(i := dialled ?q)) t0) (lost t0)"
      by (rule triple_pre) simp
  qed
  have hear: "triple (sits (F(i := dialled ?q)) t0) (stat_peer E i)
      (\<lambda>st. sits (F(i := heard ?q st)) t0) (lost t0)"
    unfolding stat_peer_def
  proof (rule triple_bnd [OF next_req_id_stage])
    fix rid
    have "triple (sits (F(i := dialled ?q)) t0) (on_peer i (query_stat E rid))
      (\<lambda>st. sits ((F(i := dialled ?q))(i := heard ?q st)) t0) (lost t0)"
      by (rule on_peer_lost [OF i, where P = "dialled ?q"]) (use hear_step in \<open>fastforce split: sum.splits\<close>)+
    then show "triple (sits (F(i := dialled ?q)) t0) (on_peer i (query_stat E rid))
      (\<lambda>st. sits (F(i := heard ?q st)) t0) (lost t0)"
      by simp
  qed
  have app: "triple (sits (F(i := heard ?q st)) t0)
      (bnd (gets fst) (\<lambda>t. on_peer i (apply_stat (t_row_bytes t) st)))
      (\<lambda>_. sits (F(i := sited (t_row_bytes t0))) t0) (lost t0)" for st
  proof (rule triple_gets)
    fix t :: table
    have "triple (sits (F(i := heard ?q st)) t0) (on_peer i (apply_stat (t_row_bytes t0) st))
      (\<lambda>_. sits ((F(i := heard ?q st))(i := sited (t_row_bytes t0))) t0) (lost t0)"
      by (rule on_peer_lost [OF i _ apply_step [where q = ?q]]) (use b in simp_all)
    then have app: "triple (sits (F(i := heard ?q st)) t0) (on_peer i (apply_stat (t_row_bytes t0) st))
      (\<lambda>_. sits (F(i := sited (t_row_bytes t0))) t0) (lost t0)"
      by simp
    show "triple (\<lambda>s. sits (F(i := heard ?q st)) t0 s \<and> fst s = t)
      (on_peer i (apply_stat (t_row_bytes t) st)) (\<lambda>_. sits (F(i := sited (t_row_bytes t0))) t0) (lost t0)"
    proof (cases "t_row_bytes t = t_row_bytes t0")
      case True
      show ?thesis
        unfolding True by (rule triple_pre [OF app]) simp
    next
      case False
      then have "\<not> (sits (F(i := heard ?q st)) t0 s \<and> fst s = t)" for s
        using same_table_sel(1) [of t0 t] by (auto simp: stage_def)
      then show ?thesis
        unfolding triple_def by blast
    qed
  qed
  show ?thesis
    unfolding bring_up_def by (rule triple_seq [OF dial triple_bnd [OF hear app]])
qed

lemma connect_all_step:
  assumes run: "connect_all E (t, w) = (Inr (), s')" and w: "v_wf V w"
    and t: "\<forall>p\<in>set (peers t). blank p" "length (sel t) = length (peers t)" "failed t = None"
  shows "\<exists>N. inv N s' \<and> rows_total (fst s') = int N \<and> failed (fst s') = None \<and>
    same_table t (fst s') \<and> tiling (peers (fst s')) 0 N \<and>
    (\<forall>p\<in>set (peers (fst s')). 0 < row_count p \<and> int (row_bytes p) = t_row_bytes t)"
proof -
  have blank: "blank (peers t ! i)" if "i < length (peers t)" for i
    using t(1) that by simp
  have l0: "sits (\<lambda>i p l. p = peers t ! i) t (t, w)"
    using w blank by (simp add: stage_def linked_def blank_def buffered_def)
  obtain t0 s0 where 0: "now E (t, w) = (Inr t0, s0)"
    using now_step(3) [of "(t, w)"] w by (cases "now E (t, w)") fastforce
  have wf: "v_wf V (snd (t, w))"
    using w by simp
  note n = now_step [OF 0 wf]
  have s0: "sits (\<lambda>i p l. p = peers t ! i) t s0"
    using stage_keeps [OF l0, of "snd s0"] n by (cases s0) simp
  let ?dl = "t0 + connect_deadline t"
  have up: "triple (sits (\<lambda>i p l. p = peers t ! i) t) (each [0..<length (peers t)] (bring_up E ?dl))
    (\<lambda>_. sits (\<lambda>i. sited (t_row_bytes t)) t) (lost t)"
    by (rule each_index, rule bring_up_step) (use blank in simp_all)
  obtain s1 where 1: "each [0..<length (peers t)] (bring_up E ?dl) s0 = (Inr (), s1)"
    and 2: "check_split s1 = (Inr (), s')"
    using run 0 n(1) by (auto simp: connect_all_def handle_def bnd_def raise_run seq_def peer_indices_def
        split: prod.splits sum.splits if_splits)
  have st: "sits (\<lambda>i. sited (t_row_bytes t)) t s1"
    using triple_InrD [OF up s0 1] .
  then have same: "same_table t (fst s1)" "linked V deployed s1"
    and sited: "\<And>i. i < length (peers (fst s1)) \<Longrightarrow>
      sited (t_row_bytes t) (peers (fst s1) ! i) (link V (snd s1) (peers (fst s1) ! i))"
    by (auto simp: stage_def)
  have s': "s' = ((fst s1)\<lparr>peers := sort_key base_row (peers (fst s1))\<rparr>, snd s1)"
    using snd_check_split [of s1] 2 by simp
  have set: "set (peers (fst s')) = set (peers (fst s1))" "mset (peers (fst s')) = mset (peers (fst s1))"
    using s' by simp_all
  have sited': "sited (t_row_bytes t) p (link V (snd s') p)" if "p \<in> set (peers (fst s'))" for p
    using sited that set(1) s' by (metis in_set_conv_nth snd_conv)
  have "\<forall>p\<in>set (peers (fst s1)). 0 < row_count p"
    using sited by (auto simp: sited_def in_set_conv_nth)
  then obtain N where N: "rows_total (fst s1) = int N" "tiling (peers (fst s1)) 0 N"
    using check_split_iff [of s1] 2 by auto
  then have N': "rows_total (fst s') = int N" "tiling (peers (fst s')) 0 N"
    using s' by (auto simp: tiling_def)
  have "linked V deployed s'"
    using linked_reorder [OF same(2), of "peers (fst s')"] set(2) s' by simp
  moreover have "same_table t (fst s')"
    using same_table_trans [OF same(1) same_table_peers] s' by simp
  moreover have "synced N s'"
    using N' sited' by (auto simp: synced_def sited_def)
  ultimately show ?thesis
    using N' sited' t(2,3) same_table_sel [of t "fst s'"] by (auto simp: inv_def sited_def)
qed

lemma init_step:
  assumes "init_table E to_float environ c w = (Inr t, w')" and "v_wf V w"
  shows "\<exists>N. inv N (t, w') \<and> rows_total t = int N \<and> failed t = None \<and> tiling (peers t) 0 N \<and>
    (\<forall>p\<in>set (peers t). 0 < row_count p \<and> int (row_bytes p) = c_row_bytes c)"
proof -
  obtain t0 w0 where 0: "new_table to_float environ c w = (Inr t0, w0)"
    and 1: "(case connect_all E (t0, w0) of
        (Inl e, s) \<Rightarrow> (Inl e, snd s)
      | (Inr _, s) \<Rightarrow> (Inr ((fst s)\<lparr>num_shards := length (peers (fst s)),
            shard_rows := row_count (peers (fst s) ! 0)\<rparr>), snd s)) = (Inr t, w')"
    using assms(1) by (auto simp: init_table_def elim!: bnd_InrE)
  note n = new_table_Inr [OF 0]
  obtain s where 2: "connect_all E (t0, w) = (Inr (), s)"
    and t: "t = (fst s)\<lparr>num_shards := length (peers (fst s)), shard_rows := row_count (peers (fst s) ! 0)\<rparr>"
      "w' = snd s"
    using 1 n(1) by (auto split: prod.splits sum.splits unit.splits)
  obtain N where N: "inv N s" "rows_total (fst s) = int N" "failed (fst s) = None"
    "tiling (peers (fst s)) 0 N"
    "\<forall>p\<in>set (peers (fst s)). 0 < row_count p \<and> int (row_bytes p) = t_row_bytes t0"
    using connect_all_step [OF 2 assms(2) n(3,4,5)] by blast
  have "inv N (t, w')"
    using inv_fields [OF N(1), of t] t by simp
  then show ?thesis
    using N t n(6) by (intro exI [of _ N]) simp
qed

end

text \<open>
  Sessions: any sequence of operations that return or raise a Python exception.  A \<open>close\<close> that
  raises, and an operation that never returns, end the session.
\<close>

definition settled :: "exn + 'a \<Rightarrow> bool" where
  "settled r \<longleftrightarrow> (case r of Inl e \<Rightarrow> is_exception e | Inr _ \<Rightarrow> True)"

inductive session :: "'w net \<Rightarrow> table \<times> 'w \<Rightarrow> table \<times> 'w \<Rightarrow> bool" for E s0 where
  opened: "session E s0 s0"
| gathered: "session E s0 s \<Longrightarrow> gather E ids dst s = (r, s') \<Longrightarrow> settled r \<Longrightarrow> session E s0 s'"
| gathered_cpu: "session E s0 s \<Longrightarrow> gather_cpu E ids s = (r, s') \<Longrightarrow> settled r \<Longrightarrow> session E s0 s'"
| sliced: "session E s0 s \<Longrightarrow> read_rows_contiguous E start n chunk s = (r, s') \<Longrightarrow> settled r
    \<Longrightarrow> session E s0 s'"
| pinged: "session E s0 s \<Longrightarrow> ping E s = (r, s') \<Longrightarrow> settled r \<Longrightarrow> session E s0 s'"
| statted: "session E s0 s \<Longrightarrow> Table.stat E s = (r, s') \<Longrightarrow> settled r \<Longrightarrow> session E s0 s'"
| closed: "session E s0 s \<Longrightarrow> Table.close E s = (Inr (), s') \<Longrightarrow> session E s0 s'"

context trusted_net begin

lemma session_inv:
  assumes "session E s0 s" and "inv N s0" and N: "N \<le> 2 ^ 32"
  shows "inv N s"
  using assms(1,2)
proof (induction rule: session.induct)
  case (gathered s ids dst r s')
  then show ?case
    using gather_step [OF _ N gathered.hyps(2)] by (auto simp: settled_def split: sum.splits)
next
  case (gathered_cpu s ids r s')
  then show ?case
    using gather_cpu_step [OF _ N gathered_cpu.hyps(2)] by (auto simp: settled_def split: sum.splits)
next
  case (sliced s start n chunk r s')
  then show ?case
    using read_rows_contiguous_step [OF _ N sliced.hyps(2)] by (auto simp: settled_def split: sum.splits)
next
  case (pinged s r s')
  then show ?case
    using ping_step [OF _ pinged.hyps(2)] by (cases r) (auto simp: settled_def)
next
  case (statted s r s')
  then show ?case
    using stat_step [OF _ statted.hyps(2)] by (cases r) (auto simp: settled_def)
next
  case (closed s s')
  then show ?case
    using close_table_step(1) by blast
qed

text \<open>A table that a constructor returned, after any session.\<close>

lemma session_from_init:
  assumes "init_table E to_float environ c w0 = (Inr t, w1)" and "v_wf V w0"
    and "rows_total t \<le> 2 ^ 32" and "session E (t, w1) s"
  shows "inv (nat (rows_total t)) s" and "nat (rows_total t) \<le> 2 ^ 32"
    and "0 \<le> rows_total t"
proof -
  obtain N where N: "inv N (t, w1)" "rows_total t = int N"
    using init_step [OF assms(1,2)] by blast
  then have "N \<le> 2 ^ 32"
    using assms(3) by simp
  then show "inv (nat (rows_total t)) s" "nat (rows_total t) \<le> 2 ^ 32" "0 \<le> rows_total t"
    using session_inv [OF assms(4) N(1)] N(2) by simp_all
qed

end

end
