(* ===== verification/Live.thy ===== *)
theory Live
  imports Session
begin

section \<open>Over a calm network a gather returns\<close>

text \<open>
  The other half of correctness.  \<open>calm a b w\<close>: from the world \<open>w\<close> on no operation of a gather
  fails and the clock reads at least \<open>a\<close> and less than \<open>b\<close>.  \<open>live_net\<close> adds what such a world
  promises: bytes that are due arrive, \<open>select\<close> reports a socket that has some, and a server answers
  a request for rows of its range.  Each phase of a gather is shown to end without an exception,
  which as a triple is an error postcondition of \<open>False\<close>.
\<close>

locale live_net = trusted_net reply base count width row E V deployed truth
  for reply :: "'s \<Rightarrow> byte list \<Rightarrow> byte list \<Rightarrow> bool"
    and base :: "'s \<Rightarrow> nat" and count :: "'s \<Rightarrow> nat" and width :: "'s \<Rightarrow> nat"
    and row :: "'s \<Rightarrow> nat \<Rightarrow> byte list"
    and E :: "'w net" and V :: "('w, 's) view" and deployed :: "'s \<Rightarrow> bool"
    and truth :: "nat \<Rightarrow> byte list" +
  fixes calm :: "rat \<Rightarrow> rat \<Rightarrow> 'w \<Rightarrow> bool" and limit :: nat
  assumes send_lives:
      "v_wf V w \<Longrightarrow> calm a b w \<Longrightarrow> k \<in> v_used V w \<Longrightarrow> v_out V w k = [] \<Longrightarrow> 0 < t
       \<Longrightarrow> deployed (v_srv V w k) \<Longrightarrow> pack_request OP_GATHER 0 rid (length ids) = Inr h
       \<Longrightarrow> \<forall>i\<in>set ids. base (v_srv V w k) \<le> i \<and> i < base (v_srv V w k) + count (v_srv V w k)
       \<Longrightarrow> \<forall>i\<in>set ids. i < 2 ^ 32 \<Longrightarrow> length ids \<le> limit
       \<Longrightarrow> \<exists>w'. n_send E k t (h @ id_bytes ids) w = (Inr (), w') \<and> calm a b w' \<and>
         \<not> refusal rid (v_out V w' k)"
    and recv_lives:
      "v_wf V w \<Longrightarrow> calm a b w \<Longrightarrow> k \<in> v_used V w \<Longrightarrow> v_out V w k \<noteq> [] \<Longrightarrow> 0 < t \<Longrightarrow> 0 < n
       \<Longrightarrow> \<exists>bs w'. n_recv E k t n w = (Inr bs, w') \<and> bs \<noteq> [] \<and> calm a b w'"
    and select_lives:
      "v_wf V w \<Longrightarrow> calm a b w \<Longrightarrow> k \<in> set ks \<Longrightarrow> v_out V w k \<noteq> [] \<Longrightarrow> 0 < t
       \<Longrightarrow> \<exists>ready w'. n_select E ks t w = (Inr ready, w') \<and> ready \<noteq> [] \<and> calm a b w'"
    and now_lives: "calm a b w \<Longrightarrow> n_now E w = (t, w') \<Longrightarrow> a \<le> t \<and> t < b \<and> calm a b w'"

text \<open>A peer whose operations are given time: its timeout, and its deadline if it has one.\<close>

definition keen :: "rat \<Rightarrow> peer \<Rightarrow> bool" where
  "keen b p \<longleftrightarrow> 0 < timeout p \<and> (\<forall>d. deadline p = Some d \<longrightarrow> b \<le> d)"

lemma keen_armed: "same_but_armed p q \<Longrightarrow> keen b q \<longleftrightarrow> keen b p"
  by (simp add: keen_def same_but_armed_sel)

definition prompt :: "(rat \<Rightarrow> rat \<Rightarrow> 'w \<Rightarrow> bool) \<Rightarrow> rat \<Rightarrow> rat \<Rightarrow> table \<times> 'w \<Rightarrow> bool" where
  "prompt calm a b s \<longleftrightarrow> calm a b (snd s) \<and> (\<forall>i<length (peers (fst s)). keen b (peers (fst s) ! i))"

lemma prompt_upd:
  assumes "prompt calm a b s" and "keen b p'" and "calm a b w'"
  shows "prompt calm a b ((fst s)\<lparr>peers := (peers (fst s))[i := p']\<rparr>, w')"
proof -
  have "keen b ((peers (fst s))[i := p'] ! j)" if "j < length (peers (fst s))" for j
    using assms that by (cases "j = i") (auto simp: prompt_def)
  then show ?thesis
    using assms(3) by (simp add: prompt_def)
qed

lemma effect_ready:
  assumes "effect V D (p, w) (p', w')" and "ready_peer V D (p, w)"
  shows "ready_peer V D (p', w')"
proof -
  have k: "keeps V (set_option (sock p)) w w'"
    using assms(1) by (simp add: effect_def)
  show ?thesis
    using assms keeps_wf [OF k] keeps_used [OF k] keeps_srv [OF k]
    by (auto simp: effect_def ready_peer_def)
qed

subsection \<open>One peer\<close>

text \<open>A table with time to work in, between gathers: timeouts are positive, no deadline is set.\<close>

definition at_ease :: "table \<Rightarrow> bool" where
  "at_ease t \<longleftrightarrow> 0 < t_timeout t \<and>
     list_all (\<lambda>p. 0 < timeout p \<and> deadline p = None \<and> 0 < row_bytes p) (peers t)"

context live_net begin

text \<open>A step of one peer that returns, in time and in a calm world.\<close>

definition lives :: "rat \<Rightarrow> rat \<Rightarrow> ('w, 'a) pprog \<Rightarrow> peer \<times> 'w \<Rightarrow> 'a \<Rightarrow> peer \<times> 'w \<Rightarrow> bool" where
  "lives a b m s x s' \<longleftrightarrow> m s = (Inr x, s') \<and> keen b (fst s') \<and> calm a b (snd s')"

lemma arm_lives:
  assumes "on_link V k s" and "keen b (fst s)" and "calm a b (snd s)"
  obtains s' where "lives a b (arm E) s () s'" "same_but_armed (fst s) (fst s')" "0 < armed (fst s')"
    "on_link V k s'" "v_out V (snd s') k = v_out V (snd s) k" "v_srv V (snd s') k = v_srv V (snd s) k"
proof -
  obtain t w' where n: "n_now E (snd s) = (t, w')"
    by (cases "n_now E (snd s)")
  have t: "t < b" "calm a b w'"
    using now_lives [OF assms(3) n] by simp_all
  obtain s' where s': "arm E s = (Inr (), s')" "0 < armed (fst s')" "calm a b (snd s')"
  proof (cases "deadline (fst s)")
    case None
    then show thesis
      using that assms
      by (cases "timeout (fst s) = armed (fst s)")
        (auto simp: arm_def with_sock_def on_link_def keen_def ret_run bnd_def)
  next
    case (Some d)
    obtain u where u: "min (timeout (fst s)) (d - t) = u" "0 < u"
      using assms(2) t(1) Some by (auto simp: keen_def)
    have "arm E s = (Inr (), ((fst s)\<lparr>armed := u\<rparr>, w'))"
      using assms(1) Some n u
      by (cases "u = armed (fst s)")
        (auto simp: arm_def with_sock_def on_link_def ret_run bnd_def now_def io_def)
    then show thesis
      using that u(2) t(2) by simp
  qed
  have wf: "v_wf V (snd s)"
    using assms(1) by (simp add: on_link_def)
  note st = arm_step [OF s'(1) wf]
  show thesis
  proof (rule that [of s'])
    show "lives a b (arm E) s () s'"
      using s' assms(2) keen_armed [OF st(1)] by (simp add: lives_def)
    show "on_link V k s'"
      using assms(1) keeps_wf [OF st(2)] keeps_used [OF st(2)] same_but_armed_sel(1) [OF st(1)]
      by (simp add: on_link_def)
    show "v_out V (snd s') k = v_out V (snd s) k" "v_srv V (snd s') k = v_srv V (snd s) k"
      using assms(1) keeps_out [OF st(2)] keeps_srv [OF st(2)] by (simp_all add: on_link_def)
  qed (use st s' in simp_all)
qed

lemma recv_lives_step:
  assumes "on_link V k s" and "keen b (fst s)" and "calm a b (snd s)"
    and "v_out V (snd s) k \<noteq> []" and "0 < n" and "n \<le> av"
  obtains bs s' where "lives a b (recv E av n) s bs s'" "bs \<noteq> []"
proof -
  obtain s1 where 1: "lives a b (arm E) s () s1" "same_but_armed (fst s) (fst s1)" "0 < armed (fst s1)"
    "on_link V k s1" "v_out V (snd s1) k = v_out V (snd s) k"
    using arm_lives [OF assms(1-3)] by blast
  have l: "v_wf V (snd s1)" "calm a b (snd s1)" "k \<in> v_used V (snd s1)" "v_out V (snd s1) k \<noteq> []"
    using 1 assms(4) by (simp_all add: on_link_def lives_def)
  obtain bs w' where bs: "n_recv E k (armed (fst s1)) n (snd s1) = (Inr bs, w')" "bs \<noteq> []" "calm a b w'"
    using recv_lives [OF l 1(3) assms(5)] by blast
  have "recv E av n s = (Inr (take n bs), (fst s1, w'))"
    using 1(1,4) bs assms(6)
    by (simp add: recv_def with_sock_def seq_def bnd_def lives_def on_link_def handle_def io_def ret_run)
  then show thesis
    using that [of "take n bs" "(fst s1, w')"] bs assms(5) 1(1) by (simp add: lives_def)
qed

lemma recv_exact_lives:
  assumes "on_link V k s" and "keen b (fst s)" and "calm a b (snd s)"
    and "n - length acc \<le> length (v_out V (snd s) k)" and "length acc \<le> n"
  shows "\<exists>bs s'. lives a b (recv_exact E n acc) s bs s'"
  using assms
proof (induction "n - length acc" arbitrary: acc s rule: less_induct)
  case less
  show ?case
  proof (cases "length acc < n")
    case False
    then have "recv_exact E n acc s = (Inr acc, s)"
      by (simp add: recv_exact.simps [of E n acc])
    then show ?thesis
      using less.prems(2,3) by (cases s) (auto simp: lives_def)
  next
    case True
    have "v_out V (snd s) k \<noteq> []" "0 < n - length acc"
      using True less.prems(4) by auto
    then obtain bs s1 where 1: "lives a b (recv E (n - length acc) (n - length acc)) s bs s1" "bs \<noteq> []"
      using recv_lives_step [OF less.prems(1-3)] by blast
    then have r: "recv E (n - length acc) (n - length acc) s = (Inr bs, s1)"
      by (simp add: lives_def)
    have l: "v_wf V (snd s)" "sock (fst s) = Some k" "k \<in> v_used V (snd s)"
      using less.prems(1) by (auto simp: on_link_def)
    note st = recv_step [OF r l]
    have m: "moved V k s s1"
      using st(1,2) by (rule moved_armed)
    have o: "v_out V (snd s) k = bs @ v_out V (snd s1) k" "length bs \<le> n - length acc"
      using st(4) [of bs] by simp_all
    have "0 < length bs"
      using 1(2) by simp
    then have "\<exists>cs s'. lives a b (recv_exact E n (acc @ bs)) s1 cs s'"
      using True 1(1) o less.prems(4) on_link_moved [OF less.prems(1) m]
      by (intro less.hyps) (auto simp: lives_def simp del: length_greater_0_conv)
    then show ?thesis
      using r 1(2) True by (simp add: recv_exact.simps [of E n acc] lives_def)
  qed
qed

lemma read_header_lives:
  assumes "on_link V k s" and "keen b (fst s)" and "calm a b (snd s)"
    and "v_out V (snd s) k = g @ B" and "pack_response rid 0 n = Inr g" and "pending (fst s) = Some rid"
  obtains s' where "lives a b (read_header E) s n s'"
proof -
  note g = pack_response_Inr [OF assms(5)]
  obtain bs s1 where 1: "lives a b (recv_exact E HEADER []) s bs s1"
    using recv_exact_lives [OF assms(1-3), of HEADER "[]"] assms(4) g(1) by (auto simp: HEADER_def)
  then have r: "recv_exact E HEADER [] s = (Inr bs, s1)"
    by (simp add: lives_def)
  have bs: "bs = g"
    using recv_exact_moved(3) [OF r assms(1), of bs] assms(4) g(1) by (auto simp: HEADER_def append_eq_append_conv)
  have p: "pending (fst s1) = Some rid"
    using same_but_armed_sel(6) [OF recv_exact_moved(2) [OF r assms(1)]] assms(6) by simp
  have "read_header E s = (Inr n, ((fst s1)\<lparr>pending := None\<rparr>, snd s1))"
    using r bs g p by (cases s1)
      (simp add: read_header_def bnd_def of_sum_run struct_unpack_def check_header_def
        g(2) [of "[]", simplified] ret_run)
  then show thesis
    using that 1 by (simp add: lives_def keen_def)
qed

text \<open>Asked of a server that will answer in full.\<close>

definition willing :: "peer \<Rightarrow> nat \<Rightarrow> peer \<Rightarrow> 's wire \<Rightarrow> bool" where
  "willing q n p l \<longleftrightarrow> asked q n p l \<and> (\<exists>s rid g. l = Some (g @ body q n, s) \<and>
     pending p = Some rid \<and> pack_response rid 0 n = Inr g)"

text \<open>The ids written for a peer lie in its range, and a server takes so many at once.\<close>

definition routed_to :: "peer \<Rightarrow> nat \<Rightarrow> bool" where
  "routed_to q n \<longleftrightarrow> written q n \<and> length (req_ids q) = cap q \<and> n \<le> limit \<and> n < 2 ^ 32 \<and>
     0 < n * row_bytes q \<and>
     (\<forall>i\<in>set (take n (req_ids q)). base_row q \<le> i \<and> i < base_row q + row_count q)"

lemma ask_lives:
  assumes "ready_peer V deployed (p, w)" and "fresh q p (link V w p)" and "routed_to q n"
    and "rid < 2 ^ 32" and "keen b p" and "calm a b w"
  obtains s' where "lives a b (send_gather E rid n) (p, w) () s'"
    "willing q n (fst s') (link V (snd s') (fst s'))" "effect V deployed (p, w) s'"
proof -
  let ?xs = "take n (req_ids q)"
  note rt = assms(3) [unfolded routed_to_def written_def]
  have n: "length ?xs = n"
    using rt by simp
  obtain k s where k: "sock p = Some k" "on_link V k (p, w)" "v_out V w k = []" "v_srv V w k = s"
      "serves s q" "same_ident q p" "\<not> answered p"
    using assms(2) idle_on [OF _ assms(1)] unfolding fresh_def by blast
  obtain h where h: "pack_request OP_GATHER 0 rid (length ?xs) = Inr h"
    using pack_request_ok [of OP_GATHER 0 rid n] assms(4) rt n by (auto simp: OP_GATHER_def)
  obtain s1 where 1: "lives a b (arm E) (p, w) () s1" "same_but_armed p (fst s1)" "0 < armed (fst s1)"
    "on_link V k s1" "v_out V (snd s1) k = []" "v_srv V (snd s1) k = s"
    using arm_lives [OF k(2), of b a] assms(5,6) k(3,4) by auto
  have req: "req_ids (fst s1) = req_ids q" "sock (fst s1) = Some k"
    using same_but_armed_sel [OF 1(2)] k(1,6) by (simp_all add: same_ident_def)
  have w1: "v_wf V (snd s1)" "calm a b (snd s1)" "k \<in> v_used V (snd s1)"
    "deployed (v_srv V (snd s1) k)"
    using 1 k(5) by (auto simp: lives_def on_link_def serves_def)
  obtain w' where w': "n_send E k (armed (fst s1)) (h @ id_bytes ?xs) (snd s1) = (Inr (), w')"
    "calm a b w'" "\<not> refusal rid (v_out V w' k)"
    using send_lives [OF w1(1-3) 1(5,3) w1(4) h] rt n 1(6) k(5) by (auto simp: serves_def)
  let ?s' = "((fst s1)\<lparr>pending := Some rid\<rparr>, w')"
  have run: "send_gather E rid n (p, w) = (Inr (), ?s')"
    using h n 1(1) w'(1) req
    by (simp add: send_gather_def bnd_def of_sum_run seq_def with_sock_def lives_def io_def)
  have lv: "lives a b (send_gather E rid n) (p, w) () ?s'"
    using run w'(2) 1(1) by (simp add: lives_def keen_def)
  have st: "effect V deployed (p, w) ?s' \<and> asked q n (fst ?s') (link V w' (fst ?s'))"
    using ask_step [OF run assms(1,2)] rt by (auto simp: written_def)
  have rep: "reply s (h @ id_bytes ?xs) (v_out V w' k)"
    using send_gather_moved(3) [OF run k(2)] k(3,4,6) h n by (auto simp: same_ident_def)
  have xs: "\<forall>i\<in>set ?xs. i < 2 ^ 32"
    using rt by blast
  obtain g where g: "pack_response rid 0 n = Inr g" "v_out V w' k = g @ body q n"
    using answer_bytes [OF rep h xs k(5)] w'(3) n by (auto simp: body_def)
  have "willing q n (fst ?s') (link V w' (fst ?s'))"
    using st g req(2) by (auto simp: willing_def link_def)
  then show thesis
    using that [OF lv] st by simp
qed

definition hungry :: "peer \<Rightarrow> bool" where
  "hungry p \<longleftrightarrow> rd_got p < rd_want p"

lemma begin_lives:
  assumes "ready_peer V deployed (p, w)" and "willing q n p (link V w p)" and "routed_to q n"
    and "keen b p" and "calm a b w"
  obtains s' where "lives a b (begin_rows E n) (p, w) () s'"
    "reading_body q n (fst s') (link V (snd s') (fst s'))" "hungry (fst s')" "effect V deployed (p, w) s'"
proof -
  obtain s rid g where l: "link V w p = Some (g @ body q n, s)" "pending p = Some rid"
    "pack_response rid 0 n = Inr g" "asked q n p (link V w p)"
    using assms(2) by (auto simp: willing_def)
  obtain k where k: "on_link V k (p, w)" "v_out V w k = g @ body q n"
    using link_on [OF assms(1) l(1)] by blast
  obtain s1 where 1: "lives a b (read_header E) (p, w) n s1"
    using read_header_lives [OF k(1), of b a g "body q n" rid n] k(2) l(2,3) assms(4,5) by auto
  let ?s' = "((fst s1)\<lparr>rd_want := n * row_bytes (fst s1), rd_got := 0\<rparr>, snd s1)"
  have run: "begin_rows E n (p, w) = (Inr (), ?s')"
    using 1 by (simp add: begin_rows_def bnd_def lives_def)
  have lv: "lives a b (begin_rows E n) (p, w) () ?s'"
    using run 1 by (simp add: lives_def keen_def)
  have st: "effect V deployed (p, w) ?s' \<and> reading_body q n (fst ?s') (link V (snd ?s') (fst ?s'))"
    using begin_step [OF run assms(1) l(4)] assms(3) by (auto simp: routed_to_def)
  have "row_bytes (fst s1) = row_bytes q"
    using st by (auto simp: reading_body_def receiving_def same_ident_def)
  then have "hungry (fst ?s')"
    using assms(3) by (simp add: hungry_def routed_to_def)
  then show thesis
    using that [OF lv] st by simp
qed

lemma pump_lives:
  assumes "ready_peer V deployed (p, w)" and "reading_body q n p (link V w p)" and "hungry p"
    and "keen b p" and "calm a b w"
  obtains x s' where "lives a b (pump_rows E) (p, w) x s'" "x \<or> hungry (fst s')"
proof -
  obtain k where k: "on_link V k (p, w)" "reading V k (body q n) (p, w)"
    using receiving_on [OF _ assms(1)] assms(2) unfolding reading_body_def by blast
  have rd: "rd_want p \<le> length (rows p)" "rd_got p < rd_want p"
    "take (rd_got p) (rows p) @ v_out V w k = body q n" "rd_want p = length (body q n)"
    using k(2) assms(3) by (auto simp: reading_def hungry_def)
  then have out: "v_out V w k \<noteq> []"
    by (auto dest: arg_cong [of _ _ length])
  obtain bs s1 where 1: "lives a b (recv E (length (take (rd_want p) (rows p)) - rd_got p)
      (rd_want p - rd_got p)) (p, w) bs s1" "bs \<noteq> []"
    using recv_lives_step [OF k(1), of b a "rd_want p - rd_got p"
        "length (take (rd_want p) (rows p)) - rd_got p"] assms(4,5) out rd(1,2) by auto
  obtain x s' where run: "pump_rows E (p, w) = (Inr x, s')" "snd s' = snd s1"
    "timeout (fst s') = timeout (fst s1)" "deadline (fst s') = deadline (fst s1)"
    using 1 by (cases "fst s1")
      (auto simp: pump_rows_def bnd_def lives_def seq_def store_body_def)
  have "lives a b (pump_rows E) (p, w) x s'"
    using run 1(1) by (simp add: lives_def keen_def)
  moreover have "x \<or> hungry (fst s')"
    using pump_rows_progress [OF run(1)] by (auto simp: hungry_def)
  ultimately show thesis
    by (rule that)
qed

lemma finish_lives:
  assumes "ready_peer V deployed (p, w)" and "reading_body q n p (link V w p)" and "hungry p"
    and "keen b p" and "calm a b w"
  shows "\<exists>s'. lives a b (finish_rows E) (p, w) () s'"
  using assms
proof (induction "rd_want p - rd_got p" arbitrary: p w rule: less_induct)
  case less
  obtain x s1 where 1: "lives a b (pump_rows E) (p, w) x s1" "x \<or> hungry (fst s1)"
    using pump_lives [OF less.prems] by blast
  obtain p1 w1 where s1: "s1 = (p1, w1)"
    by (cases s1)
  have r: "pump_rows E (p, w) = (Inr x, (p1, w1))" "keen b p1" "calm a b w1"
    using 1(1) s1 by (simp_all add: lives_def)
  note st = pump_step [OF r(1) less.prems(1,2)]
  have more: "finish_rows E (p, w) = finish_rows E (p1, w1)"
    using r(1) less.prems(3) by (simp add: finish_rows.simps [of E "(p, w)"] hungry_def)
  show ?case
  proof (cases x)
    case True
    then have "rd_got p1 = rd_want p1"
      using pump_rows_progress(1,4) [OF r(1)] by simp
    then show ?thesis
      using more r(2,3) by (simp add: finish_rows.simps [of E "(p1, w1)"] lives_def)
  next
    case False
    have "ready_peer V deployed (p1, w1)"
      using effect_ready [OF conjunct1 [OF st] less.prems(1)] .
    moreover have "reading_body q n p1 (link V w1 p1)" "hungry p1"
      using st False 1(2) s1 by simp_all
    moreover have "rd_want p1 - rd_got p1 < rd_want p - rd_got p"
      using pump_rows_less [of x "(p1, w1)" E "(p, w)"] r(1) by simp
    ultimately show ?thesis
      using less.hyps r(2,3) more by (simp add: lives_def)
  qed
qed

subsection \<open>All peers\<close>

text \<open>A stage of the table that is also in time.\<close>

abbreviation vivid :: "rat \<Rightarrow> rat \<Rightarrow> 's stages \<Rightarrow> table \<Rightarrow> table \<times> 'w \<Rightarrow> bool" where
  "vivid a b F t0 \<equiv> \<lambda>s. sits F t0 s \<and> prompt calm a b s"

lemma on_peer_lives:
  assumes i: "i < length (peers t0)"
    and run: "\<And>p w. ready_peer V deployed (p, w) \<Longrightarrow> F i p (link V w p) \<Longrightarrow> keen b p \<Longrightarrow> calm a b w \<Longrightarrow>
      \<exists>x s'. lives a b m (p, w) x s' \<and> effect V deployed (p, w) s' \<and> G x (fst s') (link V (snd s') (fst s'))"
  shows "triple (vivid a b F t0) (on_peer i m) (\<lambda>x. vivid a b (F(i := G x)) t0) (\<lambda>e s. False)"
proof -
  have step: "\<exists>x. r = Inr x \<and> vivid a b (F(i := G x)) t0 s'"
    if s: "vivid a b F t0 s" and m: "on_peer i m s = (r, s')" for s r s'
  proof -
    let ?p = "peers (fst s) ! i"
    have i': "i < length (peers (fst s))" and l: "linked V deployed s"
      using s i by (auto simp: stage_def same_table_def)
    have "F i ?p (link V (snd s) ?p)" "keen b ?p" "calm a b (snd s)"
      using s i' by (auto simp: stage_def prompt_def)
    then obtain x p' w' where 1: "m (?p, snd s) = (Inr x, (p', w'))" "keen b p'" "calm a b w'"
      "effect V deployed (?p, snd s) (p', w')" "G x p' (link V w' p')"
      using run [OF linked_ready [OF l i']] by (fastforce simp: lives_def)
    have s': "r = Inr x" "s' = ((fst s)\<lparr>peers := (peers (fst s))[i := p']\<rparr>, w')"
      using m 1(1) i' by (auto simp: on_peer_def)
    have "prompt calm a b s'"
      using prompt_upd [of calm a b s p' w' i] s s'(2) 1(2,3) by simp
    moreover have "sits (F(i := G x)) t0 s'"
      using s s'(2) effect_linked [OF l i' 1(4)] 1(5) i'
        same_table_trans [OF _ same_table_peers, of t0 "fst s" "(peers (fst s))[i := p']"]
      by (auto simp: stage_def nth_list_update)
    ultimately show ?thesis
      using s'(1) by blast
  qed
  show ?thesis
    by (rule tripleI) (use step in blast)+
qed

lemma each_lives:
  fixes todo :: "(nat \<times> 'c) list"
  assumes step: "\<And>x F. x \<in> set todo \<Longrightarrow> F (fst x) = P (fst x) \<Longrightarrow>
      triple (vivid a b F t0) (f x) (\<lambda>_. vivid a b (F(fst x := Q (fst x))) t0) (\<lambda>e s. False)"
    and dist: "distinct (map fst todo)"
  shows "triple (vivid a b (mix (fst ` set todo) P F) t0) (each todo f)
    (\<lambda>_. vivid a b (mix (fst ` set todo) Q F) t0) (\<lambda>e s. False)"
proof -
  define I where "I ys zs = vivid a b (mix (fst ` set zs) P (mix (fst ` set ys) Q F)) t0"
    for ys zs :: "(nat \<times> 'c) list"
  have "triple (I [] todo) (each todo f) (\<lambda>_. I todo []) (\<lambda>e s. False)"
  proof (rule triple_each)
    fix ys x zs assume todo: "todo = ys @ x # zs"
    let ?G = "mix (fst ` set (x # zs)) P (mix (fst ` set ys) Q F)"
    have x: "fst x \<notin> fst ` set ys" "fst x \<notin> fst ` set zs"
      using dist todo by auto
    have "x \<in> set todo" "?G (fst x) = P (fst x)"
      using todo by (simp_all add: mix_def)
    note s = step [of x ?G, OF this]
    have "?G(fst x := Q (fst x)) = mix (fst ` set zs) P (mix (fst ` set (ys @ [x])) Q F)"
      using x by (auto simp: mix_def fun_eq_iff)
    then show "triple (I ys (x # zs)) (f x) (\<lambda>_. I (ys @ [x]) zs) (\<lambda>e s. False)"
      unfolding I_def using s by simp
  qed
  then show ?thesis
    by (simp add: I_def mix_def)
qed

abbreviation Willing :: "table \<Rightarrow> work \<Rightarrow> 's stages" where
  "Willing t0 w \<equiv> \<lambda>i. willing (peers t0 ! i) (need w i)"

abbreviation Hungry :: "table \<Rightarrow> work \<Rightarrow> 's stages" where
  "Hungry t0 w \<equiv> \<lambda>i p l. reading_body (peers t0 ! i) (need w i) p l \<and> hungry p"

text \<open>Work whose ids every server at hand takes.\<close>

definition doable :: "table \<Rightarrow> work \<Rightarrow> bool" where
  "doable t0 active \<longleftrightarrow> workable t0 active \<and> active \<noteq> [] \<and>
     (\<forall>x\<in>set active. routed_to (peers t0 ! fst x) (length (snd x)))"

lemma doable_elem:
  assumes "doable t0 active" and "x \<in> set active"
  shows "fst x < length (peers t0)" "need active (fst x) = length (snd x)"
    "routed_to (peers t0 ! fst x) (length (snd x))" "distinct (map fst active)"
  using assms by (auto simp: doable_def workable_def intro!: need_eq)

lemma prepare_lives:
  assumes "fst x < length (peers t0)" and "F (fst x) = idle q"
  shows "triple (vivid a b F t0) (prepare E dl x) (\<lambda>_. vivid a b (F(fst x := fresh q)) t0) (\<lambda>e s. False)"
proof -
  let ?i = "fst x"
  have step: "\<exists>u. r = Inr u \<and> vivid a b (F(?i := fresh q)) t0 s'"
    if s: "vivid a b F t0 s" and run: "prepare E dl x s = (r, s')" for s r s'
  proof -
    note up = triple_InrD [OF prepare_up [where F = F and q = q, OF assms]]
      triple_InlD [OF prepare_up [where F = F and q = q, OF assms]]
    let ?s1 = "((fst s)\<lparr>peers := (peers (fst s))[?i := (peers (fst s) ! ?i)\<lparr>answered := False\<rparr>]\<rparr>, snd s)"
    have i: "?i < length (peers (fst s))"
      using s assms(1) by (simp add: stage_def same_table_def)
    have "F ?i (peers (fst s) ! ?i) (link V (snd s) (peers (fst s) ! ?i))"
      using s i unfolding stage_def by blast
    then have "sock (peers (fst s) ! ?i) \<noteq> None"
      using assms(2) by (auto simp: idle_def link_def)
    then have s': "s' = ?s1"
      using run i by (cases s) (auto simp: prepare_def seq_def bnd_def on_peer_def ret_run split: if_splits)
    have "keen b ((peers (fst s) ! ?i)\<lparr>answered := False\<rparr>)"
      using s i by (auto simp: prompt_def keen_def)
    then have "prompt calm a b s'"
      using prompt_upd [of calm a b s] s s' by (auto simp: prompt_def)
    then show ?thesis
      using up s run by (cases r) blast+
  qed
  show ?thesis
    by (rule tripleI) (use step in blast)+
qed

lemma next_req_id_lives:
  "triple (vivid a b F t0) next_req_id (\<lambda>r s. vivid a b F t0 s \<and> r < 2 ^ 32) (\<lambda>e s. False)"
  by (rule tripleI)
    (auto simp: next_req_id_def ret_run stage_def linked_def prompt_def intro: same_table_trans)

lemma phases_live:
  assumes d: "doable t0 active"
    and m: "triple (vivid a b (mix (fst ` set active) (Hungry t0 active) F) t0) m Q (\<lambda>e s. False)"
  shows "triple (vivid a b (mix (fst ` set active) (Idle t0) F) t0)
    (seq (each active (prepare E dl)) (seq (each active (ask E)) (seq (each active (begin_answer E)) m)))
    Q (\<lambda>e s. False)"
proof (intro triple_seq)
  note el = doable_elem [OF d]
  have dist: "distinct (map fst active)"
    using d by (simp add: doable_def workable_def)
  show "triple (vivid a b (mix (fst ` set active) (Idle t0) F) t0) (each active (prepare E dl))
    (\<lambda>_. vivid a b (mix (fst ` set active) (Fresh t0) F) t0) (\<lambda>e s. False)"
    by (rule each_lives [where P = "Idle t0" and Q = "Fresh t0", OF _ dist], rule prepare_lives)
      (use el(1) in auto)
  show "triple (vivid a b (mix (fst ` set active) (Fresh t0) F) t0) (each active (ask E))
    (\<lambda>_. vivid a b (mix (fst ` set active) (Willing t0 active) F) t0) (\<lambda>e s. False)"
  proof (rule each_lives [OF _ dist])
    fix x F assume x: "x \<in> set active" and F: "F (fst x) = fresh (peers t0 ! fst x)"
    have rest: "triple (\<lambda>s. vivid a b F t0 s \<and> r < 2 ^ 32) (on_peer (fst x) (send_gather E r (length (snd x))))
      (\<lambda>_. vivid a b (F(fst x := willing (peers t0 ! fst x) (need active (fst x)))) t0) (\<lambda>e s. False)" for r
    proof (cases "r < 2 ^ 32")
      case True
      have "triple (vivid a b F t0) (on_peer (fst x) (send_gather E r (length (snd x))))
        (\<lambda>_. vivid a b (F(fst x := willing (peers t0 ! fst x) (need active (fst x)))) t0) (\<lambda>e s. False)"
      proof (rule on_peer_lives [OF el(1) [OF x]])
        fix p w assume "ready_peer V deployed (p, w)" "F (fst x) p (link V w p)" "keen b p" "calm a b w"
        then show "\<exists>u s'. lives a b (send_gather E r (length (snd x))) (p, w) u s' \<and>
            effect V deployed (p, w) s' \<and>
            willing (peers t0 ! fst x) (need active (fst x)) (fst s') (link V (snd s') (fst s'))"
          using ask_lives [of p w _ _ r b a] el [OF x] True F by metis
      qed
      then show ?thesis
        by (rule triple_pre) simp
    qed (simp add: triple_def)
    show "triple (vivid a b F t0) (ask E x)
      (\<lambda>_. vivid a b (F(fst x := willing (peers t0 ! fst x) (need active (fst x)))) t0) (\<lambda>e s. False)"
      unfolding ask_def by (rule triple_bnd [OF next_req_id_lives rest])
  qed
  show "triple (vivid a b (mix (fst ` set active) (Willing t0 active) F) t0) (each active (begin_answer E))
    (\<lambda>_. vivid a b (mix (fst ` set active) (Hungry t0 active) F) t0) (\<lambda>e s. False)"
  proof (rule each_lives [OF _ dist])
    fix x F assume x: "x \<in> set active" and F: "F (fst x) = Willing t0 active (fst x)"
    show "triple (vivid a b F t0) (begin_answer E x)
      (\<lambda>_. vivid a b (F(fst x := Hungry t0 active (fst x))) t0) (\<lambda>e s. False)"
      unfolding begin_answer_def
    proof (rule on_peer_lives [OF el(1) [OF x]])
      fix p w assume "ready_peer V deployed (p, w)" "F (fst x) p (link V w p)" "keen b p" "calm a b w"
      then show "\<exists>u s'. lives a b (begin_rows E (length (snd x))) (p, w) u s' \<and>
          effect V deployed (p, w) s' \<and> Hungry t0 active (fst x) (fst s') (link V (snd s') (fst s'))"
        using begin_lives [of p w _ _ b a] el [OF x] F by metis
    qed
  qed
qed (rule m)

subsection \<open>The drain\<close>

definition still_hungry :: "(nat \<times> nat) list \<Rightarrow> table \<Rightarrow> bool" where
  "still_hungry waiting t \<longleftrightarrow> (\<forall>x\<in>set waiting. hungry (peers t ! snd x))"

lemma draining_peer:
  assumes "draining t0 active key T F waiting s" and "map_of waiting k = Some i"
  shows "i < length (peers (fst s))" "sock (peers (fst s) ! i) = Some k"
    "ready_peer V deployed (peers (fst s) ! i, snd s)"
    "reading_body (peers t0 ! i) (need active i) (peers (fst s) ! i) (link V (snd s) (peers (fst s) ! i))"
    "(k', i) \<in> set waiting \<Longrightarrow> k' = k"
proof -
  obtain "is" where d: "waiting = map (\<lambda>i. (key i, i)) is" "set is \<subseteq> T" "T \<subseteq> {..<length (peers t0)}"
    and s: "sits (mix (set is) (Keyed t0 active key) (mix T (Got t0 active) F)) t0 s"
    using assms(1) by (auto simp: draining_def)
  have i: "i \<in> set is" "k = key i"
    using map_of_SomeD [OF assms(2)] d(1) by auto
  show len: "i < length (peers (fst s))"
    using i(1) d(2,3) s by (auto simp: stage_def same_table_def)
  have "mix (set is) (Keyed t0 active key) (mix T (Got t0 active) F) i (peers (fst s) ! i)
      (link V (snd s) (peers (fst s) ! i))"
    using s len unfolding stage_def by blast
  then show "sock (peers (fst s) ! i) = Some k"
    "reading_body (peers t0 ! i) (need active i) (peers (fst s) ! i) (link V (snd s) (peers (fst s) ! i))"
    using i by (simp_all add: mix_def)
  show "ready_peer V deployed (peers (fst s) ! i, snd s)"
    using s len by (auto simp: stage_def intro: linked_ready)
  show "(k', i) \<in> set waiting \<Longrightarrow> k' = k"
    using i(2) d(1) by auto
qed

lemma drain_ready_lives:
  assumes "draining t0 active key T F waiting s" and "prompt calm a b s" and "still_hungry waiting (fst s)"
    and "distinct ready" and "set ready \<subseteq> fst ` set waiting"
  shows "\<exists>waiting' s'. drain_ready E ready waiting s = (Inr waiting', s') \<and>
    prompt calm a b s' \<and> still_hungry waiting' (fst s')"
  using assms
proof (induction ready arbitrary: waiting s)
  case Nil
  then show ?case
    by (cases s) (simp add: ret_run)
next
  case (Cons k ready)
  obtain i where i: "map_of waiting k = Some i"
    using Cons.prems(5) by (cases "map_of waiting k") (auto simp: map_of_eq_None_iff)
  let ?p = "peers (fst s) ! i"
  note dp = draining_peer [OF Cons.prems(1) i]
  have hp: "hungry ?p" "keen b ?p" "calm a b (snd s)"
    using Cons.prems(2,3) map_of_SomeD [OF i] dp(1) by (auto simp: still_hungry_def prompt_def)
  obtain x s1 where 1: "lives a b (pump_rows E) (?p, snd s) x s1" "x \<or> hungry (fst s1)"
    using pump_lives [OF dp(3,4) hp] by blast
  let ?s' = "((fst s)\<lparr>peers := (peers (fst s))[i := fst s1]\<rparr>, snd s1)"
  let ?w = "if x then AList.delete k waiting else waiting"
  have run: "on_peer i (pump_rows E) s = (Inr x, ?s')"
    using 1(1) dp(1) by (cases s1) (simp add: on_peer_def lives_def)
  have pr: "prompt calm a b ?s'"
    using prompt_upd [OF Cons.prems(2)] 1(1) by (simp add: lives_def)
  have dr: "draining t0 active key T F ?w ?s'"
    using pump_draining [OF Cons.prems(1) i run] by simp
  have keys: "fst ` set (AList.delete k waiting) = fst ` set waiting - {k}"
    using arg_cong [OF AList.delete_keys, of set k waiting] by auto
  have "hungry ((peers (fst s))[i := fst s1] ! snd y)" if y: "y \<in> set ?w" for y
  proof (cases "snd y = i")
    case True
    have "y \<in> set waiting"
      using y by (auto simp: AList.delete_eq split: if_splits)
    then have "fst y = k"
      using dp(5) [of "fst y"] True by (cases y) auto
    then have "\<not> x"
      using y keys by (auto split: if_splits)
    then show ?thesis
      using 1(2) True dp(1) by simp
  next
    case False
    have "y \<in> set waiting"
      using y by (auto simp: AList.delete_eq split: if_splits)
    then show ?thesis
      using Cons.prems(3) False by (simp add: still_hungry_def)
  qed
  then have "still_hungry ?w (fst ?s')"
    by (simp add: still_hungry_def)
  moreover have "set ready \<subseteq> fst ` set ?w"
    using Cons.prems(4,5) keys by auto
  ultimately show ?case
    using Cons.IH [OF dr pr] Cons.prems(4) i run by (simp add: bnd_def)
qed

lemma drain_select_lives:
  assumes "draining t0 active key T F waiting s" and "prompt calm a b s" and "still_hungry waiting (fst s)"
    and "waiting \<noteq> []" and "0 < t_timeout (fst s)" and "b \<le> dl"
  obtains ready s' where "drain_select E (map fst waiting) dl s = (Inr ready, s')" "prompt calm a b s'"
    "fst s' = fst s"
proof -
  obtain k i rest where w: "waiting = (k, i) # rest"
    using assms(4) by (cases waiting) auto
  then have m: "map_of waiting k = Some i"
    by simp
  note dp = draining_peer [OF assms(1) m]
  have hp: "hungry (peers (fst s) ! i)" "calm a b (snd s)"
    using assms(2,3) w by (auto simp: still_hungry_def prompt_def)
  obtain j where j: "sock (peers (fst s) ! i) = Some j" "on_link V j (peers (fst s) ! i, snd s)"
    "reading V j (body (peers t0 ! i) (need active i)) (peers (fst s) ! i, snd s)"
    using receiving_on [OF _ dp(3)] dp(4) unfolding reading_body_def by blast
  then have k: "j = k"
    using dp(2) by simp
  have out: "v_out V (snd s) k \<noteq> []"
    using j(3) hp(1) k by (auto simp: reading_def hungry_def dest: arg_cong [of _ _ length])
  obtain t0' w1 where n: "n_now E (snd s) = (t0', w1)"
    by (cases "n_now E (snd s)")
  have t: "t0' < b" "calm a b w1"
    using now_lives [OF hp(2) n] by simp_all
  have wf: "v_wf V (snd s)"
    using j(2) by (simp add: on_link_def)
  have w1: "keeps V {} (snd s) w1"
    by (rule now_keeps [OF wf n])
  have u: "v_wf V w1" "k \<in> v_used V w1" "v_out V w1 k \<noteq> []"
    using j(2) k out keeps_wf [OF w1] keeps_used [OF w1] keeps_out [OF w1] by (auto simp: on_link_def)
  obtain u where u': "min (t_timeout (fst s)) (dl - t0') = u" "0 < u"
    using assms(5,6) t(1) by auto
  obtain ready w' where r: "n_select E (map fst waiting) u w1 = (Inr ready, w')" "ready \<noteq> []"
    "calm a b w'"
    using select_lives [OF u(1) t(2) _ u(3) u'(2), of "map fst waiting"] w by auto
  have "drain_select E (map fst waiting) dl s = (Inr ready, (fst s, w'))"
    using n u' r by (simp add: drain_select_def bnd_def Let_def now_def io_def ret_run del: min_less_iff_conj)
  moreover have "prompt calm a b (fst s, w')"
    using assms(2) r(3) by (simp add: prompt_def)
  ultimately show thesis
    using that by simp
qed

lemma drain_loop_lives:
  assumes "draining t0 active key T F waiting s" and "prompt calm a b s" and "still_hungry waiting (fst s)"
    and "0 < t_timeout t0" and "b \<le> dl"
  shows "\<exists>s'. drain_loop E dl waiting s = (Inr (), s') \<and> prompt calm a b s'"
  using assms(1-3)
proof (induction "unread (peers (fst s)) waiting" arbitrary: waiting s rule: less_induct)
  case less
  show ?case
  proof (cases "waiting = []")
    case True
    then show ?thesis
      using less.prems(2) by (cases s) (simp add: drain_loop.simps [of E dl])
  next
    case False
    have "0 < t_timeout (fst s)"
      using less.prems(1) assms(4) by (auto simp: draining_def stage_def same_table_sel)
    then obtain ready s1 where 1: "drain_select E (map fst waiting) dl s = (Inr ready, s1)"
      "prompt calm a b s1" "fst s1 = fst s"
      using drain_select_lives [OF less.prems False _ assms(5)] by blast
    have wf: "v_wf V (snd s)"
      using less.prems(1) by (auto simp: draining_def stage_def linked_def)
    note sl = drain_select_step [OF 1(1) wf]
    have d1: "draining t0 active key T F waiting s1"
      using less.prems(1) sl(1,2) by (rule draining_world)
    have rd: "distinct ready" "set ready \<subseteq> fst ` set waiting"
      using sl(3) by auto
    obtain waiting' s2 where 2: "drain_ready E ready waiting s1 = (Inr waiting', s2)"
      "prompt calm a b s2" "still_hungry waiting' (fst s2)"
      using drain_ready_lives [OF d1 1(2) _ rd] less.prems(3) 1(3) by auto
    have d2: "draining t0 active key T F waiting' s2"
      using drain_ready_step [OF 2(1) d1 rd] by simp
    have "unread (peers (fst s2)) waiting' < unread (peers (fst s)) waiting"
      using drain_step_less [of ready s1 E "map fst waiting" dl s waiting' s2 waiting] 1(1) 2(1) by simp
    then show ?thesis
      using less.hyps [OF _ d2 2(2,3)] 1(1) 2(1) False by (simp add: drain_loop.simps [of E dl waiting s])
  qed
qed

subsection \<open>The exchange\<close>

lemma bodies_live:
  assumes d: "doable t0 active" and "0 < t_timeout t0" and "b \<le> dl"
  shows "triple (vivid a b (mix (fst ` set active) (Hungry t0 active) F) t0) (read_bodies E dl active)
    (\<lambda>_. prompt calm a b) (\<lambda>e s. False)"
proof -
  let ?T = "fst ` set active"
  note el = doable_elem [OF d]
  have w: "workable t0 active" "active \<noteq> []" and dist: "distinct (map fst active)"
    using d by (simp_all add: doable_def workable_def)
  have step: "\<exists>u. r = Inr u \<and> prompt calm a b s'"
    if s: "vivid a b (mix ?T (Hungry t0 active) F) t0 s" and run: "read_bodies E dl active s = (r, s')"
    for s r s'
  proof -
    have len: "length (peers (fst s)) = length (peers t0)"
      using s by (simp add: stage_def same_table_def)
    have st: "Hungry t0 active (fst x) (peers (fst s) ! fst x) (link V (snd s) (peers (fst s) ! fst x))"
      if "x \<in> set active" for x
    proof -
      have "mix ?T (Hungry t0 active) F (fst x) (peers (fst s) ! fst x)
          (link V (snd s) (peers (fst s) ! fst x))"
        using s el(1) [OF that] len unfolding stage_def by auto
      then show ?thesis
        using that by (simp add: mix_def)
    qed
    show ?thesis
    proof (cases "length active > 1")
      case True
      have "sits (mix ?T (Reading t0 active) F) t0 s"
        using s by (auto simp: mix_def elim!: stage_weaken split: if_splits)
      then obtain key where k: "drain E (map fst active) dl s =
          drain_loop E dl (map (\<lambda>i. (key i, i)) (map fst active)) s"
        "draining t0 active key ?T F (map (\<lambda>i. (key i, i)) (map fst active)) s"
        using drain_start [OF w(1) subset_refl dist] by blast
      have "still_hungry (map (\<lambda>i. (key i, i)) (map fst active)) (fst s)"
        using st by (auto simp: still_hungry_def)
      then show ?thesis
        using drain_loop_lives [OF k(2) _ _ assms(2,3)] s run k(1) True by (auto simp: read_bodies_def)
    next
      case False
      then obtain x where x: "active = [x]"
        using w(2) by (cases active) auto
      let ?p = "peers (fst s) ! fst x"
      have i: "fst x < length (peers (fst s))"
        using el(1) [of x] x len by simp
      have rp: "ready_peer V deployed (?p, snd s)" "keen b ?p" "calm a b (snd s)"
        using s i by (auto simp: stage_def prompt_def intro: linked_ready)
      obtain s1 where 1: "lives a b (finish_rows E) (?p, snd s) () s1"
        using finish_lives [OF rp(1) conjunct1 [OF st] conjunct2 [OF st] rp(2,3)] x by auto
      then have "read_bodies E dl active s =
          (Inr (), ((fst s)\<lparr>peers := (peers (fst s))[fst x := fst s1]\<rparr>, snd s1))"
        using i by (cases s1) (simp add: x read_bodies_def on_peer_def lives_def)
      then show ?thesis
        using run 1 s prompt_upd [of calm a b s "fst s1" "snd s1"] by (simp add: lives_def)
    qed
  qed
  show ?thesis
    by (rule tripleI) (use step in blast)+
qed

lemma set_deadlines_prompt:
  assumes "prompt calm a b (t, w)" and "\<forall>x\<in>set active. fst x < length (peers t)"
    and "\<forall>d. dl = Some d \<longrightarrow> b \<le> d"
  shows "prompt calm a b (set_deadlines dl active t, w)"
  using assms(1,2)
proof (induction active arbitrary: t)
  case Nil
  then show ?case by (simp add: set_deadlines_def)
next
  case (Cons x active)
  have "keen b ((peers t ! fst x)\<lparr>deadline := dl\<rparr>)"
    using Cons.prems assms(3) by (auto simp: prompt_def keen_def)
  then have "prompt calm a b (set_deadline dl (fst x) t, w)"
    using prompt_upd [OF Cons.prems(1), of _ w "fst x"] Cons.prems(1)
    by (simp add: set_deadline_def) (simp add: prompt_def)
  then show ?case
    using Cons.IH [of "set_deadline dl (fst x) t"] Cons.prems(2) set_deadline_peers(1) [of dl "fst x" t]
    by (simp add: set_deadlines_def)
qed

lemma now_lives_stage:
  "triple (vivid a b F t0) (now E) (\<lambda>t s. vivid a b F t0 s \<and> a \<le> t) (\<lambda>e s. False)"
proof -
  have step: "\<exists>t. r = Inr t \<and> vivid a b F t0 s' \<and> a \<le> t"
    if s: "vivid a b F t0 s" and run: "now E s = (r, s')" for s r s'
  proof -
    obtain t w' where n: "n_now E (snd s) = (t, w')"
      by (cases "n_now E (snd s)")
    have "calm a b (snd s)"
      using s by (simp add: prompt_def)
    note l = now_lives [OF this n]
    have "sits F t0 s'" "r = Inr t" "s' = (fst s, w')"
      using triple_InrD [OF now_stage [of F t0], of s t s'] s run n by (auto simp: now_def io_def)
    then show ?thesis
      using l s by (auto simp: prompt_def)
  qed
  show ?thesis
    by (rule tripleI) (use step in blast)+
qed

lemma exchange_lives:
  assumes d: "doable t0 active" and t: "0 < t_timeout t0" "b \<le> a + gather_deadline t0"
    and F: "\<And>i p l d. F i p l \<Longrightarrow> F i (p\<lparr>deadline := d\<rparr>) l"
  shows "triple (vivid a b (mix (fst ` set active) (Idle t0) F) t0) (exchange E active)
    (\<lambda>_. prompt calm a b) (\<lambda>e s. False)"
proof -
  let ?T = "fst ` set active" and ?I = "mix (fst ` set active) (Idle t0) F"
  have len: "\<forall>x\<in>set active. fst x < length (peers t0)"
    using d by (auto simp: doable_def workable_def)
  have idle: "?I i (p\<lparr>deadline := d\<rparr>) l" if "?I i p l" for i p l d
    using that F by (simp add: mix_def idle_def same_ident_def split: if_splits)
  have set: "triple (vivid a b ?I t0) (upd (set_deadlines (Some dl) active))
    (\<lambda>_. vivid a b ?I t0) (\<lambda>e s. False)" if "b \<le> dl" for dl
  proof (rule tripleI)
    fix s x s' assume s: "vivid a b ?I t0 s" and run: "upd (set_deadlines (Some dl) active) s = (Inr x, s')"
    have "length (peers (fst s)) = length (peers t0)"
      using s by (simp add: stage_def same_table_def)
    then show "vivid a b ?I t0 s'"
      using run s deadline_stage [of ?I t0 "fst s" "snd s"] idle len
        set_deadlines_prompt [of a b "fst s" "snd s" active "Some dl"] that by auto
  qed simp
  have clear: "triple (\<lambda>s. vivid a b ?I t0 s) (ensure (exchange_loop E dl GATHER_ATTEMPTS active)
      (\<lambda>s. (set_deadlines None active (fst s), snd s))) (\<lambda>_. prompt calm a b) (\<lambda>e s. False)"
    if "b \<le> dl" for dl
  proof -
    have w: "workable t0 active" and dist: "distinct (map fst active)"
      using d by (simp_all add: doable_def workable_def)
    have up: "preparable (Idle t0) t0 active dl active"
      unfolding preparable_def using prepare_all_up [OF w subset_refl dist] by blast
    have go: "triple (vivid a b ?I t0) (attempt E dl active) (\<lambda>_. prompt calm a b) (\<lambda>e s. False)"
      unfolding attempt_def by (rule phases_live [OF d bodies_live [OF d t(1) that]])
    have step: "\<exists>u. r = Inr u \<and> prompt calm a b (set_deadlines None active (fst s'), snd s')"
      if s: "vivid a b ?I t0 s" and run: "exchange_loop E dl GATHER_ATTEMPTS active s = (r, s')" for s r s'
    proof -
      obtain x s1 where 1: "attempt E dl active s = (Inr x, s1)"
        using triple_InlD [OF go s] by (cases "attempt E dl active s"; cases "fst (attempt E dl active s)") auto
      have p1: "prompt calm a b s1"
        using triple_InrD [OF go s 1] .
      have "exchange_loop E dl GATHER_ATTEMPTS active s = (Inr (), s1)"
        using 1 by (simp add: GATHER_ATTEMPTS_def numeral_3_eq_3 handle_def seq_def bnd_def ret_run)
      moreover have "length (peers (fst s1)) = length (peers t0)"
        using triple_InrD [OF attempt_step [OF w subset_refl dist up], of F s x s1] s 1
        by (simp add: stage_def same_table_def)
      ultimately show ?thesis
        using run set_deadlines_prompt [of a b "fst s1" "snd s1" active None] p1 len by simp
    qed
    show ?thesis
      by (rule triple_ensure, rule tripleI) (use step in blast)+
  qed
  show ?thesis
    unfolding exchange_def
  proof (rule triple_bnd [OF now_lives_stage], rule triple_gets)
    fix start dl
    have "triple (vivid a b ?I t0) (seq (upd (set_deadlines (Some dl) active))
      (ensure (exchange_loop E dl GATHER_ATTEMPTS active) (\<lambda>s. (set_deadlines None active (fst s), snd s))))
      (\<lambda>_. prompt calm a b) (\<lambda>e s. False)" if "b \<le> dl"
      by (rule triple_seq [OF set [OF that] clear [OF that]])
    then show "triple (\<lambda>s. (vivid a b ?I t0 s \<and> a \<le> start) \<and> start + gather_deadline (fst s) = dl)
      (seq (upd (set_deadlines (Some dl) active))
        (ensure (exchange_loop E dl GATHER_ATTEMPTS active) (\<lambda>s. (set_deadlines None active (fst s), snd s))))
      (\<lambda>_. prompt calm a b) (\<lambda>e s. False)"
      using t(2) by (cases "b \<le> dl") (auto simp: triple_def stage_def same_table_sel)
  qed
qed

subsection \<open>The gather\<close>

lemma marshal_prompt: "triple (prompt calm a b) (each active (marshal E ids)) (\<lambda>_. prompt calm a b) (\<lambda>e s. True)"
proof (rule triple_each_inv)
  fix x
  have "prompt calm a b s'" if pr: "prompt calm a b s" and run: "marshal E ids x s = (Inr u, s')" for s u s'
  proof -
    obtain p' w' where 1: "seq (reserve E (length (snd x))) (upd (write_ids ids (snd x)))
        (peers (fst s) ! fst x, snd s) = (Inr u, (p', w'))" "fst x < length (peers (fst s))"
      "s' = ((fst s)\<lparr>peers := (peers (fst s))[fst x := p']\<rparr>, w')"
      using run unfolding marshal_def by (rule on_peer_Inr)
    have same: "timeout p' = timeout (peers (fst s) ! fst x)"
      "deadline p' = deadline (peers (fst s) ! fst x)" "w' = snd s"
      using 1(1) by (auto simp: seq_def bnd_def reserve_def ret_run write_ids_def split: if_splits)
    have "keen b (peers (fst s) ! fst x)" and c: "calm a b w'"
      using pr 1(2) same(3) by (simp_all add: prompt_def)
    then have "keen b p'"
      using same by (simp add: keen_def)
    then show ?thesis
      using prompt_upd [OF pr _ c, of p' "fst x"] 1(3) by simp
  qed
  then show "triple (prompt calm a b) (marshal E ids x) (\<lambda>_. prompt calm a b) (\<lambda>e s. True)"
    by (intro tripleI) blast+
qed

lemma section_lives:
  assumes inv: "synced N s" "linked V deployed s" and N: "N \<le> 2 ^ 32"
    and sel: "sel (fst s) = map (positions ids) (peers (fst s))" and ids: "ids \<noteq> []"
    and range: "\<forall>x\<in>set ids. 0 \<le> x \<and> x < int N" and pr: "prompt calm a b s"
    and t: "0 < t_timeout (fst s)" "b \<le> a + gather_deadline (fst s)"
    and rb: "\<forall>p\<in>set (peers (fst s)). 0 < row_bytes p"
    and lim: "\<forall>p\<in>set (peers (fst s)). length (positions ids p) \<le> limit \<and> length (positions ids p) < 2 ^ 32"
  shows "\<exists>s3. section_of E ids s = (Inr (), (scatter (active_work (fst s)) (fst s3), snd s3)) \<and>
    prompt calm a b s3 \<and> same_table (fst s) (fst s3) \<and>
    (\<forall>i<length (peers (fst s)). same_geo (peers (fst s) ! i) (peers (fst s3) ! i))"
proof -
  let ?a = "active_work (fst s)" and ?t1 = "fst s"
  let ?T = "fst ` set ?a"
  obtain s2 where 2: "each ?a (marshal E ids) s = (Inr (), s2)"
    and t2: "same_table ?t1 (fst s2)" "linked V deployed s2" and w: "workable (fst s2) ?a"
    and i2: "sits (mix ?T (Idle (fst s2)) (Idle (fst s2))) (fst s2) s2"
    and lv: "\<And>i. i < length (peers (fst s2)) \<Longrightarrow>
      live (peers ?t1 ! i) (peers (fst s2) ! i) (link V (snd s2) (peers (fst s2) ! i))"
    and prm: "\<And>x. x \<in> set ?a \<Longrightarrow> primed ids (snd x) (peers ?t1 ! fst x)
      (peers (fst s2) ! fst x) (link V (snd s2) (peers (fst s2) ! fst x))"
    using marshalled [OF inv sel] by blast
  let ?t2 = "fst s2"
  note sel2 = same_table_sel [OF t2(1)]
  have p2: "prompt calm a b s2"
    using triple_InrD [OF marshal_prompt pr 2] .
  have geo: "same_geo (peers ?t1 ! i) (peers ?t2 ! i)" if "i < length (peers ?t1)" for i
    using lv [of i] that sel2 by (simp add: live_def)
  have "routed_to (peers ?t2 ! fst x) (length (snd x))" if x: "x \<in> set ?a" for x
  proof -
    let ?q = "peers ?t2 ! fst x" and ?p = "peers ?t1 ! fst x"
    have el: "fst x < length (peers ?t1)" "snd x = positions ids ?p"
      using active_work_elem [OF x sel] by auto
    have xs: "take (length (snd x)) (req_ids ?q) = map (\<lambda>j. wire_id (ids ! j)) (snd x)"
      using prm [OF x] by (simp add: primed_def)
    have own: "base_row ?q \<le> wire_id (ids ! j) \<and> wire_id (ids ! j) < base_row ?q + row_count ?q"
      if "j \<in> set (snd x)" for j
    proof -
      have j: "j < length ids" "owns_id ?p (ids ! j)"
        using that el(2) by (auto simp: set_positions)
      have x: "0 \<le> ids ! j" "ids ! j < int N"
        using range j(1) by auto
      have "int N \<le> 2 ^ 32"
        using N by simp
      then have "wire_id (ids ! j) = nat (ids ! j)"
        using x by (intro wire_id_small) linarith+
      then show ?thesis
        using j(2) geo [OF el(1)] by (auto simp: owns_id_def same_geo_def)
    qed
    have "snd x \<noteq> []"
      using x by (simp add: active_work_def)
    moreover have "0 < row_bytes ?q" "length (snd x) \<le> limit" "length (snd x) < 2 ^ 32"
      using rb lim el geo [OF el(1)] by (auto simp: same_geo_def)
    moreover have "written ?q (length (snd x))" "length (req_ids ?q) = cap ?q"
      using w x by (auto simp: workable_def)
    ultimately show ?thesis
      unfolding routed_to_def xs using own by simp
  qed
  moreover have "?a \<noteq> []"
  proof -
    obtain x where x: "x \<in> set ids"
      using ids by (cases ids) auto
    then obtain j where j: "j < length ids" "ids ! j = x"
      by (auto simp: in_set_conv_nth)
    then obtain p where p: "p \<in> set (peers ?t1)" "j \<in> set (positions ids p)"
      using routed_iff [of "peers ?t1" N j ids] inv(1) range x by (auto simp: synced_def)
    obtain i where i: "i < length (peers ?t1)" "j \<in> set (positions ids (peers ?t1 ! i))"
      using p(2) in_set_conv_nth [THEN iffD1, OF p(1)] by blast
    then have "(i, positions ids (peers ?t1 ! i)) \<in> set ?a"
      using sel by (auto simp: active_work_def set_zip intro!: exI [of _ i])
    then show ?thesis
      by auto
  qed
  ultimately have d: "doable ?t2 ?a"
    using w by (simp add: doable_def)
  have dl: "Idle ?t2 i p l \<Longrightarrow> Idle ?t2 i (p\<lparr>deadline := d\<rparr>) l" for i p l d
    by (simp add: idle_def same_ident_def)
  have t': "0 < t_timeout ?t2" "b \<le> a + gather_deadline ?t2"
    using t sel2 by simp_all
  note go = exchange_lives [OF d t', of "Idle ?t2", OF dl] and ex = exchange_step [OF w, of "Idle ?t2", OF dl]
  have v2: "vivid a b (mix ?T (Idle ?t2) (Idle ?t2)) ?t2 s2"
    using i2 p2 by simp
  obtain u s3 where 3: "exchange E ?a s2 = (Inr u, s3)"
    using triple_InlD [OF go v2] by (cases "exchange E ?a s2"; cases "fst (exchange E ?a s2)") auto
  have p3: "prompt calm a b s3"
    using triple_InrD [OF go v2 3] .
  have g: "sits (mix ?T (Got ?t2 ?a) (Idle ?t2)) ?t2 s3"
    using triple_InrD [OF ex i2 3] .
  have t3: "same_table ?t1 (fst s3)"
    using g same_table_trans [OF t2(1)] by (simp add: stage_def)
  have "same_geo (peers ?t1 ! i) (peers (fst s3) ! i)" if i: "i < length (peers ?t1)" for i
  proof -
    have "mix ?T (Got ?t2 ?a) (Idle ?t2) i (peers (fst s3) ! i) (link V (snd s3) (peers (fst s3) ! i))"
      using g i same_table_sel(10) [OF t3] unfolding stage_def by simp
    then have "idle (peers ?t2 ! i) (peers (fst s3) ! i) (link V (snd s3) (peers (fst s3) ! i))"
      by (simp add: mix_def got_def split: if_splits)
    then show ?thesis
      using geo [OF i] by (simp add: idle_def same_ident_def same_geo_def)
  qed
  moreover have "section_of E ids s = (Inr (), (scatter ?a (fst s3), snd s3))"
    using 2 3 by (simp add: section_of_def seq_def bnd_def)
  ultimately show ?thesis
    using p3 t3 by blast
qed

text \<open>
  A table at work: in step, usable, its peers and its network in time.  \<open>m\<close> is \<open>max_rows\<close>.
\<close>

definition working :: "rat \<Rightarrow> rat \<Rightarrow> nat \<Rightarrow> int \<Rightarrow> table \<times> 'w \<Rightarrow> bool" where
  "working a b N m s \<longleftrightarrow> inv N s \<and> failed (fst s) = None \<and> prompt calm a b s \<and> 0 < t_timeout (fst s) \<and>
     b \<le> a + gather_deadline (fst s) \<and> (\<forall>p\<in>set (peers (fst s)). 0 < row_bytes p) \<and> max_rows (fst s) = m"

lemma working_at_ease:
  assumes "inv N s" and "failed (fst s) = None" and "at_ease (fst s)" and "calm a b (snd s)"
    and "b \<le> a + gather_deadline (fst s)"
  shows "working a b N (max_rows (fst s)) s"
  using assms by (auto simp: working_def at_ease_def prompt_def keen_def list_all_iff)

lemma gather_cpu_sent:
  assumes "ids \<noteq> []" and "failed (fst s) = None" and "length (sel (fst s)) = length (peers (fst s))"
    and "tiling (peers (fst s)) 0 N" and "\<forall>p\<in>set (peers (fst s)). fits (fst s) ids p"
    and "\<forall>x\<in>set ids. 0 \<le> x \<and> x < int N"
  obtains st m where "gather_cpu E ids s = bnd (condemn (section_of E ids))
    (\<lambda>_. gets (\<lambda>s. staged (length ids) (fst s)))
    ((fst s)\<lparr>staging := Some st, workspace := m, sel := map (positions ids) (peers (fst s))\<rparr>, snd s)"
proof -
  obtain st where st: "staging_for E (length ids) s = (Inr (), ((fst s)\<lparr>staging := Some st\<rparr>, snd s))"
    using staging_for_run by blast
  let ?s1 = "((fst s)\<lparr>staging := Some st\<rparr>, snd s)"
  obtain m where m: "workspace_for (length ids) ?s1 = (Inr (), ((fst ?s1)\<lparr>workspace := m\<rparr>, snd ?s1))"
    using workspace_for_run by blast
  let ?s2 = "((fst ?s1)\<lparr>workspace := m\<rparr>, snd s)"
  have "\<forall>p\<in>set (peers (fst ?s2)). fits (fst ?s2) ids p"
    using assms(5) by (simp add: fits_def)
  moreover have "(\<Sum>p\<leftarrow>peers (fst s). length (positions ids p)) = length ids"
    using routed_sum [OF assms(4)] assms(6) by simp
  ultimately have "partition_ids ids ?s2 =
      (Inr (length ids), ((fst ?s2)\<lparr>sel := map (positions ids) (peers (fst s))\<rparr>, snd s))"
    using partition_ids_ok [of ?s2 ids] assms(3) by simp
  then show thesis
    using that [of m st] st m assms(1,2)
    by (simp add: gather_cpu_def seq_def bnd_def check_usable_run section_of_def ret_run)
qed

lemma gather_cpu_lives:
  assumes wk: "working a b N m s" and N: "N \<le> 2 ^ 32"
    and range: "\<forall>x\<in>set ids. 0 \<le> x \<and> x < int N"
    and fit: "int (length ids) \<le> m" and lim: "m \<le> int limit" "m < 2 ^ 32"
  shows "\<exists>s'. gather_cpu E ids s = (Inr (map (\<lambda>x. truth (nat x)) ids), s') \<and> working a b N m s' \<and>
    map base_row (peers (fst s')) = map base_row (peers (fst s))"
proof (cases "ids = []")
  case True
  obtain st where st: "staging_for E 0 s = (Inr (), ((fst s)\<lparr>staging := Some st\<rparr>, snd s))"
    using staging_for_run by blast
  have "inv N ((fst s)\<lparr>staging := Some st\<rparr>, snd s)"
    using wk by (intro inv_fields) (auto simp: working_def)
  then show ?thesis
    using True st wk by (simp add: gather_cpu_def seq_def bnd_def staged_def working_def prompt_def)
next
  case False
  have inv: "synced N s" "linked V deployed s" "length (sel (fst s)) = length (peers (fst s))"
    using wk by (auto simp: working_def inv_def)
  have us: "failed (fst s) = None" and tile: "tiling (peers (fst s)) 0 N"
    using wk inv(1) by (simp_all add: working_def synced_def)
  have small: "length (positions ids p) \<le> length ids" for p
    by (simp add: positions_def) (metis length_filter_le length_upt diff_zero)
  have pos: "int (length (positions ids p)) \<le> m" for p
    using fit small [of p] by linarith
  have fts: "\<forall>p\<in>set (peers (fst s)). fits (fst s) ids p"
    using pos wk by (simp add: fits_def working_def)
  obtain st w where run: "gather_cpu E ids s = bnd (condemn (section_of E ids))
      (\<lambda>_. gets (\<lambda>s. staged (length ids) (fst s)))
      ((fst s)\<lparr>staging := Some st, workspace := w, sel := map (positions ids) (peers (fst s))\<rparr>, snd s)"
    using gather_cpu_sent [OF False us inv(3) tile fts range] by blast
  let ?t = "(fst s)\<lparr>staging := Some st, workspace := w, sel := map (positions ids) (peers (fst s))\<rparr>"
  have len: "length (positions ids p) \<le> limit \<and> length (positions ids p) < 2 ^ 32" for p
    using pos [of p] lim by simp
  have "synced N (?t, snd s)" "linked V deployed (?t, snd s)"
    "sel (fst (?t, snd s)) = map (positions ids) (peers (fst (?t, snd s)))"
    using inv(1,2) by (simp_all add: synced_def linked_def)
  moreover have "prompt calm a b (?t, snd s)" "0 < t_timeout (fst (?t, snd s))"
    "b \<le> a + gather_deadline (fst (?t, snd s))" "\<forall>p\<in>set (peers (fst (?t, snd s))). 0 < row_bytes p"
    using wk by (simp_all add: working_def prompt_def)
  ultimately obtain s3 where
    3: "section_of E ids (?t, snd s) = (Inr (), (scatter (active_work ?t) (fst s3), snd s3))"
      "prompt calm a b s3" "same_table ?t (fst s3)"
      "\<forall>i<length (peers ?t). same_geo (peers ?t ! i) (peers (fst s3) ! i)"
    using section_lives [of N "(?t, snd s)" ids a b] N False range len by fastforce
  let ?s' = "(scatter (active_work ?t) (fst s3), snd s3)"
  have out: "gather_cpu E ids s = (Inr (staged (length ids) (fst ?s')), ?s')"
    using run 3(1) by (simp add: bnd_def condemn_run)
  have st: "inv N ?s'" "staged (length ids) (fst ?s') = map (\<lambda>x. truth (nat x)) ids"
    using gather_cpu_step [OF _ N out] wk by (simp_all add: working_def)
  note sel3 = same_table_sel [OF 3(3)]
  have "0 < row_bytes (peers (fst s) ! i)" if "i < length (peers (fst s))" for i
    using wk that by (simp add: working_def)
  then have "0 < row_bytes p" if "p \<in> set (peers (fst ?s'))" for p
    using that 3(4) sel3(10) by (auto simp: scatter_def in_set_conv_nth same_geo_def)
  then have "working a b N m ?s'"
    using st(1) 3(2) sel3 wk by (simp add: working_def prompt_def scatter_def)
  moreover have "map base_row (peers (fst ?s')) = map base_row (peers (fst s))"
    using 3(4) sel3(10) by (intro nth_equalityI) (simp_all add: scatter_def same_geo_def)
  ultimately show ?thesis
    using out st(2) by simp
qed

end

end
