(* ===== verification/Calls_Live.thy ===== *)
theory Calls_Live
  imports Live
begin

section \<open>Over a calm network ping, stat and close return\<close>

text \<open>
  The counterpart of the liveness of gathers for the other operations of the table.  \<open>calling_net\<close> adds to
  a live network that its servers answer \<open>PING\<close> and \<open>STAT\<close> and that closing a socket does not fail.
\<close>

locale calling_net = live_net reply base count width row E V deployed truth calm limit
  for reply :: "'s \<Rightarrow> byte list \<Rightarrow> byte list \<Rightarrow> bool"
    and base :: "'s \<Rightarrow> nat" and count :: "'s \<Rightarrow> nat" and width :: "'s \<Rightarrow> nat"
    and row :: "'s \<Rightarrow> nat \<Rightarrow> byte list"
    and E :: "'w net" and V :: "('w, 's) view" and deployed :: "'s \<Rightarrow> bool"
    and truth :: "nat \<Rightarrow> byte list"
    and calm :: "rat \<Rightarrow> rat \<Rightarrow> 'w \<Rightarrow> bool" and limit :: nat +
  assumes bare_lives:
      "v_wf V w \<Longrightarrow> calm a b w \<Longrightarrow> k \<in> v_used V w \<Longrightarrow> v_out V w k = [] \<Longrightarrow> 0 < t
       \<Longrightarrow> deployed (v_srv V w k) \<Longrightarrow> op \<in> {OP_PING, OP_STAT} \<Longrightarrow> pack_request op 0 rid 0 = Inr h
       \<Longrightarrow> \<exists>w'. n_send E k t h w = (Inr (), w') \<and> calm a b w' \<and> \<not> refusal rid (v_out V w' k)"
    and close_lives: "v_wf V w \<Longrightarrow> calm a b w \<Longrightarrow> \<exists>w'. n_close E k ab w = (Inr (), w') \<and> calm a b w'"
begin

subsection \<open>One peer\<close>

lemma send_bare_lives:
  assumes "on_link V k (p, w)" and "v_out V w k = []" and "deployed (v_srv V w k)" and op: "op \<in> {OP_PING, OP_STAT}"
    and "rid < 2 ^ 32" and "keen b p" and "calm a b w"
  obtains s' where "lives a b (send_bare E op rid) (p, w) () s'" "pending (fst s') = Some rid"
    "\<not> refusal rid (v_out V (snd s') k)"
proof -
  obtain h where h: "pack_request op 0 rid 0 = Inr h"
    using pack_request_ok [of op 0 rid 0] op assms(5) by (auto simp: wire_consts)
  obtain s1 where 1: "lives a b (arm E) (p, w) () s1" "same_but_armed p (fst s1)" "0 < armed (fst s1)"
    "on_link V k s1" "v_out V (snd s1) k = []" "v_srv V (snd s1) k = v_srv V w k"
    using arm_lives [OF assms(1), of b a] assms(2,6,7) by auto
  have w1: "v_wf V (snd s1)" "calm a b (snd s1)" "k \<in> v_used V (snd s1)" "deployed (v_srv V (snd s1) k)"
    "sock (fst s1) = Some k"
    using 1 assms(3) by (auto simp: lives_def on_link_def)
  obtain w' where w': "n_send E k (armed (fst s1)) h (snd s1) = (Inr (), w')" "calm a b w'"
    "\<not> refusal rid (v_out V w' k)"
    using bare_lives [OF w1(1-3) 1(5,3) w1(4) op h] by blast
  have "send_bare E op rid (p, w) = (Inr (), ((fst s1)\<lparr>pending := Some rid\<rparr>, w'))"
    using h 1(1) w1(5) w'(1)
    by (simp add: send_bare_def bnd_def of_sum_run seq_def with_sock_def lives_def io_def)
  then show thesis
    using that [of "((fst s1)\<lparr>pending := Some rid\<rparr>, w')"] w' 1(1) by (simp add: lives_def keen_def)
qed

text \<open>The acknowledgement of this very ping is on its way.\<close>

definition ringing :: "peer \<Rightarrow> peer \<Rightarrow> 's wire \<Rightarrow> bool" where
  "ringing q p l \<longleftrightarrow> pinged q p l \<and>
     (\<exists>s rid g. l = Some (g, s) \<and> pending p = Some rid \<and> pack_response rid 0 0 = Inr g)"

lemma ping_send_lives:
  assumes "ready_peer V deployed (p, w)" and "idle q p (link V w p)" and "rid < 2 ^ 32"
    and "keen b p" and "calm a b w"
  shows "\<exists>s'. lives a b (send_bare E OP_PING rid) (p, w) () s' \<and> effect V deployed (p, w) s' \<and>
    ringing q (fst s') (link V (snd s') (fst s'))"
proof -
  obtain k s where k: "sock p = Some k" "on_link V k (p, w)" "v_out V w k = []" "v_srv V w k = s"
      "serves s q" "same_ident q p"
    using idle_on [OF assms(2,1)] by blast
  have dep: "deployed (v_srv V w k)"
    using k(4,5) by (simp add: serves_def)
  obtain s1 where "lives a b (send_bare E OP_PING rid) (p, w) () s1" "pending (fst s1) = Some rid"
    "\<not> refusal rid (v_out V (snd s1) k)"
    using send_bare_lives [OF k(2,3) dep _ assms(3-5), of OP_PING] by blast
  then obtain p' w' where 1: "lives a b (send_bare E OP_PING rid) (p, w) () (p', w')" "pending p' = Some rid"
    "\<not> refusal rid (v_out V w' k)"
    by (cases s1) auto
  then have run: "send_bare E OP_PING rid (p, w) = (Inr (), (p', w'))"
    by (simp add: lives_def)
  have op: "OP_PING < 256"
    by (simp add: wire_consts)
  note m = send_bare_moved [OF run k(2) op]
  obtain h where h: "pack_request OP_PING 0 rid 0 = Inr h" "reply s h (v_out V w' k)"
    using m(3) k(3,4) by auto
  have "pack_response rid 0 0 = Inr (v_out V w' k)"
    using reply_ping [OF h(2,1)] 1(3) by blast
  moreover have "link V w' p' = Some (v_out V w' k, s)"
    using pumped_link(3) [OF moved_pumped [OF conjunct1 [OF m(1)]] k(2) assms(1)] k(4) by simp
  ultimately show ?thesis
    using ping_send_step [OF run assms(1,2)] 1(1,2)
    by (intro exI [of _ "(p', w')"]) (simp add: ringing_def)
qed

lemma ping_read_lives:
  assumes "ready_peer V deployed (p, w)" and "ringing q p (link V w p)" and "keen b p" and "calm a b w"
  shows "\<exists>s'. lives a b (read_ack E) (p, w) () s' \<and> effect V deployed (p, w) s' \<and>
    idle q (fst s') (link V (snd s') (fst s'))"
proof -
  obtain s rid g where l: "link V w p = Some (g, s)" "pending p = Some rid" "pack_response rid 0 0 = Inr g"
    "pinged q p (link V w p)"
    using assms(2) by (auto simp: ringing_def)
  obtain k where k: "on_link V k (p, w)" "v_out V w k = g"
    using link_on [OF assms(1) l(1)] by blast
  obtain p' w' where 1: "lives a b (read_header E) (p, w) 0 (p', w')"
    using read_header_lives [OF k(1), of b a g "[]" rid 0] k(2) l(2,3) assms(3,4) by auto
  then have run: "read_ack E (p, w) = (Inr (), (p', w'))"
    by (simp add: read_ack_def bnd_def lives_def ret_run)
  then show ?thesis
    using ping_read_step [OF run assms(1) l(4)] 1
    by (intro exI [of _ "(p', w')"]) (simp add: lives_def)
qed

lemma query_stat_lives:
  assumes "ready_peer V deployed (p, w)" and "idle q p (link V w p)" and "rid < 2 ^ 32"
    and "keen b p" and "calm a b w"
  shows "\<exists>st s'. lives a b (query_stat E rid) (p, w) st s' \<and> effect V deployed (p, w) s' \<and>
    idle q (fst s') (link V (snd s') (fst s')) \<and> agrees st q"
proof -
  obtain k s where k: "sock p = Some k" "on_link V k (p, w)" "v_out V w k = []" "v_srv V w k = s"
      "serves s q" "same_ident q p"
    using idle_on [OF assms(2,1)] by blast
  have dep: "deployed (v_srv V w k)"
    using k(4,5) by (simp add: serves_def)
  obtain s1 where 1: "lives a b (send_bare E OP_STAT rid) (p, w) () s1" "pending (fst s1) = Some rid"
    "\<not> refusal rid (v_out V (snd s1) k)"
    using send_bare_lives [OF k(2,3) dep _ assms(3-5), of OP_STAT] by blast
  then have r1: "send_bare E OP_STAT rid (p, w) = (Inr (), s1)"
    by (simp add: lives_def)
  have op: "OP_STAT < 256"
    by (simp add: wire_consts)
  note m = send_bare_moved [OF r1 k(2) op]
  have l1: "on_link V k s1"
    using k(2) m(1) by (blast intro: on_link_moved)
  obtain h where h: "pack_request OP_STAT 0 rid 0 = Inr h" "reply s h (v_out V (snd s1) k)"
    using m(3) k(3,4) by auto
  obtain g c res served where g: "pack_response rid 0 0 = Inr g" "v_out V (snd s1) k = g @ c"
    and c: "struct_pack STAT_FMT (map int [base s, count s, width s, res, served]) = Inr c"
    using reply_stat [OF h(2,1)] 1(3) by blast
  have "keen b (fst s1)" "calm a b (snd s1)"
    using 1(1) by (simp_all add: lives_def)
  then obtain s2 where 2: "lives a b (read_header E) s1 0 s2"
    using read_header_lives [OF l1 _ _ g(2,1) 1(2)] by blast
  then have r2: "read_header E s1 = (Inr 0, s2)"
    by (simp add: lives_def)
  have l2: "on_link V k s2"
    using l1 read_header_moved [OF r2 l1] by (blast intro: on_link_moved)
  have c2: "v_out V (snd s2) k = c"
    using read_header_ok(4) [OF r2 l1 g(2,1)] .
  have len: "length c = 32"
    using struct_pack_length [OF c] by simp
  obtain bs p' w' where 3: "lives a b (recv_exact E STAT_BODY []) s2 bs (p', w')"
    using recv_exact_lives [OF l2, of b a STAT_BODY "[]"] 2 c2 len by (auto simp: lives_def STAT_BODY_def)
  then have r3: "recv_exact E STAT_BODY [] s2 = (Inr bs, (p', w'))"
    by (simp add: lives_def)
  have bs: "bs = c"
    using recv_exact_moved(3) [OF r3 l2, of bs] c2 len by (auto simp: STAT_BODY_def)
  have run: "query_stat E rid (p, w) = (Inr \<lparr>st_base_row = base s, st_row_count = count s, st_row_bytes = width s,
      st_resident_pages = res, st_served_requests = served\<rparr>, (p', w'))"
    using r1 r2 r3 bs struct_fields_pack [OF c, of "[]"] len
    by (simp add: query_stat_def seq_def bnd_def of_sum_run struct_unpack_def stat_of_fields_def)
  then show ?thesis
    using stat_query_step [OF run assms(1,2)] 3 by (fastforce simp: lives_def)
qed

lemma check_range_lives:
  assumes "ready_peer V deployed (p, w)" and "idle q p (link V w p)" and "agrees st q" and "keen b p" and "calm a b w"
  shows "\<exists>s'. lives a b (check_range st) (p, w) () s' \<and> effect V deployed (p, w) s' \<and>
    idle q (fst s') (link V (snd s') (fst s'))"
proof -
  obtain r p' w' where run: "check_range st (p, w) = (r, (p', w'))"
    by (cases "check_range st (p, w)") auto
  note st = check_range_step [OF run assms(1-3)]
  then have "keen b p'" "w' = w"
    using run assms(4) by (auto simp: check_range_def keen_def note_stat_def raise_run split: if_splits)
  then show ?thesis
    using run st assms(5) by (intro exI [of _ "(p', w')"]) (simp add: lives_def)
qed

lemma close_peer_lives:
  assumes "ready_peer V deployed (p, w)" and "keen b p" and "calm a b w"
  shows "\<exists>s'. lives a b (peer_close E ab) (p, w) () s' \<and> effect V deployed (p, w) s'"
proof -
  have wf: "v_wf V w"
    using assms(1) by (simp add: ready_peer_def)
  obtain w' where run: "peer_close E ab (p, w) = (Inr (), (p\<lparr>sock := None, pending := None\<rparr>, w'))" "calm a b w'"
  proof (cases "sock p")
    case None
    then show thesis
      using that assms(3) by (simp add: peer_close_def bnd_def seq_def upd_def ret_run)
  next
    case (Some k)
    obtain w' where "n_close E k ab w = (Inr (), w')" "calm a b w'"
      using close_lives [OF wf assms(3)] by blast
    then show thesis
      using that Some by (simp add: peer_close_def bnd_def seq_def upd_def io_def)
  qed
  then show ?thesis
    using close_step(1) [OF run(1) assms(1)] assms(2)
    by (intro exI [of _ "(p\<lparr>sock := None, pending := None\<rparr>, w')"]) (simp add: lives_def keen_def)
qed


subsection \<open>The table\<close>

lemma numbered_lives:
  assumes i: "i < length (peers t0)"
    and run: "\<And>r p w. r < 2 ^ 32 \<Longrightarrow> ready_peer V deployed (p, w) \<Longrightarrow> F i p (link V w p) \<Longrightarrow> keen b p \<Longrightarrow>
      calm a b w \<Longrightarrow> \<exists>x s'. lives a b (m r) (p, w) x s' \<and> effect V deployed (p, w) s' \<and>
        G x (fst s') (link V (snd s') (fst s'))"
  shows "triple (vivid a b F t0) (bnd next_req_id (\<lambda>r. on_peer i (m r)))
    (\<lambda>x. vivid a b (F(i := G x)) t0) (\<lambda>e s. False)"
proof (rule triple_bnd [OF next_req_id_lives])
  fix r
  show "triple (\<lambda>s. vivid a b F t0 s \<and> r < 2 ^ 32) (on_peer i (m r))
    (\<lambda>x. vivid a b (F(i := G x)) t0) (\<lambda>e s. False)"
  proof (cases "r < 2 ^ 32")
    case True
    show ?thesis
      by (rule triple_pre [OF on_peer_lives [where G = G, OF i run [OF True]]]) auto
  qed (simp add: triple_def)
qed

lemma triple_returns:
  assumes "triple P m Q (\<lambda>e s. False)" and "P s"
  obtains x s' where "m s = (Inr x, s')" "Q x s'"
proof (cases "m s")
  case (Pair r s')
  then show thesis
    using assms that triple_InrD triple_InlD by (cases r) fast+
qed

lemma working_vivid:
  assumes "working a b N m s"
  shows "vivid a b (Idle (fst s)) (fst s) s"
  using assms synced_idle [of N s] by (simp add: working_def inv_def)

lemma still_working:
  assumes wk: "working a b N m s" and v: "vivid a b (Idle (fst s)) (fst s) s'"
  shows "working a b N m s'" and "map base_row (peers (fst s')) = map base_row (peers (fst s))"
proof -
  have t: "same_table (fst s) (fst s')" "linked V deployed s'"
    using v by (auto simp: stage_def)
  note sel = same_table_sel [OF t(1)]
  have "synced N s'"
    using wk v by (intro idle_synced) (auto simp: working_def inv_def synced_def)
  then have inv: "inv N s'"
    using t sel wk by (simp add: inv_def working_def)
  have geo: "base_row (peers (fst s') ! i) = base_row (peers (fst s) ! i) \<and>
      row_bytes (peers (fst s') ! i) = row_bytes (peers (fst s) ! i)" if "i < length (peers (fst s))" for i
    using that v sel by (auto simp: stage_def idle_def same_ident_def)
  have "0 < row_bytes (peers (fst s) ! i)" if "i < length (peers (fst s))" for i
    using wk that by (simp add: working_def)
  then have "\<forall>p\<in>set (peers (fst s')). 0 < row_bytes p"
    using geo sel(10) by (auto simp: in_set_conv_nth)
  then show "working a b N m s'"
    using inv sel v wk by (simp add: working_def)
  show "map base_row (peers (fst s')) = map base_row (peers (fst s))"
    using geo sel(10) by (intro nth_equalityI) simp_all
qed

lemma ping_lives:
  assumes wk: "working a b N m s"
  shows "\<exists>s'. ping E s = (Inr (), s') \<and> working a b N m s'"
proof -
  let ?t = "fst s" and ?n = "length (peers (fst s))"
  have send: "triple (vivid a b (Idle ?t) ?t)
    (each [0..<?n] (\<lambda>i. bnd next_req_id (\<lambda>r. on_peer i (send_bare E OP_PING r))))
    (\<lambda>_. vivid a b (\<lambda>i. ringing (peers ?t ! i)) ?t) (\<lambda>e s. False)"
  proof (rule each_index_with, rule numbered_lives)
    fix i F p w and r :: nat
    assume "F i = Idle ?t i" "r < 2 ^ 32" "ready_peer V deployed (p, w)" "F i p (link V w p)" "keen b p" "calm a b w"
    then show "\<exists>x s'. lives a b (send_bare E OP_PING r) (p, w) x s' \<and> effect V deployed (p, w) s' \<and>
        ringing (peers ?t ! i) (fst s') (link V (snd s') (fst s'))"
      using ping_send_lives [of p w "peers ?t ! i" r b a] by metis
  qed
  have ack: "triple (vivid a b (\<lambda>i. ringing (peers ?t ! i)) ?t)
    (each [0..<?n] (\<lambda>i. on_peer i (read_ack E))) (\<lambda>_. vivid a b (Idle ?t) ?t) (\<lambda>e s. False)"
  proof (rule each_index_with, rule on_peer_lives)
    fix i F p w
    assume "F i = (\<lambda>p l. ringing (peers ?t ! i) p l)" "ready_peer V deployed (p, w)" "F i p (link V w p)" "keen b p" "calm a b w"
    then show "\<exists>x s'. lives a b (read_ack E) (p, w) x s' \<and> effect V deployed (p, w) s' \<and>
        Idle ?t i (fst s') (link V (snd s') (fst s'))"
      using ping_read_lives [of p w "peers ?t ! i" b a] by metis
  qed
  obtain u1 s1 where 1: "each [0..<?n] (\<lambda>i. bnd next_req_id (\<lambda>r. on_peer i (send_bare E OP_PING r))) s = (Inr u1, s1)"
    "vivid a b (\<lambda>i. ringing (peers ?t ! i)) ?t s1"
    by (rule triple_returns [OF send working_vivid [OF wk]])
  obtain u2 s2 where 2: "each [0..<?n] (\<lambda>i. on_peer i (read_ack E)) s1 = (Inr u2, s2)" "vivid a b (Idle ?t) ?t s2"
    by (rule triple_returns [OF ack 1(2)])
  have "ping E s = (Inr (), s2)"
    using 1(1) 2(1) wk
    by (simp add: ping_def seq_def bnd_def check_usable_run working_def peer_indices_def condemn_run)
  then show ?thesis
    using still_working(1) [OF wk 2(2)] by blast
qed

lemma stat_lives:
  assumes wk: "working a b N m s"
  shows "\<exists>sts s'. Table.stat E s = (Inr sts, s') \<and> map st_base_row sts = map base_row (peers (fst s)) \<and>
    working a b N m s'"
proof -
  let ?t = "fst s" and ?n = "length (peers (fst s))"
  have one: "triple (vivid a b (Idle ?t) ?t) (stat_peer E i)
      (\<lambda>x u. vivid a b (Idle ?t) ?t u \<and> agrees x (peers ?t ! i)) (\<lambda>e s. False)" if i: "i < ?n" for i
  proof -
    have "triple (vivid a b (Idle ?t) ?t) (stat_peer E i)
      (\<lambda>x. vivid a b ((Idle ?t)(i := (\<lambda>p l. Idle ?t i p l \<and> agrees x (peers ?t ! i)))) ?t) (\<lambda>e s. False)"
      unfolding stat_peer_def
    proof (rule numbered_lives [OF i])
      fix r :: nat and p w
      assume "r < 2 ^ 32" "ready_peer V deployed (p, w)" "Idle ?t i p (link V w p)" "keen b p" "calm a b w"
      then show "\<exists>x s'. lives a b (query_stat E r) (p, w) x s' \<and> effect V deployed (p, w) s' \<and>
          Idle ?t i (fst s') (link V (snd s') (fst s')) \<and> agrees x (peers ?t ! i)"
        using query_stat_lives [of p w "peers ?t ! i" r b a] by blast
    qed
    then show ?thesis
      by (rule triple_weaken)
        (use i in \<open>auto simp: stage_def same_table_def split: if_splits\<close>)
  qed
  obtain sts s1 where c: "collect [0..<?n] (stat_peer E) s = (Inr sts, s1)"
    "vivid a b (Idle ?t) ?t s1 \<and> length sts = ?n \<and> (\<forall>i<?n. agrees (sts ! i) (peers ?t ! i))"
    by (rule triple_returns [OF collect_index [OF one] working_vivid [OF wk]])
  then have 1: "collect [0..<?n] (stat_peer E) s = (Inr sts, s1)" "vivid a b (Idle ?t) ?t s1"
    "length sts = ?n" "\<forall>i<?n. agrees (sts ! i) (peers ?t ! i)"
    by simp_all
  let ?z = "zip [0..<?n] sts"
  have d: "distinct (map fst ?z)"
    using 1(3) by simp
  have z: "fst x < ?n" "agrees (snd x) (peers ?t ! fst x)" if "x \<in> set ?z" for x
    using that 1(3,4) by (auto simp: set_zip)
  have "triple (vivid a b (mix (fst ` set ?z) (Idle ?t) (Idle ?t)) ?t)
    (each ?z (\<lambda>x. on_peer (fst x) (check_range (snd x))))
    (\<lambda>_. vivid a b (mix (fst ` set ?z) (Idle ?t) (Idle ?t)) ?t) (\<lambda>e s. False)"
  proof (rule each_lives [OF _ d], rule on_peer_lives)
    fix x F p w
    assume "x \<in> set ?z" "F (fst x) = Idle ?t (fst x)" "ready_peer V deployed (p, w)"
      "F (fst x) p (link V w p)" "keen b p" "calm a b w"
    then show "\<exists>u s'. lives a b (check_range (snd x)) (p, w) u s' \<and> effect V deployed (p, w) s' \<and>
        Idle ?t (fst x) (fst s') (link V (snd s') (fst s'))"
      using check_range_lives [of p w "peers ?t ! fst x" "snd x" b a] z by auto
  qed (use z in auto)
  then have last: "triple (vivid a b (Idle ?t) ?t) (each ?z (\<lambda>x. on_peer (fst x) (check_range (snd x))))
    (\<lambda>_. vivid a b (Idle ?t) ?t) (\<lambda>e s. False)"
    by (simp add: mix_def)
  obtain u2 s2 where
    2: "each ?z (\<lambda>x. on_peer (fst x) (check_range (snd x))) s1 = (Inr u2, s2)" "vivid a b (Idle ?t) ?t s2"
    by (rule triple_returns [OF last 1(2)])
  have same: "(\<lambda>(i, st). on_peer i (check_range st)) = (\<lambda>x. on_peer (fst x) (check_range (snd x)))"
    by (simp add: case_prod_unfold)
  have "Table.stat E s = (Inr sts, s2)"
    using 1(1) 2(1) wk
    by (simp add: Table.stat_def seq_def bnd_def check_usable_run working_def peer_indices_def condemn_run
        ret_run same)
  moreover have "map st_base_row sts = map base_row (peers ?t)"
    using 1(3,4) by (intro nth_equalityI) (simp_all add: agrees_def)
  ultimately show ?thesis
    using still_working(1) [OF wk 2(2)] by blast
qed

lemma table_close_lives:
  assumes wk: "working a b N m s"
  shows "\<exists>s'. Table.close E s = (Inr (), s') \<and> calm a b (snd s')"
proof -
  let ?t = "fst s" and ?n = "length (peers (fst s))"
  have t: "triple (vivid a b (\<lambda>_ _ _. True) ?t) (each [0..<?n] (\<lambda>i. on_peer i (peer_close E False)))
    (\<lambda>_. vivid a b (\<lambda>_ _ _. True) ?t) (\<lambda>e s. False)"
  proof (rule each_index_with, rule on_peer_lives)
    fix i F p w assume "ready_peer V deployed (p, w)" "keen b p" "calm a b w"
    then show "\<exists>x s'. lives a b (peer_close E False) (p, w) x s' \<and> effect V deployed (p, w) s' \<and> True"
      using close_peer_lives [of p w b a False] by blast
  qed
  have "vivid a b (\<lambda>_ _ _. True) ?t s"
    using working_vivid [OF wk] by (auto simp: stage_def)
  then obtain u s1 where 1: "each [0..<?n] (\<lambda>i. on_peer i (peer_close E False)) s = (Inr u, s1)"
    "vivid a b (\<lambda>_ _ _. True) ?t s1"
    by (rule triple_returns [OF t])
  then have "calm a b (snd s1)"
    by (simp add: prompt_def)
  then show ?thesis
    using 1(1) by (simp add: Table.close_def close_all_def seq_def bnd_def upd_def peer_indices_def)
qed

end

end
