(* ===== verification/Wired_Net.thy ===== *)
theory Wired_Net
  imports Calls_Live
begin

section \<open>A network of wires with scripted faults\<close>

text \<open>
  A concrete network that keeps every law of \<open>honest_net\<close> over any row service: the servers behind a
  directory of addresses, each answering by a function of its state, and a world whose script says
  what befalls the next operations (an error, a short read, an end of file, a delay).  With it the
  general theorems apply to runs that can be computed.  The loopback deployment of the self-check
  and a deployment of daemons are instances.
\<close>

datatype fault = Fine | Broken | Hang | Short nat | Eof | Late rat

record 's wires =
  lo_next :: nat
  lo_out :: "nat \<Rightarrow> byte list"
  lo_srv :: "nat \<Rightarrow> 's"
  lo_addr :: "nat \<Rightarrow> addr"
  lo_clock :: rat
  lo_script :: "fault list"

definition take_fault :: "'s wires \<Rightarrow> fault \<times> 's wires" where
  "take_fault w = (case lo_script w of
     [] \<Rightarrow> (Fine, w)
   | Late d # fs \<Rightarrow> (Fine, w\<lparr>lo_script := fs, lo_clock := lo_clock w + d\<rparr>)
   | f # fs \<Rightarrow> (f, w\<lparr>lo_script := fs\<rparr>))"

definition failing :: "fault \<Rightarrow> rat \<Rightarrow> 's wires \<Rightarrow> (exn \<times> 's wires) option" where
  "failing f t w = (case f of
     Broken \<Rightarrow> Some (Exn ConnectionError (Env 0), w)
   | Hang \<Rightarrow> Some (Exn TimeoutError (Env 1), w\<lparr>lo_clock := lo_clock w + t\<rparr>)
   | _ \<Rightarrow> None)"

definition lo_connect :: "(addr \<Rightarrow> 's option) \<Rightarrow> addr \<Rightarrow> rat \<Rightarrow> 's wires \<Rightarrow> (exn + nat) \<times> 's wires" where
  "lo_connect dir a t w0 = (case take_fault w0 of (f, w) \<Rightarrow> (case failing f t w of
     Some (e, w') \<Rightarrow> (Inl e, w')
   | None \<Rightarrow> (case dir a of
       None \<Rightarrow> (Inl (Exn ConnectionError (Env 2)), w)
     | Some s \<Rightarrow> (Inr (lo_next w), w\<lparr>lo_next := Suc (lo_next w),
         lo_out := (lo_out w)(lo_next w := []), lo_srv := (lo_srv w)(lo_next w := s),
         lo_addr := (lo_addr w)(lo_next w := a)\<rparr>))))"

definition lo_peername :: "nat \<Rightarrow> 's wires \<Rightarrow> (exn + addr) \<times> 's wires" where
  "lo_peername k w = (Inr (lo_addr w k), w)"

definition lo_send :: "('s \<Rightarrow> byte list \<Rightarrow> exn + byte list) \<Rightarrow> nat \<Rightarrow> rat \<Rightarrow> byte list \<Rightarrow> 's wires \<Rightarrow> (exn + unit) \<times> 's wires" where
  "lo_send answer k t m w0 = (case take_fault w0 of (f, w) \<Rightarrow> (case failing f t w of
     Some (e, w') \<Rightarrow> (Inl e, w')
   | None \<Rightarrow> (case answer (lo_srv w k) m of
       Inl e \<Rightarrow> (Inl (Exn ConnectionError (Env 3)), w)
     | Inr out \<Rightarrow> (Inr (), w\<lparr>lo_out := (lo_out w)(k := lo_out w k @ out)\<rparr>))))"

definition lo_recv :: "nat \<Rightarrow> rat \<Rightarrow> nat \<Rightarrow> 's wires \<Rightarrow> (exn + byte list) \<times> 's wires" where
  "lo_recv k t n w0 = (case take_fault w0 of (f, w) \<Rightarrow> (case failing f t w of
     Some (e, w') \<Rightarrow> (Inl e, w')
   | None \<Rightarrow>
       let m = (case f of Eof \<Rightarrow> 0 | Short j \<Rightarrow> min n (Suc j) | _ \<Rightarrow> n) in
       if lo_out w k = [] \<and> f \<noteq> Eof then (Inl (Exn TimeoutError (Env 4)), w\<lparr>lo_clock := lo_clock w + t\<rparr>)
       else (Inr (take m (lo_out w k)), w\<lparr>lo_out := (lo_out w)(k := drop m (lo_out w k))\<rparr>)))"

definition lo_select :: "nat list \<Rightarrow> rat \<Rightarrow> 's wires \<Rightarrow> (exn + nat list) \<times> 's wires" where
  "lo_select ks t w0 = (case take_fault w0 of (f, w) \<Rightarrow> (case failing f t w of
     Some (e, w') \<Rightarrow> (case e of Exn c r \<Rightarrow> if c = TimeoutError then (Inr [], w') else (Inl e, w'))
   | None \<Rightarrow> (Inr (remdups (filter (\<lambda>k. lo_out w k \<noteq> []) ks)),
       if filter (\<lambda>k. lo_out w k \<noteq> []) ks = [] then w\<lparr>lo_clock := lo_clock w + t\<rparr> else w)))"

definition wired_net :: "('s \<Rightarrow> byte list \<Rightarrow> exn + byte list) \<Rightarrow> (addr \<Rightarrow> 's option) \<Rightarrow> 's wires net" where
  "wired_net answer dir = \<lparr>n_connect = lo_connect dir, n_peername = lo_peername, n_send = lo_send answer,
     n_recv = lo_recv, n_select = lo_select, n_close = (\<lambda>k ab w. (Inr (), w)),
     n_now = (\<lambda>w. (lo_clock w, w)), n_sleep = (\<lambda>d w. w\<lparr>lo_clock := lo_clock w + d\<rparr>),
     n_junk = 0, n_fuel = 1000\<rparr>"

definition wired_view :: "('s wires, 's) view" where
  "wired_view = \<lparr>v_wf = (\<lambda>w. True), v_used = (\<lambda>w. {k. k < lo_next w}), v_out = lo_out, v_srv = lo_srv\<rparr>"

definition listed :: "(addr \<Rightarrow> 's option) \<Rightarrow> 's \<Rightarrow> bool" where
  "listed dir s \<longleftrightarrow> (\<exists>a. dir a = Some s)"

lemma listedI: "dir a = Some s \<Longrightarrow> listed dir s"
  unfolding listed_def by blast

subsection \<open>It keeps the laws\<close>

definition quiet :: "'s wires \<Rightarrow> 's wires \<Rightarrow> bool" where
  "quiet w w' \<longleftrightarrow> lo_next w' = lo_next w \<and> lo_out w' = lo_out w \<and> lo_srv w' = lo_srv w"

lemma take_fault_quiet: "take_fault w = (f, w') \<Longrightarrow> quiet w w'"
  by (auto simp: take_fault_def quiet_def split: list.splits fault.splits)

lemma failing_quiet: "failing f t w = Some (e, w') \<Longrightarrow> quiet w w' \<and> is_os_error e"
  by (auto simp: failing_def quiet_def split: fault.splits)

lemma quiet_trans: "quiet u v \<Longrightarrow> quiet v w \<Longrightarrow> quiet u w"
  by (simp add: quiet_def)

lemma quiet_keeps: "quiet w w' \<Longrightarrow> keeps wired_view K w w'"
  by (simp add: quiet_def keeps_def wired_view_def)

lemmas wired_sels = wired_view_def wired_net_def

lemma lo_connect_law:
  assumes "lo_connect dir a t w = (r, w')"
  shows "keeps wired_view {} w w'" and "r = Inl e \<Longrightarrow> is_os_error e"
    and "r = Inr k \<Longrightarrow> \<not> k < lo_next w \<and> k < lo_next w' \<and> lo_out w' k = [] \<and> listed dir (lo_srv w' k)"
proof -
  obtain f w1 where 1: "take_fault w = (f, w1)"
    by (cases "take_fault w")
  note q = take_fault_quiet [OF 1]
  have "keeps wired_view {} w w' \<and> (\<forall>e. r = Inl e \<longrightarrow> is_os_error e) \<and> (\<forall>k. r = Inr k \<longrightarrow>
      \<not> k < lo_next w \<and> k < lo_next w' \<and> lo_out w' k = [] \<and> listed dir (lo_srv w' k))"
  proof (cases "failing f t w1")
    case None
    then show ?thesis
      using assms 1 q
      by (auto simp: lo_connect_def keeps_def wired_view_def quiet_def intro: listedI
          split: option.splits)
  next
    case (Some x)
    then show ?thesis
      using assms 1 q failing_quiet [of f t w1 "fst x" "snd x"] quiet_keeps [OF quiet_trans [OF q]]
      by (cases x) (auto simp: lo_connect_def)
  qed
  then show "keeps wired_view {} w w'" "r = Inl e \<Longrightarrow> is_os_error e"
    "r = Inr k \<Longrightarrow> \<not> k < lo_next w \<and> k < lo_next w' \<and> lo_out w' k = [] \<and> listed dir (lo_srv w' k)"
    by blast+
qed

lemma lo_send_law:
  assumes "lo_send answer k t m w = (r, w')" "\<And>s out. answer s m = Inr out \<Longrightarrow> reply s m out"
  shows "keeps wired_view {k} w w'" and "r = Inl e \<Longrightarrow> is_os_error e"
    and "r = Inr u \<Longrightarrow> lo_out w k = [] \<Longrightarrow> reply (lo_srv w k) m (lo_out w' k)"
proof -
  obtain f w1 where 1: "take_fault w = (f, w1)"
    by (cases "take_fault w")
  note q = take_fault_quiet [OF 1]
  have "keeps wired_view {k} w w' \<and> (\<forall>e. r = Inl e \<longrightarrow> is_os_error e) \<and>
      (\<forall>u. r = Inr u \<longrightarrow> lo_out w k = [] \<longrightarrow> reply (lo_srv w k) m (lo_out w' k))"
  proof (cases "failing f t w1")
    case None
    show ?thesis
      using assms 1 None q quiet_keeps [OF q]
      by (auto simp: lo_send_def keeps_def wired_view_def quiet_def split: if_splits sum.splits)
  next
    case (Some x)
    then show ?thesis
      using assms 1 q failing_quiet [of f t w1 "fst x" "snd x"] quiet_keeps [OF quiet_trans [OF q]]
      by (cases x) (auto simp: lo_send_def)
  qed
  then show "keeps wired_view {k} w w'" "r = Inl e \<Longrightarrow> is_os_error e"
    "r = Inr u \<Longrightarrow> lo_out w k = [] \<Longrightarrow> reply (lo_srv w k) m (lo_out w' k)"
    by blast+
qed

lemma lo_recv_law:
  assumes "lo_recv k t n w = (r, w')"
  shows "keeps wired_view {k} w w'" and "r = Inl e \<Longrightarrow> is_os_error e"
    and "r = Inr bs \<Longrightarrow> lo_out w k = bs @ lo_out w' k \<and> length bs \<le> n"
proof -
  obtain f w1 where 1: "take_fault w = (f, w1)"
    by (cases "take_fault w")
  note q = take_fault_quiet [OF 1]
  have "keeps wired_view {k} w w' \<and> (\<forall>e. r = Inl e \<longrightarrow> is_os_error e) \<and>
      (\<forall>bs. r = Inr bs \<longrightarrow> lo_out w k = bs @ lo_out w' k \<and> length bs \<le> n)"
  proof (cases "failing f t w1")
    case None
    then show ?thesis
      using assms 1 q
      by (auto simp: lo_recv_def keeps_def wired_view_def quiet_def Let_def split: if_splits fault.splits)
  next
    case (Some x)
    then show ?thesis
      using assms 1 q failing_quiet [of f t w1 "fst x" "snd x"] quiet_keeps [OF quiet_trans [OF q]]
      by (cases x) (auto simp: lo_recv_def)
  qed
  then show "keeps wired_view {k} w w'" "r = Inl e \<Longrightarrow> is_os_error e"
    "r = Inr bs \<Longrightarrow> lo_out w k = bs @ lo_out w' k \<and> length bs \<le> n"
    by blast+
qed

lemma lo_select_law:
  assumes "lo_select ks t w = (r, w')"
  shows "keeps wired_view {} w w'" and "r = Inl e \<Longrightarrow> is_os_error e"
    and "r = Inr ready \<Longrightarrow> distinct ready \<and> set ready \<subseteq> set ks"
proof -
  obtain f w1 where 1: "take_fault w = (f, w1)"
    by (cases "take_fault w")
  note q = take_fault_quiet [OF 1]
  have "quiet w w' \<and> (\<forall>e. r = Inl e \<longrightarrow> is_os_error e) \<and>
      (\<forall>ready. r = Inr ready \<longrightarrow> distinct ready \<and> set ready \<subseteq> set ks)"
  proof (cases "failing f t w1")
    case None
    then show ?thesis
      using assms 1 q by (auto simp: lo_select_def quiet_def split: if_splits)
  next
    case (Some x)
    then show ?thesis
      using assms 1 q failing_quiet [of f t w1 "fst x" "snd x"] quiet_trans [OF q]
      by (cases x; cases "fst x") (auto simp: lo_select_def split: if_splits)
  qed
  then show "keeps wired_view {} w w'" "r = Inl e \<Longrightarrow> is_os_error e"
    "r = Inr ready \<Longrightarrow> distinct ready \<and> set ready \<subseteq> set ks"
    using quiet_keeps by blast+
qed

lemma wired_honest:
  assumes "row_service reply lo n width row" and says: "\<And>s m out. answer s m = Inr out \<Longrightarrow> reply s m out"
  shows "honest_net reply lo n width row (wired_net answer dir) wired_view (listed dir)"
proof (intro honest_net.intro assms(1) honest_net_axioms.intro)
  fix w a t k w'
  assume "n_connect (wired_net answer dir) a t w = (Inr k, w')"
  then show "k \<notin> v_used wired_view w \<and> k \<in> v_used wired_view w' \<and> v_out wired_view w' k = [] \<and>
      listed dir (v_srv wired_view w' k)"
    using lo_connect_law(3) [of dir a t w "Inr k" w' k] by (simp add: wired_sels)
next
  fix w a t r w'
  assume "n_connect (wired_net answer dir) a t w = (r, w')"
  then show "keeps wired_view {} w w'"
    using lo_connect_law(1) by (simp add: wired_net_def)
next
  fix w k p w'
  assume "n_peername (wired_net answer dir) k w = (p, w')"
  then show "keeps wired_view {} w w'"
    by (auto simp: wired_net_def lo_peername_def intro: quiet_keeps simp: quiet_def)
next
  fix w k t m u w'
  assume "v_out wired_view w k = []" "n_send (wired_net answer dir) k t m w = (Inr u, w')"
  then show "reply (v_srv wired_view w k) m (v_out wired_view w' k)"
    using lo_send_law(3) [of answer k t m w "Inr u" w' reply u] says by (simp add: wired_sels)
next
  fix w k t m u' w'
  assume "n_send (wired_net answer dir) k t m w = (u', w')"
  then show "keeps wired_view {k} w w'"
    using lo_send_law(1) [of answer k t m w u' w' "\<lambda>_ _ _. True"] by (simp add: wired_net_def)
next
  fix w k t n bs w'
  assume "n_recv (wired_net answer dir) k t n w = (Inr bs, w')"
  then show "v_out wired_view w k = bs @ v_out wired_view w' k \<and> length bs \<le> n"
    using lo_recv_law(3) [of k t n w "Inr bs" w' bs] by (simp add: wired_sels)
next
  fix w k t n b w'
  assume "n_recv (wired_net answer dir) k t n w = (b, w')"
  then show "keeps wired_view {k} w w'"
    using lo_recv_law(1) by (simp add: wired_net_def)
next
  fix w ks t ready w'
  assume "n_select (wired_net answer dir) ks t w = (Inr ready, w')"
  then show "distinct ready \<and> set ready \<subseteq> set ks"
    using lo_select_law(3) [of ks t w "Inr ready" w' ready] by (simp add: wired_net_def)
next
  fix w ks t z w'
  assume "n_select (wired_net answer dir) ks t w = (z, w')"
  then show "keeps wired_view {} w w'"
    using lo_select_law(1) by (simp add: wired_net_def)
next
  fix w k ab u' w'
  assume "n_close (wired_net answer dir) k ab w = (u', w')"
  then show "keeps wired_view {k} w w'"
    by (auto simp: wired_net_def quiet_def intro!: quiet_keeps)
next
  fix w t' w'
  assume "n_now (wired_net answer dir) w = (t', w')"
  then show "keeps wired_view {} w w'"
    by (auto simp: wired_net_def quiet_def intro!: quiet_keeps)
next
  fix w d
  show "keeps wired_view {} w (n_sleep (wired_net answer dir) d w)"
    by (auto simp: wired_net_def quiet_def intro!: quiet_keeps)
qed (use lo_connect_law(2) [OF _ refl] lo_send_law(2) [where reply = "\<lambda>_ _ _. True", OF _ TrueI refl]
    lo_recv_law(2) [OF _ refl] lo_select_law(2) [OF _ refl] in
    \<open>auto simp: wired_net_def lo_peername_def\<close>)

subsection \<open>Calm worlds\<close>

text \<open>With nothing left in the script no operation fails, and the clock stands still.\<close>

definition lo_calm :: "rat \<Rightarrow> rat \<Rightarrow> 's wires \<Rightarrow> bool" where
  "lo_calm a b w \<longleftrightarrow> lo_script w = [] \<and> a \<le> lo_clock w \<and> lo_clock w < b"

lemma calm_fault: "lo_calm a b w \<Longrightarrow> take_fault w = (Fine, w) \<and> failing Fine t w = None"
  by (simp add: lo_calm_def take_fault_def failing_def)

lemma not_refusal:
  assumes "pack_response rid 0 n = Inr g"
  shows "\<not> refusal rid (g @ bs)"
proof
  assume "refusal rid (g @ bs)"
  then obtain st where st: "st \<noteq> 0" "pack_response rid st 0 = Inr (g @ bs)"
    by (auto simp: refusal_def)
  then show False
    using pack_response_Inr(2) [OF assms, of bs] pack_response_Inr(2) [OF st(2), of "[]"] by simp
qed

lemma wired_live:
  fixes answer :: "'s \<Rightarrow> byte list \<Rightarrow> exn + byte list"
  assumes "trusted_net reply lo n width row (wired_net answer dir) wired_view D truth"
    and "\<And>s rid ids h. D s \<Longrightarrow> pack_request OP_GATHER 0 rid (length ids) = Inr h \<Longrightarrow>
      \<forall>i\<in>set ids. lo s \<le> i \<and> i < lo s + n s \<Longrightarrow> \<forall>i\<in>set ids. i < 2 ^ 32 \<Longrightarrow> length ids \<le> limit \<Longrightarrow>
      \<exists>out. answer s (h @ id_bytes ids) = Inr out \<and> \<not> refusal rid out"
  shows "live_net reply lo n width row (wired_net answer dir) wired_view D truth lo_calm limit"
proof (intro live_net.intro assms(1) live_net_axioms.intro)
  fix ks and u :: "'s wires" and k a b t
  assume c: "lo_calm a b u" and k: "k \<in> set ks" "v_out wired_view u k \<noteq> []"
  then have "remdups (filter (\<lambda>k. lo_out u k \<noteq> []) ks) \<noteq> []"
    by (auto simp: wired_view_def filter_empty_conv)
  then show "\<exists>ready u'. n_select (wired_net answer dir) ks t u = (Inr ready, u') \<and> ready \<noteq> [] \<and> lo_calm a b u'"
    using c calm_fault [OF c] by (simp add: wired_net_def lo_select_def)
next
  fix u :: "'s wires" and k a b t m
  assume c: "lo_calm a b u" and k: "v_out wired_view u k \<noteq> []" "(0::nat) < m"
  then show "\<exists>bs u'. n_recv (wired_net answer dir) k t m u = (Inr bs, u') \<and> bs \<noteq> [] \<and> lo_calm a b u'"
    using calm_fault [OF c] by (auto simp: wired_net_def lo_recv_def wired_view_def lo_calm_def)
next
  fix u :: "'s wires" and k a b t rid ids h
  assume c: "lo_calm a b u" and "v_out wired_view u k = []" "D (v_srv wired_view u k)"
    and p: "pack_request OP_GATHER 0 rid (length ids) = Inr h"
    "\<forall>i\<in>set ids. lo (v_srv wired_view u k) \<le> i \<and> i < lo (v_srv wired_view u k) + n (v_srv wired_view u k)"
    "\<forall>i\<in>set ids. i < 2 ^ 32" "length ids \<le> limit"
  then obtain out where "answer (lo_srv u k) (h @ id_bytes ids) = Inr out" "\<not> refusal rid out"
    using assms(2) [OF _ p] by (auto simp: wired_view_def)
  then show "\<exists>u'. n_send (wired_net answer dir) k t (h @ id_bytes ids) u = (Inr (), u') \<and>
      lo_calm a b u' \<and> \<not> refusal rid (v_out wired_view u' k)"
    using c calm_fault [OF c] \<open>v_out wired_view u k = []\<close>
    by (auto simp: wired_net_def lo_send_def lo_calm_def wired_view_def)
qed (auto simp: wired_net_def lo_calm_def)

lemma wired_calling:
  fixes answer :: "'s \<Rightarrow> byte list \<Rightarrow> exn + byte list"
  assumes "live_net reply lo n width row (wired_net answer dir) wired_view D truth lo_calm limit"
    and "\<And>s op rid h. D s \<Longrightarrow> op \<in> {OP_PING, OP_STAT} \<Longrightarrow> pack_request op 0 rid 0 = Inr h \<Longrightarrow>
      \<exists>out. answer s h = Inr out \<and> \<not> refusal rid out"
  shows "calling_net reply lo n width row (wired_net answer dir) wired_view D truth lo_calm limit"
proof (intro calling_net.intro assms(1) calling_net_axioms.intro)
  fix u :: "'s wires" and k a b t op rid h
  assume c: "lo_calm a b u" and "v_out wired_view u k = []" and d: "D (v_srv wired_view u k)"
    and op: "op \<in> {OP_PING, OP_STAT}" "pack_request op 0 rid 0 = Inr h"
  obtain out where "answer (lo_srv u k) h = Inr out" "\<not> refusal rid out"
    using assms(2) [OF d op] by (auto simp: wired_view_def)
  then show "\<exists>u'. n_send (wired_net answer dir) k t h u = (Inr (), u') \<and>
      lo_calm a b u' \<and> \<not> refusal rid (v_out wired_view u' k)"
    using c calm_fault [OF c] \<open>v_out wired_view u k = []\<close>
    by (auto simp: wired_net_def lo_send_def lo_calm_def wired_view_def)
qed (simp add: wired_net_def)

end
