(* ===== verification/Server.thy ===== *)
theory Server
  imports Net
begin

section \<open>The stand-in row server\<close>

text \<open>
  \<open>_LoopbackServer\<close> and \<open>_synthetic_table\<close> of \<open>client/ple_remote.py\<close>, the stand-in the self-check
  talks to.  A turn takes one request off the front of the bytes received.  It is shown to keep the
  contract \<open>row_service\<close>, which is all the client relies on; that the daemon keeps it too is in theory Daemon.
\<close>

subsection \<open>The stand-in\<close>

text \<open>A two-dimensional \<open>uint8\<close> array: its shape and its elements.\<close>

record matrix =
  m_rows :: nat
  m_cols :: nat
  m_cell :: "nat \<Rightarrow> nat \<Rightarrow> byte"

definition matrix_row :: "matrix \<Rightarrow> nat \<Rightarrow> byte list" where
  "matrix_row m i = map (m_cell m i) [0..<m_cols m]"

definition synthetic_table :: "nat \<Rightarrow> nat \<Rightarrow> matrix" where
  "synthetic_table n w = \<lparr>m_rows = n, m_cols = w,
     m_cell = (\<lambda>r c. ucast (and (word_of_nat r * 31 + word_of_nat c * 7 :: 32 word) 0xFF))\<rparr>"

record standin =
  si_table :: matrix
  si_base :: nat
  si_served :: nat

definition si_head :: "nat \<Rightarrow> nat \<Rightarrow> nat \<Rightarrow> exn + byte list" where
  "si_head rid status n = pack_response rid status n"

text \<open>One turn of the loop in \<open>_serve\<close>: the reply, what is left of the stream, the server after.\<close>

definition join :: "exn + byte list \<Rightarrow> exn + byte list \<Rightarrow> exn + byte list" where
  "join x y = (case x of Inl e \<Rightarrow> Inl e | Inr a \<Rightarrow> (case y of Inl e \<Rightarrow> Inl e | Inr b \<Rightarrow> Inr (a @ b)))"

definition si_reply :: "standin \<Rightarrow> nat list \<Rightarrow> byte list \<Rightarrow> (exn + byte list) \<times> byte list \<times> standin" where
  "si_reply s hdr stream = (case hdr of
     [magic, version, op, pad, rid, n] \<Rightarrow>
       if magic \<noteq> MAGIC_REQ \<or> version \<noteq> VERSION then (si_head rid 1 0, stream, s)
       else if op = OP_STAT then
         (join (si_head rid 0 0) (struct_pack STAT_FMT
            (map int [si_base s, m_rows (si_table s), m_cols (si_table s), 0, si_served s])), stream, s)
       else if op = OP_PING then (si_head rid 0 0, stream, s)
       else if op \<noteq> OP_GATHER then (si_head rid 2 0, stream, s)
       else if length stream < 4 * n then (Inl (Exn TypeError (ShortRead n (length stream) 0)), [], s)
       else
         (let ids = map (\<lambda>i. int i - int (si_base s)) (id_array n stream);
              rest = drop (4 * n) stream
          in if n > 0 \<and> (Min (set ids) < 0 \<or> Max (set ids) \<ge> int (m_rows (si_table s)))
             then (si_head rid 3 0, rest, s)
             else (join (si_head rid 0 n) (Inr (concat (map (\<lambda>i. matrix_row (si_table s) (nat i)) ids))),
                   rest, s\<lparr>si_served := si_served s + 1\<rparr>))
   | _ \<Rightarrow> (Inl (Exn StructError FieldRange), stream, s))"

definition si_turn :: "standin \<Rightarrow> byte list \<Rightarrow> (exn + byte list) \<times> byte list \<times> standin" where
  "si_turn s stream = si_reply s (struct_fields REQ_FMT stream) (drop 16 stream)"

lemma si_reply_rest: "(x, rest, s') = si_reply s fs stream \<Longrightarrow> length rest \<le> length stream"
  by (auto simp: si_reply_def Let_def split: list.splits if_splits)

text \<open>The loop over a connection: all bytes sent, and the exception that ends the thread if any.\<close>

function si_serve :: "standin \<Rightarrow> byte list \<Rightarrow> byte list \<times> exn option \<times> standin" where
  "si_serve s stream =
     (if length stream < 16 then ([], None, s)
      else (case si_turn s stream of
          (Inl e, rest, s') \<Rightarrow> ([], Some e, s')
        | (Inr out, rest, s') \<Rightarrow>
            (case si_serve s' rest of (outs, e, s'') \<Rightarrow> (out @ outs, e, s''))))"
  by pat_completeness auto

termination
  by (relation "measure (\<lambda>(s, stream). length stream)")
    (auto simp: si_turn_def dest!: si_reply_rest)

declare si_serve.simps [simp del]

lemma Min_Max_range:
  assumes "ids \<noteq> []"
  shows "(Min (set ids) < 0 \<or> Max (set ids) \<ge> int n) \<longleftrightarrow> \<not> (\<forall>i\<in>set ids. 0 \<le> i \<and> i < int n)"
  using assms by (auto simp: Min_less_iff Max_ge_iff not_le not_less)

text \<open>What the stand-in answers to a request as the client builds it.\<close>

definition si_row :: "standin \<Rightarrow> nat \<Rightarrow> byte list" where
  "si_row s i = matrix_row (si_table s) (i - si_base s)"

lemma si_turn_gather:
  assumes "pack_request OP_GATHER 0 rid (length ids) = Inr h" and "\<forall>i\<in>set ids. i < 2 ^ 32"
  shows "si_turn s (h @ id_bytes ids @ rest) =
    (if \<forall>i\<in>set ids. si_base s \<le> i \<and> i < si_base s + m_rows (si_table s)
     then (join (si_head rid 0 (length ids)) (Inr (concat (map (si_row s) ids))), rest,
           s\<lparr>si_served := si_served s + 1\<rparr>)
     else (si_head rid 3 0, rest, s))"
proof -
  let ?loc = "map (\<lambda>i. int i - int (si_base s)) ids"
  note p = pack_request_Inr [OF assms(1)]
  have f: "struct_fields REQ_FMT (h @ id_bytes ids @ rest) = [MAGIC_REQ, VERSION, OP_GATHER, 0, rid, length ids]"
    by (rule p(6))
  have ops: "OP_GATHER \<noteq> OP_STAT" "OP_GATHER \<noteq> OP_PING"
    by (simp_all add: wire_consts)
  have range: "(\<forall>i\<in>set ?loc. 0 \<le> i \<and> i < int (m_rows (si_table s))) \<longleftrightarrow>
      (\<forall>i\<in>set ids. si_base s \<le> i \<and> i < si_base s + m_rows (si_table s))"
    by auto
  have bad: "(length ids > 0 \<and> (Min (set ?loc) < 0 \<or> Max (set ?loc) \<ge> int (m_rows (si_table s)))) \<longleftrightarrow>
      \<not> (\<forall>i\<in>set ids. si_base s \<le> i \<and> i < si_base s + m_rows (si_table s))"
  proof (cases "ids = []")
    case False
    then have "?loc \<noteq> []"
      by simp
    from Min_Max_range [OF this, of "m_rows (si_table s)"] show ?thesis
      unfolding range using False by (simp only: length_greater_0_conv simp_thms)
  qed simp
  have rows: "concat (map (\<lambda>i. matrix_row (si_table s) (nat i)) ?loc) = concat (map (si_row s) ids)"
    if "\<forall>i\<in>set ids. si_base s \<le> i \<and> i < si_base s + m_rows (si_table s)"
    unfolding map_map using that
    by (intro arg_cong [of _ _ concat] map_cong) (auto simp: si_row_def nat_diff_distrib)
  have d: "drop 16 (h @ id_bytes ids @ rest) = id_bytes ids @ rest"
    using p(1) by simp
  show ?thesis
    unfolding si_turn_def f d si_reply_def
    using ops bad rows id_array_bytes [OF assms(2), of rest] by (simp add: Let_def)
qed

definition si_answers :: "standin \<Rightarrow> byte list \<Rightarrow> byte list \<Rightarrow> bool" where
  "si_answers s m out \<longleftrightarrow> (\<exists>k. fst (si_turn (s\<lparr>si_served := k\<rparr>) m) = Inr out)"

lemma si_turn_bare:
  assumes "pack_request op 0 rid 0 = Inr h"
  shows "fst (si_turn s h) =
    (if op = OP_STAT then join (si_head rid 0 0) (struct_pack STAT_FMT
        (map int [si_base s, m_rows (si_table s), m_cols (si_table s), 0, si_served s]))
     else if op = OP_PING then si_head rid 0 0
     else if op = OP_GATHER then join (si_head rid 0 0) (Inr [])
     else si_head rid 2 0)"
proof -
  have f: "struct_fields REQ_FMT h = [MAGIC_REQ, VERSION, op, 0, rid, 0]"
    using pack_request_Inr(6) [OF assms, of "[]"] by simp
  show ?thesis
    unfolding si_turn_def f si_reply_def by (auto simp: Let_def)
qed

lemma join_Inr: "join x y = Inr out \<longleftrightarrow> (\<exists>a b. x = Inr a \<and> y = Inr b \<and> out = a @ b)"
  by (auto simp: join_def split: sum.splits)

lemma refusalI: "st \<noteq> 0 \<Longrightarrow> pack_response rid st 0 = Inr out \<Longrightarrow> refusal rid out"
  by (auto simp: refusal_def)

lemma si_row_length: "length (si_row s i) = m_cols (si_table s)"
  by (simp add: si_row_def matrix_row_def)

interpretation standin: row_service si_answers si_base "\<lambda>s. m_rows (si_table s)"
    "\<lambda>s. m_cols (si_table s)" si_row
proof
  fix s h ids out rid
  assume m: "si_answers s (h @ id_bytes ids) out" and h: "pack_request OP_GATHER 0 rid (length ids) = Inr h"
    and ids: "\<forall>i\<in>set ids. i < 2 ^ 32"
  have row: "si_row (s\<lparr>si_served := k\<rparr>) = si_row s" for k
    by (simp add: si_row_def fun_eq_iff)
  obtain k where "fst (si_turn (s\<lparr>si_served := k\<rparr>) (h @ id_bytes ids @ [])) = Inr out"
    using m by (auto simp: si_answers_def)
  then show "refusal rid out \<or> (\<forall>i\<in>set ids. si_base s \<le> i \<and> i < si_base s + m_rows (si_table s)) \<and>
      (\<exists>g. pack_response rid 0 (length ids) = Inr g \<and> out = g @ concat (map (si_row s) ids))"
    unfolding si_turn_gather [OF h ids]
    by (cases "\<forall>i\<in>set ids. si_base s \<le> i \<and> i < si_base s + m_rows (si_table s)")
      (auto simp: join_Inr si_head_def row intro: refusalI [of 3])
next
  fix s h out rid
  assume m: "si_answers s h out" and h: "pack_request OP_STAT 0 rid 0 = Inr h"
  obtain k where "fst (si_turn (s\<lparr>si_served := k\<rparr>) h) = Inr out"
    using m by (auto simp: si_answers_def)
  then have "join (si_head rid 0 0) (struct_pack STAT_FMT
      (map int [si_base s, m_rows (si_table s), m_cols (si_table s), 0, k])) = Inr out"
    unfolding si_turn_bare [OF h] by simp
  then show "refusal rid out \<or> (\<exists>g b res served. pack_response rid 0 0 = Inr g \<and> out = g @ b \<and>
      struct_pack STAT_FMT (map int [si_base s, m_rows (si_table s), m_cols (si_table s), res, served]) = Inr b)"
    unfolding join_Inr si_head_def by metis
next
  fix s h out rid
  assume m: "si_answers s h out" and h: "pack_request OP_PING 0 rid 0 = Inr h"
  then show "refusal rid out \<or> pack_response rid 0 0 = Inr out"
    unfolding si_answers_def si_turn_bare [OF h] by (auto simp: si_head_def wire_consts)
qed (simp add: si_row_length)

end
