(* ===== verification/Loop_Net.thy ===== *)
theory Loop_Net
  imports Wired_Net Server
begin

section \<open>A loopback deployment: stand-in servers over a network with scripted faults\<close>

text \<open>
  The deployment of \<open>_self_check\<close> as an instance of the wired network: two stand-in servers that
  hold the halves of one synthetic table.
\<close>

type_synonym loop = "standin wires"

abbreviation loop_net :: "(addr \<Rightarrow> standin option) \<Rightarrow> loop net" where
  "loop_net \<equiv> wired_net (\<lambda>s m. fst (si_turn s m))"

abbreviation loop_view :: "(loop, standin) view" where
  "loop_view \<equiv> wired_view"

lemmas loop_net_def = wired_net_def
lemmas loop_view_def = wired_view_def
lemmas loop_sels = wired_sels

lemma si_turn_answers: "fst (si_turn s m) = Inr out \<Longrightarrow> si_answers s m out"
proof -
  have same: "s = s\<lparr>si_served := si_served s\<rparr>"
    by simp
  assume "fst (si_turn s m) = Inr out"
  then show ?thesis
    unfolding si_answers_def using same by metis
qed

lemma loop_honest:
  "honest_net si_answers si_base (\<lambda>s. m_rows (si_table s)) (\<lambda>s. m_cols (si_table s)) si_row
     (loop_net dir) loop_view (listed dir)"
  by (rule wired_honest [OF standin.row_service_axioms si_turn_answers])

interpretation loop: honest_net si_answers si_base "\<lambda>s. m_rows (si_table s)"
    "\<lambda>s. m_cols (si_table s)" si_row "loop_net dir" loop_view "listed dir" for dir
  by (rule loop_honest)

subsection \<open>Two halves of one table\<close>

text \<open>The servers \<open>left\<close> and \<open>right\<close> of \<open>_self_check\<close>: \<open>table[:half]\<close> at 0, \<open>table[half:]\<close> at \<open>half\<close>.\<close>

definition slice_server :: "matrix \<Rightarrow> nat \<Rightarrow> nat \<Rightarrow> standin" where
  "slice_server m lo hi = \<lparr>si_table = m\<lparr>m_rows := hi - lo, m_cell := (\<lambda>r. m_cell m (lo + r))\<rparr>,
     si_base = lo, si_served = 0\<rparr>"

definition two_halves :: "nat \<Rightarrow> nat \<Rightarrow> addr \<Rightarrow> standin option" where
  "two_halves n w a =
     (if a = (''127.0.0.1'', 9001) then Some (slice_server (synthetic_table n w) 0 (n div 2))
      else if a = (''127.0.0.1'', 9002) then Some (slice_server (synthetic_table n w) (n div 2) n)
      else None)"

lemma slice_row: "lo \<le> i \<Longrightarrow> si_row (slice_server m lo hi) i = matrix_row m i"
  by (simp add: si_row_def slice_server_def matrix_row_def)

text \<open>Servers that hold slices of one table keep the laws, and answer every request in range.\<close>

definition slices :: "nat \<Rightarrow> nat \<Rightarrow> (addr \<Rightarrow> standin option) \<Rightarrow> bool" where
  "slices n w dir \<longleftrightarrow> (\<forall>a s. dir a = Some s \<longrightarrow>
     (\<exists>lo hi. lo \<le> n \<and> hi \<le> n \<and> s = slice_server (synthetic_table n w) lo hi))"

lemma two_slices: "slices n w (two_halves n w)"
  unfolding slices_def two_halves_def by (metis div_le_dividend le0 le_refl option.distinct(1) option.inject)

lemma slices_trusted:
  assumes "slices n w dir"
  shows "trusted_net si_answers si_base (\<lambda>s. m_rows (si_table s)) (\<lambda>s. m_cols (si_table s)) si_row
     (loop_net dir) loop_view (listed dir) (matrix_row (synthetic_table n w))"
proof (intro trusted_net.intro trusted_net_axioms.intro)
  show "honest_net si_answers si_base (\<lambda>s. m_rows (si_table s)) (\<lambda>s. m_cols (si_table s)) si_row
     (loop_net dir) loop_view (listed dir)"
    by (rule loop_honest)
next
  fix s i
  assume "listed dir s" and i: "si_base s \<le> i"
  then obtain lo hi where "s = slice_server (synthetic_table n w) lo hi"
    using assms unfolding slices_def listed_def by blast
  then show "si_row s i = matrix_row (synthetic_table n w) i"
    using i slice_row by (simp add: slice_server_def)
qed

lemma slices_live:
  assumes "slices n w dir"
  shows "live_net si_answers si_base (\<lambda>s. m_rows (si_table s)) (\<lambda>s. m_cols (si_table s)) si_row
     (loop_net dir) loop_view (listed dir) (matrix_row (synthetic_table n w))
     lo_calm (2 ^ 32)"
proof (rule wired_live [OF slices_trusted [OF assms]])
  fix s :: standin and rid ids h
  assume h: "pack_request OP_GATHER 0 rid (length ids) = Inr h"
    and range: "\<forall>i\<in>set ids. si_base s \<le> i \<and> i < si_base s + m_rows (si_table s)" and ids: "\<forall>i\<in>set ids. i < 2 ^ 32"
  have "rid < 2 ^ 32" "length ids < 2 ^ 32"
    using pack_request_Inr [OF h] by simp_all
  then have "list_all2 field_fits RESP_FMT (map int [MAGIC_RESP, rid, 0, length ids])"
    by (simp add: wire_fmts field_fits_def wire_consts)
  then obtain g where g: "pack_response rid 0 (length ids) = Inr g"
    unfolding pack_response_def using struct_pack_ok by blast
  have "fst (si_turn s (h @ id_bytes ids)) = Inr (g @ concat (map (si_row s) ids))"
    using si_turn_gather [OF h ids, of s "[]"] range g by (simp add: si_head_def join_def)
  then show "\<exists>out. fst (si_turn s (h @ id_bytes ids)) = Inr out \<and> \<not> refusal rid out"
    using not_refusal [OF g] by blast
qed

lemma slices_calling:
  assumes dir: "slices n w dir" and small: "n < 2 ^ 64" "w < 2 ^ 32"
  shows "calling_net si_answers si_base (\<lambda>s. m_rows (si_table s)) (\<lambda>s. m_cols (si_table s)) si_row
     (loop_net dir) loop_view (listed dir) (matrix_row (synthetic_table n w)) lo_calm (2 ^ 32)"
proof (rule wired_calling [OF slices_live [OF dir]])
  fix s :: standin and op rid h
  assume "listed dir s" and op: "op \<in> {OP_PING, OP_STAT}" and h: "pack_request op 0 rid 0 = Inr h"
  then obtain lo hi where s: "lo \<le> n" "hi \<le> n" "s = slice_server (synthetic_table n w) lo hi"
    using dir unfolding slices_def listed_def by blast
  have "rid < 2 ^ 32"
    using pack_request_Inr [OF h] by simp
  then have "list_all2 field_fits RESP_FMT (map int [MAGIC_RESP, rid, 0, 0])"
    by (simp add: wire_fmts field_fits_def wire_consts)
  then obtain g where g: "pack_response rid 0 0 = Inr g"
    unfolding pack_response_def using struct_pack_ok by (metis (no_types) of_nat_0 list.simps(8,9))
  have "list_all2 field_fits STAT_FMT (map int [si_base s, m_rows (si_table s), m_cols (si_table s), 0, si_served s])"
    using s small by (simp add: wire_fmts field_fits_def slice_server_def synthetic_table_def)
  then obtain c where "struct_pack STAT_FMT
      (map int [si_base s, m_rows (si_table s), m_cols (si_table s), 0, si_served s]) = Inr c"
    using struct_pack_ok by blast
  then have "fst (si_turn s h) = Inr (g @ (if op = OP_STAT then c else []))"
    using si_turn_bare [OF h, of s] op g by (auto simp: si_head_def join_def wire_consts)
  then show "\<exists>out. fst (si_turn s h) = Inr out \<and> \<not> refusal rid out"
    using not_refusal [OF g] by blast
qed

lemmas two_trusted = slices_trusted [OF two_slices]
lemmas two_live = slices_live [OF two_slices]

interpretation two: trusted_net si_answers si_base "\<lambda>s. m_rows (si_table s)"
    "\<lambda>s. m_cols (si_table s)" si_row "loop_net (two_halves n w)" loop_view "listed (two_halves n w)"
    "matrix_row (synthetic_table n w)" for n w
  by (rule two_trusted)

interpretation two_live: live_net si_answers si_base "\<lambda>s. m_rows (si_table s)"
    "\<lambda>s. m_cols (si_table s)" si_row "loop_net (two_halves n w)" loop_view "listed (two_halves n w)"
    "matrix_row (synthetic_table n w)" lo_calm "2 ^ 32" for n w
  by (rule two_live)

definition quiet_world :: "fault list \<Rightarrow> loop" where
  "quiet_world script = \<lparr>lo_next = 0, lo_out = (\<lambda>k. []), lo_srv = (\<lambda>k. undefined),
     lo_addr = (\<lambda>k. ([], 0)), lo_clock = 0, lo_script = script\<rparr>"

definition loop_config :: "nat \<Rightarrow> nat \<Rightarrow> config" where
  "loop_config n w = \<lparr>c_peers = Some ''127.0.0.1:9001,127.0.0.1:9002'', c_rows_total = Some (int n),
     c_row_bytes = int w, c_max_rows = Some 131072, c_timeout = Some 30, c_connect_timeout = Some 5,
     c_connect_deadline = Some 60, c_gather_deadline = Some 120\<rparr>"

end
