(* ===== verification/Run.thy ===== *)
theory Run
  imports Loop_Net
begin

section \<open>Running the model on concrete inputs\<close>

text \<open>
  The equations and congruences with which the simplifier runs the client's programs over the
  loopback deployment: a program is run before what follows it (\<open>run_congs\<close>), fuel and sizes
  given as numerals unfold one step at a time, and \<open>all_run\<close> collects the definitions.
  \<open>opened n w script\<close> is the constructor over two stand-ins that hold the halves of a synthetic
  table of \<open>n\<close> rows of \<open>w\<close> bytes, in a world that follows the script.
\<close>

lemma bnd_weak: "m = m' \<Longrightarrow> bnd m f = bnd m' f" by simp
lemma seq_weak: "m = m' \<Longrightarrow> seq m n = seq m' n" by simp
lemma handle_weak: "m = m' \<Longrightarrow> handle m c h = handle m' c h" by simp
lemma ensure_weak: "m = m' \<Longrightarrow> ensure m f = ensure m' f" by simp
lemmas run_congs = bnd_weak seq_weak handle_weak ensure_weak
lemma le_encode_num [simp]: "le_encode (numeral k) v = word_of_nat v # le_encode (pred_numeral k) (v div 256)"
  by (simp only: numeral_eq_Suc [of k] le_encode.simps)
lemma id_array_num: "id_array (numeral k) bs = le_decode (take 4 bs) # id_array (pred_numeral k) (drop 4 bs)"
  by (simp only: numeral_eq_Suc [of k] id_array.simps)

lemmas base_run = bnd_def seq_run handle_def ensure_def ret_run raise_run io_def now_def sleep_def upd_def
  with_sock_def of_sum_run
lemmas peer_run = peer_connect_def peer_close_def arm_def recv_def reserve_def send_gather_def send_bare_def
  check_header_def read_header_def begin_rows_def store_body_def pump_rows_def read_rows_def read_ack_def
  query_stat_def
  stat_of_fields_def recv_exact.simps finish_rows.simps
lemmas wire_run = pack_request_def pack_response_def wire_consts wire_fmts field_fits_def
  struct_unpack_def calcsize_def id_bytes_def
lemmas loop_run = loop_net_def lo_connect_def lo_peername_def lo_send_def lo_recv_def lo_select_def
  take_fault_def failing_def
  two_halves_def slice_server_def si_turn_def si_reply_def si_head_def join_def

lemma connect_loop_num: "connect_loop (numeral k) E ctimeout tmo dl pause =
     bnd (now E) (\<lambda>t.
     handle (peer_connect E (min ctimeout (max (dl - t) (1 / 1000))) tmo) is_os_error (\<lambda>e.
       bnd (now E) (\<lambda>t'.
       if dl - t' \<le> 0 then raise (Exn TimeoutError StillUnreachable)
       else seq (sleep E (min pause (dl - t')))
              (connect_loop (pred_numeral k) E ctimeout tmo dl (min (pause * 2) 5)))))"
  by (simp only: numeral_eq_Suc [of k] connect_loop.simps)
lemmas table_run = on_peer_def next_req_id_def check_usable_def connect_peer_def connect_loop_num
  stat_peer_def note_stat_def check_range_def apply_stat_def
  check_split_def new_table_def peer_indices_def close_all_def bring_up_def connect_all_def init_table_def
lemmas settings_run = int_setting_def float_setting_def parse_peers_def host_port_def rpartition_def
  py_strip_def py_space_def py_int_def digit_val_def new_peer_def
definition opened :: "nat \<Rightarrow> nat \<Rightarrow> fault list \<Rightarrow> (exn + table) \<times> loop" where
  "opened n w sc = init_table (loop_net (two_halves n w)) (\<lambda>s. Inl (Exn ValueError NoPeers)) (\<lambda>s. None)
     (loop_config n w) (quiet_world sc)"

lemmas exchange_loop_num = exchange_loop.simps(2) [of _ _ "pred_numeral k" for k, folded numeral_eq_Suc]
lemmas gather_run = gather_cpu_def staging_for_def workspace_for_def partition_ids_def positions_def
  owns_id_def condemn_def
  active_work_def marshal_def write_ids_def wire_id_def exchange_def GATHER_ATTEMPTS_def exchange_loop_num
  attempt_def prepare_def ask_def
  begin_answer_def read_bodies_def drain_def drain_loop.simps drain_select_def set_deadlines_def
  set_deadline_def
  unanswered_def abort_all_def scatter_def place_rows_def rows_upto_def row_at_def staged_def
  matrix_row_def id_array_num
lemmas upt_run = upt_rec_numeral upt_conv_Cons

lemmas all_run = opened_def base_run peer_run loop_run wire_run table_run settings_run loop_config_def
  quiet_world_def synthetic_table_def Let_def  gather_run

text \<open>Reading a run off its evaluation.\<close>

lemma opened_run:
  assumes "case opened n w sc of (Inl e, u) \<Rightarrow> False | (Inr t, u) \<Rightarrow> P t u"
  obtains t u where "opened n w sc = (Inr t, u)" "P t u"
  using assms by (auto split: prod.splits sum.splits)

lemma opened_init:
  assumes "opened n w sc = (Inr t, u)"
  shows "init_table (loop_net (two_halves n w)) (\<lambda>s. Inl (Exn ValueError NoPeers)) (\<lambda>s. None)
    (loop_config n w) (quiet_world sc) = (Inr t, u)"
  using assms by (simp add: opened_def)

lemma listed3:
  "(replicate 3 a)[0 := x, 1 := y, 2 := z] = [x, y, z]"
  "(replicate 3 a)[0 := x, 2 := z, 1 := y] = [x, y, z]"
  by (simp_all add: numeral_3_eq_3)

lemmas front_run = take_update_swap listed3

end
