(* ===== verification/Guarantees.thy ===== *)
theory Guarantees
  imports Run
begin

section \<open>What the client guarantees\<close>

text \<open>
  The properties of \<open>client/ple_remote.py\<close> as a whole, each over the model of the code alone: the
  laws of the locales appear as hypotheses, discharged once for the loopback deployment, where
  every property is also run on a concrete table.
\<close>

subsection \<open>Closing, request ids\<close>

lemma peer_close_sock: "sock (fst (snd (peer_close E ab s))) = None"
  by (auto simp: peer_close_def ret_run io_def split: option.splits prod.splits)

lemma each_close:
  assumes "\<And>k ab w. \<exists>w'. n_close E k ab w = (Inr (), w')" and "m \<le> length (peers (fst s))"
  shows "\<exists>s'. each [m..<length (peers (fst s))] (\<lambda>i. on_peer i (peer_close E ab)) s = (Inr (), s') \<and>
    length (peers (fst s')) = length (peers (fst s)) \<and>
    (\<forall>i<length (peers (fst s)). i < m \<and> sock (peers (fst s) ! i) = None \<or> m \<le> i \<longrightarrow> sock (peers (fst s') ! i) = None)"
  using assms(2)
proof (induction "length (peers (fst s)) - m" arbitrary: m s)
  case 0
  then show ?case by (simp add: ret_run)
next
  case (Suc x)
  then have m: "m < length (peers (fst s))"
    by simp
  obtain p w where 1: "peer_close E ab (peers (fst s) ! m, snd s) = (Inr (), (p, w))" and p: "sock p = None"
  proof (cases "sock (peers (fst s) ! m)")
    case None
    then show thesis
      using that by (simp add: peer_close_def ret_run)
  next
    case (Some k)
    obtain w' where "n_close E k ab (snd s) = (Inr (), w')"
      using assms(1) by blast
    then show thesis
      using that Some by (simp add: peer_close_def io_def)
  qed
  let ?s = "((fst s)\<lparr>peers := (peers (fst s))[m := p]\<rparr>, w)"
  have "x = length (peers (fst ?s)) - Suc m" "Suc m \<le> length (peers (fst ?s))"
    using Suc m by auto
  from Suc.hyps(1) [OF this] obtain s' where s': 
    "each [Suc m..<length (peers (fst s))] (\<lambda>i. on_peer i (peer_close E ab)) ?s = (Inr (), s')"
    "length (peers (fst s')) = length (peers (fst s))"
    "\<forall>i<length (peers (fst s)). i < Suc m \<and> sock ((peers (fst s))[m := p] ! i) = None \<or> Suc m \<le> i
      \<longrightarrow> sock (peers (fst s') ! i) = None"
    by (auto simp del: disj_imp)
  have "each [m..<length (peers (fst s))] (\<lambda>i. on_peer i (peer_close E ab)) s = (Inr (), s')"
    using s'(1) 1 m by (simp add: upt_conv_Cons seq_def bnd_def on_peer_def)
  moreover have "sock (peers (fst s') ! i) = None"
    if "i < length (peers (fst s))" "i < m \<and> sock (peers (fst s) ! i) = None \<or> m \<le> i" for i
    using s'(3) that p m by (cases "i = m") auto
  ultimately show ?case
    using s'(2) by blast
qed

lemma close_all_run:
  assumes "\<And>k ab w. \<exists>w'. n_close E k ab w = (Inr (), w')"
  shows "\<exists>s'. close_all E s = (Inr (), s') \<and> (\<forall>p\<in>set (peers (fst s')). sock p = None)"
proof -
  obtain s' where "each [0..<length (peers (fst s))] (\<lambda>i. on_peer i (peer_close E False)) s = (Inr (), s')"
    "length (peers (fst s')) = length (peers (fst s))"
    "\<forall>i<length (peers (fst s)). sock (peers (fst s') ! i) = None"
    using each_close [OF assms, of 0 s False] by auto
  then show ?thesis
    by (auto simp: close_all_def peer_indices_def in_set_conv_nth)
qed

lemma next_req_ids:
  "collect xs (\<lambda>_. next_req_id) s = (Inr ids, s') \<Longrightarrow>
    length ids = length xs \<and> (\<forall>i<length xs. ids ! i = (req_id (fst s) + Suc i) mod 2 ^ 32)"
proof (induction xs arbitrary: s ids s')
  case Nil
  then show ?case by (simp add: ret_run)
next
  case (Cons x xs)
  let ?r = "(req_id (fst s) + 1) mod 2 ^ 32"
  have "next_req_id s = (Inr ?r, ((fst s)\<lparr>req_id := ?r\<rparr>, snd s))"
    by (simp add: next_req_id_def ret_run)
  then obtain rest where rest: "ids = ?r # rest"
    "collect xs (\<lambda>_. next_req_id) ((fst s)\<lparr>req_id := ?r\<rparr>, snd s) = (Inr rest, s')"
    using Cons.prems by (auto simp: bnd_def ret_run split: prod.splits sum.splits)
  show ?case
    using Cons.IH [OF rest(2)] rest(1) mod_add_left_eq [of "req_id (fst s) + 1" "2 ^ 32"]
    by (auto simp: nth_Cons split: nat.splits) (metis add_Suc_right)
qed

subsection \<open>Concrete tables and worlds\<close>

text \<open>
  \<open>demo\<close>: a table of eight rows over two peers that were never connected, \<open>max_rows\<close> 3, no time to
  gather.  \<open>on_wire out\<close>: a connected peer with request 7 pending and \<open>out\<close> about to arrive.
\<close>

definition a_reset :: "fault list" where
  "a_reset = [Fine, Fine, Fine, Fine, Fine, Fine, Fine, Fine, Fine, Fine, Broken]"

definition demo_peer :: "string \<Rightarrow> nat \<Rightarrow> peer" where
  "demo_peer h b = (new_peer h 9000)\<lparr>base_row := b, row_count := 4, row_bytes := 1\<rparr>"

definition demo_table :: table where
  "demo_table = \<lparr>t_row_bytes = 1, rows_total = 8, max_rows = 3, t_timeout = 30,
     connect_timeout = 5, connect_deadline = 60, gather_deadline = 0,
     peers = [demo_peer ''a'' 0, demo_peer ''b'' 4], req_id = 0, failed = None, staging = None,
     sel = [[], []], workspace = 0, num_shards = 2, shard_rows = 4\<rparr>"

definition demo :: "table \<times> loop" where
  "demo = (demo_table, quiet_world [])"

definition nowhere :: "loop net" where
  "nowhere = loop_net (\<lambda>a. None)"

definition answer :: "nat \<Rightarrow> nat \<Rightarrow> nat \<Rightarrow> byte list \<Rightarrow> byte list" where
  "answer rid st n bs = projr (pack_response rid st n) @ bs"

definition on_wire :: "byte list \<Rightarrow> peer \<times> loop" where
  "on_wire out =
     ((demo_peer ''a'' 0)\<lparr>sock := Some 0, timeout := 30, armed := 30, pending := Some 7,
        cap := 4, req_ids := replicate 4 0, rows := replicate 4 0\<rparr>,
      (quiet_world [])\<lparr>lo_next := 1, lo_out := (\<lambda>k. out)\<rparr>)"

lemmas demo_run = demo_def demo_table_def demo_peer_def nowhere_def new_peer_def

lemma demo_tiling: "tiling (peers (fst demo)) 0 8"
  by (auto simp: demo_run tiling_def owns_def)

lemma nowhere_honest:
  "honest_net si_answers si_base (\<lambda>s. m_rows (si_table s)) (\<lambda>s. m_cols (si_table s)) si_row
     nowhere loop_view (listed (\<lambda>a. None))"
  unfolding nowhere_def by (rule loop_honest)

lemma on_wire_link: "on_link loop_view 0 (on_wire out)"
  by (simp add: on_wire_def on_link_def loop_view_def)

subsection \<open>Runs\<close>

lemma retried_run:
  "case opened 8 1 a_reset of (Inl e, u) \<Rightarrow> False | (Inr t, u) \<Rightarrow> rows_total t = 8 \<and>
     fst (gather_cpu (loop_net (two_halves 8 1)) [1, 6, 1] (t, u)) = Inr [[31], [186], [31]]"
  by (simp add: a_reset_def all_run front_run cong: run_congs)

lemma demo_gather: "fst (gather_cpu nowhere [1, 6, 1] demo) = Inl (Exn TimeoutError StillUnreachable)"
  by (simp add: demo_run all_run front_run cong: run_congs)

lemma filled_run:
  "case opened 8 1 [] of (Inl e, u) \<Rightarrow> False | (Inr t, u) \<Rightarrow> rows_total t = 8 \<and> 
     fst (gather (loop_net (two_halves 8 1)) [1, 6, 1] (Some [[0], [0], [0], [9]]) (t, u))
       = Inr ([[31], [186], [31]], [[31], [186], [31], [9]])"
  by (simp add: gather_def copy_rows_def all_run front_run cong: run_congs)

lemma usable_run:
  "case opened 8 1 [] of (Inl e, u) \<Rightarrow> False | (Inr t, u) \<Rightarrow> rows_total t = 8 \<and> failed t = None \<and>
    map base_row (peers t) = [0, 4] \<and> map sock (peers t) = [Some 0, Some 1]"
  by (simp add: all_run front_run cong: run_congs)

lemma at_ease_run:
  "case opened 320001536 160 [] of (Inl e, u) \<Rightarrow> False | (Inr t, u) \<Rightarrow> rows_total t = 320001536 \<and>
    failed t = None \<and> gather_deadline t = 120 \<and> max_rows t = 131072 \<and> at_ease t \<and> lo_calm 0 1 u"
  by (simp add: at_ease_def lo_calm_def all_run front_run cong: run_congs)

lemma read_chunks_more:
  "done < n \<Longrightarrow> read_chunks E start n step buf done s =
    bnd (gather_cpu E (id_range (start + int done) (min (max step 1) (n - done)))) (\<lambda>rs.
      read_chunks E start n step (buf @ rs) (done + min (max step 1) (n - done))) s"
  by (subst read_chunks.simps) (simp add: bnd_def Let_def)

lemma read_chunks_end: "\<not> done < n \<Longrightarrow> read_chunks E start n step buf done s = (Inr buf, s)"
  by (subst read_chunks.simps) simp

lemma sliced_run:
  "case opened 8 1 [] of (Inl e, u) \<Rightarrow> False | (Inr t, u) \<Rightarrow> rows_total t = 8 \<and> max_rows t = 131072 \<and>
     fst (gather_cpu (loop_net (two_halves 8 1)) [2, 3, 4] (t, u)) = Inr [[62], [93], [124]]"
  by (simp add: all_run front_run cong: run_congs)

lemma sliced:
  assumes "gather_cpu E [2, 3, 4] s = (Inr rs, s')" and "max_rows (fst s) = 131072"
  shows "read_rows_contiguous E 2 3 9 s = (Inr rs, s')"
proof -
  have "id_range 2 3 = [2, 3, 4]"
    by (simp add: id_range_def upt_rec)
  then show ?thesis
    using assms by (simp add: read_rows_contiguous_def read_chunks_more read_chunks_end bnd_def)
qed

lemma statted_run:
  "case opened 8 1 [] of (Inl e, u) \<Rightarrow> False | (Inr t, u) \<Rightarrow> rows_total t = 8 \<and> failed t = None \<and>
     map_sum id (map (\<lambda>st. (st_base_row st, st_row_count st)))
       (fst (Table.stat (loop_net (two_halves 8 1)) (t, u))) = Inr [(0, 4), (4, 4)]"
  by (simp add: Table.stat_def all_run front_run cong: run_congs)

lemma header_run: "fst (read_header nowhere (on_wire (answer 7 0 2 []))) = Inr 2"
  by (simp add: on_wire_def answer_def demo_run all_run cong: run_congs)

lemma refused_run:
  "fst (recv_exact nowhere HEADER [] (on_wire (answer 7 3 0 [5]))) = Inr (answer 7 3 0 [])"
  by (simp add: on_wire_def answer_def demo_run all_run cong: run_congs)

lemma rows_run:
  "fst (read_rows nowhere 2 (on_wire (answer 7 0 2 [10, 11]))) = Inr [[10], [11]]"
  by (simp add: on_wire_def answer_def demo_run all_run cong: run_congs,
      simp add: row_at_def upt_rec)

subsection \<open>The properties\<close>

text \<open>
  C1.  Over a network that keeps the laws of \<open>trusted_net\<close>, after any session and whatever
  faults befell the connections, a \<open>gather_cpu\<close> that returns hands back exactly the true rows of
  the ids asked for, in the order asked, duplicates included; and every id was in the table.
\<close>

theorem gather_cpu_returns_the_rows_asked_for:
  assumes "trusted_net reply lo n width row E V deployed truth" and "v_wf V w0"
    and "init_table E to_float environ c w0 = (Inr t, w1)" and "rows_total t \<le> 2 ^ 32"
    and "session E (t, w1) s" and "gather_cpu E ids s = (Inr out, s')"
  shows "out = map (\<lambda>x. truth (nat x)) ids \<and> (\<forall>x\<in>set ids. 0 \<le> x \<and> x < rows_total t)"
proof -
  note inv = trusted_net.session_from_init [OF assms(1,3,2,4,5)]
  show ?thesis
    using trusted_net.gather_cpu_step [OF assms(1) inv(1,2) assms(6)] inv(3) by (auto simp: nat_less_iff)
qed

theorem gather_cpu_returns_the_rows_asked_for_witness:
  "\<exists>t u s. opened 8 1 a_reset = (Inr t, u) \<and>
     gather_cpu (loop_net (two_halves 8 1)) [1, 6, 1] (t, u) = (Inr [[31], [186], [31]], s) \<and>
     [[31], [186], [31]] = map (\<lambda>x. matrix_row (synthetic_table 8 1) (nat x)) [1, 6, 1]"
proof -
  obtain t u where o: "opened 8 1 a_reset = (Inr t, u)" and t: "rows_total t = 8"
    and g: "fst (gather_cpu (loop_net (two_halves 8 1)) [1, 6, 1] (t, u)) = Inr [[31], [186], [31]]"
    using opened_run [OF retried_run] by metis
  obtain s where s: "gather_cpu (loop_net (two_halves 8 1)) [1, 6, 1] (t, u) = (Inr [[31], [186], [31]], s)"
    using g by (metis prod.collapse)
  show ?thesis
    using gather_cpu_returns_the_rows_asked_for
        [OF two_trusted _ opened_init [OF o] _ session.opened s] o s t
    by (simp add: loop_view_def)
qed

text \<open>
  C3.  Over a network that is calm for as long as a gather may take (no operation fails, the clock
  stays short of the deadline), a gather of ids of the table, no more of them than \<open>max_rows\<close>,
  returns the rows.  Earlier faults make no difference as long as the table is usable.
\<close>

theorem gather_returns_over_a_calm_network:
  assumes "live_net reply lo n width row E V deployed truth calm limit" and "v_wf V w0"
    and "init_table E to_float environ c w0 = (Inr t, w1)" and "rows_total t \<le> 2 ^ 32"
    and "session E (t, w1) s" and "failed (fst s) = None" and "at_ease (fst s)"
    and "calm a b (snd s)" and "b \<le> a + gather_deadline (fst s)"
    and "\<forall>x\<in>set ids. 0 \<le> x \<and> x < rows_total t" and "int (length ids) \<le> max_rows (fst s)"
    and "max_rows (fst s) \<le> int limit" and "max_rows (fst s) < 2 ^ 32"
  shows "\<exists>s'. gather_cpu E ids s = (Inr (map (\<lambda>x. truth (nat x)) ids), s')"
proof -
  note inv = trusted_net.session_from_init [OF live_net.axioms(1) [OF assms(1)] assms(3,2,4,5)]
  have "\<forall>x\<in>set ids. 0 \<le> x \<and> x < int (nat (rows_total t))"
    using assms(10) inv(3) by simp
  from live_net.gather_cpu_lives [OF assms(1)
      live_net.working_at_ease [OF assms(1) inv(1) assms(6-9)] inv(2) this assms(11-13)]
  show ?thesis
    by blast
qed

theorem gather_returns_over_a_calm_network_witness:
  "\<exists>t u s. opened 320001536 160 [] = (Inr t, u) \<and>
     gather_cpu (loop_net (two_halves 320001536 160)) [320001535, 7, 320001535] (t, u) =
       (Inr (map (\<lambda>x. matrix_row (synthetic_table 320001536 160) (nat x)) [320001535, 7, 320001535]), s)"
proof -
  obtain t u where o: "opened 320001536 160 [] = (Inr t, u)" and t: "rows_total t = 320001536"
    "failed t = None" "gather_deadline t = 120" "max_rows t = 131072" "at_ease t" "lo_calm 0 1 u"
    using opened_run [OF at_ease_run] by metis
  show ?thesis
    using gather_returns_over_a_calm_network
        [OF two_live _ opened_init [OF o] _ session.opened, of 0 1 "[320001535, 7, 320001535]"] o t
    by (simp add: loop_view_def)
qed

text \<open>
  C5.  The invariant of a session.  As long as a table counts as usable, its peers tile
  the rows, no two share a socket, and every connection is open, has nothing unread on it, and
  leads to a server of exactly the range on record: the next answer read is the answer to the next
  request.
\<close>

theorem usable_table_is_in_step:
  assumes "trusted_net reply lo n width row E V deployed truth" and "v_wf V w0"
    and "init_table E to_float environ c w0 = (Inr t, w1)" and "rows_total t \<le> 2 ^ 32"
    and "session E (t, w1) s" and "failed (fst s) = None"
  shows "tiling (peers (fst s)) 0 (nat (rows_total t)) \<and> distinct (map sock (peers (fst s))) \<and>
    list_all (\<lambda>p. case sock p of None \<Rightarrow> False | Some k \<Rightarrow> v_out V (snd s) k = [] \<and>
      lo (v_srv V (snd s) k) = base_row p \<and> n (v_srv V (snd s) k) = row_count p \<and>
      width (v_srv V (snd s) k) = row_bytes p) (peers (fst s))"
proof -
  have i: "trusted_net.inv lo n width V deployed (nat (rows_total t)) s"
    using trusted_net.session_from_init [OF assms(1,3,2,4,5)] by simp
  then have l: "linked V deployed s" and y: "trusted_net.synced lo n width V deployed (nat (rows_total t)) s"
    using assms(6) by (auto simp: trusted_net.inv_def [OF assms(1)])
  have tile: "tiling (peers (fst s)) 0 (nat (rows_total t))"
    and p: "\<And>i. i < length (peers (fst s)) \<Longrightarrow> case sock (peers (fst s) ! i) of None \<Rightarrow> False | Some k \<Rightarrow>
      v_out V (snd s) k = [] \<and> lo (v_srv V (snd s) k) = base_row (peers (fst s) ! i) \<and>
      n (v_srv V (snd s) k) = row_count (peers (fst s) ! i) \<and>
      width (v_srv V (snd s) k) = row_bytes (peers (fst s) ! i)"
    using y by (auto simp: trusted_net.synced_def [OF assms(1)] trusted_net.idle_def [OF assms(1)]
        trusted_net.serves_def [OF assms(1)] link_def split: option.splits)
  have "distinct (map sock (peers (fst s)))"
    unfolding distinct_conv_nth
  proof (intro allI impI)
    fix i j assume ij: "i < length (map sock (peers (fst s)))" "j < length (map sock (peers (fst s)))" "i \<noteq> j"
    then obtain k where "sock (peers (fst s) ! i) = Some k"
      using p [of i] by (auto split: option.splits)
    then show "map sock (peers (fst s)) ! i \<noteq> map sock (peers (fst s)) ! j"
      using l ij unfolding linked_def by (metis length_map nth_map)
  qed
  then show ?thesis
    using tile p by (auto simp: list_all_length)
qed

theorem usable_table_is_in_step_witness:
  "\<exists>t u. opened 8 1 [] = (Inr t, u) \<and> tiling (peers t) 0 8 \<and> distinct (map sock (peers t))"
proof -
  obtain t u where o: "opened 8 1 [] = (Inr t, u)" and t: "rows_total t = 8" "failed t = None"
    using opened_run [OF usable_run] by metis
  show ?thesis
    using usable_table_is_in_step [OF two_trusted _ opened_init [OF o] _ session.opened] o t
    by (simp add: loop_view_def)
qed

text \<open>
  C10.  A constructor that returns has a usable table whose peers tile rows 0 to
  \<open>rows_total\<close> without gap or overlap, none of them empty, all with rows of the width asked for;
  \<open>num_shards\<close> and \<open>shard_rows\<close> describe that split.
\<close>

theorem constructor_checks_the_split:
  assumes "trusted_net reply lo n width row E V deployed truth" and "v_wf V w0"
    and "init_table E to_float environ c w0 = (Inr t, w1)"
  shows "tiling (peers t) 0 (nat (rows_total t)) \<and> 0 \<le> rows_total t \<and> failed t = None \<and>
    num_shards t = length (peers t) \<and> shard_rows t = row_count (hd (peers t)) \<and>
    list_all (\<lambda>p. 0 < row_count p \<and> int (row_bytes p) = c_row_bytes c) (peers t)"
proof -
  obtain N where N: "rows_total t = int N" "failed t = None" "tiling (peers t) 0 N"
    "\<forall>p\<in>set (peers t). 0 < row_count p \<and> int (row_bytes p) = c_row_bytes c"
    using trusted_net.init_step [OF assms(1,3,2)] by blast
  obtain t0 s where 1: "new_table to_float environ c w0 = (Inr t0, w0)"
    and 2: "connect_all E (t0, w0) = (Inr (), s)"
    and t: "t = (fst s)\<lparr>num_shards := length (peers (fst s)), shard_rows := row_count (peers (fst s) ! 0)\<rparr>"
    using assms(3) new_table_Inr(1) [of to_float environ c w0]
    by (auto simp: init_table_def elim!: bnd_InrE split: prod.splits sum.splits)
  have "same_table t0 (fst s)"
    using trusted_net.connect_all_step [OF assms(1) 2 assms(2)] new_table_Inr [OF 1] by blast
  then have "peers t \<noteq> []"
    using new_table_Inr(2) [OF 1] t same_table_sel(10) [of t0 "fst s"] by auto
  then show ?thesis
    using N t by (simp add: list_all_iff hd_conv_nth)
qed

theorem constructor_checks_the_split_witness:
  "\<exists>t u. opened 8 1 [] = (Inr t, u) \<and> tiling (peers t) 0 8 \<and> num_shards t = length (peers t)"
proof -
  obtain t u where o: "opened 8 1 [] = (Inr t, u)" and t: "rows_total t = 8"
    using opened_run [OF usable_run] by metis
  show ?thesis
    using constructor_checks_the_split [OF two_trusted _ opened_init [OF o]] o t
    by (simp add: loop_view_def)
qed

text \<open>
  C11.  An id outside the table raises \<open>IndexError\<close> with the number of such ids, the
  first of them and its position; the world, the peers and their connections are as before, and the
  table stays usable.
\<close>

theorem bad_id_is_refused_before_any_traffic:
  assumes "failed (fst s) = None" and "length (sel (fst s)) = length (peers (fst s))"
    and "tiling (peers (fst s)) 0 N" and "\<forall>p\<in>set (peers (fst s)). fits (fst s) ids p"
    and "\<exists>x\<in>set ids. \<not> (0 \<le> x \<and> x < int N)"
  shows "\<exists>first t. first < length ids \<and> (\<forall>j<first. 0 \<le> ids ! j \<and> ids ! j < int N) \<and>
    \<not> (0 \<le> ids ! first \<and> ids ! first < int N) \<and>
    gather_cpu E ids s = (Inl (Exn IndexError (Unroutable
      (length (filter (\<lambda>x. \<not> (0 \<le> x \<and> x < int N)) ids)) (ids ! first) first)), (t, snd s)) \<and>
    peers t = peers (fst s) \<and> failed t = None"
proof -
  obtain st where st: "staging_for E (length ids) s = (Inr (), ((fst s)\<lparr>staging := Some st\<rparr>, snd s))"
    using staging_for_run by blast
  let ?s1 = "((fst s)\<lparr>staging := Some st\<rparr>, snd s)"
  obtain m where m: "workspace_for (length ids) ?s1 = (Inr (), ((fst ?s1)\<lparr>workspace := m\<rparr>, snd ?s1))"
    using workspace_for_run by blast
  let ?s2 = "((fst ?s1)\<lparr>workspace := m\<rparr>, snd s)"
  have "\<forall>p\<in>set (peers (fst ?s2)). fits (fst ?s2) ids p"
    using assms(4) by (simp add: fits_def)
  then have p: "partition_ids ids ?s2 = (Inr (length (filter (\<lambda>x. 0 \<le> x \<and> x < int N) ids)),
      ((fst ?s2)\<lparr>sel := map (positions ids) (peers (fst s))\<rparr>, snd s))"
    using partition_ids_ok [of ?s2 ids] assms(2) routed_sum [OF assms(3), of ids] by simp
  let ?s3 = "((fst ?s2)\<lparr>sel := map (positions ids) (peers (fst s))\<rparr>, snd s)"
  obtain first where f: "first < length ids" "\<forall>j<first. 0 \<le> ids ! j \<and> ids ! j < int N"
    "\<not> (0 \<le> ids ! first \<and> ids ! first < int N)"
    "raise_unroutable ids ?s3 = ((Inl (Exn IndexError (Unroutable
      (length (filter (\<lambda>x. \<not> (0 \<le> x \<and> x < int N)) ids)) (ids ! first) first)), ?s3) :: (exn + unit) \<times> _)"
    using raise_unroutable_run [of ?s3 N ids] assms(3,5) by auto
  have "length (filter (\<lambda>x. 0 \<le> x \<and> x < int N) ids) < length ids"
    using assms(5) length_filter_less [of _ ids "\<lambda>x. 0 \<le> x \<and> x < int N"] by blast
  moreover have "ids \<noteq> []"
    using f(1) by auto
  ultimately have "gather_cpu E ids s = (Inl (Exn IndexError (Unroutable
      (length (filter (\<lambda>x. \<not> (0 \<le> x \<and> x < int N)) ids)) (ids ! first) first)), ?s3)"
    using st m p f(4) assms(1) by (simp add: gather_cpu_def seq_def bnd_def check_usable_run)
  then show ?thesis
    using f assms(1) by (intro exI [of _ first] exI [of _ "fst ?s3"]) simp
qed

theorem bad_id_is_refused_before_any_traffic_witness:
  "\<exists>t. gather_cpu nowhere [0, 8, -1] demo = (Inl (Exn IndexError (Unroutable 2 8 1)), (t, snd demo)) \<and>
    peers t = peers (fst demo) \<and> failed t = None"
proof -
  let ?ids = "[0, 8, -1] :: int list"
  have "failed (fst demo) = None" "length (sel (fst demo)) = length (peers (fst demo))"
    "\<forall>p\<in>set (peers (fst demo)). fits (fst demo) ?ids p" "\<exists>x\<in>set ?ids. \<not> (0 \<le> x \<and> x < int 8)"
    by (simp_all add: demo_run fits_def positions_def owns_id_def)
  from bad_id_is_refused_before_any_traffic [OF this(1,2) demo_tiling this(3,4), of nowhere]
  obtain first t where f: "first < length ?ids" "\<forall>j<first. 0 \<le> ?ids ! j \<and> ?ids ! j < int 8"
    "\<not> (0 \<le> ?ids ! first \<and> ?ids ! first < int 8)"
    and g: "gather_cpu nowhere ?ids demo = (Inl (Exn IndexError (Unroutable
      (length (filter (\<lambda>x. \<not> (0 \<le> x \<and> x < int 8)) ?ids)) (?ids ! first) first)), (t, snd demo))"
    "peers t = peers (fst demo)" "failed t = None"
    by blast
  have "first \<noteq> 0" "first \<noteq> 2"
    using f(3) f(2) [rule_format, of 1] by (intro notI; simp)+
  then have "first = 1"
    using f(1) by simp
  then show ?thesis
    using g by simp
qed

text \<open>
  More ids for one peer than \<open>max_rows\<close> raises \<open>ValueError\<close> with their number; no
  socket is touched and the table stays usable.
\<close>

lemma over_max_rows_is_refused_before_any_traffic:
  assumes "failed (fst s) = None" and "length (sel (fst s)) = length (peers (fst s))"
    and "p \<in> set (peers (fst s))" and "max_rows (fst s) < int (length (positions ids p))"
    and "ids \<noteq> []"
  shows "\<exists>k m t. max_rows (fst s) < int k \<and> k \<le> length ids \<and>
    gather_cpu E ids s = (Inl (Exn ValueError (TooManyRows k m)), (t, snd s)) \<and>
    peers t = peers (fst s) \<and> failed t = None"
proof -
  obtain st where st: "staging_for E (length ids) s = (Inr (), ((fst s)\<lparr>staging := Some st\<rparr>, snd s))"
    using staging_for_run by blast
  let ?s1 = "((fst s)\<lparr>staging := Some st\<rparr>, snd s)"
  obtain m where m: "workspace_for (length ids) ?s1 = (Inr (), ((fst ?s1)\<lparr>workspace := m\<rparr>, snd ?s1))"
    using workspace_for_run by blast
  let ?s2 = "((fst ?s1)\<lparr>workspace := m\<rparr>, snd s)"
  have "length (sel (fst ?s2)) = length (peers (fst ?s2))" "p \<in> set (peers (fst ?s2))" "\<not> fits (fst ?s2) ids p"
    using assms(2,3,4) by (simp_all add: fits_def)
  from partition_ids_over [OF this] obtain q ss where q: "\<not> fits (fst s) ids q"
    "partition_ids ids ?s2 = (Inl (Exn ValueError (TooManyRows (length (positions ids q)) (nat (max_rows (fst s))))),
       ((fst ?s2)\<lparr>sel := ss\<rparr>, snd s))"
    by (auto simp: fits_def)
  have len: "length (positions ids q) \<le> length ids"
    using length_filter_le [of "\<lambda>j. owns_id q (ids ! j)" "[0..<length ids]"] by (simp add: positions_def)
  have "gather_cpu E ids s = (Inl (Exn ValueError (TooManyRows (length (positions ids q)) (nat (max_rows (fst s))))),
      ((fst ?s2)\<lparr>sel := ss\<rparr>, snd s))"
    using st m q(2) assms(1,5) by (simp add: gather_cpu_def seq_def bnd_def check_usable_run)
  then show ?thesis
    using q(1) len assms(1) unfolding fits_def
    by (intro exI [of _ "length (positions ids q)"] exI [of _ "nat (max_rows (fst s))"]
        exI [of _ "(fst ?s2)\<lparr>sel := ss\<rparr>"]) simp
qed

text \<open>
  C13.  A gather whose ids are all in range and that raises any exception leaves the
  table condemned with that exception, whatever the network did.
\<close>

theorem failed_gather_condemns_the_table:
  assumes "length (sel (fst s)) = length (peers (fst s))" and "tiling (peers (fst s)) 0 N"
    and "\<forall>p\<in>set (peers (fst s)). fits (fst s) ids p" and "\<forall>x\<in>set ids. 0 \<le> x \<and> x < int N"
    and "failed (fst s) = None" and "gather_cpu E ids s = (Inl e, s')" and "is_exception e"
  shows "failed (fst s') = Some (FailedWith e)"
proof (cases rule: gather_cpu_cases [OF assms(6,1), of N])
  case 1
  then show ?case
    using assms(2) by simp
next
  case (4 t st)
  then show ?thesis
    using assms(7) by (auto simp: condemn_def handle_def seq_def bnd_def raise_run
        split: prod.splits sum.splits if_splits)
qed (use assms(3,4,5) in auto)

theorem failed_gather_condemns_the_table_witness:
  "\<exists>s. gather_cpu nowhere [1, 6, 1] demo = (Inl (Exn TimeoutError StillUnreachable), s) \<and>
     failed (fst s) = Some (FailedWith (Exn TimeoutError StillUnreachable))"
proof -
  have "length (sel (fst demo)) = length (peers (fst demo))" "failed (fst demo) = None"
    "\<forall>p\<in>set (peers (fst demo)). fits (fst demo) [1, 6, 1] p" "\<forall>x\<in>set [1, 6, 1]. 0 \<le> x \<and> x < int 8"
    by (simp_all add: demo_run fits_def positions_def owns_id_def)
  moreover obtain s where "gather_cpu nowhere [1, 6, 1] demo = (Inl (Exn TimeoutError StillUnreachable), s)"
    using demo_gather by (metis prod.collapse)
  ultimately show ?thesis
    using failed_gather_condemns_the_table [OF _ demo_tiling] by (metis is_exception_Exn exn_class.distinct insert_iff empty_iff)
qed

text \<open>
  A condemned or closed table refuses every gather of at least one id, every
  \<open>ping\<close> and every \<open>stat\<close>, without touching the world or a peer.
\<close>

lemma failed_table_refuses:
  assumes "failed (fst s) \<noteq> None" and "ids \<noteq> []"
  shows "\<exists>t. gather_cpu E ids s = (Inl (Exn RuntimeError NotUsable), (t, snd s)) \<and>
    peers t = peers (fst s) \<and> ping E s = (Inl (Exn RuntimeError NotUsable), s) \<and>
    Table.stat E s = (Inl (Exn RuntimeError NotUsable), s)"
proof -
  obtain st where st: "staging_for E (length ids) s = (Inr (), ((fst s)\<lparr>staging := Some st\<rparr>, snd s))"
    using staging_for_run by blast
  then show ?thesis
    using assms by (auto simp: gather_cpu_def Table.stat_def ping_def seq_def bnd_def check_usable_run)
qed

text \<open>
  \<open>close\<close> leaves every peer without a socket and the table unusable, provided
  closing a socket does not itself raise.
\<close>

lemma close_closes_every_connection:
  assumes "\<And>k ab w. \<exists>w'. n_close E k ab w = (Inr (), w')"
  shows "\<exists>s'. Table.close E s = (Inr (), s') \<and> failed (fst s') \<noteq> None \<and>
    list_all (\<lambda>p. sock p = None) (peers (fst s'))"
proof -
  obtain s1 where "close_all E s = (Inr (), s1)" "\<forall>p\<in>set (peers (fst s1)). sock p = None"
    using close_all_run [OF assms] by blast
  then show ?thesis
    by (auto simp: Table.close_def seq_def bnd_def list_all_iff split: option.splits)
qed

text \<open>
  \<open>gather\<close> with \<open>out=\<close> returns the true rows and writes them to the front of the
  caller's buffer, leaving the rest of it alone.
\<close>

lemma gather_fills_out:
  assumes "trusted_net reply lo n width row E V deployed truth" and "v_wf V w0"
    and "init_table E to_float environ c w0 = (Inr t, w1)" and "rows_total t \<le> 2 ^ 32"
    and "session E (t, w1) s" and "gather E ids (Some dst) s = (Inr (out, buf), s')"
    and "length ids \<le> length dst"
  shows "out = map (\<lambda>x. truth (nat x)) ids \<and> buf = out @ drop (length ids) dst"
proof -
  note inv = trusted_net.session_from_init [OF assms(1,3,2,4,5)]
  obtain rs s1 where 1: "gather_cpu E ids s = (Inr rs, s1)"
    and 2: "copy_rows dst rs = Inr buf" "out = take (length rs) buf"
    using assms(6) by (auto simp: gather_def of_sum_run ret_run elim!: bnd_InrE)
  have "rs = map (\<lambda>x. truth (nat x)) ids"
    using trusted_net.gather_cpu_step [OF assms(1) inv(1,2) 1] by simp
  then show ?thesis
    using 2 assms(7) by (auto simp: copy_rows_def split: if_splits)
qed

text \<open>
  C23.  \<open>read_rows_contiguous\<close> returns rows \<open>start\<close> to \<open>start + count\<close> of the true table,
  whatever the chunk size.
\<close>

theorem read_rows_contiguous_returns_the_slice:
  assumes "trusted_net reply lo n width row E V deployed truth" and "v_wf V w0"
    and "init_table E to_float environ c w0 = (Inr t, w1)" and "rows_total t \<le> 2 ^ 32"
    and "session E (t, w1) s" and "read_rows_contiguous E start nrows chunk s = (Inr out, s')"
  shows "out = map (\<lambda>j. truth (nat (start + int j))) [0..<nat nrows]"
proof -
  note inv = trusted_net.session_from_init [OF assms(1,3,2,4,5)]
  show ?thesis
    using trusted_net.read_rows_contiguous_step [OF assms(1) inv(1,2) assms(6)]
    by (simp add: id_range_def)
qed

theorem read_rows_contiguous_returns_the_slice_witness:
  "\<exists>t u s. opened 8 1 [] = (Inr t, u) \<and>
     read_rows_contiguous (loop_net (two_halves 8 1)) 2 3 9 (t, u) = (Inr [[62], [93], [124]], s) \<and>
     [[62], [93], [124]] = map (\<lambda>j. matrix_row (synthetic_table 8 1) (nat (2 + int j))) [0..<nat 3]"
proof -
  obtain t u where o: "opened 8 1 [] = (Inr t, u)" and t: "rows_total t = 8" "max_rows t = 131072"
    and g: "fst (gather_cpu (loop_net (two_halves 8 1)) [2, 3, 4] (t, u)) = Inr [[62], [93], [124]]"
    using opened_run [OF sliced_run] by metis
  obtain s where "gather_cpu (loop_net (two_halves 8 1)) [2, 3, 4] (t, u) = (Inr [[62], [93], [124]], s)"
    using g by (metis prod.collapse)
  from sliced [OF this] have s:
    "read_rows_contiguous (loop_net (two_halves 8 1)) 2 3 9 (t, u) = (Inr [[62], [93], [124]], s)"
    using t(2) by simp
  show ?thesis
    using read_rows_contiguous_returns_the_slice [OF two_trusted _ opened_init [OF o] _ session.opened s] o s t
    by (simp add: loop_view_def)
qed

text \<open>
  A \<open>stat\<close> that returns reports, peer by peer in table order, the very ranges the
  table routes by.
\<close>

lemma stat_reports_the_recorded_ranges:
  assumes "trusted_net reply lo n width row E V deployed truth" and "v_wf V w0"
    and "init_table E to_float environ c w0 = (Inr t, w1)" and "rows_total t \<le> 2 ^ 32"
    and "session E (t, w1) s" and "Table.stat E s = (Inr sts, s')"
  shows "map (\<lambda>st. (st_base_row st, st_row_count st, st_row_bytes st)) sts =
    map (\<lambda>p. (base_row p, row_count p, row_bytes p)) (peers (fst s))"
proof -
  note inv = trusted_net.session_from_init [OF assms(1,3,2,4,5)]
  have "list_all2 trusted_net.agrees sts (peers (fst s))"
    using trusted_net.stat_step [OF assms(1) inv(1) assms(6)] by simp
  then show ?thesis
    by (induction rule: list_all2_induct) (simp_all add: trusted_net.agrees_def [OF assms(1)])
qed

text \<open>
  C12.  \<open>_read_header\<close> returns a count only if the next 16 bytes of the connection are a
  successful response header for the pending request with that count; it consumes exactly those
  bytes and then nothing is pending.
\<close>

theorem only_the_pending_answer_is_accepted:
  assumes "honest_net reply lo n width row E V deployed" and "on_link V k s"
    and "read_header E s = (Inr m, s')"
  shows "\<exists>rid g. pending (fst s) = Some rid \<and> pack_response rid 0 m = Inr g \<and>
    v_out V (snd s) k = g @ v_out V (snd s') k \<and> pending (fst s') = None"
proof -
  obtain bs s1 where 1: "recv_exact E 16 [] s = (Inr bs, s1)"
    and 2: "bnd (of_sum (struct_unpack RESP_FMT bs)) check_header s1 = (Inr m, s')"
    using assms(3) by (auto simp: read_header_def HEADER_def elim: bnd_InrE)
  note x = honest_net.recv_exact_moved [OF assms(1) 1 assms(2)]
  have bs: "length bs = 16" "v_out V (snd s) k = bs @ v_out V (snd s1) k"
    using x(3) [of bs] by auto
  then have "check_header (struct_fields RESP_FMT bs) s1 = (Inr m, s')"
    using 2 by (simp add: struct_unpack_def of_sum_def)
  then obtain rid where rid: "struct_fields RESP_FMT bs = [MAGIC_RESP, rid, 0, m]"
    "pending (fst s1) = Some rid" "s' = ((fst s1)\<lparr>pending := None\<rparr>, snd s1)"
    using honest_net.check_header_Inr [OF assms(1)] by blast
  have "pack_response rid 0 m = Inr bs"
    using struct_pack_fields [of bs RESP_FMT] bs(1) rid(1) by (simp add: pack_response_def)
  then show ?thesis
    using bs(2) rid same_but_armed_sel(6) [OF x(2)] by auto
qed

theorem only_the_pending_answer_is_accepted_witness:
  "\<exists>m s' g. read_header nowhere (on_wire (answer 7 0 2 [])) = (Inr m, s') \<and>
    pack_response 7 0 m = Inr g \<and> answer 7 0 2 [] = g @ lo_out (snd s') 0"
proof -
  obtain m s' where r: "read_header nowhere (on_wire (answer 7 0 2 [])) = (Inr m, s')"
    using header_run by (metis prod.collapse)
  show ?thesis
    using only_the_pending_answer_is_accepted [OF nowhere_honest on_wire_link r] r
    by (auto simp: on_wire_def demo_peer_def new_peer_def loop_view_def quiet_world_def)
qed

text \<open>
  C21.  A refusal of the pending request raises with its status (\<open>ConnectionError\<close>, hence
  retried, only for status 5), and leaves the connection in sync: nothing is pending, the socket is
  kept, and exactly the header was read.
\<close>

theorem refused_request_leaves_the_connection_in_sync:
  assumes "honest_net reply lo n width row E V deployed" and "on_link V k s"
    and "pack_response rid st m = Inr g" and "st \<noteq> 0" and "pending (fst s) = Some rid"
    and "v_out V (snd s) k = g @ rest" and "recv_exact E HEADER [] s = (Inr bs, s1)"
  shows "\<exists>s'. read_header E s = (Inl (Exn (if st = 5 then ConnectionError else RuntimeError) (BadStatus st)), s') \<and>
    pending (fst s') = None \<and> sock (fst s') = Some k \<and> v_out V (snd s') k = rest"
proof -
  note x = honest_net.recv_exact_moved [OF assms(1,7,2)]
  note g = pack_response_Inr [OF assms(3)]
  have bs: "bs = g" "v_out V (snd s1) k = rest"
    using x(3) [of bs] assms(6) g(1) by (auto simp: HEADER_def)
  have f: "struct_unpack RESP_FMT bs = Inr [MAGIC_RESP, rid, st, m]"
    using g(1) g(2) [of "[]"] bs(1) by (simp add: struct_unpack_def)
  have p: "pending (fst s1) = Some rid" "sock (fst s1) = Some k"
    using same_but_armed_sel [OF x(2)] assms(2,5) by (auto simp: on_link_def)
  show ?thesis
    using bs(2) f p assms(4,7)
    by (simp add: read_header_def bnd_def of_sum_run check_header_def seq_def raise_run)
qed

theorem refused_request_leaves_the_connection_in_sync_witness:
  "\<exists>s'. read_header nowhere (on_wire (answer 7 3 0 [5])) = (Inl (Exn RuntimeError (BadStatus 3)), s') \<and>
    pending (fst s') = None \<and> lo_out (snd s') 0 = [5]"
proof -
  obtain g where g: "pack_response 7 3 0 = Inr g" "answer 7 3 0 [5] = g @ [5]"
    by (simp add: answer_def wire_run)
  obtain bs s1 where r: "recv_exact nowhere HEADER [] (on_wire (answer 7 3 0 [5])) = (Inr bs, s1)"
    using refused_run by (metis prod.collapse)
  have "pending (fst (on_wire (answer 7 3 0 [5]))) = Some 7"
    "v_out loop_view (snd (on_wire (answer 7 3 0 [5]))) 0 = g @ [5]"
    using g by (simp_all add: on_wire_def loop_view_def)
  from refused_request_leaves_the_connection_in_sync [OF nowhere_honest on_wire_link g(1) _ this r]
  show ?thesis
    by (auto simp: loop_view_def)
qed

text \<open>
  C15.  \<open>read_rows\<close> decodes an answer exactly: over any splitting of the bytes into receives,
  the rows it returns are the rows the server wrote after its header, and nothing is left unread.
\<close>

theorem read_rows_returns_the_rows_on_the_wire:
  assumes "honest_net reply lo n width row E V deployed" and "on_link V k s"
    and "pack_response rid st m = Inr g" and "v_out V (snd s) k = g @ concat rs"
    and "list_all (\<lambda>r. length r = row_bytes (fst s)) rs"
    and "length rs * row_bytes (fst s) \<le> length (rows (fst s))"
    and "read_rows E (length rs) s = (Inr out, s')"
  shows "out = rs \<and> v_out V (snd s') k = []"
proof -
  let ?w = "row_bytes (fst s)"
  obtain s1 where 1: "begin_rows E (length rs) s = (Inr (), s1)"
    and 2: "finish_rows E s1 = (Inr (), s')" and out: "out = rows_upto (fst s') (length rs)"
    using assms(7) by (auto simp: read_rows_def elim!: seq_InrE)
  have w: "\<forall>r\<in>set rs. length r = ?w"
    using assms(5) by (simp add: list_all_iff)
  have "length (concat rs) = length rs * ?w"
    using w by (induction rs) auto
  note b = honest_net.begin_rows_ok [OF assms(1) 1 assms(2,4,3) this]
  have len: "length (concat rs) = length rs * ?w"
    using w by (induction rs) auto
  have m: "moved V k s s1"
    using honest_net.begin_rows_moved [OF assms(1) 1 assms(2)] by simp
  have r1: "reading V k (concat rs) s1"
    using b(2) len assms(6) by simp
  have l1: "on_link V k s1"
    using m assms(2) by (rule on_link_moved [rotated])
  have f: "pumped V k s1 s'" "reading V k (concat rs) s'" "rd_got (fst s') = rd_want (fst s')"
    using honest_net.finish_rows_step [OF assms(1) 2 l1] r1 by auto
  have rb: "row_bytes (fst s') = ?w"
    using m f(1) by (auto simp: moved_def pumped_def same_conn_def same_link_def)
  have "rows_upto (fst s') (length rs) = map (\<lambda>r. r) rs"
    by (rule rows_upto_eq) (use reading_done(1) [OF f(2,3)] len rb w in auto)
  then show ?thesis
    using out reading_done(2) [OF f(2,3)] by simp
qed

theorem read_rows_returns_the_rows_on_the_wire_witness:
  "\<exists>s'. read_rows nowhere 2 (on_wire (answer 7 0 2 [10, 11])) = (Inr [[10], [11]], s') \<and>
    lo_out (snd s') 0 = []"
proof -
  obtain g where g: "pack_response 7 0 2 = Inr g" "answer 7 0 2 [10, 11] = g @ concat [[10], [11]]"
    by (simp add: answer_def wire_run)
  obtain out s' where r: "read_rows nowhere (length [[10], [11 :: byte]]) (on_wire (answer 7 0 2 [10, 11])) = (Inr out, s')"
    using rows_run by (metis prod.collapse length_Cons list.size(3) numeral_2_eq_2)
  have "v_out loop_view (snd (on_wire (answer 7 0 2 [10, 11]))) 0 = g @ concat [[10], [11]]"
    "list_all (\<lambda>r. length r = row_bytes (fst (on_wire (answer 7 0 2 [10, 11])))) [[10], [11 :: byte]]"
    "length [[10], [11 :: byte]] * row_bytes (fst (on_wire (answer 7 0 2 [10, 11])))
      \<le> length (rows (fst (on_wire (answer 7 0 2 [10, 11]))))"
    using g by (simp_all add: on_wire_def loop_view_def demo_peer_def)
  from read_rows_returns_the_rows_on_the_wire [OF nowhere_honest on_wire_link g(1) this r]
  show ?thesis
    using r by (auto simp: loop_view_def numeral_2_eq_2)
qed

text \<open>
  \<open>_recv_exact\<close> ends, and when it returns it has taken exactly the bytes wanted off the
  front of the connection, however they were split; otherwise it raises an exception.
\<close>

lemma recv_exact_reads_exactly:
  assumes "honest_net reply lo n width row E V deployed" and "on_link V k s"
    and "recv_exact E want [] s = (r, s')"
  shows "case r of
      Inr bs \<Rightarrow> length bs = want \<and> v_out V (snd s) k = bs @ v_out V (snd s') k
    | Inl e \<Rightarrow> is_exception e"
  using honest_net.recv_exact_moved [OF assms(1,3,2)] by (cases r) auto

text \<open>
  Any \<open>2 ^ 32\<close> successive request ids are distinct and fit the wire's 32 bits, so an
  answer to an older request cannot be taken for the answer to the pending one.
\<close>

lemma request_ids_do_not_repeat:
  assumes "collect [0..<k] (\<lambda>_. next_req_id) s = (Inr ids, s')" and "k \<le> 2 ^ 32"
  shows "distinct ids \<and> list_all (\<lambda>r. r < 2 ^ 32) ids"
proof -
  have ids: "length ids = k" "\<And>i. i < k \<Longrightarrow> ids ! i = (req_id (fst s) + Suc i) mod 2 ^ 32"
    using next_req_ids [OF assms(1)] by simp_all
  have le: "i = j" if "i \<le> j" "j < k" "(r + Suc i) mod 2 ^ 32 = (r + Suc j) mod 2 ^ 32" for i j r :: nat
  proof -
    have "2 ^ 32 dvd (r + Suc j) - (r + Suc i)"
      using that(1,3) by (metis add_le_cancel_left mod_eq_dvd_iff_nat Suc_le_mono)
    moreover have "(r + Suc j) - (r + Suc i) = j - i" "j - i < 2 ^ 32"
      using that assms(2) by simp_all
    ultimately show ?thesis
      using that(1) by (auto dest: dvd_imp_le)
  qed
  have "distinct ids"
    unfolding distinct_conv_nth using ids le by (metis linorder_le_cases)
  then show ?thesis
    using ids by (auto simp: list_all_length)
qed

text \<open>
  C20.  \<open>_check_split\<close> accepts a set of non-empty ranges exactly when every row below
  \<open>rows_total\<close> has one owner and no other row has any, whatever order the peers were listed in.
\<close>

theorem split_check_accepts_exactly_the_tilings:
  assumes "list_all (\<lambda>p. 0 < row_count p) (peers (fst s))"
  shows "fst (check_split s) = Inr () \<longleftrightarrow>
    (\<exists>total. rows_total (fst s) = int total \<and> tiling (peers (fst s)) 0 total)"
  using assms by (intro check_split_iff) (simp add: list_all_iff)

theorem split_check_accepts_exactly_the_tilings_witness:
  "fst (check_split demo) = Inr ()"
proof -
  have "list_all (\<lambda>p. 0 < row_count p) (peers (fst demo))" "rows_total (fst demo) = int 8"
    by (simp_all add: demo_run)
  then show ?thesis
    using split_check_accepts_exactly_the_tilings demo_tiling by blast
qed

text \<open>
  C24.  A list of distinct peers, printed and joined with commas, is read back by
  \<open>_parse_peers\<close> as the same peers in the same order.
\<close>

theorem printed_peers_parse_back:
  assumes "ps \<noteq> []" and "list_all (\<lambda>p. plain_host (host p)) ps"
    and "distinct (map (\<lambda>p. (host p, port p)) ps)"
  shows "parse_peers (join_commas (map peer_name ps)) = Inr (map (\<lambda>p. new_peer (host p) (port p)) ps)"
proof -
  have "split_on (CHR '','') (join_commas (map peer_name ps)) = map peer_name ps"
  proof (rule split_join)
    show "\<forall>x\<in>set (map peer_name ps). CHR '','' \<notin> set x"
      using assms(2) show_int_plain(2) by (auto simp: peer_name_def plain_host_def list_all_iff)
  qed (use assms(1) in simp)
  moreover have "parse_items (map peer_name ps) [] = Inr (map (\<lambda>p. new_peer (host p) (port p)) ps)"
    by (rule parse_items_names) (use assms in \<open>simp_all add: list_all_iff\<close>)
  ultimately show ?thesis
    using assms(1) by (cases ps) (simp_all add: parse_peers_def)
qed

theorem printed_peers_parse_back_witness:
  "parse_peers (join_commas (map peer_name [new_peer ''node1'' 9000, new_peer ''::1'' 9001])) =
    Inr [new_peer ''node1'' 9000, new_peer ''::1'' 9001]"
  using printed_peers_parse_back [of "[new_peer ''node1'' 9000, new_peer ''::1'' 9001]"]
  by (simp add: plain_host_def py_space_def new_peer_def)

text \<open>
  Packing a message and unpacking it gives the fields back, and unpacking the right number
  of bytes and packing the fields gives the bytes back.
\<close>

lemma messages_round_trip:
  assumes "struct_pack ws vs = Inr bs" and "length cs = calcsize ws"
  shows "struct_unpack ws bs = Inr (map nat vs) \<and> length bs = calcsize ws \<and>
    struct_pack ws (map int (projr (struct_unpack ws cs))) = Inr cs"
  using struct_fields_pack [OF assms(1), of "[]"] struct_pack_length [OF assms(1)]
    struct_pack_fields [OF assms(2)] assms(2)
  by (simp add: struct_unpack_def)

text \<open>
  The stand-in of the self-check answers a gather, whatever bytes follow it, with the rows of
  its slice of the table in request order, or with status 3 and no rows when any id is outside.
\<close>

lemma standin_answers_in_request_order:
  assumes "pack_request OP_GATHER 0 rid (length ids) = Inr h" and "list_all (\<lambda>i. i < 2 ^ 32) ids"
  shows "si_turn s (h @ id_bytes ids @ rest) =
    (if list_all (\<lambda>i. si_base s \<le> i \<and> i < si_base s + m_rows (si_table s)) ids
     then (join (pack_response rid 0 (length ids))
             (Inr (concat (map (\<lambda>i. matrix_row (si_table s) (i - si_base s)) ids))), rest,
           s\<lparr>si_served := si_served s + 1\<rparr>)
     else (pack_response rid 3 0, rest, s))"
proof -
  have "si_row s = (\<lambda>i. matrix_row (si_table s) (i - si_base s))"
    by (simp add: si_row_def fun_eq_iff)
  then show ?thesis
    using si_turn_gather [OF assms(1), of s rest] assms(2) by (simp add: si_head_def list_all_iff)
qed

end
