(* ===== verification/Bench.thy ===== *)
theory Bench
  imports Gather
begin

section \<open>The bench: latency, correctness, its command line\<close>

text \<open>
  \<open>bench/bench_remote.py\<close> over the client model: the order statistics, the timed runs, the ids of
  the two verifications, the comparison, the placing of a reference file, the plan and the guards
  of \<open>main\<close>, and the run from connect to exit status.  The random generators, the nanosecond clock,
  \<open>bind\<close> and the file system are parameters.  A \<open>SystemExit\<close> carries its message's content.
\<close>

definition BENCH_ROW_BYTES :: int where "BENCH_ROW_BYTES = 160"
definition ROWS_TOTAL :: int where "ROWS_TOTAL = 320001536"
definition BENCH_MAX_ROWS :: int where "BENCH_MAX_ROWS = 131072"
definition BENCH_PORT :: int where "BENCH_PORT = 9000"
definition BENCH_PEERS :: string where "BENCH_PEERS = ''172.16.0.28,172.16.0.33''"
definition DECODE_ROWS :: int where "DECODE_ROWS = 512"
definition PREFILL_ROWS :: int where "PREFILL_ROWS = 65536"
definition SWEEP_ROWS :: "int list" where
  "SWEEP_ROWS = [16, 64, 256, 512, 1024, 4096, 16384, 65536, 131072]"
definition VERIFY_SAMPLES :: int where "VERIFY_SAMPLES = 8192"
definition ORDER_SAMPLES :: int where "ORDER_SAMPLES = 256"
definition ASSUMED_PAGE :: int where "ASSUMED_PAGE = 4096"

definition exit_with :: "string \<Rightarrow> exn" where
  "exit_with why = Exn SystemExit (Failed why)"

text \<open>One entry of \<open>stat()\<close>: the peer's name and its numbers.\<close>

type_synonym peer_stat = "string \<times> stat"

definition stat_base :: "peer_stat \<Rightarrow> int" where "stat_base s = int (st_base_row (snd s))"
definition stat_end :: "peer_stat \<Rightarrow> int" where
  "stat_end s = int (st_base_row (snd s)) + int (st_row_count (snd s))"

subsection \<open>Residency\<close>

definition owned_bytes :: "peer_stat \<Rightarrow> int" where
  "owned_bytes s = int (st_row_count (snd s)) * int (st_row_bytes (snd s))"

definition resident_bytes :: "peer_stat \<Rightarrow> int" where
  "resident_bytes s = int (st_resident_pages (snd s)) * ASSUMED_PAGE"

definition residency_notes :: "peer_stat list \<Rightarrow> (string \<times> rat) list" where
  "residency_notes stats = map (\<lambda>s. (fst s, of_int (resident_bytes s) / of_int (owned_bytes s) * 100))
     (filter (\<lambda>s. owned_bytes s \<noteq> 0 \<and> of_int (resident_bytes s) < (95 / 100) * (of_int (owned_bytes s) :: rat))
       stats)"

definition print_peers :: "peer_stat list \<Rightarrow> (string \<times> int \<times> int \<times> rat) list \<times> int" where
  "print_peers stats = (map (\<lambda>s. (fst s, stat_base s, stat_end s,
       if owned_bytes s \<noteq> 0 then of_int (resident_bytes s) / of_int (owned_bytes s) * 100 else 0)) stats,
     sum_list (map (\<lambda>s. int (st_row_count (snd s))) stats))"

subsection \<open>Order statistics\<close>

definition percentile :: "int list \<Rightarrow> rat \<Rightarrow> exn + int" where
  "percentile ordered p =
     (let k = max 1 \<lceil>p / 100 * of_nat (length ordered)\<rceil>
      in if nat (k - 1) < length ordered then Inr (ordered ! nat (k - 1))
         else Inl (Exn IndexError (NoSuchKey (nat (k - 1)))))"

record run_summary =
  rs_rows :: int
  rs_iters :: nat
  rs_bytes :: int
  rs_min_ms :: rat
  rs_p50_ms :: rat
  rs_p90_ms :: rat
  rs_p99_ms :: rat
  rs_max_ms :: rat
  rs_mean_ms :: rat
  rs_mb_s :: rat
  rs_us_per_row :: rat

definition ms :: "int \<Rightarrow> rat" where "ms ns = of_int ns / 1000000"

definition summarise :: "int \<Rightarrow> int list \<Rightarrow> exn + run_summary" where
  "summarise nrows samples_ns =
     (let ordered = sort samples_ns; payload = nrows * BENCH_ROW_BYTES
      in case (percentile ordered 50, percentile ordered 90, percentile ordered 99) of
           (Inr p50, Inr p90, Inr p99) \<Rightarrow>
             if p50 = 0 \<or> nrows = 0 then Inl (Exn ZeroDivisionError (Failed ''p50''))
             else Inr \<lparr>rs_rows = nrows, rs_iters = length ordered, rs_bytes = payload,
               rs_min_ms = ms (hd ordered), rs_p50_ms = ms p50, rs_p90_ms = ms p90,
               rs_p99_ms = ms p99, rs_max_ms = ms (last ordered),
               rs_mean_ms = of_int (sum_list ordered) / of_nat (length ordered) / 1000000,
               rs_mb_s = of_int payload / (of_int p50 / 1000000000) / 1000000,
               rs_us_per_row = of_int p50 / 1000 / of_int nrows\<rparr>
         | (Inl e, _, _) \<Rightarrow> Inl e
         | (_, Inl e, _) \<Rightarrow> Inl e
         | (_, _, Inl e) \<Rightarrow> Inl e)"

text \<open>\<open>run_workload\<close>: the clock reads nanoseconds; \<open>randint n g\<close> draws n row ids.\<close>

primrec timed_gathers ::
  "'w net \<Rightarrow> ('w \<Rightarrow> int \<times> 'w) \<Rightarrow> (nat \<Rightarrow> 'g \<Rightarrow> int list \<times> 'g) \<Rightarrow> nat \<Rightarrow> nat \<Rightarrow> 'g
    \<Rightarrow> ('w, int list \<times> 'g) tprog" where
  "timed_gathers E clock randint nrows 0 g = ret ([], g)"
| "timed_gathers E clock randint nrows (Suc n) g =
     (case randint nrows g of (ids, g') \<Rightarrow>
        bnd (io (\<lambda>w. case clock w of (t, w') \<Rightarrow> (Inr t, w'))) (\<lambda>t0.
        bnd (gather_cpu E ids) (\<lambda>rs.
        bnd (io (\<lambda>w. case clock w of (t, w') \<Rightarrow> (Inr t, w'))) (\<lambda>t1.
        bnd (gets (\<lambda>s. t_row_bytes (fst s))) (\<lambda>width.
        if (length rs, width) \<noteq> (nrows, BENCH_ROW_BYTES) then raise (exit_with ''gather returned a wrong shape'')
        else bnd (timed_gathers E clock randint nrows n g') (\<lambda>(samples, g'').
          ret ((t1 - t0) # samples, g'')))))))"

definition run_workload ::
  "'w net \<Rightarrow> ('w \<Rightarrow> int \<times> 'w) \<Rightarrow> (nat \<Rightarrow> 'g \<Rightarrow> int list \<times> 'g) \<Rightarrow> nat \<Rightarrow> nat \<Rightarrow> nat \<Rightarrow> 'g
    \<Rightarrow> ('w, run_summary \<times> 'g) tprog" where
  "run_workload E clock randint nrows iters warmup g =
     bnd (timed_gathers E clock randint nrows (warmup + iters) g) (\<lambda>(samples, g').
     bnd (of_sum (summarise (int nrows) (drop warmup samples))) (\<lambda>r. ret (r, g')))"

subsection \<open>The ids of the verifications\<close>

primrec draws :: "(int \<Rightarrow> int \<Rightarrow> 'r \<Rightarrow> int \<times> 'r) \<Rightarrow> int \<Rightarrow> int \<Rightarrow> nat \<Rightarrow> 'r \<Rightarrow> int list \<times> 'r" where
  "draws randrange lo hi 0 r = ([], r)"
| "draws randrange lo hi (Suc n) r = (case randrange lo hi r of (x, r') \<Rightarrow>
     (case draws randrange lo hi n r' of (xs, r'') \<Rightarrow> (x # xs, r'')))"

definition descending :: "int list \<Rightarrow> int list" where
  "descending xs = rev (sort xs)"

definition sample_ids ::
  "(int \<Rightarrow> int \<Rightarrow> 'r \<Rightarrow> int \<times> 'r) \<Rightarrow> int \<Rightarrow> int \<Rightarrow> int \<Rightarrow> 'r \<Rightarrow> exn + int list \<times> 'r" where
  "sample_ids randrange lo hi n r =
     (let span = hi - lo
      in if span < 8 then Inl (exit_with ''too small to sample'')
         else (case draws randrange lo hi 64 r of (run, r1) \<Rightarrow>
           let ids = [lo, lo + 1, lo + span div 2, hi - 1] @ replicate 3 (lo + span div 3) @ descending run
           in (case draws randrange lo hi (nat (n - int (length ids))) r1 of (extra, r2) \<Rightarrow>
                 Inr (ids @ extra, r2))))"

definition order_ids ::
  "(int \<Rightarrow> int \<Rightarrow> 'r \<Rightarrow> int \<times> 'r) \<Rightarrow> peer_stat list \<Rightarrow> int \<Rightarrow> 'r \<Rightarrow> exn + int list \<times> 'r" where
  "order_ids randrange stats n r =
     (let edges = concat (map (\<lambda>s. [stat_base s, stat_end s - 1, stat_base s]) stats)
      in (case draws randrange 0 ROWS_TOTAL (nat (min 64 n)) r of (run, r1) \<Rightarrow>
           let ids = edges @ descending run
           in if ids = [] then Inl (Exn IndexError (NoSuchKey 0))
              else let ids' = ids @ replicate 3 (hd ids)
                   in (case draws randrange 0 ROWS_TOTAL (nat (n - int (length ids'))) r1 of (extra, r2) \<Rightarrow>
                         Inr (ids' @ extra, r2))))"

subsection \<open>Comparing\<close>

text \<open>A mismatch: its index, its row id, the first 16 bytes of each side.\<close>

type_synonym mismatch = "nat \<times> int \<times> byte list \<times> byte list"

definition compare_rows ::
  "int list \<Rightarrow> byte list list \<Rightarrow> byte list list \<Rightarrow> nat \<Rightarrow> exn + nat \<times> mismatch list" where
  "compare_rows ids got want max_report =
     (if map length got \<noteq> map length want then Inl (exit_with ''gather returned a wrong shape'')
      else let bad = filter (\<lambda>k. got ! k \<noteq> want ! k) [0..<length got]
           in Inr (length bad, map (\<lambda>k. (k, ids ! k, take 16 (got ! k), take 16 (want ! k)))
                (take max_report bad)))"

definition read_reference :: "byte list \<Rightarrow> int \<Rightarrow> int list \<Rightarrow> exn + byte list list" where
  "read_reference file base ids =
     (let row = (\<lambda>i. take (nat BENCH_ROW_BYTES) (drop (nat ((i - base) * BENCH_ROW_BYTES)) file))
      in if list_ex (\<lambda>i. i < base) ids then Inl (Exn OSError (Failed ''Invalid argument''))
         else if list_all (\<lambda>i. int (length (row i)) = BENCH_ROW_BYTES) ids then Inr (map row ids)
         else Inl (exit_with ''short read''))"

subsection \<open>Where the reference file belongs\<close>

definition host_is_local :: "(string \<Rightarrow> bool) \<Rightarrow> string \<Rightarrow> bool" where
  "host_is_local can_bind peer =
     can_bind (case rpartition (CHR '':'') peer of (h, sep, p) \<Rightarrow> if sep then h else peer)"

datatype base_source = GivenBase | OnlyPeer | LocalPeer string

definition resolve_verify_base ::
  "(string \<Rightarrow> bool) \<Rightarrow> int \<Rightarrow> peer_stat list \<Rightarrow> int option \<Rightarrow> exn + int \<times> base_source" where
  "resolve_verify_base can_bind file_rows stats given =
     (case given of
        Some b \<Rightarrow> Inr (b, GivenBase)
      | None \<Rightarrow> (case filter (\<lambda>s. int (st_row_count (snd s)) = file_rows) stats of
          [] \<Rightarrow> Inl (exit_with ''which global rows'')
        | [s] \<Rightarrow> Inr (stat_base s, OnlyPeer)
        | candidates \<Rightarrow> (case filter (\<lambda>s. host_is_local can_bind (fst s)) candidates of
              [s] \<Rightarrow> Inr (stat_base s, LocalPeer (fst s))
            | _ \<Rightarrow> Inl (exit_with ''which global rows''))))"

definition check_reference_range :: "int \<Rightarrow> int \<Rightarrow> peer_stat list \<Rightarrow> exn + unit" where
  "check_reference_range base file_rows stats =
     (if stats = [] then Inl (Exn ValueError NoPeers)
      else let lo = Min (set (map stat_base stats)); hi = Max (set (map stat_end stats))
           in if base < lo \<or> base + file_rows > hi then Inl (exit_with ''not one of the halves'')
              else Inr ())"

subsection \<open>The two verifications\<close>

record verdict =
  vd_checked :: nat
  vd_mismatches :: nat
  vd_samples :: "mismatch list"
  vd_per_peer :: "(string \<times> nat) list"
  vd_duplicates :: nat
  vd_stable :: bool
  vd_ok :: bool

definition hits_of :: "peer_stat list \<Rightarrow> int list \<Rightarrow> (string \<times> nat) list" where
  "hits_of stats ids = map (\<lambda>s. (fst s,
     length (filter (\<lambda>i. stat_base s \<le> i \<and> i < stat_end s) ids))) stats"

definition verify_against_file ::
  "'w net \<Rightarrow> (string \<Rightarrow> bool) \<Rightarrow> (int \<Rightarrow> int \<Rightarrow> 'r \<Rightarrow> int \<times> 'r) \<Rightarrow> peer_stat list \<Rightarrow> byte list \<Rightarrow> int option
    \<Rightarrow> int \<Rightarrow> 'r \<Rightarrow> ('w, verdict \<times> 'r) tprog" where
  "verify_against_file E can_bind randrange stats file given n r =
     (if int (length file) mod BENCH_ROW_BYTES \<noteq> 0 then raise (exit_with ''not a whole number of rows'')
      else let file_rows = int (length file) div BENCH_ROW_BYTES in
        bnd (of_sum (resolve_verify_base can_bind file_rows stats given)) (\<lambda>(base, why).
        bnd (of_sum (check_reference_range base file_rows stats)) (\<lambda>_.
        bnd (of_sum (sample_ids randrange base (base + file_rows) n r)) (\<lambda>(ids, r').
        bnd (of_sum (read_reference file base ids)) (\<lambda>want.
        bnd (gather_cpu E ids) (\<lambda>got.
        bnd (of_sum (compare_rows ids got want 5)) (\<lambda>(bad, samples).
        ret (\<lparr>vd_checked = length ids, vd_mismatches = bad, vd_samples = samples,
          vd_per_peer = hits_of stats ids, vd_duplicates = 0, vd_stable = True,
          vd_ok = (bad = 0)\<rparr>, r'))))))))"

text \<open>\<open>one_at_a_time[k] = gather(table, [row])[0]\<close>.\<close>

primrec one_at_a_time :: "'w net \<Rightarrow> int list \<Rightarrow> ('w, byte list list) tprog" where
  "one_at_a_time E [] = ret []"
| "one_at_a_time E (i # ids) = bnd (gather_cpu E [i]) (\<lambda>rs.
     case rs of
       [] \<Rightarrow> raise (Exn IndexError (NoSuchKey 0))
     | r # _ \<Rightarrow> bnd (one_at_a_time E ids) (\<lambda>rest. ret (r # rest)))"

definition verify_order ::
  "'w net \<Rightarrow> (int \<Rightarrow> int \<Rightarrow> 'r \<Rightarrow> int \<times> 'r) \<Rightarrow> peer_stat list \<Rightarrow> int \<Rightarrow> 'r \<Rightarrow> ('w, verdict \<times> 'r) tprog" where
  "verify_order E randrange stats n r =
     bnd (of_sum (order_ids randrange stats n r)) (\<lambda>(ids, r').
     bnd (gather_cpu E ids) (\<lambda>batched.
     bnd (gather_cpu E ids) (\<lambda>repeat.
     bnd (one_at_a_time E ids) (\<lambda>single.
     bnd (of_sum (compare_rows ids batched single 5)) (\<lambda>(bad, samples).
     ret (\<lparr>vd_checked = length ids, vd_mismatches = bad, vd_samples = samples, vd_per_peer = [],
       vd_duplicates = length ids - card (set ids), vd_stable = (batched = repeat),
       vd_ok = (bad = 0 \<and> batched = repeat)\<rparr>, r'))))))"

subsection \<open>The command line\<close>

fun bench_peer_items :: "string list \<Rightarrow> string list" where
  "bench_peer_items [] = []"
| "bench_peer_items (raw # items) =
     (let part = py_strip raw in
      if part = [] then bench_peer_items items
      else (if CHR '':'' \<in> set part then part else part @ '':'' @ show_int BENCH_PORT) # bench_peer_items items)"

definition bench_peers :: "string \<Rightarrow> exn + string list" where
  "bench_peers spec = (case bench_peer_items (split_on (CHR '','') spec) of
     [] \<Rightarrow> Inl (exit_with ''no peers given'') | ps \<Rightarrow> Inr ps)"

datatype mode = All | Decode | Prefill | Sweep | Verify

record args =
  a_peers :: string
  a_mode :: mode
  a_rows :: "int option"
  a_sweep :: "string option"
  a_iters :: "int option"
  a_warmup :: int
  a_max_rows :: int
  a_timeout :: rat
  a_verify_against :: "string option"
  a_verify_base :: "int option"
  a_verify_order :: bool
  a_verify_samples :: int

type_synonym plan = "(string \<times> int \<times> int) list"

definition or_default :: "int option \<Rightarrow> int \<Rightarrow> int" where
  "or_default x d = (case x of Some v \<Rightarrow> v | None \<Rightarrow> d)"

fun ints_of :: "string list \<Rightarrow> int list option" where
  "ints_of [] = Some []"
| "ints_of (x # xs) = (case (py_int x, ints_of xs) of (Inr v, Some vs) \<Rightarrow> Some (v # vs) | _ \<Rightarrow> None)"

definition build_plan :: "args \<Rightarrow> exn + plan" where
  "build_plan a = (case a_mode a of
     Verify \<Rightarrow> Inr []
   | Sweep \<Rightarrow>
       (case (case a_sweep a of None \<Rightarrow> Some SWEEP_ROWS
              | Some s \<Rightarrow> if s = [] then Some SWEEP_ROWS else ints_of (split_on (CHR '','') s)) of
          None \<Rightarrow> Inl (exit_with ''--sweep wants row counts'')
        | Some counts \<Rightarrow> Inr (map (\<lambda>n. (''sweep'', n, or_default (a_iters a) 50)) counts))
   | m \<Rightarrow> Inr ((if m \<in> {All, Decode} then [(''decode'', or_default (a_rows a) DECODE_ROWS, or_default (a_iters a) 200)] else []) @
       (if m \<in> {All, Prefill} then [(''prefill'', or_default (a_rows a) PREFILL_ROWS, or_default (a_iters a) 50)] else [])))"

definition resolve_reference :: "(string \<Rightarrow> bool) \<Rightarrow> string \<Rightarrow> args \<Rightarrow> exn + string option" where
  "resolve_reference exists dflt a =
     (case (case a_verify_against a of
              Some p \<Rightarrow> Inr (Some p)
            | None \<Rightarrow> if a_mode a \<noteq> Verify then Inr None
                else if exists dflt then Inr (Some dflt)
                else if \<not> a_verify_order a then Inl (exit_with ''--mode verify needs a half'')
                else Inr None) of
        Inl e \<Rightarrow> Inl e
      | Inr None \<Rightarrow> Inr None
      | Inr (Some p) \<Rightarrow> if exists p then Inr (Some p) else Inl (exit_with ''reference not found''))"

fun check_plan :: "int \<Rightarrow> plan \<Rightarrow> exn + unit" where
  "check_plan limit [] = Inr ()"
| "check_plan limit ((name, nrows, iters) # plan) =
     (if nrows < 1 then Inl (exit_with ''rows per gather makes no sense'')
      else if nrows > limit then Inl (exit_with ''can put more than max_rows on one peer'')
      else check_plan limit plan)"

text \<open>\<open>main\<close> up to the connect: what will be dialled, checked and timed.\<close>

definition bench_setup ::
  "(string \<Rightarrow> bool) \<Rightarrow> string \<Rightarrow> bool \<Rightarrow> args \<Rightarrow> exn + string list \<times> string option \<times> bool \<times> plan" where
  "bench_setup exists dflt have_client a =
     (case bench_peers (a_peers a) of Inl e \<Rightarrow> Inl e | Inr addrs \<Rightarrow>
      if \<not> have_client then Inl (exit_with ''client not found'')
      else if (case a_iters a of Some n \<Rightarrow> n < 1 | None \<Rightarrow> False) then Inl (exit_with ''--iters'')
      else if a_warmup a < 0 then Inl (exit_with ''--warmup'')
      else if a_max_rows a < 1 then Inl (exit_with ''--max-rows'')
      else if a_rows a \<noteq> None \<and> a_mode a \<notin> {Decode, Prefill} then Inl (exit_with ''--rows'')
      else (case resolve_reference exists dflt a of Inl e \<Rightarrow> Inl e | Inr reference \<Rightarrow>
        if a_verify_base a \<noteq> None \<and> reference = None then Inl (exit_with ''--verify-base'')
        else (case build_plan a of Inl e \<Rightarrow> Inl e | Inr plan \<Rightarrow>
          (case check_plan (a_max_rows a) plan of Inl e \<Rightarrow> Inl e | Inr _ \<Rightarrow>
           if a_verify_samples a < 1 \<or> a_verify_samples a > a_max_rows a
           then Inl (exit_with ''--verify-samples'')
           else Inr (addrs, reference, a_verify_order a \<or> a_mode a = Verify, plan)))))"

subsection \<open>The run\<close>

record bench_report =
  br_notes :: "(string \<times> rat) list"
  br_file :: "verdict option"
  br_order :: "verdict option"
  br_runs :: "run_summary list"
  br_ok :: bool

primrec run_plan ::
  "'w net \<Rightarrow> ('w \<Rightarrow> int \<times> 'w) \<Rightarrow> (nat \<Rightarrow> 'g \<Rightarrow> int list \<times> 'g) \<Rightarrow> nat \<Rightarrow> plan \<Rightarrow> 'g
    \<Rightarrow> ('w, run_summary list) tprog" where
  "run_plan E clock randint warmup [] g = ret []"
| "run_plan E clock randint warmup (x # plan) g =
     (case x of (name, nrows, iters) \<Rightarrow>
        bnd (run_workload E clock randint (nat nrows) (nat iters) warmup g) (\<lambda>(res, g').
        bnd (run_plan E clock randint warmup plan g') (\<lambda>rest. ret (res # rest))))"

text \<open>The body of the \<open>try\<close>; the reference is the file's bytes.\<close>

definition bench_body ::
  "'w net \<Rightarrow> ('w \<Rightarrow> int \<times> 'w) \<Rightarrow> (nat \<Rightarrow> 'g \<Rightarrow> int list \<times> 'g) \<Rightarrow> (int \<Rightarrow> int \<Rightarrow> 'r \<Rightarrow> int \<times> 'r)
    \<Rightarrow> (string \<Rightarrow> bool) \<Rightarrow> args \<Rightarrow> byte list option \<Rightarrow> bool \<Rightarrow> plan \<Rightarrow> 'r \<Rightarrow> 'g
    \<Rightarrow> ('w, bench_report) tprog" where
  "bench_body E clock randint randrange can_bind a reference run_order plan r g =
     bnd (Table.stat E) (\<lambda>sts. bnd (gets (\<lambda>s. map peer_name (peers (fst s)))) (\<lambda>names.
     let stats = zip names sts in
     bnd (case reference of
            None \<Rightarrow> ret (None, r)
          | Some file \<Rightarrow> bnd (verify_against_file E can_bind randrange stats file (a_verify_base a)
              (a_verify_samples a) r) (\<lambda>(v, r'). ret (Some v, r'))) (\<lambda>(vf, r1).
     bnd (if run_order
          then bnd (verify_order E randrange stats (min (a_verify_samples a) ORDER_SAMPLES) r1)
            (\<lambda>(v, r'). ret (Some v, r'))
          else ret (None, r1)) (\<lambda>(vo, r2).
     bnd (run_plan E clock randint (nat (a_warmup a)) plan g) (\<lambda>runs.
     ret \<lparr>br_notes = residency_notes stats, br_file = vf, br_order = vo, br_runs = runs,
       br_ok = ((case vf of None \<Rightarrow> True | Some v \<Rightarrow> vd_ok v) \<and>
                (case vo of None \<Rightarrow> True | Some v \<Rightarrow> vd_ok v))\<rparr>)))))"

text \<open>\<open>finally: table.close()\<close>; an exception of \<open>close\<close> replaces the result.\<close>

definition bench_main ::
  "'w net \<Rightarrow> (string \<Rightarrow> exn + rat) \<Rightarrow> (string \<Rightarrow> string option) \<Rightarrow> ('w \<Rightarrow> int \<times> 'w)
    \<Rightarrow> (nat \<Rightarrow> 'g \<Rightarrow> int list \<times> 'g) \<Rightarrow> (int \<Rightarrow> int \<Rightarrow> 'r \<Rightarrow> int \<times> 'r)
    \<Rightarrow> (string \<Rightarrow> bool) \<Rightarrow> (string \<Rightarrow> byte list option) \<Rightarrow> string \<Rightarrow> bool \<Rightarrow> args \<Rightarrow> 'r \<Rightarrow> 'g
    \<Rightarrow> ('w, bench_report \<times> nat) prog" where
  "bench_main E to_float environ clock randint randrange can_bind files dflt have_client a r g w =
     (case bench_setup (\<lambda>p. files p \<noteq> None) dflt have_client a of
        Inl e \<Rightarrow> (Inl e, w)
      | Inr (addrs, reference, run_order, plan) \<Rightarrow>
          (case init_table E to_float environ \<lparr>c_peers = Some (join_commas addrs),
              c_rows_total = Some ROWS_TOTAL, c_row_bytes = ROW_BYTES, c_max_rows = Some (a_max_rows a),
              c_timeout = Some (a_timeout a), c_connect_timeout = None, c_connect_deadline = None,
              c_gather_deadline = None\<rparr> w of
             (Inl e, w') \<Rightarrow> (Inl (if is_os_error e \<or> exn_kind e \<in> {RuntimeError, ValueError}
                then exit_with ''cannot open the table'' else e), w')
           | (Inr t, w') \<Rightarrow>
               (case bench_body E clock randint randrange can_bind a
                   (case reference of None \<Rightarrow> None | Some p \<Rightarrow> files p) run_order plan r g (t, w') of
                  (res, s) \<Rightarrow> (case Table.close E s of
                      (Inl e, s') \<Rightarrow> (Inl e, snd s')
                    | (Inr _, s') \<Rightarrow>
                        (map_sum id (\<lambda>rep. (rep, if br_ok rep then 0 else 1)) res, snd s')))))"

subsection \<open>Order statistics of a sorted list\<close>

lemma length_filter_le_nth:
  assumes "sorted xs" and "i < length xs"
  shows "Suc i \<le> length (filter (\<lambda>y. y \<le> xs ! i) xs)"
    and "length (filter (\<lambda>y. y < xs ! i) xs) \<le> i"
proof -
  have split: "length (filter Q xs) = length (filter Q (take k xs)) + length (filter Q (drop k xs))" for Q k
    by (metis append_take_drop_id filter_append length_append)
  have "filter (\<lambda>y. y \<le> xs ! i) (take (Suc i) xs) = take (Suc i) xs"
    using assms sorted_nth_mono [OF assms(1) _ assms(2)]
    by (auto simp: filter_id_conv in_set_conv_nth less_Suc_eq_le)
  then show "Suc i \<le> length (filter (\<lambda>y. y \<le> xs ! i) xs)"
    using split [of _ "Suc i"] assms(2) by simp
  have "filter (\<lambda>y. y < xs ! i) (drop i xs) = []"
    using assms(2) sorted_nth_mono [OF assms(1) le_add1 [of i]]
    by (auto simp: filter_empty_conv in_set_conv_nth not_less less_diff_conv add.commute)
  then show "length (filter (\<lambda>y. y < xs ! i) xs) \<le> i"
    using split [of _ i] length_filter_le [of "\<lambda>y. y < xs ! i" "take i xs"] assms(2) by simp
qed

text \<open>
  \<open>percentile\<close> is the nearest rank: one of the samples, with at least \<open>p\<close> per cent of the
  samples at or below it and fewer than \<open>p\<close> per cent below it.
\<close>

lemma percentile_is_the_nearest_rank:
  assumes "sorted xs" and "xs \<noteq> []" and "0 < p" and "p \<le> 100"
  shows "\<exists>x. percentile xs p = Inr x \<and> x \<in> set xs \<and>
    p / 100 * of_nat (length xs) \<le> of_nat (length (filter (\<lambda>y. y \<le> x) xs)) \<and>
    of_nat (length (filter (\<lambda>y. y < x) xs)) < p / 100 * of_nat (length xs)"
proof -
  let ?q = "p / 100 * of_nat (length xs)"
  have pos: "0 < ?q" and q: "?q \<le> of_nat (length xs)"
    using assms by (simp_all add: mult_le_cancel_right1)
  then have c: "1 \<le> \<lceil>?q\<rceil>" "\<lceil>?q\<rceil> \<le> int (length xs)"
    by (simp_all add: ceiling_le_iff)
  define i where "i = nat (\<lceil>?q\<rceil> - 1)"
  have i: "i < length xs" "int (Suc i) = \<lceil>?q\<rceil>"
    unfolding i_def using c by linarith+
  have run: "percentile xs p = Inr (xs ! i)"
    unfolding percentile_def Let_def i_def using c i(1)[unfolded i_def] by (simp only: max_absorb2 if_True)
  have "?q \<le> of_nat (Suc i)"
    using le_of_int_ceiling [of ?q] i(2) by (metis of_int_of_nat_eq)
  moreover have "of_nat i < ?q"
  proof -
    have "int i < \<lceil>?q\<rceil>"
      using i(2) by linarith
    then show ?thesis
      by (simp only: less_ceiling_iff of_int_of_nat_eq)
  qed
  moreover have "of_nat (Suc i) \<le> (of_nat (length (filter (\<lambda>y. y \<le> xs ! i) xs)) :: rat)"
    "of_nat (length (filter (\<lambda>y. y < xs ! i) xs)) \<le> (of_nat i :: rat)"
    using length_filter_le_nth [OF assms(1) i(1)] by (simp_all only: of_nat_le_iff)
  ultimately show ?thesis
    using run i(1) by (intro exI [of _ "xs ! i"]) (auto intro: order_trans order_le_less_trans)
qed

subsection \<open>What is sampled\<close>

definition draws_within :: "(int \<Rightarrow> int \<Rightarrow> 'r \<Rightarrow> int \<times> 'r) \<Rightarrow> bool" where
  "draws_within randrange \<longleftrightarrow>
     (\<forall>lo hi r. lo < hi \<longrightarrow> lo \<le> fst (randrange lo hi r) \<and> fst (randrange lo hi r) < hi)"

lemma draws_length: "length (fst (draws randrange lo hi n r)) = n"
proof (induction n arbitrary: r)
  case (Suc n)
  then show ?case
    by (auto split: prod.splits) (metis fst_conv)
qed simp

lemma draws_range:
  assumes "draws_within randrange" and "lo < hi"
  shows "set (fst (draws randrange lo hi n r)) \<subseteq> {lo..<hi}"
proof (induction n arbitrary: r)
  case (Suc n)
  obtain x r1 where x: "randrange lo hi r = (x, r1)"
    by fastforce
  then have "lo \<le> x" "x < hi"
    using assms by (metis draws_within_def fst_conv)+
  then show ?case
    using x Suc [of r1] by (auto split: prod.splits)
qed simp

lemma descending_facts [simp]:
  "set (descending xs) = set xs" "length (descending xs) = length xs" "sorted_wrt (\<ge>) (descending xs)"
  by (simp_all add: descending_def sorted_wrt_rev)

lemma sample_ids_cover:
  assumes "draws_within randrange" and "sample_ids randrange lo hi n r = Inr (ids, r')"
  shows "set ids \<subseteq> {lo..<hi} \<and> {lo, lo + 1, hi - 1} \<subseteq> set ids \<and> int (length ids) = max 71 n \<and>
    \<not> distinct ids \<and> (\<exists>xs run ys. ids = xs @ run @ ys \<and> length run = 64 \<and> sorted_wrt (\<ge>) run)"
proof -
  obtain run r1 where run: "draws randrange lo hi 64 r = (run, r1)"
    by fastforce
  define span where "span = hi - lo"
  define front where "front = [lo, lo + 1, lo + span div 2, hi - 1] @ replicate 3 (lo + span div 3)"
  obtain extra r2 where extra: "draws randrange lo hi (nat (n - 71)) r1 = (extra, r2)"
    by fastforce
  have span: "8 \<le> span" and ids: "ids = front @ descending run @ extra"
    using assms(2) run extra draws_length [of randrange lo hi 64 r]
    by (auto simp: sample_ids_def Let_def span_def front_def split: if_splits)
  have lens: "length run = 64" "length extra = nat (n - 71)"
    using draws_length [of randrange lo hi 64 r] draws_length [of randrange lo hi "nat (n - 71)" r1] run extra
    by simp_all
  have lh: "lo < hi"
    using span by (simp add: span_def)
  have within: "set run \<subseteq> {lo..<hi}" "set extra \<subseteq> {lo..<hi}"
    using draws_range [OF assms(1) lh, of 64 r] draws_range [OF assms(1) lh, of "nat (n - 71)" r1] run extra
    by simp_all
  have "0 \<le> span div 3" "span div 3 < span" "0 \<le> span div 2" "span div 2 < span"
    using span by (simp_all add: div_int_pos_iff)
  then have "set front \<subseteq> {lo..<hi}"
    using span by (auto simp: front_def span_def)
  then have "set ids \<subseteq> {lo..<hi}"
    using ids within by auto
  moreover have "\<not> distinct ids"
    by (simp add: ids front_def numeral_3_eq_3)
  moreover have "\<exists>xs run' ys. ids = xs @ run' @ ys \<and> length run' = 64 \<and> sorted_wrt (\<ge>) run'"
    using ids lens by (metis descending_facts(2,3))
  moreover have "int (length ids) = max 71 n" "{lo, lo + 1, hi - 1} \<subseteq> set ids"
    using ids lens by (simp_all add: front_def)
  ultimately show ?thesis
    by blast
qed

text \<open>
  The ids sampled for the comparison with a half all lie in the half's range, and include
  both its edges, a repeated id and a descending run of 64; there are \<open>max 71 n\<close> of them, so no
  number of samples below 71 is honoured.
\<close>

lemma samples_cover_the_reference_range:
  assumes "draws_within randrange" and "sample_ids randrange lo hi n r = Inr (ids, r')"
  shows "set ids \<subseteq> {lo..<hi} \<and> {lo, lo + 1, hi - 1} \<subseteq> set ids \<and> int (length ids) = max 71 n \<and>
    \<not> distinct ids \<and> (\<exists>xs run ys. ids = xs @ run @ ys \<and> length run = 64 \<and> sorted_wrt (\<ge>) run)"
  using assms by (rule sample_ids_cover)

end
