(* ===== verification/Bench_Proof.thy ===== *)
theory Bench_Proof
  imports Guarantees Bench
begin

section \<open>What the bench's verifications prove about the servers\<close>

text \<open>
  The two verifications of \<open>bench/bench_remote.py\<close> composed with the client: over servers that
  answer with the true rows the order check passes, and the comparison with a half file counts
  exactly the sampled rows in which the file differs from the truth.
\<close>

subsection \<open>Comparing\<close>

lemma compare_rows_map:
  assumes "compare_rows ids (map f ids) (map g ids) m = Inr (k, samples)"
  shows "k = length (filter (\<lambda>i. f i \<noteq> g i) ids)"
proof -
  have "length (filter (\<lambda>j. map f ids ! j \<noteq> map g ids ! j) [0..<length ids]) =
      length (filter (\<lambda>j. f (ids ! j) \<noteq> g (ids ! j)) [0..<length ids])"
    by (rule arg_cong [of _ _ length], rule filter_cong) auto
  then show ?thesis
    using assms map_nth_filter [of "\<lambda>i. f i \<noteq> g i" ids]
    by (auto simp: compare_rows_def Let_def split: if_splits)
qed

lemma compare_rows_same: "\<exists>m. compare_rows ids rs rs k = Inr (0, [])"
  by (simp add: compare_rows_def Let_def)

lemma order_ids_Inr:
  assumes "draws_within randrange" and "0 \<le> n" and "stats \<noteq> []"
  shows "\<exists>ids r'. order_ids randrange stats n r = Inr (ids, r') \<and>
    int (length ids) = max (3 * int (length stats) + min 64 n + 3) n \<and>
    (\<forall>i\<in>set ids. 0 \<le> i \<and> i < ROWS_TOTAL \<or> (\<exists>s\<in>set stats. i = stat_base s \<or> i = stat_end s - 1))"
proof -
  let ?edges = "concat (map (\<lambda>s. [stat_base s, stat_end s - 1, stat_base s]) stats)"
  obtain run r1 where run: "draws randrange 0 ROWS_TOTAL (nat (min 64 n)) r = (run, r1)"
    by fastforce
  define ids' where "ids' = ?edges @ descending run @ replicate 3 (hd (?edges @ descending run))"
  obtain extra r2 where extra: "draws randrange 0 ROWS_TOTAL (nat (n - int (length ids'))) r1 = (extra, r2)"
    by fastforce
  have lens: "length ?edges = 3 * length stats" "int (length run) = min 64 n"
    "int (length extra) = max 0 (n - int (length ids'))"
    using draws_length [of randrange 0 ROWS_TOTAL "nat (min 64 n)" r] run assms(2)
      draws_length [of randrange 0 ROWS_TOTAL "nat (n - int (length ids'))" r1] extra
    by (simp_all add: length_concat o_def sum_list_triv)
  have ne: "?edges \<noteq> []"
    using assms(3) by (cases stats) auto
  have run_ids: "order_ids randrange stats n r = Inr (ids' @ extra, r2)"
    using run extra ne by (auto simp: order_ids_def Let_def ids'_def)
  have pos: "(0 :: int) < ROWS_TOTAL"
    by (simp add: ROWS_TOTAL_def)
  have drawn: "set run \<subseteq> {0..<ROWS_TOTAL}" "set extra \<subseteq> {0..<ROWS_TOTAL}"
    using draws_range [OF assms(1) pos, of "nat (min 64 n)" r]
      draws_range [OF assms(1) pos, of "nat (n - int (length ids'))" r1] run extra by simp_all
  have "hd (?edges @ descending run) \<in> set ?edges"
    unfolding hd_append2 [OF ne] by (rule hd_in_set [OF ne])
  then have "\<forall>i\<in>set (ids' @ extra). 0 \<le> i \<and> i < ROWS_TOTAL \<or> (\<exists>s\<in>set stats. i = stat_base s \<or> i = stat_end s - 1)"
    using drawn unfolding ids'_def by auto
  moreover have "int (length ids') = 3 * int (length stats) + min 64 n + 3"
    using lens by (simp add: ids'_def)
  moreover have "int (length (ids' @ extra)) = max (3 * int (length stats) + min 64 n + 3) n"
    unfolding length_append of_nat_add lens(3) calculation(2) by linarith
  ultimately show ?thesis
    using run_ids by blast
qed

lemma read_reference_Inr:
  assumes "int (length file) = nrows * BENCH_ROW_BYTES" and "set ids \<subseteq> {base..<base + nrows}"
  shows "read_reference file base ids = Inr (map (\<lambda>i. take 160 (drop (nat ((i - base) * 160)) file)) ids)"
proof -
  have "int (length (take 160 (drop (nat ((i - base) * 160)) file))) = 160" if "i \<in> set ids" for i
  proof -
    have "base \<le> i" "i < base + nrows"
      using assms(2) that by auto
    then have "0 \<le> (i - base) * 160" "(i - base) * 160 + 160 \<le> int (length file)"
      using assms(1) by (simp_all add: BENCH_ROW_BYTES_def)
    then show ?thesis
      by simp
  qed
  moreover have "\<not> list_ex (\<lambda>i. i < base) ids"
    using assms(2) by (auto simp: list_ex_iff)
  ultimately show ?thesis
    by (simp add: read_reference_def Let_def BENCH_ROW_BYTES_def list_all_iff)
qed

subsection \<open>What the command line lets through\<close>

lemma check_plan_all:
  "check_plan limit plan = Inr () \<Longrightarrow> (name, nrows, iters) \<in> set plan \<Longrightarrow> 1 \<le> nrows \<and> nrows \<le> limit"
  by (induction limit plan rule: check_plan.induct) (auto split: if_splits)

lemma build_plan_iters:
  assumes "build_plan a = Inr plan" and "\<not> (case a_iters a of Some n \<Rightarrow> n < 1 | None \<Rightarrow> False)"
    and "(name, nrows, iters) \<in> set plan"
  shows "1 \<le> iters"
  using assms by (auto simp: build_plan_def or_default_def split: mode.splits option.splits if_splits)

lemma bench_setup_Inr:
  assumes "bench_setup exists dflt have_client a = Inr (addrs, reference, ro, plan)"
  shows "build_plan a = Inr plan" "check_plan (a_max_rows a) plan = Inr ()"
    "\<not> (case a_iters a of Some n \<Rightarrow> n < 1 | None \<Rightarrow> False)" "1 \<le> a_max_rows a"
    "1 \<le> a_verify_samples a" "a_verify_samples a \<le> a_max_rows a" "0 \<le> a_warmup a" "addrs \<noteq> []"
  using assms by (auto simp: bench_setup_def bench_peers_def split: sum.splits if_splits list.splits)

subsection \<open>The runs\<close>

context live_net begin

lemma one_at_a_time_lives:
  assumes "working a b N m s" and "N \<le> 2 ^ 32" and "\<forall>x\<in>set ids. 0 \<le> x \<and> x < int N"
    and "1 \<le> m" and "m \<le> int limit" and "m < 2 ^ 32"
  shows "\<exists>s'. one_at_a_time E ids s = (Inr (map (\<lambda>x. truth (nat x)) ids), s') \<and> working a b N m s'"
  using assms(1,3)
proof (induction ids arbitrary: s)
  case Nil
  then show ?case by (simp add: ret_run)
next
  case (Cons i ids)
  obtain s1 where 1: "gather_cpu E [i] s = (Inr [truth (nat i)], s1)" "working a b N m s1"
    using gather_cpu_lives [OF Cons.prems(1) assms(2), of "[i]"] Cons.prems(2) assms(4-6) by auto
  show ?case
    using Cons.IH [OF 1(2)] Cons.prems(2) 1(1) by (auto simp: bnd_def ret_run)
qed

lemma verify_order_lives:
  assumes wk: "working a b N m s" and N: "N \<le> 2 ^ 32" "ROWS_TOTAL \<le> int N"
    and d: "draws_within randrange" and n: "0 \<le> n" and st: "stats \<noteq> []"
    and edges: "\<forall>s\<in>set stats. 0 \<le> stat_base s \<and> stat_base s < stat_end s \<and> stat_end s \<le> int N"
    and fit: "max (3 * int (length stats) + min 64 n + 3) n \<le> m" and lim: "m \<le> int limit" "m < 2 ^ 32"
  shows "\<exists>v r' s'. verify_order E randrange stats n r s = (Inr (v, r'), s') \<and>
    vd_ok v \<and> vd_stable v \<and> vd_mismatches v = 0 \<and> vd_samples v = []"
proof -
  obtain ids r' where ids: "order_ids randrange stats n r = Inr (ids, r')"
    and len: "int (length ids) = max (3 * int (length stats) + min 64 n + 3) n"
    and sub: "\<forall>i\<in>set ids. 0 \<le> i \<and> i < ROWS_TOTAL \<or> (\<exists>s\<in>set stats. i = stat_base s \<or> i = stat_end s - 1)"
    using order_ids_Inr [OF d n st] by blast
  have range: "\<forall>x\<in>set ids. 0 \<le> x \<and> x < int N"
    using sub edges N(2) by force
  have fit': "int (length ids) \<le> m"
    using len fit by simp
  have one: "1 \<le> m"
    using fit n by linarith
  obtain s1 where 1: "gather_cpu E ids s = (Inr (map (\<lambda>x. truth (nat x)) ids), s1)" "working a b N m s1"
    using gather_cpu_lives [OF wk N(1) range fit' lim] by blast
  obtain s2 where 2: "gather_cpu E ids s1 = (Inr (map (\<lambda>x. truth (nat x)) ids), s2)" "working a b N m s2"
    using gather_cpu_lives [OF 1(2) N(1) range fit' lim] by blast
  obtain s3 where 3: "one_at_a_time E ids s2 = (Inr (map (\<lambda>x. truth (nat x)) ids), s3)"
    using one_at_a_time_lives [OF 2(2) N(1) range one lim] by blast
  show ?thesis
    using ids 1(1) 2(1) 3
    by (simp add: verify_order_def bnd_def of_sum_run compare_rows_def Let_def ret_run)
qed

lemma verify_against_file_lives:
  assumes wk: "working a b N m s" and N: "N \<le> 2 ^ 32" and d: "draws_within randrange"
    and size: "int (length file) = nrows * BENCH_ROW_BYTES" "8 \<le> nrows"
    and base: "resolve_verify_base can_bind nrows stats given = Inr (start, why)"
    and range: "check_reference_range start nrows stats = Inr ()"
    and edges: "\<forall>s\<in>set stats. 0 \<le> stat_base s \<and> stat_end s \<le> int N"
    and width: "\<forall>i<N. length (truth i) = 160"
    and fit: "max 71 n \<le> m" and lim: "m \<le> int limit" "m < 2 ^ 32"
  shows "\<exists>v r' ids s'. verify_against_file E can_bind randrange stats file given n r s = (Inr (v, r'), s') \<and>
    sample_ids randrange start (start + nrows) n r = Inr (ids, r') \<and> vd_checked v = length ids \<and>
    vd_mismatches v = length (filter (\<lambda>i. truth (nat i) \<noteq> take 160 (drop (nat ((i - start) * 160)) file)) ids) \<and>
    (vd_ok v \<longleftrightarrow> (\<forall>i\<in>set ids. truth (nat i) = take 160 (drop (nat ((i - start) * 160)) file)))"
proof -
  let ?want = "\<lambda>i. take 160 (drop (nat ((i - start) * 160)) file)"
  obtain ids r' where ids: "sample_ids randrange start (start + nrows) n r = Inr (ids, r')"
    using size(2) by (cases "sample_ids randrange start (start + nrows) n r")
      (auto simp: sample_ids_def Let_def split: prod.splits if_splits)
  note cover = sample_ids_cover [OF d ids]
  have st: "stats \<noteq> []"
    using range by (auto simp: check_reference_range_def)
  have edge: "\<not> (start < Min (set (map stat_base stats)) \<or> start + nrows > Max (set (map stat_end stats)))"
    using range st unfolding check_reference_range_def Let_def by (metis Inl_Inr_False)
  have "Min (set (map stat_base stats)) \<in> set (map stat_base stats)"
    "Max (set (map stat_end stats)) \<in> set (map stat_end stats)"
    using st by (simp_all del: set_map)
  then have "0 \<le> Min (set (map stat_base stats))" "Max (set (map stat_end stats)) \<le> int N"
    using edges by auto
  then have "0 \<le> start" "start + nrows \<le> int N"
    using edge by linarith+
  moreover have "set ids \<subseteq> {start..<start + nrows}"
    using cover by blast
  ultimately have inside: "\<forall>x\<in>set ids. 0 \<le> x \<and> x < int N"
    by fastforce
  have fit': "int (length ids) \<le> m"
    using cover fit by simp
  obtain s1 where 1: "gather_cpu E ids s = (Inr (map (\<lambda>x. truth (nat x)) ids), s1)"
    using gather_cpu_lives [OF wk N inside fit' lim] by blast
  have ref: "read_reference file start ids = Inr (map ?want ids)"
    using read_reference_Inr [OF size(1)] cover by blast
  have w160: "length (?want i) = 160" if "i \<in> set ids" for i
  proof -
    have "start \<le> i" "i < start + nrows"
      using cover that by auto
    then show ?thesis
      using size(1) by (simp add: BENCH_ROW_BYTES_def)
  qed
  have "map length (map (\<lambda>x. truth (nat x)) ids) = map length (map ?want ids)"
    using width inside w160 by (auto simp: nat_less_iff)
  then obtain k samples where k: "compare_rows ids (map (\<lambda>x. truth (nat x)) ids) (map ?want ids) 5 = Inr (k, samples)"
    by (simp add: compare_rows_def Let_def)
  have count: "k = length (filter (\<lambda>i. truth (nat i) \<noteq> ?want i) ids)"
    using compare_rows_map [OF k] .
  have sizes: "int (length file) mod BENCH_ROW_BYTES = 0" "int (length file) div BENCH_ROW_BYTES = nrows"
    using size(1) by (simp_all add: BENCH_ROW_BYTES_def)
  have "verify_against_file E can_bind randrange stats file given n r s =
    (Inr (\<lparr>vd_checked = length ids, vd_mismatches = k, vd_samples = samples,
          vd_per_peer = hits_of stats ids, vd_duplicates = 0, vd_stable = True, vd_ok = (k = 0)\<rparr>, r'), s1)"
    using sizes base range ids ref 1 k
    by (simp add: verify_against_file_def bnd_def of_sum_run ret_run Let_def)
  then show ?thesis
    using ids count by (auto simp: filter_empty_conv)
qed

end

subsection \<open>The properties\<close>

text \<open>
  C32.  Over calm servers of the true rows the order check returns, and passes: the batched request,
  its repetition and the rows fetched one at a time agree, with every id in range and no request
  over \<open>max_rows\<close>.  So a failed check is evidence against a server or the client.
\<close>

theorem order_check_passes_over_true_servers:
  assumes "live_net reply lo n width row E V deployed truth calm limit" and "v_wf V w0"
    and "init_table E to_float environ c w0 = (Inr t, w1)" and "rows_total t = ROWS_TOTAL"
    and "session E (t, w1) s" and "failed (fst s) = None" and "at_ease (fst s)"
    and "calm a b (snd s)" and "b \<le> a + gather_deadline (fst s)"
    and "draws_within randrange" and "0 \<le> k" and "stats \<noteq> []"
    and "\<forall>s\<in>set stats. 0 \<le> stat_base s \<and> stat_base s < stat_end s \<and> stat_end s \<le> ROWS_TOTAL"
    and "max (3 * int (length stats) + min 64 k + 3) k \<le> max_rows (fst s)"
    and "max_rows (fst s) \<le> int limit" and "max_rows (fst s) < 2 ^ 32"
  shows "\<exists>v r' s'. verify_order E randrange stats k r s = (Inr (v, r'), s') \<and>
    vd_ok v \<and> vd_stable v \<and> vd_mismatches v = 0 \<and> vd_samples v = []"
proof -
  have small: "rows_total t \<le> 2 ^ 32"
    using assms(4) by (simp add: ROWS_TOTAL_def)
  note inv = trusted_net.session_from_init [OF live_net.axioms(1) [OF assms(1)] assms(3,2) small assms(5)]
  have n: "ROWS_TOTAL \<le> int (nat (rows_total t))" "int (nat (rows_total t)) = ROWS_TOTAL"
    using assms(4) by (simp_all add: ROWS_TOTAL_def)
  show ?thesis
    using live_net.verify_order_lives [OF assms(1) live_net.working_at_ease [OF assms(1) inv(1) assms(6-9)]
        inv(2) n(1) assms(10-12) _ assms(14-16)] assms(13) n(2) by auto
qed

definition halves_stats :: "peer_stat list" where
  "halves_stats = [(''a:9001'', \<lparr>st_base_row = 0, st_row_count = 160000768, st_row_bytes = 160,
      st_resident_pages = 0, st_served_requests = 0\<rparr>),
     (''b:9002'', \<lparr>st_base_row = 160000768, st_row_count = 160000768, st_row_bytes = 160,
      st_resident_pages = 0, st_served_requests = 0\<rparr>)]"

definition lowest :: "int \<Rightarrow> int \<Rightarrow> unit \<Rightarrow> int \<times> unit" where
  "lowest lo hi r = (lo, r)"

lemma lowest_within: "draws_within lowest"
  by (simp add: draws_within_def lowest_def)

theorem order_check_passes_over_true_servers_witness:
  "\<exists>t u v s. opened 320001536 160 [] = (Inr t, u) \<and> vd_ok v \<and>
     verify_order (loop_net (two_halves 320001536 160)) lowest halves_stats 256 () (t, u) = (Inr (v, ()), s)"
proof -
  obtain t u where o: "opened 320001536 160 [] = (Inr t, u)" and t: "rows_total t = 320001536"
    "failed t = None" "gather_deadline t = 120" "max_rows t = 131072" "at_ease t" "lo_calm 0 1 u"
    using opened_run [OF at_ease_run] by metis
  have "\<exists>v r' s'. verify_order (loop_net (two_halves 320001536 160)) lowest halves_stats 256 () (t, u) =
      (Inr (v, r'), s') \<and> vd_ok v \<and> vd_stable v \<and> vd_mismatches v = 0 \<and> vd_samples v = []"
    by (rule order_check_passes_over_true_servers
        [OF two_live _ opened_init [OF o] _ session.opened, where a = 0 and b = 1])
      (simp_all add: t loop_view_def lowest_within halves_stats_def stat_base_def stat_end_def ROWS_TOTAL_def)
  then show ?thesis
    using o by auto
qed

text \<open>
  Every run the command line lets through has at least one iteration and between 1 and
  \<open>max_rows\<close> rows per gather, so the routing of its requests never fails for want of room, however
  unevenly the ids fall on the peers.
\<close>

lemma planned_gathers_fit_one_peer:
  assumes "bench_setup exists dflt have_client a = Inr (addrs, reference, run_order, plan)"
    and "(name, nrows, iters) \<in> set plan" and "max_rows (fst s) = a_max_rows a"
    and "length (sel (fst s)) = length (peers (fst s))" and "int (length ids) = nrows"
  shows "1 \<le> iters \<and> 1 \<le> nrows \<and> nrows \<le> a_max_rows a \<and> (\<exists>routed s'. partition_ids ids s = (Inr routed, s'))"
proof -
  note su = bench_setup_Inr [OF assms(1)]
  have n: "1 \<le> nrows" "nrows \<le> a_max_rows a"
    using check_plan_all [OF su(2) assms(2)] by simp_all
  have "length (positions ids p) \<le> length ids" for p
    unfolding positions_def by (metis length_filter_le length_upt diff_zero)
  then have "\<forall>p\<in>set (peers (fst s)). fits (fst s) ids p"
    using n(2) assms(3,5) unfolding fits_def by (metis of_nat_mono order_trans)
  then show ?thesis
    using partition_ids_ok [OF assms(4)] n build_plan_iters [OF su(1,3) assms(2)] by blast
qed

definition demo_args :: args where
  "demo_args = \<lparr>a_peers = ''a:1, b:2'', a_mode = Decode, a_rows = Some 3, a_sweep = None, a_iters = None,
     a_warmup = 0, a_max_rows = 3, a_timeout = 10, a_verify_against = None, a_verify_base = None,
     a_verify_order = False, a_verify_samples = 1\<rparr>"

lemma demo_setup:
  "bench_setup (\<lambda>p. False) [] True demo_args = Inr ([''a:1'', ''b:2''], None, False, [(''decode'', 3, 200)])"
  by (simp add: bench_setup_def demo_args_def bench_peers_def py_strip_def py_space_def
      resolve_reference_def build_plan_def or_default_def BENCH_PORT_def show_int_def)

text \<open>
  C31.  Over calm servers of the true rows the comparison with a file returns, for any file of whole
  rows whose place was resolved and lies within what the peers serve; it checks the sampled ids, and
  the mismatches it reports are exactly the sampled rows in which the file differs from the truth.
\<close>

theorem file_check_counts_the_rows_that_differ:
  assumes "live_net reply lo n width row E V deployed truth calm limit" and "v_wf V w0"
    and "init_table E to_float environ c w0 = (Inr t, w1)" and "rows_total t \<le> 2 ^ 32"
    and "session E (t, w1) s" and "failed (fst s) = None" and "at_ease (fst s)"
    and "calm a b (snd s)" and "b \<le> a + gather_deadline (fst s)" and "draws_within randrange"
    and "int (length file) = nrows * BENCH_ROW_BYTES" and "8 \<le> nrows"
    and "resolve_verify_base can_bind nrows stats given = Inr (start, why)"
    and "check_reference_range start nrows stats = Inr ()"
    and "\<forall>s\<in>set stats. 0 \<le> stat_base s \<and> stat_end s \<le> rows_total t"
    and "\<forall>i<nat (rows_total t). length (truth i) = 160" and "max 71 k \<le> max_rows (fst s)"
    and "max_rows (fst s) \<le> int limit" and "max_rows (fst s) < 2 ^ 32"
  shows "\<exists>v r' ids s'. verify_against_file E can_bind randrange stats file given k r s = (Inr (v, r'), s') \<and>
    sample_ids randrange start (start + nrows) k r = Inr (ids, r') \<and> vd_checked v = length ids \<and>
    vd_mismatches v = length (filter (\<lambda>i. truth (nat i) \<noteq> take 160 (drop (nat ((i - start) * 160)) file)) ids) \<and>
    (vd_ok v \<longleftrightarrow> (\<forall>i\<in>set ids. truth (nat i) = take 160 (drop (nat ((i - start) * 160)) file)))"
proof -
  note inv = trusted_net.session_from_init [OF live_net.axioms(1) [OF assms(1)] assms(3,2,4,5)]
  have "\<forall>s\<in>set stats. 0 \<le> stat_base s \<and> stat_end s \<le> int (nat (rows_total t))"
    using assms(15) inv(3) by simp
  then show ?thesis
    by (rule live_net.verify_against_file_lives [OF assms(1)
        live_net.working_at_ease [OF assms(1) inv(1) assms(6-9)] inv(2) assms(10-14) _ assms(16-19)])
qed

theorem file_check_counts_the_rows_that_differ_witness:
  "\<exists>t u v s. opened 320001536 160 [] = (Inr t, u) \<and> vd_checked v = 71 \<and>
     verify_against_file (loop_net (two_halves 320001536 160)) (\<lambda>h. False) lowest halves_stats
       (replicate 1280 0) (Some 160000760) 71 () (t, u) = (Inr (v, ()), s)"
proof -
  obtain t u where o: "opened 320001536 160 [] = (Inr t, u)" and t: "rows_total t = 320001536"
    "failed t = None" "gather_deadline t = 120" "max_rows t = 131072" "at_ease t" "lo_calm 0 1 u"
    using opened_run [OF at_ease_run] by metis
  have "\<exists>v r' ids s'. verify_against_file (loop_net (two_halves 320001536 160)) (\<lambda>h. False) lowest
      halves_stats (replicate 1280 0) (Some 160000760) 71 () (t, u) = (Inr (v, r'), s') \<and>
    sample_ids lowest 160000760 (160000760 + 8) 71 () = Inr (ids, r') \<and> vd_checked v = length ids \<and>
    vd_mismatches v = length (filter (\<lambda>i. matrix_row (synthetic_table 320001536 160) (nat i) \<noteq>
      take 160 (drop (nat ((i - 160000760) * 160)) (replicate 1280 0))) ids) \<and>
    (vd_ok v \<longleftrightarrow> (\<forall>i\<in>set ids. matrix_row (synthetic_table 320001536 160) (nat i) =
      take 160 (drop (nat ((i - 160000760) * 160)) (replicate 1280 0))))"
    by (rule file_check_counts_the_rows_that_differ
        [OF two_live _ opened_init [OF o] _ session.opened, where a = 0 and b = 1])
      (simp_all add: t loop_view_def lowest_within halves_stats_def stat_base_def stat_end_def
        BENCH_ROW_BYTES_def resolve_verify_base_def check_reference_range_def matrix_row_def synthetic_table_def)
  then obtain v ids r' s where v: "verify_against_file (loop_net (two_halves 320001536 160)) (\<lambda>h. False) lowest
      halves_stats (replicate 1280 0) (Some 160000760) 71 () (t, u) = (Inr (v, r'), s)"
    "sample_ids lowest 160000760 (160000760 + 8) 71 () = Inr (ids, r')" "vd_checked v = length ids"
    by blast
  then show ?thesis
    using o sample_ids_cover [OF lowest_within v(2)] by auto
qed

end
