(* ===== verification/Kv.thy ===== *)
theory Kv
  imports Complex_Main
begin

section \<open>Sizing the KV pool\<close>

text \<open>
  \<open>bench/kv_sizing.py\<close>: the block accounting (\<open>live_overhead\<close>, \<open>retained_blocks\<close>,
  \<open>blocks_needed\<close>, \<open>pool_blocks\<close>), the check of the model against three measured outcomes, and
  the report, with its search for the largest context that fits.  Python's integers are \<open>int\<close>; its
  floats are rationals, which is exact for the quotients here (all below \<open>2 ^ 53\<close>).  Printed lines
  are the tuples of the values they show.
\<close>

definition BLOCK_BYTES :: int where "BLOCK_BYTES = 45260800"
definition BLOCK_TOKENS :: int where "BLOCK_TOKENS = 3200"
definition MAMBA_GROUPS :: int where "MAMBA_GROUPS = 4"
definition GIB :: int where "GIB = 2 ^ 30"
definition TOTAL_GIB :: rat where "TOTAL_GIB = 12163 / 100"
definition VLLM_NON_KV_GIB :: rat where "VLLM_NON_KV_GIB = 8068 / 100"
definition OS_BASELINE_GIB :: rat where "OS_BASELINE_GIB = 657 / 100"

lemmas kv_consts = BLOCK_BYTES_def BLOCK_TOKENS_def MAMBA_GROUPS_def GIB_def TOTAL_GIB_def
  VLLM_NON_KV_GIB_def OS_BASELINE_GIB_def

definition live_overhead :: "int \<Rightarrow> int" where
  "live_overhead spec_tokens = MAMBA_GROUPS * (2 + spec_tokens) + 1"

text \<open>\<open>math.ceil(a / b)\<close>.\<close>

definition ceil_ratio :: "int \<Rightarrow> int \<Rightarrow> int" where
  "ceil_ratio a b = \<lceil>of_int a / (of_int b :: rat)\<rceil>"

definition retained_blocks :: "int \<Rightarrow> int \<Rightarrow> int" where
  "retained_blocks ctx interval =
     ceil_ratio ctx BLOCK_TOKENS + MAMBA_GROUPS * ceil_ratio ctx interval"

definition blocks_needed :: "int \<Rightarrow> int \<Rightarrow> int \<Rightarrow> int \<Rightarrow> int \<Rightarrow> int" where
  "blocks_needed sessions ctx interval running spec_tokens =
     sessions * retained_blocks ctx interval + running * live_overhead spec_tokens"

text \<open>\<open>int(x)\<close> of a float rounds towards zero; \<open>//\<close> rounds down.\<close>

definition py_trunc :: "rat \<Rightarrow> int" where
  "py_trunc x = (if 0 \<le> x then \<lfloor>x\<rfloor> else \<lceil>x\<rceil>)"

definition pool_blocks :: "rat \<Rightarrow> int" where
  "pool_blocks kv_gib = py_trunc (kv_gib * of_int GIB) div BLOCK_BYTES"

subsection \<open>The check against what was measured\<close>

datatype outcome = EVICTED | RETAINED

type_synonym measured = "int \<times> int \<times> int \<times> int \<times> outcome"

definition model_cases :: "measured list" where
  "model_cases = [(8, 124056, 3200, 1, EVICTED), (12, 20675, 3200, 1, RETAINED),
     (8, 124056, 25600, 1, RETAINED)]"

definition predicted :: "measured \<Rightarrow> int \<times> outcome" where
  "predicted c = (case c of (sessions, ctx, interval, running, observed) \<Rightarrow>
     let need = blocks_needed (sessions + 1) ctx interval running 3
     in (need, if need \<le> 664 then RETAINED else EVICTED))"

definition check_model :: "(bool \<times> int \<times> outcome) list \<times> bool" where
  "check_model =
     (let outs = map (\<lambda>c. (snd (predicted c) = snd (snd (snd (snd c))), predicted c)) model_cases
      in (outs, list_all fst outs))"

subsection \<open>The report\<close>

record sizing =
  sessions :: int
  kv_context :: int
  running :: int
  spec_tokens :: int
  os_reserve :: rat

definition fits28 :: "sizing \<Rightarrow> int \<Rightarrow> int \<Rightarrow> bool" where
  "fits28 a interval ctx \<longleftrightarrow>
     blocks_needed (sessions a) ctx interval (running a) (spec_tokens a) \<le> pool_blocks 28"

text \<open>The binary search over a test \<open>ok\<close>.\<close>

function largest :: "(int \<Rightarrow> bool) \<Rightarrow> int \<Rightarrow> int \<Rightarrow> int" where
  "largest ok lo hi =
     (if lo < hi then
        (let mid = (lo + hi + 1) div 2
         in if ok mid then largest ok mid hi else largest ok lo (mid - 1))
      else lo)"
  by pat_completeness auto
termination
  by (relation "measure (\<lambda>(ok, lo, hi). nat (hi - lo))") auto

declare largest.simps [simp del]

type_synonym kv_row = "int \<times> int \<times> int \<times> rat \<times> bool \<times> int"

definition kv_row :: "sizing \<Rightarrow> int \<Rightarrow> kv_row" where
  "kv_row a interval =
     (let need = blocks_needed (sessions a) (kv_context a) interval (running a) (spec_tokens a)
      in (interval, retained_blocks (kv_context a) interval, need,
          of_int (need * BLOCK_BYTES) / of_int GIB, need \<le> pool_blocks 28,
          largest (fits28 a interval) 1000 262144))"

definition INTERVALS :: "int list" where
  "INTERVALS = [3200, 6400, 12800, 25600, 51200, 102400, 262144]"

definition kv_report :: "sizing \<Rightarrow> bool \<times> rat \<times> int \<times> rat \<times> int \<times> kv_row list \<times> int" where
  "kv_report a =
     (let budget = TOTAL_GIB - VLLM_NON_KV_GIB - OS_BASELINE_GIB
      in (snd check_model, budget, pool_blocks budget, budget - os_reserve a,
          pool_blocks (budget - os_reserve a), map (kv_row a) INTERVALS, pool_blocks 28))"

subsection \<open>Rounding\<close>

text \<open>The quotient rounded up, in integers: what the float computation comes to.\<close>

lemma ceil_ratio_div: "0 < b \<Longrightarrow> ceil_ratio a b = (a + b - 1) div b"
proof -
  assume b: "0 < b"
  let ?q = "(a + b - 1) div b"
  have "b * ?q + (a + b - 1) mod b = a + b - 1" "0 \<le> (a + b - 1) mod b" "(a + b - 1) mod b < b"
    using b by simp_all
  then have q: "a \<le> ?q * b" "(?q - 1) * b < a"
    unfolding left_diff_distrib mult.commute [of ?q b] by linarith+
  have "of_int a \<le> (of_int ?q * of_int b :: rat)" "(of_int (?q - 1) * of_int b :: rat) < of_int a"
    using q by (simp_all only: of_int_mult [symmetric] of_int_le_iff of_int_less_iff)
  then show ?thesis
    unfolding ceil_ratio_def using b
    by (intro ceiling_unique) (simp_all add: pos_less_divide_eq pos_divide_le_eq)
qed

lemma ceil_ratio_mono: "0 < b \<Longrightarrow> a \<le> a' \<Longrightarrow> ceil_ratio a b \<le> ceil_ratio a' b"
  by (simp add: ceil_ratio_div zdiv_mono1)

lemma blocks_needed_mono:
  assumes "0 \<le> n" and "0 < interval" and "ctx \<le> ctx'"
  shows "blocks_needed n ctx interval r k \<le> blocks_needed n ctx' interval r k"
proof -
  have "retained_blocks ctx interval \<le> retained_blocks ctx' interval"
    unfolding retained_blocks_def using assms(2,3)
    by (intro add_mono mult_left_mono ceil_ratio_mono) (simp_all add: kv_consts)
  then show ?thesis
    unfolding blocks_needed_def using assms(1) by (simp add: mult_left_mono)
qed

lemma largest_fits:
  assumes "ok lo" and "lo \<le> hi" and "\<And>c d. c \<le> d \<Longrightarrow> ok d \<Longrightarrow> ok c"
  shows "lo \<le> largest ok lo hi \<and> largest ok lo hi \<le> hi \<and> ok (largest ok lo hi) \<and>
    (\<forall>c. largest ok lo hi < c \<longrightarrow> c \<le> hi \<longrightarrow> \<not> ok c)"
  using assms(1,2)
proof (induction "nat (hi - lo)" arbitrary: lo hi rule: less_induct)
  case less
  let ?m = "(lo + hi + 1) div 2"
  show ?case
  proof (cases "lo < hi")
    case False
    then show ?thesis
      using less.prems largest.simps [of ok lo hi] by simp
  next
    case True
    then have m: "lo < ?m" "?m \<le> hi"
      by auto
    show ?thesis
    proof (cases "ok ?m")
      case ok: True
      have "nat (hi - ?m) < nat (hi - lo)"
        using m True by simp
      from less.hyps [OF this ok m(2)] show ?thesis
        using ok True m(1) by (simp add: largest.simps [of ok lo hi] Let_def)
    next
      case no: False
      have "nat (?m - 1 - lo) < nat (hi - lo)" "lo \<le> ?m - 1"
        using m True by simp_all
      note ih = less.hyps [OF this(1) less.prems(1) this(2)]
      have "\<not> ok c" if "?m \<le> c" for c
        using assms(3) [OF that] no by blast
      then show ?thesis
        using ih no True m by (auto simp: largest.simps [of ok lo hi] Let_def)
    qed
  qed
qed

lemma largest_never:
  assumes "\<And>c. lo < c \<Longrightarrow> \<not> ok c"
  shows "largest ok lo hi = lo"
proof (induction "nat (hi - lo)" arbitrary: hi rule: less_induct)
  case less
  show ?case
    using less.hyps [of "(lo + hi + 1) div 2 - 1"] assms by (simp add: largest.simps [of ok lo hi] Let_def)
qed

subsection \<open>What the report says\<close>

text \<open>
  C30.  The last column of the report is the largest context, up to 262144 tokens, that fits the
  deployed 28 GiB at that interval, provided the smallest one tried does.
\<close>

theorem reported_context_is_the_largest_that_fits:
  assumes "0 \<le> sessions a" and "0 < interval" and "fits28 a interval 1000"
  shows "case kv_row a interval of (_, _, _, _, _, c) \<Rightarrow> 1000 \<le> c \<and> c \<le> 262144 \<and> fits28 a interval c \<and>
    (\<forall>d. c < d \<longrightarrow> d \<le> 262144 \<longrightarrow> \<not> fits28 a interval d)"
proof -
  have "fits28 a interval c" if "c \<le> d" "fits28 a interval d" for c d
    using blocks_needed_mono [OF assms(1,2) that(1)] that(2) unfolding fits28_def by (rule order.trans)
  from largest_fits [of "fits28 a interval", OF assms(3) _ this, of 262144] show ?thesis
    by (auto simp: kv_row_def Let_def)
qed

lemma pool_28: "pool_blocks 28 = 664"
  by (simp add: pool_blocks_def py_trunc_def kv_consts)

theorem reported_context_is_the_largest_that_fits_witness:
  "\<exists>c. snd (snd (snd (snd (snd (kv_row \<lparr>sessions = 8, kv_context = 125000, running = 8, spec_tokens = 3,
     os_reserve = 8\<rparr> 25600))))) = c \<and> 1000 \<le> c \<and> c \<le> 262144"
proof -
  let ?a = "\<lparr>sessions = 8, kv_context = 125000, running = 8, spec_tokens = 3, os_reserve = 8\<rparr>"
  have "fits28 ?a 25600 1000"
    by (simp add: fits28_def pool_28 blocks_needed_def retained_blocks_def live_overhead_def ceil_ratio_div kv_consts)
  from reported_context_is_the_largest_that_fits [OF _ _ this] show ?thesis
    by (auto split: prod.splits)
qed

text \<open>
  \<open>pool_blocks\<close> is the number of whole blocks in that many GiB, no more and no fewer.
\<close>

lemma pool_blocks_are_whole_blocks:
  assumes "0 \<le> g"
  shows "of_int (pool_blocks g * BLOCK_BYTES) \<le> g * of_int GIB \<and>
    g * of_int GIB < of_int ((pool_blocks g + 1) * BLOCK_BYTES)"
proof -
  let ?x = "g * of_int GIB"
  have x: "0 \<le> ?x"
    using assms by (simp add: kv_consts)
  have "pool_blocks g * BLOCK_BYTES + \<lfloor>?x\<rfloor> mod BLOCK_BYTES = \<lfloor>?x\<rfloor>"
    "0 \<le> \<lfloor>?x\<rfloor> mod BLOCK_BYTES" "\<lfloor>?x\<rfloor> mod BLOCK_BYTES < BLOCK_BYTES"
    using x by (simp_all add: pool_blocks_def py_trunc_def kv_consts)
  then have "pool_blocks g * BLOCK_BYTES \<le> \<lfloor>?x\<rfloor>" "\<lfloor>?x\<rfloor> < (pool_blocks g + 1) * BLOCK_BYTES"
    by (simp_all add: algebra_simps)
  then show ?thesis
    by (simp add: le_floor_iff floor_less_iff)
qed

text \<open>
  The model reproduces the three measured outcomes, and dense retention (an interval of one
  block) costs five blocks for every started 3200 tokens.
\<close>

lemma model_reproduces_the_measurements:
  "snd check_model \<and> map (fst \<circ> snd) (fst check_model) = [1776, 476, 552] \<and>
    retained_blocks ctx BLOCK_TOKENS = 5 * ((ctx + 3199) div 3200)"
  by (simp add: check_model_def model_cases_def predicted_def blocks_needed_def retained_blocks_def
      live_overhead_def ceil_ratio_div kv_consts Let_def)

text \<open>
  When not even 1000 tokens fit, the search has nothing to find and the report still shows
  1000.
\<close>

lemma report_shows_1000_when_nothing_fits:
  assumes "0 \<le> sessions a" and "0 < interval" and "\<not> fits28 a interval 1000"
  shows "snd (snd (snd (snd (snd (kv_row a interval))))) = 1000"
proof -
  have "\<not> fits28 a interval c" if "1000 < c" for c
    using blocks_needed_mono [OF assms(1,2), of 1000 c "running a" "spec_tokens a"] that assms(3)
    by (simp add: fits28_def)
  then show ?thesis
    using largest_never [of 1000 "fits28 a interval" 262144] by (simp add: kv_row_def Let_def)
qed

end
