(* ===== verification/Export.thy ===== *)
theory Export
  imports Settings
begin

section \<open>Exporting a range of rows from the checkpoint\<close>

text \<open>
  \<open>tools/ple_export_half.py\<close>: resolving the shards from the safetensors header (\<open>shard_map\<close>,
  \<open>check\<close>), walking a range of global rows shard by shard (\<open>iter_range\<close>), the digest of the range
  re-cut into blocks, and the digest of a flat file.  \<open>json.loads\<close>, \<open>sha256\<close> and \<open>os.pread\<close> are
  parameters.  Loops that a block size of zero keeps from ending are \<open>partial_function (option)\<close>:
  \<open>None\<close> is a run that never returns.
\<close>

definition ROWS_PER_SHARD :: int where "ROWS_PER_SHARD = 2500012"
definition N_SHARDS :: int where "N_SHARDS = 128"
definition EXPORT_ROW_BYTES :: int where "EXPORT_ROW_BYTES = 160"
definition PREFIX :: string where
  "PREFIX = ''model.language_model.layers.1.ple.ple_embedding.ngram_embedding.shard_''"
definition SUFFIX :: string where "SUFFIX = ''.weight''"

lemmas export_consts = ROWS_PER_SHARD_def N_SHARDS_def EXPORT_ROW_BYTES_def

subsection \<open>The header\<close>

text \<open>An entry of the parsed header; an entry without offsets (the metadata) is \<open>None\<close>.\<close>

record tensor_entry =
  te_offsets :: "int \<times> int"
  te_shape :: "int list"
  te_dtype :: string

record shard =
  sh_begin :: int
  sh_end :: int
  sh_shape :: "int list"
  sh_dtype :: string

type_synonym shards = "int \<rightharpoonup> shard"

definition starts_with :: "string \<Rightarrow> string \<Rightarrow> bool" where
  "starts_with s p \<longleftrightarrow> take (length p) s = p"

definition ends_with :: "string \<Rightarrow> string \<Rightarrow> bool" where
  "ends_with s p \<longleftrightarrow> length p \<le> length s \<and> drop (length s - length p) s = p"

text \<open>\<open>k[len(PREFIX):-len(SUFFIX)]\<close>.\<close>

definition middle :: "string \<Rightarrow> string" where
  "middle k = drop (length PREFIX) (take (length k - length SUFFIX) k)"

fun add_shards :: "int \<Rightarrow> (string \<times> tensor_entry option) list \<Rightarrow> shards \<Rightarrow> exn + shards" where
  "add_shards base [] out = Inr out"
| "add_shards base ((k, v) # hdr) out =
     (if starts_with k PREFIX \<and> ends_with k SUFFIX
      then (case py_int (middle k) of
          Inl e \<Rightarrow> Inl e
        | Inr i \<Rightarrow> (case v of
            None \<Rightarrow> Inl (Exn KeyError (Failed ''data_offsets''))
          | Some t \<Rightarrow> add_shards base hdr (out(i \<mapsto>
              \<lparr>sh_begin = base + fst (te_offsets t), sh_end = base + snd (te_offsets t),
               sh_shape = te_shape t, sh_dtype = te_dtype t\<rparr>))))
      else add_shards base hdr out)"

definition shard_map ::
  "(byte list \<Rightarrow> exn + (string \<times> tensor_entry option) list) \<Rightarrow> byte list \<Rightarrow> exn + shards \<times> int" where
  "shard_map json_loads file =
     (case struct_unpack [8] (take 8 file) of
        Inl e \<Rightarrow> Inl e
      | Inr fs \<Rightarrow> (let hlen = hd fs; base = 8 + int hlen in
          (case json_loads (take hlen (drop 8 file)) of
             Inl e \<Rightarrow> Inl e
           | Inr hdr \<Rightarrow> (case add_shards base hdr Map.empty of
               Inl e \<Rightarrow> Inl e
             | Inr out \<Rightarrow> Inr (out, base)))))"

text \<open>The assertions of \<open>check\<close>; the number of keys is passed in, being a length.\<close>

definition check_shard :: "shards \<Rightarrow> int \<Rightarrow> exn + unit" where
  "check_shard shards i = (case shards i of
     None \<Rightarrow> Inl (Exn AssertionError (Failed ''missing shard''))
   | Some s \<Rightarrow>
       if sh_shape s \<noteq> [ROWS_PER_SHARD, EXPORT_ROW_BYTES] then Inl (Exn AssertionError (Failed ''shape''))
       else if sh_dtype s \<notin> {''F8_E4M3'', ''F8_E4M3FN''} then Inl (Exn AssertionError (Failed ''dtype''))
       else if sh_end s - sh_begin s \<noteq> ROWS_PER_SHARD * EXPORT_ROW_BYTES
       then Inl (Exn AssertionError (Failed ''byte span''))
       else Inr ())"

fun check_shards :: "shards \<Rightarrow> int list \<Rightarrow> exn + unit" where
  "check_shards shards [] = Inr ()"
| "check_shards shards (i # is) =
     (case check_shard shards i of Inl e \<Rightarrow> Inl e | Inr _ \<Rightarrow> check_shards shards is)"

definition check :: "nat \<Rightarrow> shards \<Rightarrow> exn + unit" where
  "check n shards =
     (if int n \<noteq> N_SHARDS then Inl (Exn AssertionError (WrongCount n (nat N_SHARDS)))
      else check_shards shards [0..N_SHARDS - 1])"

subsection \<open>Walking a range\<close>

text \<open>
  \<open>pread n pos\<close> is the file behind \<open>fd\<close>.  The state is the world, the sink's own state and the
  ranges given back to the page cache, the latest first.  A sink may fail to return.
\<close>

type_synonym 'w pread = "int \<Rightarrow> int \<Rightarrow> 'w \<Rightarrow> (exn + byte list) \<times> 'w"
type_synonym ('w, 'k) walk = "'w \<times> 'k \<times> (int \<times> int) list"

partial_function (option) copy_blocks ::
  "'w pread \<Rightarrow> bool \<Rightarrow> int \<Rightarrow> (byte list \<Rightarrow> 'k \<Rightarrow> 'k option) \<Rightarrow> int \<Rightarrow> int \<Rightarrow> ('w, 'k) walk
    \<Rightarrow> ((exn + unit) \<times> ('w, 'k) walk) option" where
  "copy_blocks pread keep_cache block sink pos remaining st =
     (if remaining = 0 then Some (Inr (), st)
      else (case st of (w, k, dropped) \<Rightarrow>
        let n = min block remaining in
        (case pread n pos w of
           (Inl e, w') \<Rightarrow> Some (Inl e, (w', k, dropped))
         | (Inr buf, w') \<Rightarrow>
             if int (length buf) \<noteq> n
             then Some (Inl (Exn IOError (ShortRead (nat pos) (length buf) (nat n))), (w', k, dropped))
             else Option.bind (sink buf k) (\<lambda>k'.
               copy_blocks pread keep_cache block sink (pos + n) (remaining - n)
                 (w', k', if keep_cache then dropped else (pos, n) # dropped)))))"

partial_function (option) walk_shards ::
  "'w pread \<Rightarrow> shards \<Rightarrow> bool \<Rightarrow> int \<Rightarrow> (byte list \<Rightarrow> 'k \<Rightarrow> 'k option) \<Rightarrow> int \<Rightarrow> int \<Rightarrow> ('w, 'k) walk
    \<Rightarrow> ((exn + unit) \<times> ('w, 'k) walk) option" where
  "walk_shards pread shards keep_cache block sink g end st =
     (if g < end then
        (let sh = g div ROWS_PER_SHARD; local = g mod ROWS_PER_SHARD;
             tk = min (ROWS_PER_SHARD - local) (end - g) in
         (case shards sh of
            None \<Rightarrow> Some (Inl (Exn KeyError (NoSuchKey (nat sh))), st)
          | Some s \<Rightarrow>
              Option.bind (copy_blocks pread keep_cache block sink
                  (sh_begin s + local * EXPORT_ROW_BYTES) (tk * EXPORT_ROW_BYTES) st)
                (\<lambda>r. (case r of
                    (Inl e, st') \<Rightarrow> Some (Inl e, st')
                  | (Inr _, st') \<Rightarrow>
                      walk_shards pread shards keep_cache block sink (g + tk) end st'))))
      else Some (Inr (), st))"

definition iter_range ::
  "'w pread \<Rightarrow> shards \<Rightarrow> int \<Rightarrow> int \<Rightarrow> int \<Rightarrow> (byte list \<Rightarrow> 'k \<Rightarrow> 'k option) \<Rightarrow> bool \<Rightarrow> 'w \<Rightarrow> 'k
    \<Rightarrow> ((exn + unit) \<times> ('w, 'k) walk) option" where
  "iter_range pread shards start count block sink keep_cache w k =
     walk_shards pread shards keep_cache block sink start (start + count) (w, k, [])"

subsection \<open>The sinks\<close>

text \<open>Streaming to standard output: the bytes written.\<close>

definition write_out :: "byte list \<Rightarrow> byte list \<Rightarrow> byte list option" where
  "write_out b k = Some (k @ b)"

text \<open>A printed line of a digest: the block's index, its hash, its length.\<close>

type_synonym digest_line = "nat \<times> string \<times> nat"

record digest_state =
  dg_buf :: "byte list"
  dg_lines :: "digest_line list"
  dg_all :: "byte list"

definition emit :: "(byte list \<Rightarrow> string) \<Rightarrow> byte list \<Rightarrow> digest_state \<Rightarrow> digest_state" where
  "emit sha chunk k = k\<lparr>dg_lines := dg_lines k @ [(length (dg_lines k), sha chunk, length chunk)],
     dg_all := dg_all k @ chunk\<rparr>"

partial_function (option) cut_blocks ::
  "(byte list \<Rightarrow> string) \<Rightarrow> nat \<Rightarrow> digest_state \<Rightarrow> digest_state option" where
  "cut_blocks sha block k =
     (if block \<le> length (dg_buf k)
      then cut_blocks sha block
             (emit sha (take block (dg_buf k)) (k\<lparr>dg_buf := drop block (dg_buf k)\<rparr>))
      else Some k)"

definition digest_sink ::
  "(byte list \<Rightarrow> string) \<Rightarrow> nat \<Rightarrow> byte list \<Rightarrow> digest_state \<Rightarrow> digest_state option" where
  "digest_sink sha block b k = cut_blocks sha block (k\<lparr>dg_buf := dg_buf k @ b\<rparr>)"

definition digest_end :: "(byte list \<Rightarrow> string) \<Rightarrow> digest_state \<Rightarrow> digest_line list \<times> string" where
  "digest_end sha k = (let k' = (if dg_buf k \<noteq> [] then emit sha (dg_buf k) k else k)
     in (dg_lines k', sha (dg_all k')))"

definition digest_start :: digest_state where
  "digest_start = \<lparr>dg_buf = [], dg_lines = [], dg_all = []\<rparr>"

text \<open>\<open>--digest\<close> and the plain export, up to the printed lines and the bytes written.\<close>

definition digest_range ::
  "(byte list \<Rightarrow> string) \<Rightarrow> 'w pread \<Rightarrow> shards \<Rightarrow> int \<Rightarrow> int \<Rightarrow> nat \<Rightarrow> bool \<Rightarrow> 'w
    \<Rightarrow> (exn + digest_line list \<times> string) option" where
  "digest_range sha pread shards start count block keep_cache w =
     map_option (\<lambda>(r, (_, k, _)). map_sum id (\<lambda>_. digest_end sha k) r)
       (iter_range pread shards start count (int block) (digest_sink sha block) keep_cache w digest_start)"

definition export_range ::
  "'w pread \<Rightarrow> shards \<Rightarrow> int \<Rightarrow> int \<Rightarrow> nat \<Rightarrow> bool \<Rightarrow> 'w \<Rightarrow> (exn + byte list) option" where
  "export_range pread shards start count block keep_cache w =
     map_option (\<lambda>(r, (_, k, _)). map_sum id (\<lambda>_. k) r)
       (iter_range pread shards start count (int block) write_out keep_cache w [])"

text \<open>\<open>--digest-plain\<close>: blocks of a flat file until a read returns nothing.\<close>

function plain_lines ::
  "(byte list \<Rightarrow> string) \<Rightarrow> nat \<Rightarrow> nat \<Rightarrow> byte list \<Rightarrow> byte list \<Rightarrow> digest_line list \<times> byte list" where
  "plain_lines sha block idx all file =
     (if take block file = [] then ([], all)
      else (case plain_lines sha block (Suc idx) (all @ take block file) (drop block file) of
          (ls, all') \<Rightarrow> ((idx, sha (take block file), length (take block file)) # ls, all')))"
  by pat_completeness auto
termination
  by (relation "measure (\<lambda>(sha, block, idx, all, file). length file)") auto

declare plain_lines.simps [simp del]

definition digest_plain :: "(byte list \<Rightarrow> string) \<Rightarrow> nat \<Rightarrow> byte list \<Rightarrow> digest_line list \<times> string" where
  "digest_plain sha block file = (case plain_lines sha block 0 [] file of (ls, all) \<Rightarrow> (ls, sha all))"

text \<open>\<open>--info\<close>: the shards that are not where offset arithmetic would put them, and the halves.\<close>

definition out_of_order :: "shards \<Rightarrow> int list" where
  "out_of_order shards = filter (\<lambda>i. sh_begin (the (shards i)) \<noteq>
     sh_begin (the (shards 0)) + i * ROWS_PER_SHARD * EXPORT_ROW_BYTES) [0..N_SHARDS - 1]"

definition half_rows :: int where
  "half_rows = N_SHARDS div 2 * ROWS_PER_SHARD"

definition split_halves :: "(int \<times> int) \<times> (int \<times> int)" where
  "split_halves = ((0, half_rows), (half_rows, half_rows))"

subsection \<open>What a checked map looks like\<close>

lemma check_shards_all: "check_shards shards is = Inr () \<longleftrightarrow> (\<forall>i\<in>set is. check_shard shards i = Inr ())"
  by (induction "is") (auto split: sum.splits)

lemma checked_shard:
  assumes "check n shards = Inr ()" and "0 \<le> i" and "i < N_SHARDS"
  obtains s where "shards i = Some s" "sh_end s = sh_begin s + ROWS_PER_SHARD * EXPORT_ROW_BYTES"
proof -
  have "check_shard shards i = Inr ()"
    using assms by (auto simp: check_def check_shards_all split: if_splits)
  then show thesis
    using that by (auto simp: check_shard_def split: option.splits if_splits)
qed

subsection \<open>Two sinks fed by one walk\<close>

text \<open>
  If a second sink can follow every step of the first, it is fed the same blocks by the same walk.
\<close>

definition follows ::
  "('k \<Rightarrow> 'l \<Rightarrow> bool) \<Rightarrow> (byte list \<Rightarrow> 'k \<Rightarrow> 'k option) \<Rightarrow> (byte list \<Rightarrow> 'l \<Rightarrow> 'l option) \<Rightarrow> bool" where
  "follows R sink sink' \<longleftrightarrow> (\<forall>b k l k'. R k l \<longrightarrow> sink b k = Some k' \<longrightarrow>
     (\<exists>l'. sink' b l = Some l' \<and> R k' l'))"

lemma copy_blocks_0 [simp]: "copy_blocks pread keep block sink pos 0 st = Some (Inr (), st)"
  by (simp add: copy_blocks.simps [of _ _ _ _ _ 0])

lemma copy_blocks_follows:
  assumes F: "follows R sink sink'" and block: "0 < block"
    and total: "\<And>b k. sink b k \<noteq> None" and "0 \<le> rem" and "R k l"
  shows "\<exists>r w' k' l' d'. copy_blocks pread keep block sink pos rem (w, k, d) = Some (r, (w', k', d')) \<and>
    copy_blocks pread keep block sink' pos rem (w, l, d) = Some (r, (w', l', d')) \<and> R k' l'"
  using assms(4,5)
proof (induction "nat rem" arbitrary: pos rem w k l d rule: less_induct)
  case less
  note run = copy_blocks.simps [of pread keep block _ pos rem]
  show ?case
  proof (cases "rem = 0")
    case True
    then show ?thesis
      using less.prems by simp
  next
    case False
    let ?n = "min block rem"
    have n: "0 < ?n" "nat (rem - ?n) < nat rem" "0 \<le> rem - ?n"
      using False block less.prems(1) by auto
    obtain x w1 where 1: "pread ?n pos w = (x, w1)"
      by (cases "pread ?n pos w")
    show ?thesis
    proof (cases "\<exists>buf. x = Inr buf \<and> int (length buf) = ?n")
      case False
      then show ?thesis
        using 1 \<open>rem \<noteq> 0\<close> less.prems(2) by (cases x) (auto simp: run Let_def)
    next
      case True
      then obtain buf where buf: "x = Inr buf" "int (length buf) = ?n"
        by blast
      obtain k1 where k1: "sink buf k = Some k1"
        using total [of buf k] by blast
      obtain l1 where l1: "sink' buf l = Some l1" "R k1 l1"
        using F k1 less.prems(2) unfolding follows_def by blast
      from less.hyps [OF n(2,3) l1(2), of "pos + ?n" w1 "if keep then d else (pos, ?n) # d"]
      show ?thesis
        using 1 buf k1 l1(1) \<open>rem \<noteq> 0\<close> by (simp add: run Let_def)
    qed
  qed
qed

lemma walk_shards_end: "end \<le> g \<Longrightarrow> walk_shards pread shards keep block sink g end st = Some (Inr (), st)"
  by (simp add: walk_shards.simps [of _ _ _ _ _ g "end"])

lemma walk_shards_follows:
  assumes F: "follows R sink sink'" and block: "0 < block"
    and total: "\<And>b k. sink b k \<noteq> None" and "R k l"
  shows "\<exists>r w' k' l' d'. walk_shards pread shards keep block sink g end (w, k, d) = Some (r, (w', k', d')) \<and>
    walk_shards pread shards keep block sink' g end (w, l, d) = Some (r, (w', l', d')) \<and> R k' l'"
  using assms(4)
proof (induction "nat (end - g)" arbitrary: g w k l d rule: less_induct)
  case less
  note run = walk_shards.simps [of pread shards keep block _ g "end"]
  show ?case
  proof (cases "g < end \<and> shards (g div ROWS_PER_SHARD) \<noteq> None")
    case False
    then show ?thesis
      using less.prems by (auto simp: run Let_def)
  next
    case True
    then obtain s where s: "shards (g div ROWS_PER_SHARD) = Some s" and g: "g < end"
      by blast
    let ?tk = "min (ROWS_PER_SHARD - g mod ROWS_PER_SHARD) (end - g)"
    have "g mod ROWS_PER_SHARD < ROWS_PER_SHARD"
      by (simp add: export_consts)
    then have tk: "0 < ?tk" "nat (end - (g + ?tk)) < nat (end - g)"
      using g by auto
    then have "0 \<le> ?tk * EXPORT_ROW_BYTES"
      by (simp add: export_consts)
    from copy_blocks_follows [OF F block total this less.prems, of pread keep
        "sh_begin s + g mod ROWS_PER_SHARD * EXPORT_ROW_BYTES" w d]
    obtain r w1 k1 l1 d1 where 1:
      "copy_blocks pread keep block sink (sh_begin s + g mod ROWS_PER_SHARD * EXPORT_ROW_BYTES)
         (?tk * EXPORT_ROW_BYTES) (w, k, d) = Some (r, (w1, k1, d1))"
      "copy_blocks pread keep block sink' (sh_begin s + g mod ROWS_PER_SHARD * EXPORT_ROW_BYTES)
         (?tk * EXPORT_ROW_BYTES) (w, l, d) = Some (r, (w1, l1, d1))" "R k1 l1"
      by blast
    show ?thesis
    proof (cases r)
      case (Inl e)
      then show ?thesis
        using 1 s g by (simp add: run Let_def)
    next
      case (Inr u)
      from less.hyps [OF tk(2) 1(3), of w1 d1] show ?thesis
        using 1 s g Inr by (simp add: run Let_def)
    qed
  qed
qed

subsection \<open>The digest sink cuts the stream where a flat file would be cut\<close>

definition cut :: "(byte list \<Rightarrow> string) \<Rightarrow> nat \<Rightarrow> byte list \<Rightarrow> digest_state \<Rightarrow> bool" where
  "cut sha block out k \<longleftrightarrow> length (dg_buf k) < block \<and> (\<exists>cs. (\<forall>c\<in>set cs. length c = block) \<and>
     out = concat cs @ dg_buf k \<and> dg_all k = concat cs \<and>
     dg_lines k = map (\<lambda>(i, c). (i, sha c, length c)) (enumerate 0 cs))"

lemma cut_blocks_cut:
  assumes "0 < block" and "(\<forall>c\<in>set cs. length c = block)" and "out = concat cs @ dg_buf k"
    and "dg_all k = concat cs" and "dg_lines k = map (\<lambda>(i, c). (i, sha c, length c)) (enumerate 0 cs)"
  shows "\<exists>k'. cut_blocks sha block k = Some k' \<and> cut sha block out k'"
  using assms(2-)
proof (induction "length (dg_buf k)" arbitrary: k cs rule: less_induct)
  case less
  show ?case
  proof (cases "block \<le> length (dg_buf k)")
    case False
    then show ?thesis
      using less.prems by (auto simp: cut_blocks.simps [of sha block k] cut_def intro!: exI [of _ cs])
  next
    case True
    let ?c = "take block (dg_buf k)"
    let ?k = "emit sha ?c (k\<lparr>dg_buf := drop block (dg_buf k)\<rparr>)"
    have "length (dg_buf ?k) < length (dg_buf k)"
      using True assms(1) by (simp add: emit_def)
    moreover have "\<forall>c\<in>set (cs @ [?c]). length c = block"
      using less.prems(1) True by auto
    moreover have "out = concat (cs @ [?c]) @ dg_buf ?k" "dg_all ?k = concat (cs @ [?c])"
      using less.prems(2,3) by (simp_all add: emit_def)
    moreover have "dg_lines ?k = map (\<lambda>(i, c). (i, sha c, length c)) (enumerate 0 (cs @ [?c]))"
      using less.prems(4) by (simp add: emit_def enumerate_append_eq)
    ultimately have "\<exists>k'. cut_blocks sha block ?k = Some k' \<and> cut sha block out k'"
      by (rule less.hyps)
    then show ?thesis
      using True by (simp add: cut_blocks.simps [of sha block k])
  qed
qed

lemma digest_follows: "0 < block \<Longrightarrow> follows (cut sha block) write_out (digest_sink sha block)"
  unfolding follows_def write_out_def digest_sink_def
  by (auto simp: cut_def intro!: cut_blocks_cut [unfolded cut_def])

lemma plain_lines_chunks:
  assumes "0 < block" and "\<forall>c\<in>set cs. length c = block" and "length tail < block"
  shows "plain_lines sha block idx all (concat cs @ tail) =
    (map (\<lambda>(i, c). (i, sha c, length c)) (enumerate idx cs) @
       (if tail = [] then [] else [(idx + length cs, sha tail, length tail)]),
     all @ concat cs @ tail)"
  using assms(2)
proof (induction cs arbitrary: idx all)
  case Nil
  show ?case
    using assms(1,3) plain_lines.simps [of sha block idx all tail]
      plain_lines.simps [of sha block "Suc idx" "all @ tail" "[]"]
    by simp
next
  case (Cons c cs)
  then show ?case
    using assms(1) plain_lines.simps [of sha block idx all "concat (c # cs) @ tail"] by auto
qed

lemma digest_end_cut:
  assumes "0 < block" and "cut sha block out k"
  shows "digest_end sha k = digest_plain sha block out"
proof -
  obtain cs where cs: "\<forall>c\<in>set cs. length c = block" "out = concat cs @ dg_buf k" "dg_all k = concat cs"
    "dg_lines k = map (\<lambda>(i, c). (i, sha c, length c)) (enumerate 0 cs)" "length (dg_buf k) < block"
    using assms(2) by (auto simp: cut_def)
  show ?thesis
    using plain_lines_chunks [OF assms(1) cs(1,5), of sha 0 "[]"] cs
    by (auto simp: digest_plain_def digest_end_def emit_def Let_def)
qed

text \<open>
  C26.  The digest of a range read from the checkpoint is, line by line and in total, the digest of
  the flat file that exporting the range with the same block size writes; both runs end, and one
  raises exactly when the other does.
\<close>

theorem range_digest_is_the_digest_of_the_export:
  assumes "0 < block"
  shows "\<exists>r. export_range pread shards start n block keep w = Some r \<and>
    digest_range sha pread shards start n block keep w = Some (map_sum id (digest_plain sha block) r)"
proof -
  have "cut sha block [] digest_start"
    using assms by (auto simp: cut_def digest_start_def intro!: exI [of _ "[]"])
  from walk_shards_follows [OF digest_follows [OF assms] _ _ this, of "int block" pread shards keep start
      "start + n" w "[]"]
  obtain r w' k l d where "walk_shards pread shards keep (int block) write_out start (start + n) (w, [], []) =
      Some (r, (w', k, d))"
    "walk_shards pread shards keep (int block) (digest_sink sha block) start (start + n) (w, digest_start, []) =
      Some (r, (w', l, d))" "cut sha block k l"
    using assms by (auto simp: write_out_def)
  then show ?thesis
    using digest_end_cut [OF assms]
    by (cases r) (auto simp: export_range_def digest_range_def iter_range_def)
qed

theorem range_digest_is_the_digest_of_the_export_witness:
  "\<exists>r. export_range (\<lambda>n pos w. (Inr (replicate (nat n) 7), w)) (\<lambda>i. None) 0 5 2 False () = Some r \<and>
    digest_range (\<lambda>c. []) (\<lambda>n pos w. (Inr (replicate (nat n) 7), w)) (\<lambda>i. None) 0 5 2 False () =
      Some (map_sum id (digest_plain (\<lambda>c. []) 2) r)"
  by (rule range_digest_is_the_digest_of_the_export) simp

subsection \<open>What an export writes\<close>

text \<open>A file that reads back as it is, and the bytes of a global row in it.\<close>

definition file_pread :: "byte list \<Rightarrow> unit pread" where
  "file_pread file n pos w = (Inr (take (nat n) (drop (nat pos) file)), w)"

definition global_row :: "byte list \<Rightarrow> shards \<Rightarrow> int \<Rightarrow> byte list" where
  "global_row file shards g =
     take (nat EXPORT_ROW_BYTES) (drop (nat (sh_begin (the (shards (g div ROWS_PER_SHARD))) +
       g mod ROWS_PER_SHARD * EXPORT_ROW_BYTES)) file)"

definition piece :: "byte list \<Rightarrow> int \<Rightarrow> int \<Rightarrow> byte list" where
  "piece file pos n = take (nat n) (drop (nat pos) file)"

lemma piece_append:
  assumes "0 \<le> pos" and "0 \<le> n" and "0 \<le> m"
  shows "piece file pos n @ piece file (pos + n) m = piece file pos (n + m)"
proof -
  have "take (nat (n + m)) (drop (nat pos) file) =
      take (nat n) (drop (nat pos) file) @ take (nat m) (drop (nat n) (drop (nat pos) file))"
    using assms by (simp add: nat_add_distrib take_add)
  then show ?thesis
    using assms by (simp add: piece_def nat_add_distrib add.commute)
qed

lemma copy_blocks_piece:
  assumes "0 < block" and "0 \<le> rem" and "0 \<le> pos" and "pos + rem \<le> int (length file)"
  shows "\<exists>d'. copy_blocks (file_pread file) keep block write_out pos rem ((), k, d) =
    Some (Inr (), ((), k @ piece file pos rem, d'))"
  using assms(2-)
proof (induction "nat rem" arbitrary: pos rem k d rule: less_induct)
  case less
  show ?case
  proof (cases "rem = 0")
    case True
    then show ?thesis by (simp add: piece_def)
  next
    case False
    let ?n = "min block rem"
    have n: "0 < ?n" "nat (rem - ?n) < nat rem" "0 \<le> rem - ?n" "0 \<le> pos + ?n"
      "pos + ?n + (rem - ?n) \<le> int (length file)"
      using False assms(1) less.prems by auto
    have len: "int (length (piece file pos ?n)) = ?n"
      using n less.prems by (simp add: piece_def nat_le_iff)
    note step = copy_blocks.simps [of "file_pread file" keep block write_out pos rem]
    obtain d' where "copy_blocks (file_pread file) keep block write_out (pos + ?n) (rem - ?n)
        ((), k @ piece file pos ?n, if keep then d else (pos, ?n) # d) =
      Some (Inr (), ((), (k @ piece file pos ?n) @ piece file (pos + ?n) (rem - ?n), d'))"
      using less.hyps [OF n(2-5), of "k @ piece file pos ?n" "if keep then d else (pos, ?n) # d"] by blast
    moreover have "piece file pos ?n @ piece file (pos + ?n) (rem - ?n) = piece file pos rem"
      using piece_append [of pos ?n "rem - ?n" "file"] n less.prems by simp
    ultimately show ?thesis
      using False len by (simp add: step Let_def file_pread_def piece_def write_out_def)
  qed
qed

lemma piece_rows:
  assumes "0 \<le> pos"
  shows "piece file pos (int n * EXPORT_ROW_BYTES) =
    concat (map (\<lambda>j. piece file (pos + int j * EXPORT_ROW_BYTES) EXPORT_ROW_BYTES) [0..<n])"
proof (induction n)
  case 0
  then show ?case by (simp add: piece_def)
next
  case (Suc n)
  have "0 \<le> int n * EXPORT_ROW_BYTES" "0 \<le> EXPORT_ROW_BYTES"
    by (simp_all add: export_consts)
  from piece_append [OF assms this, of "file"] show ?case
    using Suc by (simp add: algebra_simps)
qed

definition in_file :: "byte list \<Rightarrow> shards \<Rightarrow> bool" where
  "in_file file shards \<longleftrightarrow> list_all (\<lambda>i. case shards i of None \<Rightarrow> True
     | Some s \<Rightarrow> 0 \<le> sh_begin s \<and> sh_end s \<le> int (length file)) [0..N_SHARDS - 1]"

lemma in_fileD:
  "in_file file shards \<Longrightarrow> shards i = Some s \<Longrightarrow> 0 \<le> i \<Longrightarrow> i < N_SHARDS
    \<Longrightarrow> 0 \<le> sh_begin s \<and> sh_end s \<le> int (length file)"
  by (auto simp: in_file_def list_all_iff split: option.splits)

text \<open>The rows from \<open>g\<close> to \<open>end\<close>.\<close>

definition rows_of :: "byte list \<Rightarrow> shards \<Rightarrow> int \<Rightarrow> int \<Rightarrow> byte list" where
  "rows_of file shards g end = concat (map (global_row file shards) [g..end - 1])"

lemma rows_of_split:
  assumes "g \<le> m" and "m \<le> end"
  shows "rows_of file shards g end = rows_of file shards g m @ rows_of file shards m end"
proof -
  have "[g..end - 1] = [g..m - 1] @ [m..end - 1]"
  proof (cases "m = end")
    case False
    then show ?thesis
      using assms by (intro upto_split1) simp_all
  qed simp
  then show ?thesis
    by (simp add: rows_of_def)
qed

lemma rows_in_shard:
  assumes "shards (g div ROWS_PER_SHARD) = Some s" and "0 \<le> sh_begin s"
    and "0 \<le> n" and "n \<le> ROWS_PER_SHARD - g mod ROWS_PER_SHARD"
  shows "piece file (sh_begin s + g mod ROWS_PER_SHARD * EXPORT_ROW_BYTES) (n * EXPORT_ROW_BYTES) =
    rows_of file shards g (g + n)"
proof -
  let ?R = "ROWS_PER_SHARD" and ?pos = "sh_begin s + g mod ROWS_PER_SHARD * EXPORT_ROW_BYTES"
  have R: "0 < ?R"
    by (simp add: export_consts)
  have pos: "0 \<le> ?pos"
    using assms(2) R by (simp add: export_consts)
  have row: "piece file (?pos + int j * EXPORT_ROW_BYTES) EXPORT_ROW_BYTES =
      global_row file shards (g + int j)" if "j < nat n" for j
  proof -
    have j: "0 \<le> g mod ?R + int j" "g mod ?R + int j < ?R"
      using that assms(3,4) R by auto
    have "g + int j = g div ?R * ?R + (g mod ?R + int j)"
      by simp
    then have "(g + int j) div ?R = g div ?R" "(g + int j) mod ?R = g mod ?R + int j"
      using j by (metis add.commute add.right_neutral div_mult_self1 div_pos_pos_trivial R less_irrefl,
          metis mod_mult_self3 mod_pos_pos_trivial)
    then show ?thesis
      using assms(1) by (simp add: piece_def global_row_def algebra_simps)
  qed
  have "[g..g + n - 1] = map (\<lambda>j. g + int j) [0..<nat n]"
    using assms(3) by (intro nth_equalityI) auto
  then have "rows_of file shards g (g + n) = concat (map (\<lambda>j. global_row file shards (g + int j)) [0..<nat n])"
    by (simp add: rows_of_def o_def)
  also have "\<dots> = piece file ?pos (int (nat n) * EXPORT_ROW_BYTES)"
    unfolding piece_rows [OF pos] by (intro arg_cong [of _ _ concat] map_cong) (simp_all add: row)
  finally show ?thesis
    using assms(3) by simp
qed

lemma shard_fit:
  assumes "0 < t" and "t \<le> R - l" and "0 \<le> b" and "b + R * EXPORT_ROW_BYTES \<le> L" and "0 \<le> l"
  shows "0 \<le> t * EXPORT_ROW_BYTES \<and> 0 \<le> b + l * EXPORT_ROW_BYTES \<and>
    b + l * EXPORT_ROW_BYTES + t * EXPORT_ROW_BYTES \<le> L"
  using assms by (simp add: EXPORT_ROW_BYTES_def)

lemma walk_shards_rows:
  assumes c: "check m shards = Inr ()" and f: "in_file file shards" and "0 < block"
    and "end \<le> N_SHARDS * ROWS_PER_SHARD" and "0 \<le> g" and "g \<le> end"
  shows "\<exists>d'. walk_shards (file_pread file) shards keep block write_out g end ((), k, d) =
    Some (Inr (), ((), k @ rows_of file shards g end, d'))"
  using assms(5-)
proof (induction "nat (end - g)" arbitrary: g k d rule: less_induct)
  case less
  note run = walk_shards.simps [of "file_pread file" shards keep block write_out g "end"]
  show ?case
  proof (cases "g < end")
    case False
    then show ?thesis
      using less.prems by (simp add: walk_shards_end rows_of_def)
  next
    case True
    let ?R = "ROWS_PER_SHARD" and ?l = "g mod ROWS_PER_SHARD"
    let ?tk = "min (?R - ?l) (end - g)"
    have R: "0 < ?R" "0 \<le> ?l" "?l < ?R"
      by (simp_all add: export_consts)
    have "g < N_SHARDS * ?R"
      using True assms(4) by simp
    then have sh: "0 \<le> g div ?R" "g div ?R < N_SHARDS"
      using less.prems(1) R(1) by (simp_all add: pos_imp_zdiv_nonneg_iff export_consts)
    obtain s where s: "shards (g div ?R) = Some s" "sh_end s = sh_begin s + ?R * EXPORT_ROW_BYTES"
      using checked_shard [OF c sh] by blast
    have b: "0 \<le> sh_begin s" "sh_begin s + ?R * EXPORT_ROW_BYTES \<le> int (length file)"
      using in_fileD [OF f s(1) sh] s(2) by simp_all
    have tk: "0 < ?tk" "?tk \<le> ?R - ?l" "nat (end - (g + ?tk)) < nat (end - g)" "0 \<le> g + ?tk" "g + ?tk \<le> end"
      using True R less.prems by auto
    have fit: "0 \<le> ?tk * EXPORT_ROW_BYTES" "0 \<le> sh_begin s + ?l * EXPORT_ROW_BYTES"
      "sh_begin s + ?l * EXPORT_ROW_BYTES + ?tk * EXPORT_ROW_BYTES \<le> int (length file)"
      using shard_fit [OF tk(1,2) b R(2)] by blast+
    obtain d1 where 1: "copy_blocks (file_pread file) keep block write_out (sh_begin s + ?l * EXPORT_ROW_BYTES)
        (?tk * EXPORT_ROW_BYTES) ((), k, d) = Some (Inr (), ((), k @ rows_of file shards g (g + ?tk), d1))"
      using copy_blocks_piece [OF assms(3) fit, of keep k d]
        rows_in_shard [where n = ?tk and g = g and shards = shards and s = s, OF s(1) b(1) _ tk(2), of "file"] tk(1) by auto
    obtain d' where "walk_shards (file_pread file) shards keep block write_out (g + ?tk) end
        ((), k @ rows_of file shards g (g + ?tk), d1) =
      Some (Inr (), ((), (k @ rows_of file shards g (g + ?tk)) @ rows_of file shards (g + ?tk) end, d'))"
      using less.hyps [OF tk(3-5)] by blast
    then show ?thesis
      using 1 s(1) True rows_of_split [of g "g + ?tk" "end" "file" shards] tk(1,5)
      by (simp add: run Let_def)
  qed
qed

text \<open>
  C18.  From a checkpoint that passed \<open>check\<close>, an export of any range inside the table ends and
  writes exactly the bytes of its global rows, each found through its own shard, whatever the order
  of the shards in the file and whatever the (positive) block size.
\<close>

theorem export_writes_exactly_the_rows:
  assumes "check m shards = Inr ()" and "in_file file shards" and "0 < block"
    and "0 \<le> start" and "0 \<le> n" and "start + n \<le> N_SHARDS * ROWS_PER_SHARD"
  shows "export_range (file_pread file) shards start n block keep () =
    Some (Inr (concat (map (global_row file shards) [start..start + n - 1])))"
  using walk_shards_rows [OF assms(1,2), of "int block" "start + n" start keep "[]" "[]"] assms(3-6)
  by (auto simp: export_range_def iter_range_def rows_of_def)

lemma copy_blocks_stuck:
  "copy_blocks pread keep block sink pos rem st = Some y
    \<Longrightarrow> pread = file_pread file \<Longrightarrow> block = 0 \<Longrightarrow> 0 \<le> rem \<Longrightarrow> rem = 0"
proof (rule copy_blocks.raw_induct [where P = "\<lambda>pread keep block sink pos rem st y.
    pread = file_pread file \<longrightarrow> block = 0 \<longrightarrow> 0 \<le> rem \<longrightarrow> rem = 0", rule_format])
qed (auto simp: file_pread_def Let_def bind_eq_Some_conv split: if_splits prod.splits)

text \<open>
  With a block size of zero, an export of a non-empty range of a checked checkpoint never
  returns.
\<close>

lemma zero_block_never_returns:
  assumes "check m shards = Inr ()" and "0 \<le> start" and "start < N_SHARDS * ROWS_PER_SHARD" and "0 < n"
  shows "export_range (file_pread file) shards start n 0 keep () = None"
proof -
  have sh: "0 \<le> start div ROWS_PER_SHARD" "start div ROWS_PER_SHARD < N_SHARDS"
    using assms(2,3) by (simp_all add: pos_imp_zdiv_nonneg_iff export_consts)
  obtain s where s: "shards (start div ROWS_PER_SHARD) = Some s"
    using checked_shard [OF assms(1) sh] by blast
  let ?tk = "min (ROWS_PER_SHARD - start mod ROWS_PER_SHARD) n"
  have "0 < ?tk * EXPORT_ROW_BYTES"
    using assms(4) by (simp add: export_consts)
  then have "copy_blocks (file_pread file) keep 0 write_out
      (sh_begin s + start mod ROWS_PER_SHARD * EXPORT_ROW_BYTES) (?tk * EXPORT_ROW_BYTES) st = None" for st
    using copy_blocks_stuck [of "file_pread file" keep 0 write_out _ "?tk * EXPORT_ROW_BYTES" st _ "file"]
    by (metis less_irrefl less_imp_le not_None_eq)
  then show ?thesis
    using s assms(4) by (simp add: export_range_def iter_range_def walk_shards.simps Let_def)
qed

text \<open>A checkpoint of the real geometry, with two shards swapped, all bytes zero.\<close>

definition swapped :: shards where
  "swapped i = (if 0 \<le> i \<and> i < 128 then
     (let j = (if i = 98 then 99 else if i = 99 then 98 else i) in
      Some \<lparr>sh_begin = 1000 + j * 400001920, sh_end = 1000 + (j + 1) * 400001920,
        sh_shape = [2500012, 160], sh_dtype = ''F8_E4M3''\<rparr>) else None)"

definition zeros :: "byte list" where
  "zeros = replicate (nat (1000 + 128 * 400001920)) 0"

lemma swapped_checks: "check 128 swapped = Inr ()"
  by (auto simp: check_def check_shards_all check_shard_def swapped_def export_consts)

lemma swapped_in_file: "in_file zeros swapped"
  by (auto simp: in_file_def list_all_iff swapped_def zeros_def export_consts)

theorem export_writes_exactly_the_rows_witness:
  "export_range (file_pread zeros) swapped 247501187 2 100 False () =
     Some (Inr (global_row zeros swapped 247501187 @ global_row zeros swapped 247501188))"
  using export_writes_exactly_the_rows [OF swapped_checks swapped_in_file, of 100 247501187 2 False]
  by (simp add: export_consts)

subsection \<open>Reading the header\<close>

definition shard_key :: "int \<Rightarrow> string" where
  "shard_key i = PREFIX @ show_int i @ SUFFIX"

definition shard_of :: "int \<Rightarrow> tensor_entry \<Rightarrow> shard" where
  "shard_of base t = \<lparr>sh_begin = base + fst (te_offsets t), sh_end = base + snd (te_offsets t),
     sh_shape = te_shape t, sh_dtype = te_dtype t\<rparr>"

definition is_shard_key :: "string \<Rightarrow> bool" where
  "is_shard_key k \<longleftrightarrow> starts_with k PREFIX \<and> ends_with k SUFFIX"

lemma shard_key_simps [simp]: "is_shard_key (shard_key i)" "middle (shard_key i) = show_int i"
  by (simp_all add: is_shard_key_def shard_key_def starts_with_def ends_with_def middle_def)

lemma shard_key_inj: "shard_key i = shard_key j \<Longrightarrow> i = j"
  by (metis shard_key_simps(2) py_int_show sum.inject(2))

lemma add_shards_header:
  assumes "distinct (map fst hdr)"
    and "\<forall>(k, v)\<in>set hdr. is_shard_key k \<longrightarrow> (\<exists>i t. k = shard_key i \<and> v = Some t)"
  shows "\<exists>out'. add_shards base hdr out = Inr out' \<and>
    (\<forall>i. out' i = (case map_of hdr (shard_key i) of Some (Some t) \<Rightarrow> Some (shard_of base t) | _ \<Rightarrow> out i))"
  using assms
proof (induction hdr arbitrary: out)
  case Nil
  then show ?case by simp
next
  case (Cons x hdr)
  obtain k v where x: "x = (k, v)"
    by (cases x)
  have k: "k \<notin> fst ` set hdr"
    using Cons.prems(1) x by simp
  show ?case
  proof (cases "is_shard_key k")
    case False
    then have "map_of (x # hdr) (shard_key i) = map_of hdr (shard_key i)" for i
      using x by auto
    moreover have "add_shards base (x # hdr) out = add_shards base hdr out"
      using False x by (auto simp: is_shard_key_def)
    moreover have "distinct (map fst hdr)"
      "\<forall>(k, v)\<in>set hdr. is_shard_key k \<longrightarrow> (\<exists>i t. k = shard_key i \<and> v = Some t)"
      using Cons.prems by simp_all
    ultimately show ?thesis
      using Cons.IH [of out] by simp
  next
    case True
    then obtain i t where i: "k = shard_key i" "v = Some t"
      using Cons.prems(2) x by auto
    have rest: "distinct (map fst hdr)"
      "\<forall>(k, v)\<in>set hdr. is_shard_key k \<longrightarrow> (\<exists>i t. k = shard_key i \<and> v = Some t)"
      using Cons.prems by simp_all
    have none: "map_of hdr (shard_key i) = None"
      using k i(1) by (simp add: map_of_eq_None_iff)
    obtain out' where out': "add_shards base hdr (out(i \<mapsto> shard_of base t)) = Inr out'"
      "\<forall>j. out' j = (case map_of hdr (shard_key j) of Some (Some u) \<Rightarrow> Some (shard_of base u)
         | _ \<Rightarrow> (out(i \<mapsto> shard_of base t)) j)"
      using Cons.IH [OF rest, of "out(i \<mapsto> shard_of base t)"] by blast
    have "out' j = (case map_of (x # hdr) (shard_key j) of Some (Some u) \<Rightarrow> Some (shard_of base u) | _ \<Rightarrow> out j)" for j
      using out'(2) none x i shard_key_inj [of i j]
      by (cases "j = i") (auto split: option.splits)
    moreover have "add_shards base (x # hdr) out = Inr out'"
      using out'(1) x i True shard_key_simps(2) [of i] by (simp add: is_shard_key_def shard_of_def)
    ultimately show ?thesis
      by blast
  qed
qed

text \<open>
  C27.  \<open>shard_map\<close> files every shard under its own number with absolute offsets, in whatever
  order the header lists them and whatever else it holds.
\<close>

theorem shard_map_finds_every_shard:
  assumes "json_loads (take (le_decode (take 8 file)) (drop 8 file)) = Inr hdr" and "8 \<le> length file"
    and "distinct (map fst hdr)"
    and "list_all (\<lambda>(k, v). is_shard_key k \<longrightarrow> (\<exists>i t. k = shard_key i \<and> v = Some t)) hdr"
  shows "\<exists>out. shard_map json_loads file = Inr (out, 8 + int (le_decode (take 8 file))) \<and>
    (\<forall>i. out i = (case map_of hdr (shard_key i) of
        Some (Some t) \<Rightarrow> Some (shard_of (8 + int (le_decode (take 8 file))) t) | _ \<Rightarrow> None))"
proof -
  let ?base = "8 + int (le_decode (take 8 file))"
  have "\<forall>(k, v)\<in>set hdr. is_shard_key k \<longrightarrow> (\<exists>i t. k = shard_key i \<and> v = Some t)"
    using assms(4) by (simp add: list_all_iff)
  from add_shards_header [OF assms(3) this, of ?base Map.empty]
  obtain out where "add_shards ?base hdr Map.empty = Inr out"
    "\<forall>i. out i = (case map_of hdr (shard_key i) of Some (Some t) \<Rightarrow> Some (shard_of ?base t) | _ \<Rightarrow> None)"
    by blast
  then show ?thesis
    using assms(1,2) by (simp add: shard_map_def struct_unpack_def calcsize_def Let_def)
qed

theorem shard_map_finds_every_shard_witness:
  "\<exists>out. shard_map (\<lambda>b. Inr [(''__metadata__'', None), (shard_key 1, Some \<lparr>te_offsets = (0, 4), te_shape = [1, 4],
       te_dtype = ''F8_E4M3''\<rparr>)]) (le_encode 8 5) = Inr (out, 13) \<and>
     map_option sh_begin (out 1) = Some 13 \<and> out 0 = None"
proof -
  let ?hdr = "[(''__metadata__'', None), (shard_key 1, Some \<lparr>te_offsets = (0, 4), te_shape = [1, 4],
       te_dtype = ''F8_E4M3''\<rparr>)]"
  have len: "le_decode (take 8 (le_encode 8 5)) = 5"
    by (simp add: le_decode_encode)
  have key: "shard_key i \<noteq> ''__metadata__''" for i
    by (simp add: shard_key_def PREFIX_def)
  have "\<not> is_shard_key ''__metadata__''"
    by (simp add: is_shard_key_def starts_with_def PREFIX_def)
  then have l: "list_all (\<lambda>(k, v). is_shard_key k \<longrightarrow> (\<exists>i t. k = shard_key i \<and> v = Some t)) ?hdr"
    by auto
  have d: "distinct (map fst ?hdr)"
    using key [of 1] by (simp add: eq_commute)
  have "shard_key 0 \<noteq> shard_key 1"
    using shard_key_inj by fastforce
  then show ?thesis
    using shard_map_finds_every_shard [of "\<lambda>b. Inr ?hdr" "le_encode 8 5", OF refl _ d l] len key
    by (auto simp: shard_of_def)
qed

end
