(* ===== verification/Spans.thy ===== *)
theory Spans
  imports Settings "HOL-Library.Product_Lexorder" "HOL-Library.List_Lexorder" "HOL-Library.Char_ord"
begin

section \<open>Reading a profiler trace: busy time, idle gaps, who was running\<close>

text \<open>
  \<open>bench/trace_summary.py\<close>, \<open>bench/trace_gaps.py\<close> and \<open>bench/trace_gap_detail.py\<close>.  Times are
  rationals (microseconds).  \<open>FIELD.findall\<close> on one line is the parameter \<open>findall\<close>, with \<open>ts\<close> and
  \<open>dur\<close> numbers and the other fields texts wherever they are present; a
  \<open>defaultdict\<close> is its list of items in insertion order; printed numbers are the values of a
  report.
\<close>

subsection \<open>Events\<close>

datatype field_value = Text string | Number rat

type_synonym event = "(string \<times> field_value) list"

definition lstrip :: "string \<Rightarrow> string" where
  "lstrip s = dropWhile py_space s"

text \<open>The first occurrence of a field wins.\<close>

definition keep_first :: "event \<Rightarrow> (string \<times> field_value) list \<Rightarrow> event" where
  "keep_first cur kvs = fold (\<lambda>(k, v) c. if map_of c k = None then c @ [(k, v)] else c) kvs cur"

fun event_stream :: "(string \<Rightarrow> (string \<times> field_value) list) \<Rightarrow> event \<Rightarrow> string list \<Rightarrow> event list" where
  "event_stream findall cur [] = (if cur = [] then [] else [cur])"
| "event_stream findall cur (line # lines) =
     (if take 1 (lstrip line) = ''{''
      then (if cur = [] then [] else [cur]) @ event_stream findall (keep_first [] (findall line)) lines
      else event_stream findall (keep_first cur (findall line)) lines)"

definition stream_events :: "(string \<Rightarrow> (string \<times> field_value) list) \<Rightarrow> string list \<Rightarrow> event list" where
  "stream_events findall lines = event_stream findall [] lines"

definition text_field :: "event \<Rightarrow> string \<Rightarrow> string option" where
  "text_field ev k = (case map_of ev k of Some (Text s) \<Rightarrow> Some s | _ \<Rightarrow> None)"

definition number_field :: "event \<Rightarrow> string \<Rightarrow> rat option" where
  "number_field ev k = (case map_of ev k of Some (Number x) \<Rightarrow> Some x | _ \<Rightarrow> None)"

definition lower_char :: "char \<Rightarrow> char" where
  "lower_char c = (let n = of_char c :: nat in if 65 \<le> n \<and> n \<le> 90 then char_of (n + 32) else c)"

text \<open>A complete event (\<open>ph\<close> is X) with its time, duration, name and lower-case category.\<close>

definition timed :: "event \<Rightarrow> (rat \<times> rat \<times> string \<times> string) option" where
  "timed ev =
     (if text_field ev ''ph'' \<noteq> Some ''X'' then None
      else (case (number_field ev ''ts'', number_field ev ''dur'') of
          (Some ts, Some dur) \<Rightarrow>
            Some (ts, dur, (case text_field ev ''name'' of Some s \<Rightarrow> s | None \<Rightarrow> ''?''),
              map lower_char (case text_field ev ''cat'' of Some s \<Rightarrow> s | None \<Rightarrow> []))
        | _ \<Rightarrow> None))"

definition GPU_CATS :: "string list" where
  "GPU_CATS = [''kernel'', ''gpu_memcpy'', ''gpu_memset'']"

definition CPU_CATS :: "string list" where
  "CPU_CATS = [''cpu_op'', ''user_annotation'', ''cuda_runtime'']"

definition HOST_CATS :: "string list" where
  "HOST_CATS = [''cpu_op'', ''user_annotation'', ''cuda_runtime'', ''python_function'']"

subsection \<open>Spans\<close>

type_synonym span = "rat \<times> rat"

fun union_loop :: "rat \<Rightarrow> span \<Rightarrow> span list \<Rightarrow> rat" where
  "union_loop acc (cs, ce) [] = acc + (ce - cs)"
| "union_loop acc (cs, ce) ((s, e) # rest) =
     (if s > ce then union_loop (acc + (ce - cs)) (s, e) rest
      else union_loop acc (cs, max ce e) rest)"

definition union_duration :: "span list \<Rightarrow> rat" where
  "union_duration spans = (case sort spans of [] \<Rightarrow> 0 | x # rest \<Rightarrow> union_loop 0 x rest)"

fun merge_loop :: "span \<Rightarrow> span list \<Rightarrow> span list" where
  "merge_loop (cs, ce) [] = [(cs, ce)]"
| "merge_loop (cs, ce) ((s, e) # rest) =
     (if s > ce then (cs, ce) # merge_loop (s, e) rest else merge_loop (cs, max ce e) rest)"

definition merged :: "span list \<Rightarrow> span list" where
  "merged gpu = (case sort gpu of [] \<Rightarrow> [] | x # rest \<Rightarrow> merge_loop x rest)"

text \<open>\<open>(merged[i - 1][1], merged[i][0])\<close> for \<open>i\<close> from 1.\<close>

fun holes :: "span list \<Rightarrow> span list" where
  "holes ((a, b) # (c, d) # rest) = (b, c) # holes ((c, d) # rest)"
| "holes _ = []"

definition gaps_over :: "rat \<Rightarrow> span list \<Rightarrow> span list" where
  "gaps_over min_gap m = filter (\<lambda>(g0, g1). g1 - g0 \<ge> min_gap) (holes m)"

subsection \<open>Totals by name\<close>

fun add_to :: "string \<Rightarrow> rat \<Rightarrow> (string \<times> rat) list \<Rightarrow> (string \<times> rat) list" where
  "add_to k x [] = [(k, x)]"
| "add_to k x ((k', y) # al) = (if k' = k then (k', y + x) # al else (k', y) # add_to k x al)"

definition total_of :: "(string \<times> rat) list \<Rightarrow> string \<Rightarrow> rat" where
  "total_of al k = (case map_of al k of Some x \<Rightarrow> x | None \<Rightarrow> 0)"

definition top_of :: "nat \<Rightarrow> (string \<times> rat) list \<Rightarrow> (string \<times> rat) list" where
  "top_of n al = take n (sort_key (\<lambda>(k, x). - x) al)"

subsection \<open>\<open>trace_summary.py\<close>\<close>

record tally =
  ty_kernel_time :: "(string \<times> rat) list"
  ty_kernel_calls :: "(string \<times> rat) list"
  ty_cpu_time :: "(string \<times> rat) list"
  ty_cpu_calls :: "(string \<times> rat) list"
  ty_gpu_spans :: "span list"
  ty_min :: "rat option"
  ty_max :: "rat option"
  ty_n :: nat

definition tally_start :: tally where
  "tally_start = \<lparr>ty_kernel_time = [], ty_kernel_calls = [], ty_cpu_time = [], ty_cpu_calls = [],
     ty_gpu_spans = [], ty_min = None, ty_max = None, ty_n = 0\<rparr>"

definition tally_event :: "event \<Rightarrow> tally \<Rightarrow> tally" where
  "tally_event ev t = (case timed ev of
     None \<Rightarrow> t
   | Some (ts, dur, name, cat) \<Rightarrow>
       let t' = t\<lparr>ty_n := ty_n t + 1,
             ty_min := Some (case ty_min t of None \<Rightarrow> ts | Some m \<Rightarrow> min m ts),
             ty_max := Some (max (case ty_max t of None \<Rightarrow> 0 | Some m \<Rightarrow> m) (ts + dur))\<rparr>
       in if cat \<in> set GPU_CATS
          then t'\<lparr>ty_kernel_time := add_to name dur (ty_kernel_time t'),
            ty_kernel_calls := add_to name 1 (ty_kernel_calls t'),
            ty_gpu_spans := ty_gpu_spans t' @ [(ts, ts + dur)]\<rparr>
          else if cat \<in> set CPU_CATS
          then t'\<lparr>ty_cpu_time := add_to name dur (ty_cpu_time t'),
            ty_cpu_calls := add_to name 1 (ty_cpu_calls t')\<rparr>
          else t')"

record summary =
  sm_events :: nat
  sm_wall :: rat
  sm_busy :: rat
  sm_busy_pct :: rat
  sm_idle :: rat
  sm_idle_pct :: rat
  sm_summed :: rat
  sm_concurrency :: rat
  sm_kernels :: "(string \<times> rat \<times> rat \<times> rat) list"
  sm_host :: "(string \<times> rat \<times> rat) list"

definition summarise_trace :: "nat \<Rightarrow> event list \<Rightarrow> summary" where
  "summarise_trace limit events =
     (let t = fold tally_event events tally_start;
          wall = (case (ty_min t, ty_max t) of (Some a, Some b) \<Rightarrow> (b - a) / 1000000 | _ \<Rightarrow> 0);
          busy = union_duration (ty_gpu_spans t) / 1000000;
          summed = sum_list (map snd (ty_kernel_time t)) / 1000000
      in \<lparr>sm_events = ty_n t, sm_wall = wall, sm_busy = busy,
          sm_busy_pct = (if wall \<noteq> 0 then busy / wall * 100 else 0),
          sm_idle = wall - busy,
          sm_idle_pct = (if wall \<noteq> 0 then (wall - busy) / wall * 100 else 0),
          sm_summed = summed, sm_concurrency = (if busy \<noteq> 0 then summed / busy else 0),
          sm_kernels = map (\<lambda>(name, x). (name, x / 1000000, total_of (ty_kernel_calls t) name,
            if busy \<noteq> 0 then x / (busy * 1000000) * 100 else 0)) (top_of limit (ty_kernel_time t)),
          sm_host = map (\<lambda>(name, x). (name, x / 1000000, total_of (ty_cpu_calls t) name))
            (top_of limit (ty_cpu_time t))\<rparr>)"

subsection \<open>\<open>trace_gaps.py\<close>\<close>

type_synonym host_span = "rat \<times> rat \<times> string"

definition gpu_spans :: "event list \<Rightarrow> span list" where
  "gpu_spans events = map (\<lambda>(ts, dur, name, cat). (ts, ts + dur))
     (filter (\<lambda>(ts, dur, name, cat). cat \<in> set GPU_CATS) (List.map_filter timed events))"

definition host_spans :: "event list \<Rightarrow> host_span list" where
  "host_spans events = map (\<lambda>(ts, dur, name, cat). (ts, ts + dur, name))
     (filter (\<lambda>(ts, dur, name, cat). cat \<notin> set GPU_CATS \<and> cat \<in> set HOST_CATS)
       (List.map_filter timed events))"

definition overlap :: "rat \<Rightarrow> rat \<Rightarrow> span \<Rightarrow> rat" where
  "overlap hs he g = max 0 (min he (snd g) - max hs (fst g))"

text \<open>The attribution loop; the gaps from \<open>gi\<close> on are a list.\<close>

fun attribute ::
  "host_span list \<Rightarrow> span list \<Rightarrow> (string \<times> rat) list \<Rightarrow> (string \<times> rat) list
    \<Rightarrow> (string \<times> rat) list \<times> (string \<times> rat) list" where
  "attribute [] gaps blame hits = (blame, hits)"
| "attribute ((hs, he, name) # hosts) gaps blame hits =
     (let gaps' = dropWhile (\<lambda>g. snd g < hs) gaps;
          covered = sum_list (map (overlap hs he) (takeWhile (\<lambda>g. fst g < he) gaps'))
      in if covered > 0 then attribute hosts gaps' (add_to name covered blame) (add_to name 1 hits)
         else attribute hosts gaps' blame hits)"

record gap_report =
  gr_wall :: rat
  gr_gaps :: nat
  gr_total :: rat
  gr_pct :: rat
  gr_biggest :: "rat list"
  gr_blame :: "(string \<times> rat \<times> rat \<times> rat) list"

text \<open>\<open>None\<close>: no GPU spans.  A wall of zero divides by zero.\<close>

definition report_gaps :: "rat \<Rightarrow> nat \<Rightarrow> event list \<Rightarrow> exn + gap_report option" where
  "report_gaps min_gap_ms limit events =
     (let gpu = gpu_spans events; min_gap = min_gap_ms * 1000
      in if gpu = [] then Inr None
         else let m = merged gpu; gaps = gaps_over min_gap m;
                  total = sum_list (map (\<lambda>(s, e). e - s) gaps);
                  wall = snd (last m) - fst (hd m);
                  biggest = take 5 (sort_key (\<lambda>(s, e). - (e - s)) gaps);
                  (blame, hits) = attribute (sort (host_spans events)) gaps [] []
              in if wall = 0 then Inl (Exn ZeroDivisionError (Failed ''wall''))
                 else Inr (Some \<lparr>gr_wall = wall / 1000000, gr_gaps = length gaps,
                   gr_total = total / 1000000, gr_pct = total / wall * 100,
                   gr_biggest = map (\<lambda>(s, e). (e - s) / 1000) biggest,
                   gr_blame = (if gaps = [] then [] else map (\<lambda>(name, t). (name, t / 1000000,
                     total_of hits name, t / total * 100)) (top_of limit blame))\<rparr>))"

subsection \<open>\<open>trace_gap_detail.py\<close>\<close>

fun infix_of :: "string \<Rightarrow> string \<Rightarrow> bool" where
  "infix_of k [] = (k = [])"
| "infix_of k (c # s) = (take (length k) (c # s) = k \<or> infix_of k s)"

definition ple_like :: "string \<Rightarrow> bool" where
  "ple_like name = list_ex (\<lambda>k. infix_of k (map lower_char name))
     [''ple'', ''ngram'', ''stage_rows'', ''gather'']"

definition ple_totals :: "event list \<Rightarrow> (string \<times> rat) list \<times> (string \<times> rat) list" where
  "ple_totals events = fold (\<lambda>(ts, dur, name, cat) (t, n).
     if ple_like name then (add_to name dur t, add_to name 1 n) else (t, n))
     (List.map_filter timed events) ([], [])"

text \<open>\<open>max(gaps, key=...)\<close> is the first of the longest.\<close>

fun longest :: "span \<Rightarrow> span list \<Rightarrow> span" where
  "longest g [] = g"
| "longest g (h # gs) = longest (if snd h - fst h > snd g - fst g then h else g) gs"

record gap_detail =
  gd_gap :: span
  gd_length :: rat
  gd_offset :: rat
  gd_trace :: rat
  gd_inside :: nat
  gd_host :: "(string \<times> rat \<times> rat) list"
  gd_ple :: "(string \<times> rat \<times> rat) list"

definition detail :: "event list \<Rightarrow> exn + gap_detail" where
  "detail events =
     (let gpu = gpu_spans events; hosts = host_spans events
      in if gpu = [] then Inl (Exn SystemExit (Failed ''no GPU spans parsed''))
         else let m = merged gpu; wall0 = fst (hd m);
                  gaps = filter (\<lambda>g. snd g - fst g > 500) (holes m)
              in (case gaps of
                  [] \<Rightarrow> Inl (Exn SystemExit (Failed ''no gaps over 0.5 ms''))
                | g # gs \<Rightarrow>
                    let (g0, g1) = longest g gs;
                        inside = filter (\<lambda>(s, e, n). g0 \<le> s \<and> s < g1 \<and> e - s < (g1 - g0) * (98 / 100)) hosts;
                        agg = fold (\<lambda>(s, e, n). add_to n (min e g1 - s)) inside [];
                        cnt = fold (\<lambda>(s, e, n). add_to n 1) inside [];
                        (ple, ple_n) = ple_totals events
                    in Inr \<lparr>gd_gap = (g0, g1), gd_length = (g1 - g0) / 1000000,
                       gd_offset = (g0 - wall0) / 1000000,
                       gd_trace = (snd (last m) - wall0) / 1000000, gd_inside = length inside,
                       gd_host = map (\<lambda>(n, t). (n, t / 1000000, total_of cnt n)) (top_of 16 agg),
                       gd_ple = map (\<lambda>(n, t). (n, t / 1000000, total_of ple_n n)) (top_of 10 ple)\<rparr>))"

subsection \<open>What merging keeps\<close>

definition in_span :: "rat \<Rightarrow> span \<Rightarrow> bool" where
  "in_span x g \<longleftrightarrow> fst g \<le> x \<and> x \<le> snd g"

definition covers :: "span list \<Rightarrow> rat \<Rightarrow> bool" where
  "covers ss x \<longleftrightarrow> list_ex (in_span x) ss"

text \<open>Spans in order, with room between any two.\<close>

fun apart :: "span list \<Rightarrow> bool" where
  "apart ((a, b) # (c, d) # rest) \<longleftrightarrow> a \<le> b \<and> b < c \<and> apart ((c, d) # rest)"
| "apart [(a, b)] \<longleftrightarrow> a \<le> b"
| "apart [] \<longleftrightarrow> True"

lemma merge_loop_nonempty [simp]: "merge_loop x ss \<noteq> []"
  by (induction x ss rule: merge_loop.induct) auto

lemma fst_hd_merge_loop: "fst (hd (merge_loop (cs, ce) ss)) = cs"
  by (induction "(cs, ce)" ss arbitrary: cs ce rule: merge_loop.induct) auto

lemma apart_merge_loop:
  "cs \<le> ce \<Longrightarrow> \<forall>g\<in>set ss. fst g \<le> snd g \<Longrightarrow> apart (merge_loop (cs, ce) ss)"
proof (induction "(cs, ce)" ss arbitrary: cs ce rule: merge_loop.induct)
  case (2 cs ce s e rest)
  show ?case
  proof (cases "s > ce")
    case True
    obtain d m where m: "merge_loop (s, e) rest = (s, d) # m"
      using fst_hd_merge_loop [of s e rest] merge_loop_nonempty [of "(s, e)" rest]
      by (cases "merge_loop (s, e) rest") auto
    show ?thesis
      using 2 True m by simp
  qed (use 2 in \<open>auto simp: le_max_iff_disj\<close>)
qed simp

lemma covers_merge_loop:
  "cs \<le> ce \<Longrightarrow> \<forall>g\<in>set ss. fst g \<le> snd g \<and> cs \<le> fst g \<Longrightarrow> sorted (map fst ss)
    \<Longrightarrow> covers (merge_loop (cs, ce) ss) x \<longleftrightarrow> covers ((cs, ce) # ss) x"
proof (induction "(cs, ce)" ss arbitrary: cs ce rule: merge_loop.induct)
  case (2 cs ce s e rest)
  show ?case
  proof (cases "s > ce")
    case True
    then show ?thesis
      using 2 by (auto simp: covers_def)
  next
    case False
    have "cs \<le> max ce e" "\<forall>g\<in>set rest. fst g \<le> snd g \<and> cs \<le> fst g" "sorted (map fst rest)"
      using 2(3-5) by auto
    then have "covers (merge_loop (cs, max ce e) rest) x \<longleftrightarrow> covers ((cs, max ce e) # rest) x"
      using 2(2) False by blast
    then show ?thesis
      using 2(3,4) False by (auto simp: covers_def in_span_def)
  qed
qed simp

lemma union_loop_merge:
  "union_loop acc (cs, ce) ss = acc + sum_list (map (\<lambda>(s, e). e - s) (merge_loop (cs, ce) ss))"
  by (induction acc "(cs, ce)" ss arbitrary: cs ce rule: union_loop.induct) auto

lemma sorted_fst: "sorted (ss :: span list) \<Longrightarrow> sorted (map fst ss)"
  by (induction ss) (auto simp: less_eq_prod_def)

lemma merged_ok:
  assumes "\<forall>g\<in>set gpu. fst g \<le> snd g"
  shows "apart (merged gpu)" and "covers (merged gpu) x \<longleftrightarrow> covers gpu x"
    and "union_duration gpu = sum_list (map (\<lambda>(s, e). e - s) (merged gpu))"
proof -
  have set: "set (sort gpu) = set gpu" and s: "sorted (map fst (sort gpu))"
    using sorted_fst by simp_all
  have "apart (merged gpu) \<and> (covers (merged gpu) x \<longleftrightarrow> covers gpu x) \<and>
    union_duration gpu = sum_list (map (\<lambda>(s, e). e - s) (merged gpu))"
  proof (cases "sort gpu")
    case Nil
    then have "gpu = []"
      using set by simp
    then show ?thesis
      by (simp add: merged_def union_duration_def)
  next
    case (Cons y rest)
    obtain cs ce where y: "y = (cs, ce)"
      by (cases y)
    have "y \<in> set gpu" "\<forall>g\<in>set rest. g \<in> set gpu"
      using set Cons by auto
    then have le: "cs \<le> ce" "\<forall>g\<in>set rest. fst g \<le> snd g \<and> cs \<le> fst g" "sorted (map fst rest)"
      using assms s Cons y by auto
    have "covers gpu x \<longleftrightarrow> covers ((cs, ce) # rest) x"
      using set Cons y by (auto simp: covers_def list_ex_iff)
    then show ?thesis
      using Cons y le apart_merge_loop [of cs ce rest] covers_merge_loop [OF le]
      by (simp add: merged_def union_duration_def union_loop_merge)
  qed
  then show "apart (merged gpu)" "covers (merged gpu) x \<longleftrightarrow> covers gpu x"
    "union_duration gpu = sum_list (map (\<lambda>(s, e). e - s) (merged gpu))"
    by blast+
qed

text \<open>A hole is free of spans, and what is neither covered nor a hole lies outside.\<close>

lemma covers_Cons [simp]: "covers (g # m) x \<longleftrightarrow> in_span x g \<or> covers m x"
  by (simp add: covers_def)

lemma covers_Nil [simp]: "\<not> covers [] x"
  by (simp add: covers_def)

lemma apart_Cons: "apart (g # m) \<longleftrightarrow> fst g \<le> snd g \<and> (m = [] \<or> snd g < fst (hd m)) \<and> apart m"
  by (cases g; cases m) auto

lemma holes_Cons: "holes (g # m) = (if m = [] then [] else (snd g, fst (hd m)) # holes m)"
  by (cases g; cases m) auto

lemma apart_bounds:
  "apart m \<Longrightarrow> covers m x \<Longrightarrow> fst (hd m) \<le> x \<and> x \<le> snd (last m)"
  "apart m \<Longrightarrow> m \<noteq> [] \<Longrightarrow> fst (hd m) \<le> snd (last m) \<and> covers m (fst (hd m)) \<and> covers m (snd (last m))"
  by (induction m) (fastforce simp: apart_Cons in_span_def)+

lemma hole_free:
  "apart m \<Longrightarrow> h \<in> set (holes m) \<Longrightarrow> fst (hd m) \<le> fst h \<and> fst h < snd h \<and> covers m (fst h) \<and>
    covers m (snd h) \<and> (\<forall>x. fst h < x \<longrightarrow> x < snd h \<longrightarrow> \<not> covers m x)"
proof (induction m)
  case (Cons g m)
  have ap: "fst g \<le> snd g" "apart m" "m \<noteq> [] \<Longrightarrow> snd g < fst (hd m)"
    using Cons.prems(1) by (auto simp: apart_Cons)
  have m: "m \<noteq> []" "h = (snd g, fst (hd m)) \<or> h \<in> set (holes m)"
    using Cons.prems(2) by (auto simp: holes_Cons split: if_splits)
  have lt: "snd g < fst (hd m)"
    using ap(3) m(1) by blast
  from m(2) show ?case
  proof
    assume h: "h = (snd g, fst (hd m))"
    have "\<not> covers m x" if "x < fst (hd m)" for x
      using apart_bounds(1) [OF ap(2), of x] that by auto
    then show ?thesis
      using h ap lt apart_bounds(2) [OF ap(2) m(1)] by (auto simp: in_span_def)
  next
    assume "h \<in> set (holes m)"
    from Cons.IH [OF ap(2) this] show ?thesis
      using lt ap(1) by (auto simp: in_span_def)
  qed
qed simp

lemma uncovered_hole:
  "apart m \<Longrightarrow> m \<noteq> [] \<Longrightarrow> fst (hd m) \<le> x \<Longrightarrow> x \<le> snd (last m) \<Longrightarrow> \<not> covers m x \<Longrightarrow>
    \<exists>h\<in>set (holes m). fst h < x \<and> x < snd h"
proof (induction m)
  case (Cons g m)
  have ap: "apart m"
    using Cons.prems(1) by (simp add: apart_Cons)
  have x: "snd g < x" "\<not> covers m x"
    using Cons.prems(3,5) by (auto simp: in_span_def)
  then have m: "m \<noteq> []"
    using Cons.prems(4) by auto
  show ?case
  proof (cases "fst (hd m) \<le> x")
    case True
    then show ?thesis
      using Cons.IH [OF ap m True] Cons.prems(4) x(2) m by (auto simp: holes_Cons)
  next
    case False
    then show ?thesis
      using x(1) m by (auto simp: holes_Cons)
  qed
qed simp

lemma holes_sorted:
  "apart m \<Longrightarrow> sorted_wrt (\<lambda>g h. snd g \<le> fst h) (holes m) \<and> (\<forall>h\<in>set (holes m). fst h < snd h)"
proof (induction m)
  case (Cons g m)
  have "\<forall>h\<in>set (holes m). fst (hd m) \<le> fst h"
    using Cons.prems hole_free [of m] by (auto simp: apart_Cons)
  then show ?case
    using Cons by (auto simp: holes_Cons apart_Cons)
qed simp

subsection \<open>What the attribution computes\<close>

text \<open>The time a host span shares with the gaps, gap by gap.\<close>

definition shared :: "span list \<Rightarrow> host_span \<Rightarrow> rat" where
  "shared gaps h = (case h of (hs, he, name) \<Rightarrow> sum_list (map (overlap hs he) gaps))"

definition in_order :: "span list \<Rightarrow> bool" where
  "in_order gaps \<longleftrightarrow> sorted_wrt (\<lambda>g h. snd g \<le> fst h) gaps \<and> (\<forall>g\<in>set gaps. fst g < snd g)"

lemma overlap_none: "snd g < hs \<or> he \<le> fst g \<Longrightarrow> overlap hs he g = 0"
  by (auto simp: overlap_def)

lemma sum_overlap_none: "\<forall>g\<in>set gaps. snd g < hs \<or> he \<le> fst g \<Longrightarrow> sum_list (map (overlap hs he) gaps) = 0"
  by (induction gaps) (auto simp: overlap_none)

lemma in_order_takeWhile:
  assumes "in_order gaps" and "g \<in> set (dropWhile (\<lambda>g. fst g < he) gaps)"
  shows "he \<le> fst g"
  using assms
proof (induction gaps)
  case (Cons a gaps)
  show ?case
  proof (cases "fst a < he")
    case True
    then show ?thesis
      using Cons by (auto simp: in_order_def)
  next
    case False
    then have "g = a \<or> g \<in> set gaps"
      using Cons.prems(2) by simp
    then show ?thesis
      using Cons.prems(1) False by (fastforce simp: in_order_def)
  qed
qed simp

lemma sum_split:
  "sum_list (map f (takeWhile P xs)) + sum_list (map f (dropWhile P xs)) = (sum_list (map f xs) :: rat)"
  by (simp only: sum_list_append [symmetric] map_append [symmetric] takeWhile_dropWhile_id)

lemma covered_shared:
  assumes "in_order gaps"
  shows "sum_list (map (overlap hs he) (takeWhile (\<lambda>g. fst g < he) (dropWhile (\<lambda>g. snd g < hs) gaps))) =
    shared gaps (hs, he, name)"
proof -
  let ?d = "dropWhile (\<lambda>g. snd g < hs) gaps"
  have d: "gaps = takeWhile (\<lambda>g. snd g < hs) gaps @ ?d"
    by simp
  have "in_order ?d"
    using assms d unfolding in_order_def by (metis sorted_wrt_append UnCI set_append)
  then have "sum_list (map (overlap hs he) (dropWhile (\<lambda>g. fst g < he) ?d)) = 0"
    using in_order_takeWhile by (intro sum_overlap_none) blast
  moreover have "sum_list (map (overlap hs he) (takeWhile (\<lambda>g. snd g < hs) gaps)) = 0"
    by (intro sum_overlap_none) (auto dest: set_takeWhileD)
  ultimately show ?thesis
    using sum_split [of "overlap hs he" "\<lambda>g. snd g < hs" gaps]
      sum_split [of "overlap hs he" "\<lambda>g. fst g < he" ?d]
    unfolding shared_def prod.case by linarith
qed

lemma total_add_to: "total_of (add_to k x al) n = total_of al n + (if n = k then x else 0)"
proof (induction al)
  case (Cons a al)
  then show ?case
    by (cases a; cases "n = k") (simp_all add: total_of_def)
qed (simp add: total_of_def)

definition blamed :: "span list \<Rightarrow> host_span list \<Rightarrow> string \<Rightarrow> rat" where
  "blamed gaps hosts n = sum_list (map (shared gaps) (filter (\<lambda>(hs, he, name). name = n) hosts))"

lemma in_order_shift:
  assumes "in_order gaps"
  shows "in_order (dropWhile P gaps)"
  using assms unfolding in_order_def
  by (metis (no_types, lifting) set_dropWhileD sorted_wrt_append takeWhile_dropWhile_id)

lemma shared_shift:
  assumes "hs \<le> hs'"
  shows "shared (dropWhile (\<lambda>g. snd g < hs) gaps) (hs', he, name) = shared gaps (hs', he, name)"
proof -
  have "sum_list (map (overlap hs' he) (takeWhile (\<lambda>g. snd g < hs) gaps)) = 0"
    using assms by (intro sum_overlap_none) (fastforce dest: set_takeWhileD)
  then show ?thesis
    using sum_split [of "overlap hs' he" "\<lambda>g. snd g < hs" gaps] unfolding shared_def prod.case by linarith
qed

lemma shared_nonneg: "0 \<le> shared gaps h"
  by (cases h) (auto simp: shared_def overlap_def intro!: sum_list_nonneg)

lemma attribute_blames:
  assumes "in_order gaps" and "sorted (map fst hosts)"
  shows "total_of (fst (attribute hosts gaps blame hits)) n = total_of blame n + blamed gaps hosts n"
  using assms
proof (induction hosts gaps blame hits rule: attribute.induct)
  case (1 gaps blame hits)
  then show ?case by (simp add: blamed_def)
next
  case (2 hs he name hosts gaps blame hits)
  let ?g = "dropWhile (\<lambda>g. snd g < hs) gaps"
  let ?c = "sum_list (map (overlap hs he) (takeWhile (\<lambda>g. fst g < he) ?g))"
  have c: "?c = shared gaps (hs, he, name)"
    by (rule covered_shared [OF 2(3)])
  have o: "in_order ?g" "sorted (map fst hosts)"
    using in_order_shift [OF 2(3)] 2(4) by simp_all
  have shift: "shared ?g h = shared gaps h" if "h \<in> set hosts" for h
    using shared_shift [of hs "fst h" gaps "fst (snd h)" "snd (snd h)"] 2(4) that by force
  then have b: "blamed ?g hosts n = blamed gaps hosts n"
    unfolding blamed_def by (intro arg_cong [of _ _ sum_list] map_cong) auto
  have cons: "blamed gaps ((hs, he, name) # hosts) n =
      (if name = n then shared gaps (hs, he, name) else 0) + blamed gaps hosts n"
    by (simp add: blamed_def)
  show ?case
  proof (cases "0 < ?c")
    case True
    then show ?thesis
      using 2(1) [OF refl refl True o] b c cons by (simp add: total_add_to Let_def)
  next
    case False
    then have z: "shared gaps (hs, he, name) = 0"
      using c shared_nonneg [of gaps "(hs, he, name)"] by simp
    then show ?thesis
      using 2(2) [OF refl refl False o] b False cons [unfolded z] by (simp add: Let_def)
  qed
qed

lemma in_order_gaps: "apart m \<Longrightarrow> in_order (gaps_over k m)"
  using holes_sorted [of m] by (auto simp: in_order_def gaps_over_def sorted_wrt_filter)

subsection \<open>The guarantees\<close>

text \<open>
  C19.  GPU busy time is the length of the union of the spans: the merged spans are in order with
  room between them, cover exactly the instants some span covers, and their lengths add up to the
  busy time.
\<close>

theorem busy_time_is_the_length_of_the_union:
  assumes "list_all (\<lambda>g. fst g \<le> snd g) gpu"
  shows "apart (merged gpu) \<and> (\<forall>x. covers (merged gpu) x \<longleftrightarrow> covers gpu x) \<and>
    union_duration gpu = sum_list (map (\<lambda>(s, e). e - s) (merged gpu))"
  using merged_ok [of gpu] assms by (simp add: list_all_iff)

theorem busy_time_is_the_length_of_the_union_witness:
  "union_duration [(5, 6), (0, 2), (1, 3)] = 4 \<and> covers (merged [(5, 6), (0, 2), (1, 3)]) (5 / 2)"
proof -
  have "list_all (\<lambda>g. fst g \<le> snd g) [(5, 6), (0, 2), (1, 3 :: rat)]"
    by simp
  from busy_time_is_the_length_of_the_union [OF this] show ?thesis
    by (simp add: merged_def in_span_def)
qed

text \<open>
  C28.  The gaps reported are exactly the idle stretches at least as long as asked for: a gap
  contains no instant of any GPU span and is bounded by two of them, and every idle instant between
  the first and the last span lies in a hole, reported as soon as it is long enough.
\<close>

theorem gaps_are_the_idle_stretches:
  assumes "list_all (\<lambda>g. fst g \<le> snd g) gpu"
  shows "(\<forall>h\<in>set (gaps_over k (merged gpu)). k \<le> snd h - fst h \<and> covers gpu (fst h) \<and> covers gpu (snd h) \<and>
      (\<forall>x. fst h < x \<longrightarrow> x < snd h \<longrightarrow> \<not> covers gpu x)) \<and>
    (\<forall>x. \<not> covers gpu x \<longrightarrow> (\<exists>a. covers gpu a \<and> a < x) \<longrightarrow> (\<exists>b. covers gpu b \<and> x < b) \<longrightarrow>
      (\<exists>h\<in>set (holes (merged gpu)). fst h < x \<and> x < snd h \<and>
        (k \<le> snd h - fst h \<longrightarrow> h \<in> set (gaps_over k (merged gpu)))))"
proof -
  let ?m = "merged gpu"
  have "\<forall>g\<in>set gpu. fst g \<le> snd g"
    using assms by (simp add: list_all_iff)
  note ok = merged_ok(1) [OF this] merged_ok(2) [OF this]
  have gap: "k \<le> snd h - fst h \<and> h \<in> set (holes ?m)" if "h \<in> set (gaps_over k ?m)" for h
    using that by (auto simp: gaps_over_def)
  have hole: "\<exists>h\<in>set (holes ?m). fst h < x \<and> x < snd h"
    if "\<not> covers gpu x" "covers gpu a" "a < x" "covers gpu b" "x < b" for x a b
  proof (rule uncovered_hole [OF ok(1)])
    show "?m \<noteq> []" "fst (hd ?m) \<le> x" "x \<le> snd (last ?m)"
      using that ok(2) apart_bounds(1) [OF ok(1), of a] apart_bounds(1) [OF ok(1), of b] by auto
    show "\<not> covers ?m x"
      using that(1) ok(2) by blast
  qed
  show ?thesis
    using gap hole hole_free [OF ok(1)] unfolding ok(2)
    by (intro conjI ballI allI impI) (fastforce simp: gaps_over_def)+
qed

theorem gaps_are_the_idle_stretches_witness:
  "gaps_over 2 (merged [(5, 6), (0, 2), (1, 3)]) = [(3, 5)] \<and> \<not> covers [(5, 6), (0, 2), (1, 3)] 4"
proof -
  have "list_all (\<lambda>g. fst g \<le> snd g) [(5, 6), (0, 2), (1, 3 :: rat)]"
    by simp
  moreover have "gaps_over 2 (merged [(5, 6), (0, 2), (1, 3)]) = [(3, 5)]"
    by (simp add: merged_def gaps_over_def)
  ultimately show ?thesis
    using gaps_are_the_idle_stretches [of "[(5, 6), (0, 2), (1, 3)]" 2] by simp
qed

text \<open>
  C29.  The attribution, which visits each gap from where the last host span left off, blames
  every name for exactly the time its spans share with the gaps, as if every span had been compared
  with every gap.
\<close>

theorem attribution_is_the_shared_time:
  assumes "list_all (\<lambda>g. fst g \<le> snd g) gpu"
  shows "total_of (fst (attribute (sort hosts) (gaps_over k (merged gpu)) [] [])) n =
    blamed (gaps_over k (merged gpu)) (sort hosts) n"
proof -
  have "\<forall>g\<in>set gpu. fst g \<le> snd g"
    using assms by (simp add: list_all_iff)
  from in_order_gaps [OF merged_ok(1) [OF this]] have o: "in_order (gaps_over k (merged gpu))" .
  have "sorted (map fst ss)" if "sorted ss" for ss :: "host_span list"
    using that by (induction ss) (auto simp: less_eq_prod_def)
  then have "sorted (map fst (sort hosts))"
    by simp
  from attribute_blames [OF o this, of "[]" "[]" n] show ?thesis
    by (simp add: total_of_def)
qed

theorem attribution_is_the_shared_time_witness:
  "total_of (fst (attribute (sort [(4, 9, ''b''), (1, 5, ''a'')]) (gaps_over 2 (merged [(5, 6), (0, 2), (1, 3)])) [] [])) ''a'' = 2"
proof -
  have "list_all (\<lambda>g. fst g \<le> snd g) [(5, 6), (0, 2), (1, 3 :: rat)]"
    by simp
  from attribution_is_the_shared_time [OF this, of "[(4, 9, ''b''), (1, 5, ''a'')]" 2 "''a''"] show ?thesis
    by (simp add: blamed_def shared_def overlap_def merged_def gaps_over_def)
qed

end
