(* ===== verification/Bare.thy ===== *)
theory Bare
  imports Settings
begin

section \<open>Plain connections: the receive loop of the tools\<close>

text \<open>
  The probe and the recharge tool each carry a small client of their own: one socket with one
  timeout, one request outstanding, answers read to the byte.  Their common receive loop, and what
  an honest network lets it return.
\<close>

text \<open>\<open>s.partition(c)\<close> without the separator, and a clock that is read from the world.\<close>

definition partition_at :: "char \<Rightarrow> string \<Rightarrow> string \<times> string" where
  "partition_at c s = (takeWhile (\<lambda>x. x \<noteq> c) s, tl (dropWhile (\<lambda>x. x \<noteq> c) s))"

definition ask_clock :: "('w \<Rightarrow> rat \<times> 'w) \<Rightarrow> ('x \<times> 'w, rat) prog" where
  "ask_clock clock = io (\<lambda>w. case clock w of (t, w') \<Rightarrow> (Inr t, w'))"

text \<open>\<open>recv_into(mv[got:], n - got)\<close> until \<open>n\<close> bytes are there.\<close>

function recv_all :: "'w net \<Rightarrow> nat \<Rightarrow> rat \<Rightarrow> nat \<Rightarrow> byte list \<Rightarrow> ('w, byte list) prog" where
  "recv_all E k t n got w =
     (if length got < n then
        (case n_recv E k t (n - length got) w of
           (Inl e, w') \<Rightarrow> (Inl e, w')
         | (Inr bs, w') \<Rightarrow>
             if bs = [] then (Inl (Exn IOError (ConnectionClosed (length got) n)), w')
             else recv_all E k t n (got @ take (n - length got) bs) w')
      else (Inr got, w))"
  by pat_completeness auto
termination
  by (relation "measure (\<lambda>(E, k, t, n, got, w). n - length got)")
    (auto simp: length_greater_0_conv [symmetric] min_def simp del: length_greater_0_conv)

declare recv_all.simps [simp del]

context honest_net begin

lemma recv_all_step:
  assumes "recv_all E k t n got w = (r, w')" and "v_wf V w" and "k \<in> v_used V w" and "length got \<le> n"
  shows "keeps V {k} w w' \<and> (\<forall>e. r = Inl e \<longrightarrow> is_os_error e) \<and>
    (\<forall>bs. r = Inr bs \<longrightarrow> length bs = n \<and> (\<exists>cs. bs = got @ cs \<and> v_out V w k = cs @ v_out V w' k))"
  using assms
proof (induction "n - length got" arbitrary: got w rule: less_induct)
  case less
  note run = less.prems(1) [unfolded recv_all.simps [of E k t n got w]]
  show ?case
  proof (cases "length got < n")
    case False
    then show ?thesis
      using run less.prems by auto
  next
    case True
    obtain x w1 where 1: "n_recv E k t (n - length got) w = (x, w1)"
      by (cases "n_recv E k t (n - length got) w")
    note k1 = recv_keeps [OF less.prems(2) 1]
    show ?thesis
    proof (cases x)
      case (Inl e)
      then show ?thesis
        using run 1 True k1 net_errors(4) by auto
    next
      case (Inr bs)
      have out: "v_out V w k = bs @ v_out V w1 k" "length bs \<le> n - length got"
        using recv_ok [OF less.prems(2,3)] 1 Inr by blast+
      show ?thesis
      proof (cases "bs = []")
        case True
        then show ?thesis
          using run 1 Inr k1 \<open>length got < n\<close> by auto
      next
        case False
        then have rest: "recv_all E k t n (got @ bs) w1 = (r, w')"
          using run 1 Inr \<open>length got < n\<close> out(2) by simp
        have "0 < length bs"
          using False by simp
        then have "n - length (got @ bs) < n - length got" "length (got @ bs) \<le> n"
          using \<open>length got < n\<close> out(2) unfolding length_append by linarith+
        note ih = less.hyps [OF this(1) rest keeps_wf [OF k1] keeps_used [OF k1 less.prems(3)] this(2)]
        then show ?thesis
          using out(1) keeps_trans [OF k1] by auto
      qed
    qed
  qed
qed

lemma recv_all_ok:
  assumes "recv_all E k t n [] w = (r, w')" and "v_wf V w" and "k \<in> v_used V w"
  shows "keeps V {k} w w'" and "r = Inl e \<Longrightarrow> is_os_error e"
    and "r = Inr bs \<Longrightarrow> length bs = n \<and> v_out V w k = bs @ v_out V w' k"
  using recv_all_step [OF assms] by auto

end

lemma header_front:
  assumes "g @ body = bs @ rest" and "pack_response rid st m = Inr g" and "length bs = 16"
  shows "body = rest" and "struct_unpack RESP_FMT bs = Inr [MAGIC_RESP, rid, st, m]"
proof -
  have "g = bs" "body = rest"
    using assms pack_response_Inr(1) [OF assms(2)] by (simp_all add: append_eq_append_conv)
  then show "body = rest" "struct_unpack RESP_FMT bs = Inr [MAGIC_RESP, rid, st, m]"
    using pack_response_Inr(2) [OF assms(2), of "[]"] assms(3) by (simp_all add: struct_unpack_def)
qed

end
