(* ===== verification/Stats.thy ===== *)
theory Stats
  imports Prelude
begin

section \<open>Order statistics of the standard library\<close>

text \<open>
  \<open>statistics.median\<close> and \<open>statistics.quantiles(..., method="inclusive")\<close>, which the probe and the
  latency experiments report, over exact rationals.  The quantiles grow with their rank and stay
  within the data, and the middle one is the median.
\<close>

definition median :: "rat list \<Rightarrow> exn + rat" where
  "median xs = (let d = sort xs; n = length xs in
     if n = 0 then Inl (Exn ValueError (Failed ''no median for empty data''))
     else if odd n then Inr (d ! (n div 2))
     else Inr ((d ! (n div 2 - 1) + d ! (n div 2)) / 2))"

text \<open>The \<open>i\<close>-th of the \<open>n - 1\<close> cut points: linear between the two data points around it.\<close>

definition quantile :: "nat \<Rightarrow> rat list \<Rightarrow> nat \<Rightarrow> rat" where
  "quantile n xs i = (let d = sort xs; m = length xs - 1; j = i * m div n; delta = i * m mod n in
     (d ! j * of_nat (n - delta) + d ! (j + 1) * of_nat delta) / of_nat n)"

lemma between_points:
  fixes a b :: rat
  assumes "a \<le> b" and "delta \<le> n" and "0 < n"
  shows "a \<le> (a * of_nat (n - delta) + b * of_nat delta) / of_nat n"
    and "(a * of_nat (n - delta) + b * of_nat delta) / of_nat n \<le> b"
proof -
  have "a * of_nat (n - delta) + b * of_nat delta = a * of_nat n + (b - a) * of_nat delta"
    "a * of_nat (n - delta) + b * of_nat delta = b * of_nat n - (b - a) * of_nat (n - delta)"
    using assms(2) by (simp_all add: of_nat_diff algebra_simps)
  moreover have "0 \<le> (b - a) * of_nat delta" "0 \<le> (b - a) * of_nat (n - delta)"
    using assms(1) by simp_all
  ultimately show "a \<le> (a * of_nat (n - delta) + b * of_nat delta) / of_nat n"
    "(a * of_nat (n - delta) + b * of_nat delta) / of_nat n \<le> b"
    using assms(3) by (simp_all add: pos_le_divide_eq pos_divide_le_eq)
qed

lemma slope_mono:
  fixes a b :: rat
  assumes "a \<le> b" and "x \<le> y" and "y \<le> n"
  shows "(a * of_nat (n - x) + b * of_nat x) / of_nat n \<le> (a * of_nat (n - y) + b * of_nat y) / of_nat n"
proof -
  have "a * of_nat (n - x) + b * of_nat x = a * of_nat n + (b - a) * of_nat x"
    "a * of_nat (n - y) + b * of_nat y = a * of_nat n + (b - a) * of_nat y"
    using assms(2,3) by (simp_all add: of_nat_diff algebra_simps)
  moreover have "(b - a) * of_nat x \<le> (b - a) * of_nat y"
    using assms(1,2) by (intro mult_left_mono) simp_all
  ultimately show ?thesis
    by (intro divide_right_mono) simp_all
qed

lemma cut_index:
  fixes xs :: "'a list"
  assumes "2 \<le> length xs" and "i < n"
  shows "i * (length xs - 1) div n + 1 < length xs"
proof -
  have "i * (length xs - 1) < n * (length xs - 1)"
    using assms by simp
  then have "i * (length xs - 1) div n < length xs - 1"
    by (simp add: less_mult_imp_div_less mult.commute)
  then show ?thesis
    by simp
qed

lemma sort_step: "i \<le> j \<Longrightarrow> j < length xs \<Longrightarrow> sort xs ! i \<le> sort xs ! j"
  by (rule sorted_nth_mono) simp_all

lemma quantile_between:
  assumes "2 \<le> length xs" and "i < n"
  shows "sort xs ! (i * (length xs - 1) div n) \<le> quantile n xs i"
    and "quantile n xs i \<le> sort xs ! (i * (length xs - 1) div n + 1)"
  unfolding quantile_def Let_def
  using between_points [OF sort_step [OF le_add1 cut_index [OF assms]], of "i * (length xs - 1) mod n" n] assms(2)
  by simp_all

lemma quantile_mono:
  assumes "2 \<le> length xs" and "i \<le> j" and "j < n"
  shows "quantile n xs i \<le> quantile n xs j"
proof -
  let ?m = "length xs - 1"
  have le: "i * ?m \<le> j * ?m"
    using assms(2) by simp
  show ?thesis
  proof (cases "i * ?m div n = j * ?m div n")
    case True
    have "i * ?m mod n \<le> j * ?m mod n"
      using le True by (metis add_le_cancel_left div_mult_mod_eq)
    then show ?thesis
      unfolding quantile_def Let_def True
      using slope_mono [OF sort_step [OF le_add1 cut_index [OF assms(1,3)]]] assms(3) by simp
  next
    case False
    then have "i * ?m div n + 1 \<le> j * ?m div n"
      using div_le_mono [OF le, of n] by simp
    then have "sort xs ! (i * ?m div n + 1) \<le> sort xs ! (j * ?m div n)"
      using cut_index [OF assms(1,3)] by (intro sort_step) simp_all
    moreover have "quantile n xs i \<le> sort xs ! (i * ?m div n + 1)"
      using quantile_between(2) [OF assms(1), of i n] assms(2,3) by simp
    ultimately show ?thesis
      using quantile_between(1) [OF assms(1,3)] by linarith
  qed
qed

lemma quantile_within:
  assumes "2 \<le> length xs" and "i < n"
  shows "hd (sort xs) \<le> quantile n xs i \<and> quantile n xs i \<le> last (sort xs)"
proof -
  note c = cut_index [OF assms]
  have ne: "sort xs \<noteq> []"
    using assms(1) by (metis length_0_conv length_sort not_numeral_le_zero)
  have "sort xs ! 0 \<le> sort xs ! (i * (length xs - 1) div n)"
    "sort xs ! (i * (length xs - 1) div n + 1) \<le> sort xs ! (length xs - 1)"
    using c by (auto intro!: sort_step)
  then have "hd (sort xs) \<le> quantile n xs i" "quantile n xs i \<le> last (sort xs)"
    using quantile_between [OF assms] ne by (simp_all add: hd_conv_nth last_conv_nth)
  then show ?thesis
    by simp
qed

lemma median_quantile:
  assumes "2 \<le> length xs" and "0 < h"
  shows "median xs = Inr (quantile (2 * h) xs h)"
proof -
  define d where "d = sort xs"
  have d: "quantile (2 * h) xs h = (let m = length xs - 1; j = h * m div (2 * h); delta = h * m mod (2 * h) in
     (d ! j * of_nat (2 * h - delta) + d ! (j + 1) * of_nat delta) / of_nat (2 * h))"
    by (simp only: quantile_def d_def Let_def)
  have cut: "h * m div (2 * h) = m div 2" "h * m mod (2 * h) = h * (m mod 2)" for m
    using assms(2) by (simp_all add: mult.commute [of 2 h])
  show ?thesis
  proof (cases "odd (length xs)")
    case True
    then obtain k where "length xs = 2 * k + 1"
      by (rule oddE)
    then show ?thesis
      using assms(2) by (simp add: d cut median_def d_def Let_def)
  next
    case False
    then obtain k where k: "length xs = 2 * k" "0 < k"
      using assms(1) by (auto elim!: evenE)
    have m: "length xs - 1 = 2 * (k - 1) + 1" "length xs div 2 = k" "k - 1 + 1 = k"
      using k by simp_all
    have "quantile (2 * h) xs h = (d ! (k - 1) * of_nat (2 * h - h) + d ! k * of_nat h) / of_nat (2 * h)"
      unfolding d cut m by (simp add: m(3) [simplified])
    also have "\<dots> = (d ! (k - 1) + d ! k) * of_nat h / (2 * of_nat h)"
      by (simp add: distrib_right)
    also have "\<dots> = (d ! (k - 1) + d ! k) / 2"
      using assms(2) by simp
    finally show ?thesis
      using False k(2) m(2) by (simp only: median_def Let_def d_def) auto
  qed
qed

lemma median_Inr: "xs \<noteq> [] \<Longrightarrow> \<exists>v. median xs = Inr v"
  by (cases "median xs") (auto simp: median_def Let_def split: if_splits)

end
