(* ===== verification/Probe.thy ===== *)
theory Probe
  imports Bare Table Stats
begin

section \<open>The round-trip probe\<close>

text \<open>
  \<open>bench/probe.py\<close>: its \<open>Peer\<close>, its vectorised \<open>gather\<close>, the timed runs and \<open>main\<close> from the first
  connection to the verdict.  NumPy masks are lists of booleans, a \<open>uint32\<close> array is a list of
  naturals; out-of-range ids raise \<open>OverflowError\<close> as NumPy 2 does.  The random generator, the
  exporter subprocess and \<open>perf_counter\<close> are parameters.
\<close>

definition PROBE_TIMEOUT :: rat where "PROBE_TIMEOUT = 30"
definition PROBE_ROW :: nat where "PROBE_ROW = 160"

record probe_peer =
  pb_addr :: string
  pb_sock :: nat
  pb_req_id :: nat
  pb_base :: nat
  pb_count :: nat
  pb_stat :: stat

type_synonym ('w, 'a) probe = "(probe_peer \<times> 'w, 'a) prog"

subsection \<open>One peer\<close>

definition probe_hdr :: "nat \<Rightarrow> nat \<Rightarrow> ('w, byte list) probe" where
  "probe_hdr op n = bnd (gets (\<lambda>s. (pb_req_id (fst s) + 1) mod 2 ^ 32)) (\<lambda>r.
     seq (upd (\<lambda>p. p\<lparr>pb_req_id := r\<rparr>)) (of_sum (pack_request op 0 r n)))"

definition probe_send :: "'w net \<Rightarrow> byte list \<Rightarrow> ('w, unit) probe" where
  "probe_send E msg = bnd (gets fst) (\<lambda>p. io (n_send E (pb_sock p) PROBE_TIMEOUT msg))"

definition probe_recv :: "'w net \<Rightarrow> nat \<Rightarrow> ('w, byte list) probe" where
  "probe_recv E n = bnd (gets fst) (\<lambda>p. io (recv_all E (pb_sock p) PROBE_TIMEOUT n []))"

definition probe_check :: "nat list \<Rightarrow> ('w, nat) probe" where
  "probe_check fs = (case fs of
     [magic, rid, status, n] \<Rightarrow>
       if magic \<noteq> MAGIC_RESP then raise (Exn IOError (BadMagic magic))
       else bnd (gets (\<lambda>s. pb_req_id (fst s))) (\<lambda>r.
         if rid \<noteq> r then raise (Exn IOError (OutOfSync rid (Some r)))
         else if status \<noteq> 0 then raise (Exn IOError (BadStatus status))
         else ret n)
   | _ \<Rightarrow> raise (Exn StructError FieldRange))"

definition probe_read_hdr :: "'w net \<Rightarrow> ('w, nat) probe" where
  "probe_read_hdr E = bnd (probe_recv E HEADER) (\<lambda>bs.
     bnd (of_sum (struct_unpack RESP_FMT bs)) probe_check)"

definition probe_query :: "'w net \<Rightarrow> ('w, stat) probe" where
  "probe_query E = bnd (probe_hdr OP_STAT 0) (\<lambda>h. seq (probe_send E h)
     (bnd (probe_read_hdr E) (\<lambda>_. bnd (probe_recv E STAT_BODY) (\<lambda>body.
        bnd (of_sum (struct_unpack STAT_FMT body)) (\<lambda>fs. of_sum (stat_of_fields fs))))))"

definition probe_ping :: "'w net \<Rightarrow> ('w, unit) probe" where
  "probe_ping E = bnd (probe_hdr OP_PING 0) (\<lambda>h. seq (probe_send E h)
     (bnd (probe_read_hdr E) (\<lambda>_. ret ())))"

definition probe_send_gather :: "'w net \<Rightarrow> nat list \<Rightarrow> ('w, unit) probe" where
  "probe_send_gather E ids = bnd (probe_hdr OP_GATHER (length ids)) (\<lambda>h. probe_send E (h @ id_bytes ids))"

definition probe_read_gather :: "'w net \<Rightarrow> nat \<Rightarrow> ('w, byte list) probe" where
  "probe_read_gather E n = bnd (probe_read_hdr E) (\<lambda>got.
     if got \<noteq> n then raise (Exn IOError (WrongCount got n)) else probe_recv E (n * PROBE_ROW))"

text \<open>\<open>__init__\<close>: the address splits at its first colon; no port, or an empty one, is 9000.\<close>

definition open_probe :: "'w net \<Rightarrow> string \<Rightarrow> ('w, probe_peer) prog" where
  "open_probe E address w = (case partition_at (CHR '':'') address of (h, ps) \<Rightarrow>
     (case (if ps = [] then Inr 9000 else py_int ps) of
        Inl e \<Rightarrow> (Inl e, w)
      | Inr prt \<Rightarrow> (case n_connect E (h, prt) PROBE_TIMEOUT w of
          (Inl e, w1) \<Rightarrow> (Inl e, w1)
        | (Inr k, w1) \<Rightarrow>
            (let none = \<lparr>st_base_row = 0, st_row_count = 0, st_row_bytes = 0, st_resident_pages = 0,
               st_served_requests = 0\<rparr> in
             case probe_query E (\<lparr>pb_addr = address, pb_sock = k, pb_req_id = 0, pb_base = 0, pb_count = 0,
                 pb_stat = none\<rparr>, w1) of
               (Inl e, s) \<Rightarrow> (Inl e, snd s)
             | (Inr st, s) \<Rightarrow> (Inr ((fst s)\<lparr>pb_base := st_base_row st, pb_count := st_row_count st,
                 pb_stat := st\<rparr>), snd s)))))"

subsection \<open>Gathering\<close>

type_synonym ('w, 'a) probes = "(probe_peer list \<times> 'w, 'a) prog"

definition on_probe :: "nat \<Rightarrow> ('w, 'a) probe \<Rightarrow> ('w, 'a) probes" where
  "on_probe i m s = (case m (fst s ! i, snd s) of (r, (p', w')) \<Rightarrow> (r, ((fst s)[i := p'], w')))"

definition uint32_array :: "int list \<Rightarrow> exn + nat list" where
  "uint32_array ids = (if list_all (\<lambda>i. 0 \<le> i \<and> i < 2 ^ 32) ids then Inr (map nat ids)
     else Inl (Exn OverflowError FieldRange))"

definition probe_owns :: "probe_peer \<Rightarrow> nat \<Rightarrow> bool" where
  "probe_owns p i \<longleftrightarrow> pb_base p \<le> i \<and> i < pb_base p + pb_count p"

definition probe_masks :: "probe_peer list \<Rightarrow> nat list \<Rightarrow> bool list list" where
  "probe_masks ps ids = map (\<lambda>p. map (probe_owns p) ids) ps"

text \<open>\<open>ids[m]\<close>, \<open>out[m] = rows\<close> and \<open>reshape(-1, ROW_BYTES)\<close>.\<close>

definition picked :: "bool list \<Rightarrow> 'a list \<Rightarrow> 'a list" where
  "picked mk xs = map snd (filter fst (zip mk xs))"

fun put_rows :: "bool list \<Rightarrow> 'a list \<Rightarrow> 'a list \<Rightarrow> 'a list" where
  "put_rows (True # mk) (x # out) (r # rs) = r # put_rows mk out rs"
| "put_rows (False # mk) (x # out) rs = x # put_rows mk out rs"
| "put_rows _ out _ = out"

definition reshape :: "nat \<Rightarrow> byte list \<Rightarrow> byte list list" where
  "reshape n raw = map (\<lambda>j. take PROBE_ROW (drop (j * PROBE_ROW) raw)) [0..<n]"

fun ask_probes :: "'w net \<Rightarrow> nat \<Rightarrow> nat list list \<Rightarrow> ('w, unit) probes" where
  "ask_probes E i [] = ret ()"
| "ask_probes E i (sub # subs) =
     seq (if sub = [] then ret () else on_probe i (probe_send_gather E sub)) (ask_probes E (Suc i) subs)"

fun fill_probes ::
  "'w net \<Rightarrow> nat \<Rightarrow> (nat list \<times> bool list) list \<Rightarrow> byte list list \<Rightarrow> ('w, byte list list) probes" where
  "fill_probes E i [] out = ret out"
| "fill_probes E i ((sub, mk) # work) out =
     (if sub = [] then fill_probes E (Suc i) work out
      else bnd (on_probe i (probe_read_gather E (length sub))) (\<lambda>raw.
        fill_probes E (Suc i) work (put_rows mk out (reshape (length sub) raw))))"

definition probe_gather :: "'w net \<Rightarrow> int list \<Rightarrow> ('w, byte list list) probes" where
  "probe_gather E ids = bnd (of_sum (uint32_array ids)) (\<lambda>ids. bnd (gets fst) (\<lambda>ps.
     let marks = probe_masks ps ids; subs = map (\<lambda>mk. picked mk ids) marks in
     if sum_list (map (\<lambda>mk. length (filter (\<lambda>b. b) mk)) marks) \<noteq> length ids
     then raise (Exn ValueError (Failed ''some ids belong to no peer''))
     else seq (ask_probes E 0 subs)
       (fill_probes E 0 (zip subs marks) (replicate (length ids) (replicate PROBE_ROW (n_junk E))))))"

subsection \<open>Timed runs\<close>

record probe_result =
  pr_workload :: string
  pr_rows :: nat
  pr_iters :: nat
  pr_p50 :: rat
  pr_p90 :: rat
  pr_p99 :: rat
  pr_max :: rat
  pr_min :: rat
  pr_mb_s :: rat

definition pct :: "rat list \<Rightarrow> nat \<Rightarrow> exn + rat" where
  "pct xs q = (if length xs > 2 then Inr (quantile 1000 xs q)
     else if xs = [] then Inl (Exn ValueError (Failed ''max of nothing'')) else Inr (Max (set xs)))"

primrec probe_warmup ::
  "'w net \<Rightarrow> (nat \<Rightarrow> nat \<Rightarrow> 'g \<Rightarrow> exn + int list \<times> 'g) \<Rightarrow> nat \<Rightarrow> nat \<Rightarrow> nat \<Rightarrow> 'g \<Rightarrow> ('w, 'g) probes" where
  "probe_warmup E integers nrows ntotal 0 g = ret g"
| "probe_warmup E integers nrows ntotal (Suc n) g =
     bnd (of_sum (integers ntotal nrows g)) (\<lambda>(ids, g').
     bnd (probe_gather E ids) (\<lambda>_. probe_warmup E integers nrows ntotal n g'))"

primrec probe_timed ::
  "'w net \<Rightarrow> ('w \<Rightarrow> rat \<times> 'w) \<Rightarrow> (nat \<Rightarrow> nat \<Rightarrow> 'g \<Rightarrow> exn + int list \<times> 'g) \<Rightarrow> nat \<Rightarrow> nat \<Rightarrow> nat \<Rightarrow> 'g
    \<Rightarrow> ('w, rat list) probes" where
  "probe_timed E clock integers nrows ntotal 0 g = ret []"
| "probe_timed E clock integers nrows ntotal (Suc n) g =
     bnd (of_sum (integers ntotal nrows g)) (\<lambda>(ids, g').
     bnd (ask_clock clock) (\<lambda>t0. bnd (probe_gather E ids) (\<lambda>_. bnd (ask_clock clock) (\<lambda>t1.
     bnd (probe_timed E clock integers nrows ntotal n g') (\<lambda>lat. ret ((t1 - t0) * 1000 # lat))))))"

definition probe_summary :: "string \<Rightarrow> nat \<Rightarrow> nat \<Rightarrow> rat list \<Rightarrow> rat \<Rightarrow> exn + probe_result" where
  "probe_summary label nrows iters lat wall =
     (case (median lat, pct lat 900, pct lat 990) of
        (Inr p50, Inr p90, Inr p99) \<Rightarrow>
          if wall = 0 then Inl (Exn ZeroDivisionError (Failed ''wall''))
          else Inr \<lparr>pr_workload = label, pr_rows = nrows, pr_iters = iters, pr_p50 = p50, pr_p90 = p90,
            pr_p99 = p99, pr_max = Max (set lat), pr_min = Min (set lat),
            pr_mb_s = of_nat (nrows * PROBE_ROW * iters) / 1000000 / wall\<rparr>
      | (Inl e, _, _) \<Rightarrow> Inl e
      | (_, Inl e, _) \<Rightarrow> Inl e
      | (_, _, Inl e) \<Rightarrow> Inl e)"

definition probe_run ::
  "'w net \<Rightarrow> ('w \<Rightarrow> rat \<times> 'w) \<Rightarrow> (nat \<Rightarrow> nat \<Rightarrow> 'g \<Rightarrow> exn + int list \<times> 'g) \<Rightarrow> 'g \<Rightarrow> nat \<Rightarrow> nat \<Rightarrow> nat \<Rightarrow> string
    \<Rightarrow> ('w, probe_result) probes" where
  "probe_run E clock integers seed nrows iters ntotal label =
     bnd (probe_warmup E integers nrows ntotal (max 3 (iters div 10)) seed) (\<lambda>g.
     bnd (ask_clock clock) (\<lambda>t0.
     bnd (probe_timed E clock integers nrows ntotal iters g) (\<lambda>lat.
     bnd (ask_clock clock) (\<lambda>t1. of_sum (probe_summary label nrows iters lat (t1 - t0))))))"

subsection \<open>The whole probe\<close>

fun probe_cover :: "nat \<Rightarrow> probe_peer list \<Rightarrow> exn + nat" where
  "probe_cover cover [] = Inr cover"
| "probe_cover cover (p # ps) =
     (if pb_base p \<noteq> cover then Inl (Exn SystemExit (SplitGap (pb_base p) cover))
      else probe_cover (cover + pb_count p) ps)"

text \<open>The ids that are checked; the last is inside a permuted shard.\<close>

definition probe_ids :: "nat \<Rightarrow> nat \<Rightarrow> int list" where
  "probe_ids half ntotal = [0, 1, int half - 1, int half, int half + 1, int ntotal - 1, 12345678, 250001200]"

text \<open>\<open>truth_row\<close>: what the exporter writes for one row, or why it failed.\<close>

primrec compare_truth ::
  "(int \<Rightarrow> 'w \<Rightarrow> (exn + byte list) \<times> 'w) \<Rightarrow> (int \<times> byte list) list \<Rightarrow> ('x \<times> 'w, bool list) prog" where
  "compare_truth truth_row [] = ret []"
| "compare_truth truth_row (x # xs) =
     bnd (io (truth_row (fst x))) (\<lambda>row. bnd (compare_truth truth_row xs) (\<lambda>rest. ret ((snd x = row) # rest)))"

definition probe_verify :: "'w net \<Rightarrow> (int \<Rightarrow> 'w \<Rightarrow> (exn + byte list) \<times> 'w) \<Rightarrow> nat \<Rightarrow> ('w, bool list) probes" where
  "probe_verify E truth_row ntotal =
     bnd (gets (\<lambda>s. pb_count (hd (fst s)))) (\<lambda>half.
     let ids = probe_ids half ntotal in
     bnd (probe_gather E ids) (\<lambda>got.
     bnd (compare_truth truth_row (zip ids got)) (\<lambda>oks.
     if False \<in> set oks then raise (Exn SystemExit (Failed ''rows do not match the safetensors''))
     else ret oks)))"

primrec open_probes :: "'w net \<Rightarrow> string list \<Rightarrow> ('w, probe_peer list) prog" where
  "open_probes E [] = ret []"
| "open_probes E (x # xs) = bnd (open_probe E (py_strip x)) (\<lambda>p. bnd (open_probes E xs) (\<lambda>ps. ret (p # ps)))"

record probe_args =
  pa_peers :: string
  pa_skip_verify :: bool
  pa_iters :: nat

definition probe_plan :: "nat \<Rightarrow> (string \<times> nat \<times> nat) list" where
  "probe_plan iters = [(''decode'', 512, iters), (''prefill'', 65536, max 10 (iters div 10)),
     (''sweep-2048'', 2048, iters), (''sweep-8192'', 8192, max 20 (iters div 4))]"

text \<open>
  What is printed: per peer its address, its range, its row width, the GiB it holds resident and
  the requests it served; the rows covered; the ping round trip; the verdicts; the runs.
\<close>

record probe_report =
  pp_peers :: "(string \<times> nat \<times> nat \<times> nat \<times> rat \<times> nat) list"
  pp_cover :: nat
  pp_ping_ms :: rat
  pp_matches :: "bool list"
  pp_results :: "probe_result list"

definition describe_probe :: "probe_peer \<Rightarrow> string \<times> nat \<times> nat \<times> nat \<times> rat \<times> nat" where
  "describe_probe p = (pb_addr p, pb_base p, pb_base p + pb_count p, st_row_bytes (pb_stat p),
     of_nat (st_resident_pages (pb_stat p) * 4096) / 2 ^ 30, st_served_requests (pb_stat p))"

definition probe_body ::
  "'w net \<Rightarrow> ('w \<Rightarrow> rat \<times> 'w) \<Rightarrow> (nat \<Rightarrow> nat \<Rightarrow> 'g \<Rightarrow> exn + int list \<times> 'g) \<Rightarrow> 'g
    \<Rightarrow> (int \<Rightarrow> 'w \<Rightarrow> (exn + byte list) \<times> 'w) \<Rightarrow> probe_args \<Rightarrow> ('w, probe_report) probes" where
  "probe_body E clock integers seed truth_row a =
     bnd (gets fst) (\<lambda>ps. let ntotal = sum_list (map pb_count ps) in
     bnd (of_sum (probe_cover 0 ps)) (\<lambda>cover.
     bnd (ask_clock clock) (\<lambda>t0.
     seq (each [0..<length ps] (\<lambda>i. on_probe i (probe_ping E)))
     (bnd (ask_clock clock) (\<lambda>t1.
     bnd (if pa_skip_verify a then ret [] else probe_verify E truth_row ntotal) (\<lambda>oks.
     bnd (collect (probe_plan (pa_iters a)) (\<lambda>(label, nrows, iters).
       probe_run E clock integers seed nrows iters ntotal label)) (\<lambda>results.
     ret \<lparr>pp_peers = map describe_probe ps, pp_cover = cover,
       pp_ping_ms = (t1 - t0) * 1000 / of_nat (length ps), pp_matches = oks, pp_results = results\<rparr>)))))))"

definition probe_main ::
  "'w net \<Rightarrow> ('w \<Rightarrow> rat \<times> 'w) \<Rightarrow> (nat \<Rightarrow> nat \<Rightarrow> 'g \<Rightarrow> exn + int list \<times> 'g) \<Rightarrow> 'g
    \<Rightarrow> (int \<Rightarrow> 'w \<Rightarrow> (exn + byte list) \<times> 'w) \<Rightarrow> probe_args \<Rightarrow> ('w, probe_report) prog" where
  "probe_main E clock integers seed truth_row a w =
     (case open_probes E (split_on (CHR '','') (pa_peers a)) w of
        (Inl e, w') \<Rightarrow> (Inl e, w')
      | (Inr ps, w') \<Rightarrow> (case probe_body E clock integers seed truth_row a (sort_key pb_base ps, w') of
          (r, s) \<Rightarrow> (r, snd s)))"

end
