(* ===== verification/Probe_Proof.thy ===== *)
theory Probe_Proof
  imports Probe
begin

section \<open>The probe over an honest network\<close>

text \<open>
  The abstract table is a function \<open>T\<close> from row numbers to bytes; \<open>lookup\<close> is what a gather should
  return of it.  Each connection of the probe stands at a stage of its request, as in \<open>Link\<close>; the
  gather moves every addressed peer from idle to asked and back.
\<close>

definition lookup :: "(nat \<Rightarrow> byte list) \<Rightarrow> nat \<Rightarrow> int list \<Rightarrow> byte list list option" where
  "lookup T n ids = (if list_all (\<lambda>i. 0 \<le> i \<and> i < int n) ids then Some (map (\<lambda>i. T (nat i)) ids) else None)"

definition holds :: "('s \<Rightarrow> nat) \<Rightarrow> ('s \<Rightarrow> nat) \<Rightarrow> ('s \<Rightarrow> nat) \<Rightarrow> ('s \<Rightarrow> nat \<Rightarrow> byte list) \<Rightarrow> ('s \<Rightarrow> bool) \<Rightarrow>
    (nat \<Rightarrow> byte list) \<Rightarrow> bool" where
  "holds base cnt width row D T \<longleftrightarrow> (\<forall>s. D s \<longrightarrow> width s = PROBE_ROW \<and>
     (\<forall>i. base s \<le> i \<longrightarrow> i < base s + cnt s \<longrightarrow> row s i = T i))"

type_synonym 's probe_stage = "nat \<Rightarrow> probe_peer \<Rightarrow> byte list \<Rightarrow> 's \<Rightarrow> bool"

definition probes_in :: "('s \<Rightarrow> nat) \<Rightarrow> ('s \<Rightarrow> nat) \<Rightarrow> ('w, 's) view \<Rightarrow> ('s \<Rightarrow> bool) \<Rightarrow> 's probe_stage \<Rightarrow>
    probe_peer list \<times> 'w \<Rightarrow> bool" where
  "probes_in base cnt V D F s \<longleftrightarrow> v_wf V (snd s) \<and> distinct (map pb_sock (fst s)) \<and>
     (\<forall>i<length (fst s). let p = fst s ! i; srv = v_srv V (snd s) (pb_sock p) in
        pb_sock p \<in> v_used V (snd s) \<and> D srv \<and> pb_base p = base srv \<and> pb_count p = cnt srv \<and>
        F i p (v_out V (snd s) (pb_sock p)) srv)"

definition at_rest :: "'s probe_stage" where
  "at_rest i p out srv \<longleftrightarrow> out = []"

definition probes_idle :: "('s \<Rightarrow> nat) \<Rightarrow> ('s \<Rightarrow> nat) \<Rightarrow> ('w, 's) view \<Rightarrow> ('s \<Rightarrow> bool) \<Rightarrow>
    probe_peer list \<times> 'w \<Rightarrow> bool" where
  "probes_idle base cnt V D s \<longleftrightarrow> probes_in base cnt V D at_rest s"

definition stepped :: "('w, 's) view \<Rightarrow> probe_peer \<times> 'w \<Rightarrow> probe_peer \<times> 'w \<Rightarrow> bool" where
  "stepped V s s' \<longleftrightarrow> (\<exists>r. fst s' = (fst s)\<lparr>pb_req_id := r\<rparr>) \<and> keeps V {pb_sock (fst s)} (snd s) (snd s')"

definition same_ranges :: "probe_peer list \<Rightarrow> probe_peer list \<Rightarrow> bool" where
  "same_ranges ps qs \<longleftrightarrow> map (\<lambda>p. p\<lparr>pb_req_id := 0\<rparr>) qs = map (\<lambda>p. p\<lparr>pb_req_id := 0\<rparr>) ps"

lemma stepped_refl: "v_wf V w \<Longrightarrow> stepped V (p, w) (p, w)"
  unfolding stepped_def by (auto intro: exI [of _ "pb_req_id p"])

lemma stepped_sel:
  assumes "stepped V s s'"
  shows "pb_sock (fst s') = pb_sock (fst s)" "pb_base (fst s') = pb_base (fst s)" "pb_count (fst s') = pb_count (fst s)"
    "(fst s')\<lparr>pb_req_id := 0\<rparr> = (fst s)\<lparr>pb_req_id := 0\<rparr>" "keeps V {pb_sock (fst s)} (snd s) (snd s')"
  using assms by (auto simp: stepped_def)

lemma stepped_trans: "stepped V s t \<Longrightarrow> stepped V t u \<Longrightarrow> stepped V s u"
  unfolding stepped_def by (auto intro: keeps_trans)

lemma same_ranges_refl [simp]: "same_ranges ps ps"
  by (simp add: same_ranges_def)

lemma same_ranges_trans: "same_ranges ps qs \<Longrightarrow> same_ranges qs rs \<Longrightarrow> same_ranges ps rs"
  by (simp add: same_ranges_def)

lemma same_ranges_map:
  assumes "same_ranges ps qs" and "\<And>p. f (p\<lparr>pb_req_id := 0\<rparr>) = f p"
  shows "map f qs = map f ps"
  using arg_cong [OF assms(1) [unfolded same_ranges_def], of "map f"] by (simp add: assms(2) comp_def)

lemma same_ranges_sel:
  assumes "same_ranges ps qs"
  shows "length qs = length ps" "map pb_count qs = map pb_count ps" "map pb_base qs = map pb_base ps"
    "map describe_probe qs = map describe_probe ps"
proof -
  show "length qs = length ps"
    using assms unfolding same_ranges_def by (rule map_eq_imp_length_eq)
qed (rule same_ranges_map [OF assms], simp add: describe_probe_def)+

lemma probes_in_nth:
  assumes "probes_in base cnt V D F s" and "i < length (fst s)"
  shows "v_wf V (snd s)" "pb_sock (fst s ! i) \<in> v_used V (snd s)" "D (v_srv V (snd s) (pb_sock (fst s ! i)))"
    "F i (fst s ! i) (v_out V (snd s) (pb_sock (fst s ! i))) (v_srv V (snd s) (pb_sock (fst s ! i)))"
  using assms by (simp_all add: probes_in_def Let_def)

lemma probes_in_weaken:
  "probes_in base cnt V D F s \<Longrightarrow> (\<And>i p out srv. i < length (fst s) \<Longrightarrow> F i p out srv \<Longrightarrow> G i p out srv)
    \<Longrightarrow> probes_in base cnt V D G s"
  by (auto simp: probes_in_def Let_def)

text \<open>The rule for a step of one peer: it moves its own stage and leaves the others alone.\<close>

lemma on_probe_in:
  assumes s: "probes_in base cnt V D F s" and i: "i < length (fst s)" and run: "on_probe i m s = (r, s')"
    and m: "\<And>p' w'. m (fst s ! i, snd s) = (r, (p', w')) \<Longrightarrow> stepped V (fst s ! i, snd s) (p', w') \<and>
      G p' (v_out V w' (pb_sock p')) (v_srv V w' (pb_sock p'))"
  shows "probes_in base cnt V D (F(i := G)) s'" and "same_ranges (fst s) (fst s')"
proof -
  obtain p' w' where 1: "m (fst s ! i, snd s) = (r, (p', w'))"
    and s': "s' = ((fst s)[i := p'], w')"
    using run by (auto simp: on_probe_def split: prod.splits)
  note st = m [OF 1]
  note sel = stepped_sel [OF conjunct1 [OF st], simplified]
  show "same_ranges (fst s) (fst s')"
    using sel(4) s' by (simp add: same_ranges_def map_update list_update_same_conv i)
  have d: "distinct (map pb_sock (fst s))"
    using s by (simp add: probes_in_def)
  have other: "pb_sock (fst s ! j) \<noteq> pb_sock (fst s ! i)" if "j < length (fst s)" "j \<noteq> i" for j
    using nth_eq_iff_index_eq [OF d, of j i] that i by simp
  have d': "distinct (map pb_sock (fst s'))"
    using d sel(1) s' i by (simp add: map_update list_update_same_conv [THEN iffD2])
  have "pb_sock p \<in> v_used V w' \<and> D (v_srv V w' (pb_sock p)) \<and> pb_base p = base (v_srv V w' (pb_sock p)) \<and>
      pb_count p = cnt (v_srv V w' (pb_sock p)) \<and>
      (F(i := G)) j p (v_out V w' (pb_sock p)) (v_srv V w' (pb_sock p))"
    if j: "j < length (fst s)" and p: "p = (fst s)[i := p'] ! j" for j p
  proof (cases "j = i")
    case True
    then have p': "p = p'"
      using p i by simp
    have at_i: "pb_sock (fst s ! i) \<in> v_used V (snd s)" "D (v_srv V (snd s) (pb_sock (fst s ! i)))"
      "pb_base (fst s ! i) = base (v_srv V (snd s) (pb_sock (fst s ! i)))"
      "pb_count (fst s ! i) = cnt (v_srv V (snd s) (pb_sock (fst s ! i)))"
      using s i by (simp_all add: probes_in_def Let_def)
    then show ?thesis
      unfolding p' True sel(1-3) keeps_srv [OF sel(5) at_i(1)]
      using keeps_used [OF sel(5) at_i(1)] st keeps_srv [OF sel(5) at_i(1)] sel(1) by simp
  next
    case False
    then have p: "p = fst s ! j"
      using p by simp
    have at_j: "pb_sock (fst s ! j) \<in> v_used V (snd s)"
      using s j by (simp add: probes_in_def Let_def)
    have "pb_sock (fst s ! j) \<notin> {pb_sock (fst s ! i)}"
      using other [OF j False] by simp
    then show ?thesis
      unfolding p using s j False keeps_used [OF sel(5) at_j]
      by (simp add: probes_in_def Let_def keeps_srv [OF sel(5) at_j] keeps_out [OF sel(5) at_j])
  qed
  then show "probes_in base cnt V D (F(i := G)) s'"
    using d' keeps_wf [OF sel(5)] unfolding s' probes_in_def Let_def fst_conv snd_conv length_list_update by blast
qed

subsection \<open>The methods of one peer\<close>

context honest_net begin

definition steady :: "probe_peer \<times> 'w \<Rightarrow> bool" where
  "steady s \<longleftrightarrow> v_wf V (snd s) \<and> pb_sock (fst s) \<in> v_used V (snd s)"

lemma steady_stepped: "steady s \<Longrightarrow> stepped V s t \<Longrightarrow> steady t"
  using stepped_sel [of V s t] by (auto simp: steady_def dest: keeps_wf keeps_used)

lemma stepped_srv: "steady s \<Longrightarrow> stepped V s t \<Longrightarrow> v_srv V (snd t) (pb_sock (fst s)) = v_srv V (snd s) (pb_sock (fst s))"
  using stepped_sel [of V s t] by (auto simp: steady_def dest: keeps_srv)

lemma probe_hdr_step:
  assumes "probe_hdr op n s = (r, s')" and "steady s"
  shows "stepped V s s'" and "v_out V (snd s') k = v_out V (snd s) k"
    and "r = Inr h \<Longrightarrow> pack_request op 0 (pb_req_id (fst s')) n = Inr h"
  using assms by (auto simp: probe_hdr_def of_sum_run stepped_def steady_def)

lemma probe_send_step:
  assumes "probe_send E msg s = (r, s')" and "steady s"
  shows "stepped V s s'" and "fst s' = fst s"
    and "r = Inr u \<Longrightarrow> v_out V (snd s) (pb_sock (fst s)) = [] \<Longrightarrow>
      reply (v_srv V (snd s) (pb_sock (fst s))) msg (v_out V (snd s') (pb_sock (fst s)))"
proof -
  obtain x w' where 1: "n_send E (pb_sock (fst s)) PROBE_TIMEOUT msg (snd s) = (x, w')"
    by (cases "n_send E (pb_sock (fst s)) PROBE_TIMEOUT msg (snd s)")
  then have s': "r = x" "s' = (fst s, w')"
    using assms(1) by (simp_all add: probe_send_def io_def)
  have wf: "v_wf V (snd s)" "pb_sock (fst s) \<in> v_used V (snd s)"
    using assms(2) by (auto simp: steady_def)
  show "stepped V s s'" "fst s' = fst s"
    using send_keeps [OF wf(1) 1] s' by (auto simp: stepped_def intro: exI [of _ "pb_req_id (fst s)"])
  show "reply (v_srv V (snd s) (pb_sock (fst s))) msg (v_out V (snd s') (pb_sock (fst s)))"
    if "r = Inr u" "v_out V (snd s) (pb_sock (fst s)) = []"
    using send_ok [OF wf that(2)] 1 s' that(1) by simp
qed

lemma probe_recv_step:
  assumes "probe_recv E n s = (r, s')" and "steady s"
  shows "stepped V s s'" and "fst s' = fst s"
    and "r = Inr bs \<Longrightarrow> length bs = n \<and>
      v_out V (snd s) (pb_sock (fst s)) = bs @ v_out V (snd s') (pb_sock (fst s))"
proof -
  obtain x w' where 1: "recv_all E (pb_sock (fst s)) PROBE_TIMEOUT n [] (snd s) = (x, w')"
    by (cases "recv_all E (pb_sock (fst s)) PROBE_TIMEOUT n [] (snd s)")
  then have s': "r = x" "s' = (fst s, w')"
    using assms(1) by (simp_all add: probe_recv_def io_def)
  note ok = recv_all_ok [OF 1] assms(2) [unfolded steady_def]
  show "stepped V s s'" "fst s' = fst s"
    using ok s' by (auto simp: stepped_def intro: exI [of _ "pb_req_id (fst s)"])
  show "length bs = n \<and> v_out V (snd s) (pb_sock (fst s)) = bs @ v_out V (snd s') (pb_sock (fst s))"
    if "r = Inr bs"
    using ok(3) [of bs] ok(4) s' that by simp
qed

lemma probe_check_step:
  assumes "probe_check fs s = (r, s')"
  shows "s' = s" and "r = Inr n \<Longrightarrow> fs = [MAGIC_RESP, pb_req_id (fst s), 0, n]"
  using assms by (auto simp: probe_check_def raise_run ret_run split: list.splits if_splits)

text \<open>A header is accepted only in front of an answer that is no refusal.\<close>

lemma probe_read_hdr_step:
  assumes "probe_read_hdr E s = (r, s')" and "steady s"
  shows "stepped V s s'" and "fst s' = fst s"
    and "r = Inr n \<Longrightarrow> v_out V (snd s) (pb_sock (fst s)) = g @ body \<Longrightarrow> pack_response rid st m = Inr g \<Longrightarrow>
      v_out V (snd s') (pb_sock (fst s)) = body \<and> n = m \<and> st = 0 \<and> rid = pb_req_id (fst s)"
proof -
  obtain x s1 where 1: "probe_recv E HEADER s = (x, s1)"
    by (cases "probe_recv E HEADER s")
  note st1 = probe_recv_step [OF 1 assms(2)]
  have s1: "s' = s1"
    using assms(1) 1
    by (auto simp: probe_read_hdr_def bnd_def of_sum_run split: sum.splits dest!: probe_check_step(1))
  then show "stepped V s s'" "fst s' = fst s"
    using st1 by simp_all
  show "v_out V (snd s') (pb_sock (fst s)) = body \<and> n = m \<and> st = 0 \<and> rid = pb_req_id (fst s)"
    if r: "r = Inr n" and out: "v_out V (snd s) (pb_sock (fst s)) = g @ body" and g: "pack_response rid st m = Inr g"
  proof -
    obtain bs fs where bs: "x = Inr bs" "struct_unpack RESP_FMT bs = Inr fs" "probe_check fs s1 = (Inr n, s')"
      using assms(1) 1 r
      by (cases x; cases "struct_unpack RESP_FMT (projr x)") (auto simp: probe_read_hdr_def bnd_def of_sum_run)
    have len: "length bs = 16" and o: "g @ body = bs @ v_out V (snd s1) (pb_sock (fst s))"
      using st1(3) [OF bs(1)] out by (simp_all add: HEADER_def)
    note h = header_front [OF o g len]
    show ?thesis
      using h bs(2) probe_check_step(2) [OF bs(3) refl] s1 st1(2) by simp
  qed
qed

lemma step_bnd:
  assumes "bnd m f s = (r, s')" and "steady s"
    and "\<And>x t. m s = (x, t) \<Longrightarrow> stepped V s t"
    and "\<And>x t. m s = (Inr x, t) \<Longrightarrow> steady t \<Longrightarrow> f x t = (r, s') \<Longrightarrow> stepped V t s'"
  shows "stepped V s s'"
proof -
  obtain x t where m: "m s = (x, t)"
    by (cases "m s")
  show ?thesis
  proof (cases x)
    case (Inl e)
    then show ?thesis
      using assms(1) assms(3) [OF m] m by (simp add: bnd_def)
  next
    case (Inr y)
    have "f y t = (r, s')"
      using assms(1) m Inr by (simp add: bnd_def)
    then show ?thesis
      using assms(3,4) m Inr steady_stepped [OF assms(2)] stepped_trans by blast
  qed
qed

lemma stepped_self: "steady s \<Longrightarrow> stepped V s s"
  using stepped_refl [of V "snd s" "fst s"] by (simp add: steady_def)

text \<open>A peer that was asked for the rows \<open>sub\<close>, and the answer it then reads.\<close>

definition wants :: "nat list \<Rightarrow> probe_peer \<Rightarrow> byte list \<Rightarrow> 's \<Rightarrow> bool" where
  "wants sub p out srv \<longleftrightarrow> (\<forall>i\<in>set sub. i < 2 ^ 32) \<and>
     (\<exists>h. pack_request OP_GATHER 0 (pb_req_id p) (length sub) = Inr h \<and> reply srv (h @ id_bytes sub) out)"

lemma probe_send_gather_ok:
  assumes "probe_send_gather E sub s = (Inr (), s')" and "steady s" and "v_out V (snd s) (pb_sock (fst s)) = []"
    and "\<forall>i\<in>set sub. i < 2 ^ 32"
  shows "stepped V s s'"
    and "wants sub (fst s') (v_out V (snd s') (pb_sock (fst s'))) (v_srv V (snd s') (pb_sock (fst s')))"
proof -
  obtain h s1 where 1: "probe_hdr OP_GATHER (length sub) s = (Inr h, s1)"
    and 2: "probe_send E (h @ id_bytes sub) s1 = (Inr (), s')"
    using assms(1) by (auto simp: probe_send_gather_def elim: bnd_InrE)
  note a = probe_hdr_step [OF 1 assms(2)]
  have st1: "steady s1"
    using steady_stepped [OF assms(2) a(1)] .
  note b = probe_send_step [OF 2 st1]
  show "stepped V s s'"
    using a(1) b(1) by (rule stepped_trans)
  have "v_out V (snd s1) (pb_sock (fst s1)) = []"
    using a(2) assms(3) stepped_sel(1) [OF a(1)] by simp
  then have "reply (v_srv V (snd s1) (pb_sock (fst s1))) (h @ id_bytes sub) (v_out V (snd s') (pb_sock (fst s1)))"
    using b(3) by simp
  then show "wants sub (fst s') (v_out V (snd s') (pb_sock (fst s'))) (v_srv V (snd s') (pb_sock (fst s')))"
    using a(3) [OF refl] b(2) assms(4) stepped_srv [OF st1 b(1)] by (auto simp: wants_def)
qed

lemma holds_rows:
  assumes "holds base count width row deployed T" and "deployed srv"
    and "\<forall>i\<in>set sub. base srv \<le> i \<and> i < base srv + count srv"
  shows "map (row srv) sub = map T sub" and "\<forall>i\<in>set sub. length (T i) = PROBE_ROW"
proof -
  have h: "width srv = PROBE_ROW" "\<And>i. i \<in> set sub \<Longrightarrow> row srv i = T i"
    using assms unfolding holds_def by blast+
  then show "map (row srv) sub = map T sub"
    by simp
  show "\<forall>i\<in>set sub. length (T i) = PROBE_ROW"
    using assms(3) row_length [of srv] h by (metis (no_types))
qed

lemma length_concat_rows: "\<forall>i\<in>set xs. length (T i) = m \<Longrightarrow> length (concat (map T xs)) = length xs * m"
  by (induction xs) auto

lemma probe_read_gather_ok:
  assumes "probe_read_gather E (length sub) s = (Inr raw, s')" and "steady s"
    and "wants sub (fst s) (v_out V (snd s) (pb_sock (fst s))) (v_srv V (snd s) (pb_sock (fst s)))"
    and "holds base count width row deployed T" and "deployed (v_srv V (snd s) (pb_sock (fst s)))"
  shows "stepped V s s'" and "v_out V (snd s') (pb_sock (fst s')) = []"
    and "raw = concat (map T sub)" and "\<forall>i\<in>set sub. length (T i) = PROBE_ROW"
proof -
  let ?k = "pb_sock (fst s)" and ?srv = "v_srv V (snd s) (pb_sock (fst s))"
  obtain s1 where 1: "probe_read_hdr E s = (Inr (length sub), s1)"
    and 2: "probe_recv E (length sub * PROBE_ROW) s1 = (Inr raw, s')"
    using assms(1) by (auto simp: probe_read_gather_def raise_run elim!: bnd_InrE split: if_splits)
  note a = probe_read_hdr_step [OF 1 assms(2)]
  have st1: "steady s1"
    using steady_stepped [OF assms(2) a(1)] .
  note b = probe_recv_step [OF 2 st1]
  show "stepped V s s'"
    using a(1) b(1) by (rule stepped_trans)
  obtain h where h: "pack_request OP_GATHER 0 (pb_req_id (fst s)) (length sub) = Inr h"
    "reply ?srv (h @ id_bytes sub) (v_out V (snd s) ?k)" "\<forall>i\<in>set sub. i < 2 ^ 32"
    using assms(3) by (auto simp: wants_def)
  have "\<not> refusal (pb_req_id (fst s)) (v_out V (snd s) ?k)"
    using a(3) [OF refl, of _ "[]"] by (auto simp: refusal_def)
  then obtain g where range: "\<forall>i\<in>set sub. base ?srv \<le> i \<and> i < base ?srv + count ?srv"
    and g: "pack_response (pb_req_id (fst s)) 0 (length sub) = Inr g"
    "v_out V (snd s) ?k = g @ concat (map (row ?srv) sub)"
    using reply_gather [OF h(2,1,3)] by blast
  note rows = holds_rows [OF assms(4,5) range]
  show "\<forall>i\<in>set sub. length (T i) = PROBE_ROW"
    by (rule rows(2))
  have "v_out V (snd s1) ?k = concat (map T sub)"
    using a(3) [OF refl g(2,1)] rows(1) by simp
  moreover have "length (concat (map T sub)) = length sub * PROBE_ROW"
    using length_concat_rows [OF rows(2)] .
  ultimately show "raw = concat (map T sub)" "v_out V (snd s') (pb_sock (fst s')) = []"
    using b(2) b(3) [OF refl] a(2) by auto
qed

lemma probe_ping_ok:
  assumes "probe_ping E s = (Inr (), s')" and "steady s" and "v_out V (snd s) (pb_sock (fst s)) = []"
  shows "stepped V s s'" and "v_out V (snd s') (pb_sock (fst s')) = []"
proof -
  obtain h s1 s2 n where 1: "probe_hdr OP_PING 0 s = (Inr h, s1)" and 2: "probe_send E h s1 = (Inr (), s2)"
    and 3: "probe_read_hdr E s2 = (Inr n, s')"
    using assms(1) by (auto simp: probe_ping_def ret_run elim!: seq_InrE bnd_InrE)
  note a = probe_hdr_step [OF 1 assms(2)]
  have st1: "steady s1"
    using steady_stepped [OF assms(2) a(1)] .
  note b = probe_send_step [OF 2 st1]
  have st2: "steady s2"
    using steady_stepped [OF st1 b(1)] .
  note c = probe_read_hdr_step [OF 3 st2]
  show "stepped V s s'"
    using a(1) b(1) c(1) by (blast intro: stepped_trans)
  have "v_out V (snd s1) (pb_sock (fst s1)) = []"
    using a(2) assms(3) stepped_sel(1) [OF a(1)] by simp
  then have rep: "reply (v_srv V (snd s1) (pb_sock (fst s1))) h (v_out V (snd s2) (pb_sock (fst s1)))"
    using b(3) by simp
  have k: "fst s2 = fst s1" "fst s' = fst s2"
    using b(2) c(2) by simp_all
  have "\<not> refusal (pb_req_id (fst s1)) (v_out V (snd s2) (pb_sock (fst s1)))"
    using c(3) [OF refl, of _ "[]"] k by (auto simp: refusal_def)
  then have "pack_response (pb_req_id (fst s1)) 0 0 = Inr (v_out V (snd s2) (pb_sock (fst s1)))"
    using reply_ping [OF rep a(3) [OF refl]] by blast
  then show "v_out V (snd s') (pb_sock (fst s')) = []"
    using c(3) [OF refl, of "v_out V (snd s2) (pb_sock (fst s1))" "[]"] k by simp
qed

lemma probe_query_ok:
  assumes "probe_query E s = (Inr st, s')" and "steady s" and "v_out V (snd s) (pb_sock (fst s)) = []"
  shows "stepped V s s'" and "v_out V (snd s') (pb_sock (fst s')) = []"
    and "st_base_row st = base (v_srv V (snd s) (pb_sock (fst s)))"
    and "st_row_count st = count (v_srv V (snd s) (pb_sock (fst s)))"
proof -
  obtain h s1 s2 s3 n bs fs where 1: "probe_hdr OP_STAT 0 s = (Inr h, s1)" and 2: "probe_send E h s1 = (Inr (), s2)"
    and 3: "probe_read_hdr E s2 = (Inr n, s3)" and 4: "probe_recv E STAT_BODY s3 = (Inr bs, s')"
    and 5: "struct_unpack STAT_FMT bs = Inr fs" "stat_of_fields fs = Inr st"
    using assms(1) by (auto simp: probe_query_def of_sum_run elim!: seq_InrE bnd_InrE)
  note a = probe_hdr_step [OF 1 assms(2)]
  have st1: "steady s1"
    using steady_stepped [OF assms(2) a(1)] .
  note b = probe_send_step [OF 2 st1]
  have st2: "steady s2"
    using steady_stepped [OF st1 b(1)] .
  note c = probe_read_hdr_step [OF 3 st2]
  have st3: "steady s3"
    using steady_stepped [OF st2 c(1)] .
  note d = probe_recv_step [OF 4 st3]
  show "stepped V s s'"
    using a(1) b(1) c(1) d(1) by (blast intro: stepped_trans)
  have k: "pb_sock (fst s1) = pb_sock (fst s)" "fst s2 = fst s1" "fst s3 = fst s1" "fst s' = fst s1"
    using stepped_sel(1) [OF a(1)] b(2) c(2) d(2) by simp_all
  let ?k = "pb_sock (fst s)"
  let ?srv = "v_srv V (snd s) ?k"
  have srv: "v_srv V (snd s1) ?k = ?srv"
    using stepped_srv [OF assms(2) a(1)] .
  have rep: "reply ?srv h (v_out V (snd s2) ?k)"
    using b(3) [OF refl] a(2) assms(3) k srv by simp
  have "\<not> refusal (pb_req_id (fst s1)) (v_out V (snd s2) ?k)"
    using c(3) [OF refl, of _ "[]"] k by (auto simp: refusal_def)
  then obtain g body res served where g: "pack_response (pb_req_id (fst s1)) 0 0 = Inr g"
    "v_out V (snd s2) ?k = g @ body"
    and body: "struct_pack STAT_FMT (map int [base ?srv, count ?srv, width ?srv, res, served]) = Inr body"
    using reply_stat [OF rep a(3) [OF refl]] by blast
  have "v_out V (snd s3) ?k = body"
    using c(3) [OF refl _ g(1)] g(2) k by simp
  moreover have "length body = 32"
    using struct_pack_length [OF body] by simp
  ultimately have bs: "bs = body" and out: "v_out V (snd s') ?k = []"
    using d(3) [OF refl] k by (auto simp: STAT_BODY_def)
  show "v_out V (snd s') (pb_sock (fst s')) = []"
    using out k by simp
  have "fs = [base ?srv, count ?srv, width ?srv, res, served]"
    using 5(1) struct_fields_pack [OF body, of "[]"] bs by (simp add: struct_unpack_def split: if_splits)
  then show "st_base_row st = base ?srv" "st_row_count st = count ?srv"
    using 5(2) by (auto simp: stat_of_fields_def)
qed

end

end
