(* ===== verification/Probe_Gather.thy ===== *)
theory Probe_Gather
  imports Probe_Proof
begin

section \<open>The gather of the probe, its opening, its verification\<close>

text \<open>
  The two loops of a gather followed peer by peer over an honest network, what they scatter into the
  result; then the opening of the peers, the pings, the
  verification, and the order of the statistics.
\<close>

subsection \<open>Masks and scattering\<close>

lemma put_rows_nth:
  assumes "length mk = length out" and "length ids = length out"
  shows "length (put_rows mk out (map T (picked mk ids))) = length out"
    and "k < length out \<Longrightarrow> put_rows mk out (map T (picked mk ids)) ! k = (if mk ! k then T (ids ! k) else out ! k)"
proof -
  have "length (put_rows mk out (map T (picked mk ids))) = length out \<and> (\<forall>k<length out.
      put_rows mk out (map T (picked mk ids)) ! k = (if mk ! k then T (ids ! k) else out ! k))"
    using assms
  proof (induction mk arbitrary: out ids)
    case (Cons b mk)
    then obtain x out' i ids' where "out = x # out'" "ids = i # ids'"
      by (metis length_Suc_conv)
    then show ?case
      using Cons.IH [of out' ids'] Cons.prems
      by (cases b) (auto simp: picked_def nth_Cons split: nat.splits)
  qed (auto simp: picked_def)
  then show "length (put_rows mk out (map T (picked mk ids))) = length out"
    "k < length out \<Longrightarrow> put_rows mk out (map T (picked mk ids)) ! k = (if mk ! k then T (ids ! k) else out ! k)"
    by blast+
qed

text \<open>What the fill loop makes of \<open>out\<close>, one mask after the other.\<close>

definition filled :: "(nat \<Rightarrow> byte list) \<Rightarrow> (nat list \<times> bool list) list \<Rightarrow> byte list list \<Rightarrow> byte list list" where
  "filled T work out = fold (\<lambda>(sub, mk) out. put_rows mk out (map T sub)) work out"

lemma filled_nth:
  assumes "\<forall>mk\<in>set marks. length mk = length ids" and "length out = length ids"
  shows "length (filled T (zip (map (\<lambda>mk. picked mk ids) marks) marks) out) = length ids \<and> (\<forall>k<length ids.
    filled T (zip (map (\<lambda>mk. picked mk ids) marks) marks) out ! k =
      (if \<exists>mk\<in>set marks. mk ! k then T (ids ! k) else out ! k))"
  using assms
proof (induction marks arbitrary: out)
  case Nil
  then show ?case by (simp add: filled_def)
next
  case (Cons mk marks)
  let ?out = "put_rows mk out (map T (picked mk ids))"
  have len: "length mk = length out" "length ids = length out"
    using Cons.prems by simp_all
  have put: "length ?out = length ids"
    "\<And>k. k < length ids \<Longrightarrow> ?out ! k = (if mk ! k then T (ids ! k) else out ! k)"
    using put_rows_nth(2) [OF len] unfolding len(2) by (simp_all only: put_rows_nth(1) [OF len])
  have step: "filled T (zip (map (\<lambda>mk. picked mk ids) (mk # marks)) (mk # marks)) out =
      filled T (zip (map (\<lambda>mk. picked mk ids) marks) marks) ?out"
    by (simp add: filled_def)
  have "\<forall>mk\<in>set marks. length mk = length ids"
    using Cons.prems(1) by simp
  note ih = Cons.IH [OF this put(1)]
  show ?case
    unfolding step using ih put(2) by simp
qed

lemma put_rows_none [simp]: "put_rows mk out [] = out"
  by (induction mk out "[] :: 'a list" rule: put_rows.induct) auto

lemma reshape_rows:
  assumes "\<forall>i\<in>set sub. length (T i) = PROBE_ROW"
  shows "reshape (length sub) (concat (map T sub)) = map T sub"
proof (rule nth_equalityI)
  show "length (reshape (length sub) (concat (map T sub))) = length (map T sub)"
    by (simp add: reshape_def)
next
  fix j assume "j < length (reshape (length sub) (concat (map T sub)))"
  then have j: "j < length sub"
    by (simp add: reshape_def)
  have "take PROBE_ROW (drop (j * PROBE_ROW) (concat (map T sub))) = T (sub ! j)"
    using assms j
  proof (induction sub arbitrary: j)
    case (Cons i sub)
    then show ?case
      by (cases j) simp_all
  qed simp
  then show "reshape (length sub) (concat (map T sub)) ! j = map T sub ! j"
    using j by (simp add: reshape_def)
qed

lemma uint32_Inr:
  "uint32_array ids = Inr xs \<Longrightarrow> xs = map nat ids \<and> (\<forall>i\<in>set ids. 0 \<le> i \<and> i < 2 ^ 32) \<and> (\<forall>x\<in>set xs. x < 2 ^ 32)"
  by (auto simp: uint32_array_def list_all_iff nat_less_iff split: if_splits)

subsection \<open>Contiguous coverage is a tiling\<close>

definition as_peer :: "probe_peer \<Rightarrow> peer" where
  "as_peer p = (new_peer [] 0)\<lparr>base_row := pb_base p, row_count := pb_count p\<rparr>"

lemma probe_cover_walk: "probe_cover c ps = Inr n \<longleftrightarrow> split_walk c (map as_peer ps) = Inr n"
  by (induction c ps rule: probe_cover.induct) (auto simp: as_peer_def new_peer_def)

lemma owns_as_peer [simp]: "owns (as_peer p) x \<longleftrightarrow> probe_owns p x"
  by (simp add: owns_def probe_owns_def as_peer_def new_peer_def)

lemma owners_as_peers: "owners (map as_peer ps) x = length (filter (\<lambda>p. probe_owns p x) ps)"
  by (induction ps) auto

lemma marks_sum:
  "sum_list (map (\<lambda>mk. length (filter (\<lambda>b. b) mk)) (probe_masks ps ids)) =
    sum_list (map (owners (map as_peer ps)) ids)"
proof (induction ps)
  case Nil
  then show ?case by (simp add: probe_masks_def)
next
  case (Cons p ps)
  have "length (filter (\<lambda>b. b) (map (probe_owns p) ids)) = sum_list (map (\<lambda>x. if probe_owns p x then 1 else 0) ids)"
    by (induction ids) auto
  then show ?case
    using Cons by (simp add: probe_masks_def sum_list_addf [symmetric])
qed

lemma covered_sum:
  assumes "probe_cover 0 ps = Inr n"
  shows "sum_list (map (\<lambda>mk. length (filter (\<lambda>b. b) mk)) (probe_masks ps ids)) = length ids \<longleftrightarrow> (\<forall>x\<in>set ids. x < n)"
    and "x < n \<Longrightarrow> \<exists>p\<in>set ps. probe_owns p x"
proof -
  have tile: "tiling (map as_peer ps) 0 n"
    using assms split_walk_tiling unfolding probe_cover_walk by blast
  then have own: "owners (map as_peer ps) x = (if x < n then 1 else 0)" for x
    by (simp add: tiling_def)
  have "sum_list (map (\<lambda>x. if x < n then 1 else 0) ids) \<le> length ids \<and>
      (sum_list (map (\<lambda>x. if x < n then 1 else 0) ids) = length ids \<longleftrightarrow> (\<forall>x\<in>set ids. x < n))"
    by (induction ids) auto
  then show "sum_list (map (\<lambda>mk. length (filter (\<lambda>b. b) mk)) (probe_masks ps ids)) = length ids \<longleftrightarrow> (\<forall>x\<in>set ids. x < n)"
    unfolding marks_sum own by blast
  show "\<exists>p\<in>set ps. probe_owns p x" if "x < n"
  proof -
    have "0 < owners (map as_peer ps) x"
      using own that by simp
    then show ?thesis
      unfolding owners_pos by auto
  qed
qed

lemma same_ranges_cover:
  assumes "same_ranges ps qs"
  shows "probe_cover c qs = probe_cover c ps"
proof -
  have "probe_cover c xs = probe_cover c ys"
    if "map pb_base xs = map pb_base ys" "map pb_count xs = map pb_count ys" for xs ys c
    using that
  proof (induction xs arbitrary: ys c)
    case (Cons x xs)
    then obtain y zs where "ys = y # zs"
      by (cases ys) auto
    then show ?case
      using Cons by simp
  qed simp
  then show ?thesis
    using same_ranges_sel [OF assms] by blast
qed

subsection \<open>The two loops of a gather\<close>

context honest_net begin

abbreviation "in_stage F s \<equiv> probes_in base count V deployed F s"

lemma in_stage_steady: "in_stage F s \<Longrightarrow> i < length (fst s) \<Longrightarrow> steady (fst s ! i, snd s)"
  using probes_in_nth [of base count V deployed F s i] by (simp add: steady_def)

lemma ask_probes_ok:
  assumes "ask_probes E i subs s = (Inr (), s')" and "in_stage F s" and "i + length subs = length (fst s)"
    and "\<forall>sub\<in>set subs. \<forall>x\<in>set sub. x < 2 ^ 32" and "\<And>j. i \<le> j \<Longrightarrow> F j = at_rest j"
  shows "in_stage (\<lambda>j. if i \<le> j \<and> j < length (fst s) \<and> subs ! (j - i) \<noteq> [] then wants (subs ! (j - i)) else F j) s'"
    and "same_ranges (fst s) (fst s')"
proof -
  have "in_stage (\<lambda>j. if i \<le> j \<and> j < length (fst s) \<and> subs ! (j - i) \<noteq> [] then wants (subs ! (j - i)) else F j) s' \<and>
    same_ranges (fst s) (fst s')"
    using assms
  proof (induction subs arbitrary: i s F)
    case Nil
    then show ?case
      by (auto simp: ret_run elim!: probes_in_weaken)
  next
    case (Cons sub subs)
    have i: "i < length (fst s)"
      using Cons.prems(3) by simp
    define G where "G = (if sub = [] then F else F(i := wants sub))"
    obtain s1 where 1: "(if sub = [] then ret () else on_probe i (probe_send_gather E sub)) s = (Inr (), s1)"
      and 2: "ask_probes E (Suc i) subs s1 = (Inr (), s')"
      using Cons.prems(1) by (auto elim: seq_InrE)
    have step: "in_stage G s1 \<and> same_ranges (fst s) (fst s1)"
    proof (cases "sub = []")
      case True
      then show ?thesis
        using 1 Cons.prems(2) by (simp add: ret_run G_def)
    next
      case False
      have run: "on_probe i (probe_send_gather E sub) s = (Inr (), s1)"
        using 1 False by simp
      have at: "v_out V (snd s) (pb_sock (fst s ! i)) = []"
        using probes_in_nth(4) [OF Cons.prems(2) i] Cons.prems(5) [of i] by (simp add: at_rest_def)
      have "stepped V (fst s ! i, snd s) (p', w') \<and> wants sub p' (v_out V w' (pb_sock p')) (v_srv V w' (pb_sock p'))"
        if "probe_send_gather E sub (fst s ! i, snd s) = (Inr (), (p', w'))" for p' w'
        using probe_send_gather_ok [OF that in_stage_steady [OF Cons.prems(2) i]] at Cons.prems(4) by simp
      then show ?thesis
        using on_probe_in [OF Cons.prems(2) i run] False unfolding G_def by simp
    qed
    then have len: "length (fst s1) = length (fst s)"
      using same_ranges_sel(1) by blast
    have "Suc i + length subs = length (fst s1)" "\<And>j. Suc i \<le> j \<Longrightarrow> G j = at_rest j"
      using Cons.prems(3,5) len by (auto simp: G_def)
    from Cons.IH [OF 2 _ this(1) _ this(2)] step Cons.prems(4)
    have ih: "in_stage (\<lambda>j. if Suc i \<le> j \<and> j < length (fst s1) \<and> subs ! (j - Suc i) \<noteq> []
        then wants (subs ! (j - Suc i)) else G j) s'" and same: "same_ranges (fst s1) (fst s')"
      by auto
    have "in_stage (\<lambda>j. if i \<le> j \<and> j < length (fst s) \<and> (sub # subs) ! (j - i) \<noteq> []
        then wants ((sub # subs) ! (j - i)) else F j) s'"
    proof (rule probes_in_weaken [OF ih])
      fix j p out srv
      assume "(if Suc i \<le> j \<and> j < length (fst s1) \<and> subs ! (j - Suc i) \<noteq> []
        then wants (subs ! (j - Suc i)) else G j) p out srv"
      then show "(if i \<le> j \<and> j < length (fst s) \<and> (sub # subs) ! (j - i) \<noteq> []
        then wants ((sub # subs) ! (j - i)) else F j) p out srv"
        using i len by (cases "j = i"; cases "i < j") (auto simp: G_def nth_Cons' split: if_splits)
    qed
    then show ?case
      using step same same_ranges_trans by blast
  qed
  then show "in_stage (\<lambda>j. if i \<le> j \<and> j < length (fst s) \<and> subs ! (j - i) \<noteq> [] then wants (subs ! (j - i)) else F j) s'"
    "same_ranges (fst s) (fst s')"
    by blast+
qed

lemma fill_probes_ok:
  assumes "fill_probes E i work out s = (Inr res, s')" and "in_stage F s" and "i + length work = length (fst s)"
    and "holds base count width row deployed T"
    and "\<And>j. i \<le> j \<Longrightarrow> j < length (fst s) \<Longrightarrow>
      F j = (if fst (work ! (j - i)) = [] then at_rest j else wants (fst (work ! (j - i))))"
    and "\<And>j. j < i \<Longrightarrow> F j = at_rest j"
  shows "res = filled T work out \<and> in_stage at_rest s' \<and> same_ranges (fst s) (fst s')"
  using assms(1-3,5,6)
proof (induction work arbitrary: i out s F)
  case Nil
  then show ?case
    by (auto simp: ret_run filled_def elim!: probes_in_weaken)
next
  case (Cons x work)
  obtain sub mk where x: "x = (sub, mk)"
    by fastforce
  have i: "i < length (fst s)"
    using Cons.prems(3) by simp
  have Fi: "F i = (if sub = [] then at_rest i else wants sub)"
    using Cons.prems(4) [of i] i x by simp
  have later: "F j = (if fst (work ! (j - Suc i)) = [] then at_rest j else wants (fst (work ! (j - Suc i))))"
    if "Suc i \<le> j" "j < length (fst s)" for j
    using Cons.prems(4) [of j] that by (simp add: nth_Cons')
  show ?case
  proof (cases "sub = []")
    case True
    have "fill_probes E (Suc i) work out s = (Inr res, s')"
      using Cons.prems(1) x True by simp
    moreover have "Suc i + length work = length (fst s)" "\<And>j. j < Suc i \<Longrightarrow> F j = at_rest j"
      using Cons.prems(3,5) Fi True by (auto simp: less_Suc_eq)
    ultimately show ?thesis
      using Cons.IH [OF _ Cons.prems(2) _ later] x True by (simp add: filled_def)
  next
    case False
    obtain raw s1 where 1: "on_probe i (probe_read_gather E (length sub)) s = (Inr raw, s1)"
      and 2: "fill_probes E (Suc i) work (put_rows mk out (reshape (length sub) raw)) s1 = (Inr res, s')"
      using Cons.prems(1) x False by (auto elim: bnd_InrE)
    note at_i = probes_in_nth [OF Cons.prems(2) i]
    have w: "wants sub (fst s ! i) (v_out V (snd s) (pb_sock (fst s ! i))) (v_srv V (snd s) (pb_sock (fst s ! i)))"
      using at_i(4) Fi False by simp
    have read: "stepped V (fst s ! i, snd s) (p', w') \<and> v_out V w' (pb_sock p') = [] \<and>
        raw = concat (map T sub) \<and> (\<forall>i\<in>set sub. length (T i) = PROBE_ROW)"
      if "probe_read_gather E (length sub) (fst s ! i, snd s) = (Inr raw, (p', w'))" for p' w'
      using probe_read_gather_ok [OF that in_stage_steady [OF Cons.prems(2) i] _ assms(4)] w at_i(3) by simp
    have step: "in_stage (F(i := (\<lambda>p out srv. out = []))) s1" "same_ranges (fst s) (fst s1)"
      using on_probe_in [OF Cons.prems(2) i 1, of "\<lambda>p out srv. out = []"] read by blast+
    obtain p' w' where "probe_read_gather E (length sub) (fst s ! i, snd s) = (Inr raw, (p', w'))"
      using 1 by (auto simp: on_probe_def split: prod.splits)
    from read [OF this] have rows: "reshape (length sub) raw = map T sub"
      using reshape_rows by blast
    have len: "length (fst s1) = length (fst s)"
      using same_ranges_sel(1) [OF step(2)] .
    have 3: "in_stage (F(i := at_rest i)) s1"
      by (rule probes_in_weaken [OF step(1)]) (simp add: at_rest_def split: if_splits)
    have 4: "Suc i + length work = length (fst s1)" "\<And>j. j < Suc i \<Longrightarrow> (F(i := at_rest i)) j = at_rest j"
      using Cons.prems(3,5) len by (auto simp: less_Suc_eq)
    have 5: "(F(i := at_rest i)) j = (if fst (work ! (j - Suc i)) = [] then at_rest j
        else wants (fst (work ! (j - Suc i))))" if "Suc i \<le> j" "j < length (fst s1)" for j
      using later [of j] that len by simp
    have "res = filled T work (put_rows mk out (map T sub)) \<and> in_stage at_rest s' \<and>
        same_ranges (fst s1) (fst s')"
      using Cons.IH [OF 2 3 4(1) 5 4(2)] rows by simp
    then show ?thesis
      using x step(2) same_ranges_trans by (auto simp: filled_def)
  qed
qed

text \<open>A gather that returns hands back the rows, wherever they lie.\<close>

lemma probe_gather_ok:
  assumes "probe_gather E ids s = (Inr rs, s')" and "in_stage at_rest s" and "probe_cover 0 (fst s) = Inr n"
    and "holds base count width row deployed T"
  shows "rs = map (\<lambda>i. T (nat i)) ids \<and> (\<forall>i\<in>set ids. 0 \<le> i \<and> i < int n) \<and> in_stage at_rest s' \<and>
    same_ranges (fst s) (fst s')"
proof -
  obtain xs where "uint32_array ids = Inr xs"
    using assms(1) by (cases "uint32_array ids") (auto simp: probe_gather_def of_sum_def raise_run bnd_def)
  note xs = this uint32_Inr [OF this]
  define marks where "marks = probe_masks (fst s) xs"
  define subs where "subs = map (\<lambda>mk. picked mk xs) marks"
  define blank where "blank = replicate (length xs) (replicate PROBE_ROW (n_junk E))"
  have sum: "sum_list (map (\<lambda>mk. length (filter (\<lambda>b. b) mk)) marks) = length xs"
    and run: "seq (ask_probes E 0 subs) (fill_probes E 0 (zip subs marks) blank) s = (Inr rs, s')"
    using assms(1) xs(1)
    by (auto simp: probe_gather_def of_sum_def raise_run bnd_def ret_run Let_def marks_def subs_def blank_def
        split: if_splits)
  have in_range: "\<forall>x\<in>set xs. x < n"
    using sum covered_sum(1) [OF assms(3), of xs] unfolding marks_def by blast
  obtain s1 where 1: "ask_probes E 0 subs s = (Inr (), s1)" and 2: "fill_probes E 0 (zip subs marks) blank s1 = (Inr rs, s')"
    using run by (auto elim: seq_InrE)
  have len: "length subs = length (fst s)" "length marks = length (fst s)"
    by (simp_all add: subs_def marks_def probe_masks_def)
  have small: "\<forall>sub\<in>set subs. \<forall>x\<in>set sub. x < 2 ^ 32"
    using xs(2) by (auto simp: subs_def picked_def dest!: set_zip_rightD)
  have "0 + length subs = length (fst s)"
    using len by simp
  note a = ask_probes_ok [OF 1 assms(2) this small refl]
  have len1: "length (fst s1) = length (fst s)"
    using same_ranges_sel(1) [OF a(2)] .
  have stage: "(\<lambda>j. if 0 \<le> j \<and> j < length (fst s) \<and> subs ! (j - 0) \<noteq> [] then wants (subs ! (j - 0)) else at_rest j) j =
      (if fst (zip subs marks ! (j - 0)) = [] then at_rest j else wants (fst (zip subs marks ! (j - 0))))"
    if "0 \<le> j" "j < length (fst s1)" for j
    using that len len1 by simp
  have b: "rs = filled T (zip subs marks) blank \<and> in_stage at_rest s' \<and> same_ranges (fst s1) (fst s')"
    by (rule fill_probes_ok [OF 2 a(1) _ assms(4) stage]) (simp_all add: len len1)
  have fl: "length (filled T (zip subs marks) blank) = length xs \<and> (\<forall>k<length xs. filled T (zip subs marks) blank ! k =
      (if \<exists>mk\<in>set marks. mk ! k then T (xs ! k) else blank ! k))"
    unfolding subs_def by (rule filled_nth) (auto simp: marks_def probe_masks_def blank_def)
  have owned: "\<exists>mk\<in>set marks. mk ! k" if "k < length xs" for k
  proof -
    have "xs ! k < n"
      using in_range that by simp
    then obtain p where "p \<in> set (fst s)" "probe_owns p (xs ! k)"
      using covered_sum(2) [OF assms(3)] by blast
    then show ?thesis
      using that by (auto simp: marks_def probe_masks_def)
  qed
  have "rs = map T xs"
    using b fl owned by (intro nth_equalityI) auto
  moreover have "\<forall>i\<in>set ids. 0 \<le> i \<and> i < int n"
    using in_range xs(2) by auto
  ultimately show ?thesis
    using b xs(2) a(2) same_ranges_trans by auto
qed

subsection \<open>Opening the peers\<close>

lemma idle_iff:
  "in_stage at_rest s \<longleftrightarrow> v_wf V (snd s) \<and> distinct (map pb_sock (fst s)) \<and> (\<forall>p\<in>set (fst s).
     pb_sock p \<in> v_used V (snd s) \<and> deployed (v_srv V (snd s) (pb_sock p)) \<and>
     pb_base p = base (v_srv V (snd s) (pb_sock p)) \<and> pb_count p = count (v_srv V (snd s) (pb_sock p)) \<and>
     v_out V (snd s) (pb_sock p) = [])"
  by (simp add: probes_in_def all_set_conv_all_nth at_rest_def Let_def)

lemma idle_keeps:
  assumes "in_stage at_rest s" and "keeps V {} (snd s) w'"
  shows "in_stage at_rest (fst s, w')"
  using assms keeps_wf [OF assms(2)] keeps_used [OF assms(2)] keeps_srv [OF assms(2)] keeps_out [OF assms(2)]
  unfolding idle_iff by simp

lemma idle_sort: "in_stage at_rest (ps, w) \<Longrightarrow> in_stage at_rest (sort_key f ps, w)"
  unfolding idle_iff by (simp add: distinct_map)

lemma keeps_new:
  assumes "keeps V {} w w1" and "keeps V {k} w1 w2" and "k \<notin> v_used V w"
  shows "keeps V {} w w2"
proof -
  have "v_out V w2 j = v_out V w j \<and> v_srv V w2 j = v_srv V w j" if "j \<in> v_used V w" for j
  proof -
    have "j \<noteq> k"
      using that assms(3) by blast
    then show ?thesis
      using that keeps_out [OF assms(1) that] keeps_srv [OF assms(1) that] keeps_used [OF assms(1) that]
        keeps_out [OF assms(2)] keeps_srv [OF assms(2)] by simp
  qed
  moreover have "v_used V w \<subseteq> v_used V w2"
    using keeps_used [OF assms(1)] keeps_used [OF assms(2)] by blast
  ultimately show ?thesis
    using keeps_wf [OF assms(2)] by (simp add: keeps_def)
qed

lemma open_probe_ok:
  assumes "open_probe E a w = (Inr p, w')" and "v_wf V w"
  shows "keeps V {} w w'" and "pb_sock p \<notin> v_used V w" and "in_stage at_rest ([p], w')"
proof -
  obtain h prt k w1 where 1: "n_connect E (h, prt) PROBE_TIMEOUT w = (Inr k, w1)"
    and rest: "case probe_query E (\<lparr>pb_addr = a, pb_sock = k, pb_req_id = 0, pb_base = 0, pb_count = 0,
        pb_stat = \<lparr>st_base_row = 0, st_row_count = 0, st_row_bytes = 0, st_resident_pages = 0,
               st_served_requests = 0\<rparr>\<rparr>, w1) of (Inl e, s) \<Rightarrow> False
      | (Inr st, s) \<Rightarrow> p = (fst s)\<lparr>pb_base := st_base_row st, pb_count := st_row_count st, pb_stat := st\<rparr> \<and> w' = snd s"
    using assms(1) by (auto simp: open_probe_def Let_def split: prod.splits sum.splits)
  let ?p = "\<lparr>pb_addr = a, pb_sock = k, pb_req_id = 0, pb_base = 0, pb_count = 0,
        pb_stat = \<lparr>st_base_row = 0, st_row_count = 0, st_row_bytes = 0, st_resident_pages = 0,
               st_served_requests = 0\<rparr>\<rparr>"
  note c = connect_ok [OF assms(2) 1] connect_keeps [OF assms(2) 1]
  obtain st s where 2: "probe_query E (?p, w1) = (Inr st, s)"
    and p: "p = (fst s)\<lparr>pb_base := st_base_row st, pb_count := st_row_count st, pb_stat := st\<rparr>" "w' = snd s"
    using rest by (auto split: prod.splits sum.splits)
  have "steady (?p, w1)" "v_out V (snd (?p, w1)) (pb_sock (fst (?p, w1))) = []"
    using c keeps_wf [OF c(2)] by (simp_all add: steady_def)
  note q = probe_query_ok [OF 2 this]
  note sel = stepped_sel [OF q(1), simplified]
  show "keeps V {} w w'"
    using keeps_new [OF c(2) sel(5)] c(1) p by simp
  show "pb_sock p \<notin> v_used V w"
    using sel(1) c(1) p by simp
  show "in_stage at_rest ([p], w')"
    unfolding idle_iff using p sel(1) q(2-4) c(1) keeps_wf [OF sel(5)] keeps_used [OF sel(5)] keeps_srv [OF sel(5)]
    by simp
qed

lemma open_probes_ok:
  assumes "open_probes E xs w = (Inr ps, w')" and "v_wf V w"
  shows "keeps V {} w w' \<and> (\<forall>p\<in>set ps. pb_sock p \<notin> v_used V w) \<and> in_stage at_rest (ps, w')"
  using assms
proof (induction xs arbitrary: ps w)
  case Nil
  then show ?case
    by (auto simp: ret_run idle_iff)
next
  case (Cons x xs)
  obtain p w1 qs where 1: "open_probe E (py_strip x) w = (Inr p, w1)" and 2: "open_probes E xs w1 = (Inr qs, w')"
    and ps: "ps = p # qs"
    using Cons.prems(1) by (auto simp: ret_run elim!: bnd_InrE)
  note a = open_probe_ok [OF 1 Cons.prems(2)]
  have b: "keeps V {} w1 w'" "\<forall>q\<in>set qs. pb_sock q \<notin> v_used V w1" "in_stage at_rest (qs, w')"
    using Cons.IH [OF 2 keeps_wf [OF a(1)]] by blast+
  have p: "in_stage at_rest ([p], w')"
    using idle_keeps [OF a(3)] b(1) by simp
  have "pb_sock p \<in> v_used V w1"
    using a(3) by (simp add: idle_iff)
  then have "in_stage at_rest (p # qs, w')"
    using p b(2,3) unfolding idle_iff by auto
  moreover have "\<forall>q\<in>set ps. pb_sock q \<notin> v_used V w"
    using a(1,2) b(2) ps keeps_used by fastforce
  ultimately show ?case
    using keeps_trans [OF a(1) b(1)] ps by blast
qed

subsection \<open>From the pings to the verdict\<close>

lemma pings_ok:
  assumes "each is (\<lambda>i. on_probe i (probe_ping E)) s = (Inr (), s')" and "in_stage at_rest s"
    and "\<forall>i\<in>set is. i < length (fst s)"
  shows "in_stage at_rest s' \<and> same_ranges (fst s) (fst s')"
  using assms
proof (induction "is" arbitrary: s)
  case Nil
  then show ?case by (simp add: ret_run)
next
  case (Cons i "is")
  obtain s1 where 1: "on_probe i (probe_ping E) s = (Inr (), s1)"
    and 2: "each is (\<lambda>i. on_probe i (probe_ping E)) s1 = (Inr (), s')"
    using Cons.prems(1) by (auto elim: seq_InrE)
  have i: "i < length (fst s)"
    using Cons.prems(3) by simp
  have "v_out V (snd s) (pb_sock (fst s ! i)) = []"
    using probes_in_nth(4) [OF Cons.prems(2) i] by (simp add: at_rest_def)
  then have "stepped V (fst s ! i, snd s) (p', w') \<and> v_out V w' (pb_sock p') = []"
    if "probe_ping E (fst s ! i, snd s) = (Inr (), (p', w'))" for p' w'
    using probe_ping_ok [OF that in_stage_steady [OF Cons.prems(2) i]] by simp
  then have step: "in_stage (at_rest(i := (\<lambda>p out srv. out = []))) s1" "same_ranges (fst s) (fst s1)"
    using on_probe_in [OF Cons.prems(2) i 1, of "\<lambda>p out srv. out = []"] by blast+
  have "in_stage at_rest s1"
    by (rule probes_in_weaken [OF step(1)]) (simp add: at_rest_def split: if_splits)
  then show ?case
    using Cons.IH [OF 2] Cons.prems(3) step(2) same_ranges_sel(1) [OF step(2)] same_ranges_trans by auto
qed

end

text \<open>A parameter that runs outside the connections: a clock, a subprocess.\<close>

definition bystander :: "('w, 's) view \<Rightarrow> ('w \<Rightarrow> 'a \<times> 'w) \<Rightarrow> bool" where
  "bystander V f \<longleftrightarrow> (\<forall>w. v_wf V w \<longrightarrow> keeps V {} w (snd (f w)))"

definition exports :: "(int \<Rightarrow> 'w \<Rightarrow> (exn + byte list) \<times> 'w) \<Rightarrow> (int \<Rightarrow> byte list) \<Rightarrow> bool" where
  "exports truth_row X \<longleftrightarrow> (\<forall>i w b w'. truth_row i w = (Inr b, w') \<longrightarrow> b = X i)"

lemma compare_truth_ok:
  assumes "compare_truth truth_row xs s = (Inr oks, s')" and "exports truth_row X"
  shows "oks = map (\<lambda>x. snd x = X (fst x)) xs"
  using assms(1)
proof (induction xs arbitrary: s oks)
  case Nil
  then show ?case by (simp add: ret_run)
next
  case (Cons x xs)
  obtain b s1 rest where 1: "io (truth_row (fst x)) s = (Inr b, s1)"
    and 2: "compare_truth truth_row xs s1 = (Inr rest, s')" and oks: "oks = (snd x = b) # rest"
    using Cons.prems by (auto simp: ret_run elim!: bnd_InrE)
  have "b = X (fst x)"
    using 1 assms(2) by (auto simp: io_def exports_def split: prod.splits)
  then show ?case
    using oks Cons.IH [OF 2] by simp
qed

lemma ask_clock_ok:
  assumes "ask_clock clock s = (r, s')" and "bystander V clock" and "v_wf V (snd s)"
  shows "fst s' = fst s" and "keeps V {} (snd s) (snd s')"
  using assms by (auto simp: ask_clock_def io_def bystander_def split: prod.splits dest!: spec)

context honest_net begin

lemma probe_verify_ok:
  assumes "probe_verify E truth_row m s = (Inr oks, s')" and "in_stage at_rest s" and "probe_cover 0 (fst s) = Inr n"
    and "holds base count width row deployed T" and "exports truth_row X"
  shows "\<forall>i\<in>set (probe_ids (pb_count (hd (fst s))) m). 0 \<le> i \<and> i < int n \<and> T (nat i) = X i"
proof -
  let ?ids = "probe_ids (pb_count (hd (fst s))) m"
  obtain got s1 where 1: "probe_gather E ?ids s = (Inr got, s1)"
    and 2: "compare_truth truth_row (zip ?ids got) s1 = (Inr oks, s')" and oks: "False \<notin> set oks"
    using assms(1) by (auto simp: probe_verify_def Let_def raise_run ret_run elim!: bnd_InrE split: if_splits)
  have g: "got = map (\<lambda>i. T (nat i)) ?ids" "\<forall>i\<in>set ?ids. 0 \<le> i \<and> i < int n"
    using probe_gather_ok [OF 1 assms(2,3,4)] by blast+
  have z: "zip xs (map f xs) = map (\<lambda>x. (x, f x)) xs" for xs and f :: "int \<Rightarrow> byte list"
    by (induction xs) auto
  have "oks = map (\<lambda>i. T (nat i) = X i) ?ids"
    using compare_truth_ok [OF 2 assms(5)] unfolding g(1) z by simp
  then have "\<forall>i\<in>set ?ids. T (nat i) = X i"
    using oks by auto
  then show ?thesis
    using g(2) by blast
qed

lemma probe_body_ok:
  assumes "probe_body E clock integers seed truth_row a s = (Inr rep, s')" and "in_stage at_rest s"
    and "\<not> pa_skip_verify a" and "bystander V clock"
    and "holds base count width row deployed T" and "exports truth_row X"
  shows "probe_cover 0 (fst s) = Inr (pp_cover rep) \<and> pp_peers rep = map describe_probe (fst s) \<and>
    (\<forall>i\<in>set (probe_ids (pb_count (hd (fst s))) (sum_list (map pb_count (fst s)))).
       0 \<le> i \<and> i < int (pp_cover rep) \<and> T (nat i) = X i)"
proof -
  let ?ps = "fst s"
  obtain n t0 s1 s2 t1 s3 oks s4 where n: "probe_cover 0 ?ps = Inr n"
    and 1: "ask_clock clock s = (Inr t0, s1)"
    and 2: "each [0..<length ?ps] (\<lambda>i. on_probe i (probe_ping E)) s1 = (Inr (), s2)"
    and 3: "ask_clock clock s2 = (Inr t1, s3)"
    and 4: "probe_verify E truth_row (sum_list (map pb_count ?ps)) s3 = (Inr oks, s4)"
    and rep: "pp_cover rep = n" "pp_peers rep = map describe_probe ?ps"
    using assms(1,3) by (auto simp: probe_body_def Let_def of_sum_run ret_run elim!: bnd_InrE seq_InrE)
  have wf: "v_wf V (snd s)"
    using assms(2) by (simp add: idle_iff)
  note a = ask_clock_ok [OF 1 assms(4) wf]
  have i1: "in_stage at_rest s1"
    using idle_keeps [OF assms(2) a(2)] a(1) by (metis prod.collapse)
  have i2: "in_stage at_rest s2" "same_ranges (fst s1) (fst s2)"
    using pings_ok [OF 2 i1] a(1) by auto
  have wf2: "v_wf V (snd s2)"
    using i2(1) by (simp add: idle_iff)
  note c = ask_clock_ok [OF 3 assms(4) wf2]
  have i3: "in_stage at_rest s3"
    using idle_keeps [OF i2(1) c(2)] c(1) by (metis prod.collapse)
  have same: "same_ranges ?ps (fst s3)"
    using i2(2) a(1) c(1) by simp
  have cover: "probe_cover 0 (fst s3) = Inr n"
    using n same_ranges_cover [OF same] by simp
  have "?ps = [] \<or> pb_count (hd (fst s3)) = pb_count (hd ?ps)"
    using same_ranges_sel(1,2) [OF same] by (metis length_0_conv list.map_sel(1))
  moreover have "?ps \<noteq> []"
  proof
    assume "?ps = []"
    then have "n = 0"
      using n by simp
    then show False
      using probe_verify_ok [OF 4 i3 cover assms(5,6)] by (auto simp: probe_ids_def)
  qed
  ultimately show ?thesis
    using probe_verify_ok [OF 4 i3 cover assms(5,6)] n rep by simp
qed

end

subsection \<open>The order of the latencies\<close>

lemma sort_ends:
  fixes xs :: "'a :: linorder list"
  assumes "xs \<noteq> []"
  shows "hd (sort xs) = Min (set xs)" and "last (sort xs) = Max (set xs)"
proof -
  have s: "sort xs \<noteq> []" "sorted (sort xs)"
    using assms by (simp_all add: set_empty [symmetric] del: set_empty)
  have "hd (sort xs) \<le> x \<and> x \<le> last (sort xs)" if x: "x \<in> set (sort xs)" for x
  proof -
    obtain i where i: "i < length (sort xs)" "x = sort xs ! i"
      using x by (metis in_set_conv_nth)
    then have "sort xs ! 0 \<le> x" "x \<le> sort xs ! (length (sort xs) - 1)"
      using sorted_nth_mono [OF s(2)] by auto
    then show ?thesis
      using hd_conv_nth [OF s(1)] last_conv_nth [OF s(1)] by metis
  qed
  then have "\<And>x. x \<in> set xs \<Longrightarrow> hd (sort xs) \<le> x" "\<And>x. x \<in> set xs \<Longrightarrow> x \<le> last (sort xs)"
    by simp_all
  moreover have "hd (sort xs) \<in> set xs" "last (sort xs) \<in> set xs"
    using hd_in_set [OF s(1)] last_in_set [OF s(1)] by simp_all
  ultimately show "hd (sort xs) = Min (set xs)" "last (sort xs) = Max (set xs)"
    by (metis List.finite_set Min_eqI, metis List.finite_set Max_eqI)
qed

lemma summary_ordered:
  assumes "probe_summary label nrows iters lat wall = Inr r"
  shows "pr_min r \<le> pr_p50 r \<and> pr_p50 r \<le> pr_p90 r \<and> pr_p90 r \<le> pr_p99 r \<and> pr_p99 r \<le> pr_max r"
proof -
  have ne: "lat \<noteq> []"
    using assms by (auto simp: probe_summary_def median_def)
  have r: "median lat = Inr (pr_p50 r)" "pct lat 900 = Inr (pr_p90 r)" "pct lat 990 = Inr (pr_p99 r)"
    "pr_min r = hd (sort lat)" "pr_max r = last (sort lat)"
    using assms by (auto simp: probe_summary_def sort_ends [OF ne] split: sum.splits if_splits)
  consider (one) x where "lat = [x]" | (two) "length lat = 2" | (many) "2 < length lat"
  proof -
    have "length lat = 1 \<or> length lat = 2 \<or> 2 < length lat"
      using ne by (cases "length lat") auto
    then show ?thesis
      using that by (auto simp: length_Suc_conv)
  qed
  then show ?thesis
  proof cases
    case one
    then show ?thesis
      using r by (simp add: median_def pct_def Let_def)
  next
    case two
    have "pr_p50 r = quantile 1000 lat 500"
      using median_quantile [of lat 500] r(1) two by simp
    moreover have "pr_p90 r = pr_max r" "pr_p99 r = pr_max r"
      using r(2,3,5) two ne sort_ends(2) [OF ne] by (auto simp: pct_def)
    ultimately show ?thesis
      using quantile_within [of lat 500 1000] two r(4,5) by simp
  next
    case many
    have q: "pr_p50 r = quantile 1000 lat 500" "pr_p90 r = quantile 1000 lat 900" "pr_p99 r = quantile 1000 lat 990"
      using median_quantile [of lat 500] r(1-3) many by (simp_all add: pct_def)
    have l: "2 \<le> length lat"
      using many by simp
    show ?thesis
      unfolding q r(4,5) using quantile_mono [OF l, of 500 900 1000] quantile_mono [OF l, of 900 990 1000]
        quantile_within [OF l, of 500 1000] quantile_within [OF l, of 990 1000] by simp
  qed
qed

lemma lookup_None: "lookup T n ids = None \<longleftrightarrow> (\<exists>i\<in>set ids. i < 0 \<or> int n \<le> i)"
  by (auto simp: lookup_def list_all_iff not_less not_le)

lemma probe_refused:
  assumes "probe_cover 0 (fst s) = Inr n" and "lookup T n ids = None" and "probe_gather E ids s = (r, s')"
  shows "s' = s" and "\<exists>e. r = Inl e \<and> exn_kind e \<in> {ValueError, OverflowError}"
proof -
  have "s' = s \<and> (\<exists>e. r = Inl e \<and> exn_kind e \<in> {ValueError, OverflowError})"
  proof (cases "uint32_array ids")
    case (Inl e)
    then have "exn_kind e = OverflowError"
      by (auto simp: uint32_array_def split: if_splits)
    moreover have "s' = s" "r = Inl e"
      using assms(3) Inl by (simp_all add: probe_gather_def of_sum_def bnd_def raise_run)
    ultimately show ?thesis
      by simp
  next
    case (Inr xs)
    obtain i where "i \<in> set ids" "\<not> nat i < n"
      using assms(2) uint32_Inr [OF Inr] by (auto simp: lookup_None nat_less_iff not_less)
    then have "\<not> (\<forall>x\<in>set xs. x < n)"
      using uint32_Inr [OF Inr] by auto
    then have "sum_list (map (\<lambda>mk. length (filter (\<lambda>b. b) mk)) (probe_masks (fst s) xs)) \<noteq> length xs"
      using covered_sum(1) [OF assms(1)] by blast
    then show ?thesis
      using assms(3) Inr by (auto simp: probe_gather_def of_sum_def ret_run raise_run Let_def bnd_def)
  qed
  then show "s' = s" "\<exists>e. r = Inl e \<and> exn_kind e \<in> {ValueError, OverflowError}"
    by blast+
qed

end
