(* ===== verification/Probe_Live.thy ===== *)
theory Probe_Live
  imports Probe_Gather Live
begin

section \<open>A gather of the probe over a calm network returns\<close>

text \<open>
  The same two loops over a network that keeps \<open>live_net\<close>: every request is answered in full and every
  receive makes progress, so the gather returns.
\<close>

context live_net begin

lemma recv_all_lives:
  assumes "v_wf V w" and "calm a b w" and "k \<in> v_used V w" and "0 < t" and "length sofar \<le> n"
    and "n - length sofar \<le> length (v_out V w k)"
  shows "\<exists>bs w'. recv_all E k t n sofar w = (Inr bs, w') \<and> calm a b w'"
  using assms
proof (induction "n - length sofar" arbitrary: sofar w rule: less_induct)
  case less
  show ?case
  proof (cases "length sofar < n")
    case False
    then show ?thesis
      using less.prems(2) by (subst recv_all.simps) simp
  next
    case True
    have "v_out V w k \<noteq> []" "0 < n - length sofar"
      using True less.prems(6) by auto
    from recv_lives [OF less.prems(1,2,3) this(1) less.prems(4) this(2)]
    obtain bs w1 where 1: "n_recv E k t (n - length sofar) w = (Inr bs, w1)" "bs \<noteq> []" "calm a b w1"
      by blast
    note k1 = recv_keeps [OF less.prems(1) 1(1)]
    have out: "v_out V w k = bs @ v_out V w1 k" "length bs \<le> n - length sofar"
      using recv_ok [OF less.prems(1,3) 1(1)] by blast+
    have "0 < length bs"
      using 1(2) by simp
    then have "n - length (sofar @ bs) < n - length sofar" "length (sofar @ bs) \<le> n"
      "n - length (sofar @ bs) \<le> length (v_out V w1 k)"
      using True out(2) less.prems(6) arg_cong [OF out(1), of length] unfolding length_append by linarith+
    from less.hyps [OF this(1) keeps_wf [OF k1] 1(3) keeps_used [OF k1 less.prems(3)] less.prems(4) this(2,3)]
    show ?thesis
      using 1 True out(2) by (subst recv_all.simps) simp
  qed
qed

lemma probe_recv_lives:
  assumes "steady s" and "calm a b (snd s)" and "n \<le> length (v_out V (snd s) (pb_sock (fst s)))"
  obtains bs s' where "probe_recv E n s = (Inr bs, s')" "calm a b (snd s')"
proof -
  have "0 < PROBE_TIMEOUT"
    by (simp add: PROBE_TIMEOUT_def)
  with assms have "\<exists>bs w'. recv_all E (pb_sock (fst s)) PROBE_TIMEOUT n [] (snd s) = (Inr bs, w') \<and> calm a b w'"
    by (intro recv_all_lives) (auto simp: steady_def)
  then obtain bs w' where "recv_all E (pb_sock (fst s)) PROBE_TIMEOUT n [] (snd s) = (Inr bs, w')" "calm a b w'"
    by blast
  then show thesis
    using that [of bs "(fst s, w')"] by (simp add: probe_recv_def io_def)
qed

definition served :: "nat list \<Rightarrow> probe_peer \<Rightarrow> byte list \<Rightarrow> 's \<Rightarrow> bool" where
  "served sub p out srv \<longleftrightarrow> wants sub p out srv \<and> \<not> refusal (pb_req_id p) out"

lemma probe_send_gather_lives:
  assumes "steady s" and "calm a b (snd s)" and "v_out V (snd s) (pb_sock (fst s)) = []"
    and "\<forall>i\<in>set sub. i < 2 ^ 32" and "length sub \<le> limit" and "length sub < 2 ^ 32"
    and "deployed (v_srv V (snd s) (pb_sock (fst s)))"
    and "\<forall>i\<in>set sub. base (v_srv V (snd s) (pb_sock (fst s))) \<le> i \<and>
      i < base (v_srv V (snd s) (pb_sock (fst s))) + count (v_srv V (snd s) (pb_sock (fst s)))"
  obtains s' where "probe_send_gather E sub s = (Inr (), s')" "calm a b (snd s')"
    "\<not> refusal (pb_req_id (fst s')) (v_out V (snd s') (pb_sock (fst s')))"
proof -
  let ?r = "(pb_req_id (fst s) + 1) mod 2 ^ 32"
  obtain h where h: "pack_request OP_GATHER 0 ?r (length sub) = Inr h"
    using pack_request_ok [of OP_GATHER 0 ?r "length sub"] assms(6) by (auto simp: wire_consts)
  have hdr: "probe_hdr OP_GATHER (length sub) s = (Inr h, ((fst s)\<lparr>pb_req_id := ?r\<rparr>, snd s))"
    using h by (simp add: probe_hdr_def of_sum_run)
  have "0 < PROBE_TIMEOUT" "v_wf V (snd s)" "pb_sock (fst s) \<in> v_used V (snd s)"
    using assms(1) by (simp_all add: PROBE_TIMEOUT_def steady_def)
  from send_lives [OF this(2) assms(2) this(3) assms(3) this(1) assms(7) h assms(8,4,5)]
  obtain w' where "n_send E (pb_sock (fst s)) PROBE_TIMEOUT (h @ id_bytes sub) (snd s) = (Inr (), w')" "calm a b w'"
    "\<not> refusal ?r (v_out V w' (pb_sock (fst s)))"
    by blast
  then show thesis
    using that [of "((fst s)\<lparr>pb_req_id := ?r\<rparr>, w')"] hdr
    by (simp add: probe_send_gather_def bnd_Inr probe_send_def io_def)
qed

lemma probe_read_gather_lives:
  assumes "steady s" and "calm a b (snd s)"
    and "served sub (fst s) (v_out V (snd s) (pb_sock (fst s))) (v_srv V (snd s) (pb_sock (fst s)))"
    and "holds base count width row deployed truth" and "deployed (v_srv V (snd s) (pb_sock (fst s)))"
  obtains raw s' where "probe_read_gather E (length sub) s = (Inr raw, s')" "calm a b (snd s')"
proof -
  let ?k = "pb_sock (fst s)" and ?srv = "v_srv V (snd s) (pb_sock (fst s))"
  obtain h where h: "pack_request OP_GATHER 0 (pb_req_id (fst s)) (length sub) = Inr h"
    "reply ?srv (h @ id_bytes sub) (v_out V (snd s) ?k)" "\<forall>i\<in>set sub. i < 2 ^ 32"
    using assms(3) by (auto simp: served_def wants_def)
  obtain g where range: "\<forall>i\<in>set sub. base ?srv \<le> i \<and> i < base ?srv + count ?srv"
    and g: "pack_response (pb_req_id (fst s)) 0 (length sub) = Inr g"
    "v_out V (snd s) ?k = g @ concat (map (row ?srv) sub)"
    using reply_gather [OF h(2,1,3)] assms(3) unfolding served_def by blast
  note rows = holds_rows [OF assms(4,5) range]
  have len: "length (concat (map truth sub)) = length sub * PROBE_ROW"
    using length_concat_rows [OF rows(2)] .
  have "HEADER \<le> length (v_out V (snd s) ?k)"
    using g pack_response_Inr(1) [OF g(1)] by (simp add: HEADER_def)
  then obtain bs s1 where 1: "probe_recv E HEADER s = (Inr bs, s1)" and c1: "calm a b (snd s1)"
    using probe_recv_lives [OF assms(1,2)] by blast
  note a = probe_recv_step [OF 1 assms(1)]
  have "length bs = 16" "g @ concat (map (row ?srv) sub) = bs @ v_out V (snd s1) ?k"
    using a(3) [OF refl] g(2) by (simp_all add: HEADER_def)
  note f = header_front [OF this(2) g(1) this(1)]
  have st1: "steady s1"
    using steady_stepped [OF assms(1) a(1)] .
  have "length sub * PROBE_ROW \<le> length (v_out V (snd s1) (pb_sock (fst s1)))"
    using f(1) rows(1) len a(2) by simp
  then obtain raw s2 where 2: "probe_recv E (length sub * PROBE_ROW) s1 = (Inr raw, s2)" and c2: "calm a b (snd s2)"
    using probe_recv_lives [OF st1 c1] by blast
  have "probe_read_hdr E s = (Inr (length sub), s1)"
    using 1 f(2) a(2) by (simp add: probe_read_hdr_def bnd_Inr of_sum_run probe_check_def ret_run)
  then show thesis
    using that [of raw s2] 2 c2 by (simp add: probe_read_gather_def bnd_Inr)
qed

lemma ask_probes_lives:
  assumes "in_stage F s" and "calm a b (snd s)" and "i + length subs = length (fst s)"
    and "\<And>j. i \<le> j \<Longrightarrow> F j = at_rest j"
    and "\<And>j. j < length subs \<Longrightarrow> (\<forall>x\<in>set (subs ! j). x < 2 ^ 32 \<and> probe_owns (fst s ! (i + j)) x) \<and>
      length (subs ! j) \<le> limit \<and> length (subs ! j) < 2 ^ 32"
  shows "\<exists>s'. ask_probes E i subs s = (Inr (), s') \<and> calm a b (snd s') \<and> same_ranges (fst s) (fst s') \<and>
    in_stage (\<lambda>j. if i \<le> j \<and> j < length (fst s) \<and> subs ! (j - i) \<noteq> [] then served (subs ! (j - i)) else F j) s'"
  using assms
proof (induction subs arbitrary: i s F)
  case Nil
  then show ?case
    by (auto simp: ret_run elim!: probes_in_weaken)
next
  case (Cons sub subs)
  have i: "i < length (fst s)"
    using Cons.prems(3) by simp
  have sub: "\<forall>x\<in>set sub. x < 2 ^ 32 \<and> probe_owns (fst s ! i) x" "length sub \<le> limit" "length sub < 2 ^ 32"
    using Cons.prems(5) [of 0] by simp_all
  define G where "G = (if sub = [] then F else F(i := served sub))"
  have "\<exists>s1. (if sub = [] then ret () else on_probe i (probe_send_gather E sub)) s = (Inr (), s1) \<and>
      calm a b (snd s1) \<and> same_ranges (fst s) (fst s1) \<and> in_stage G s1"
  proof (cases "sub = []")
    case True
    then show ?thesis
      using Cons.prems(1,2) by (simp add: ret_run G_def)
  next
    case False
    note at_i = probes_in_nth [OF Cons.prems(1) i]
    have st: "steady (fst s ! i, snd s)"
      using in_stage_steady [OF Cons.prems(1) i] .
    have out: "v_out V (snd s) (pb_sock (fst s ! i)) = []"
      using at_i(4) Cons.prems(4) [of i] by (simp add: at_rest_def)
    have own: "\<forall>x\<in>set sub. base (v_srv V (snd s) (pb_sock (fst s ! i))) \<le> x \<and>
        x < base (v_srv V (snd s) (pb_sock (fst s ! i))) + count (v_srv V (snd s) (pb_sock (fst s ! i)))"
      using sub(1) Cons.prems(1) i by (simp add: probes_in_def Let_def probe_owns_def)
    obtain t where t: "probe_send_gather E sub (fst s ! i, snd s) = (Inr (), t)" "calm a b (snd t)"
      "\<not> refusal (pb_req_id (fst t)) (v_out V (snd t) (pb_sock (fst t)))"
      by (rule probe_send_gather_lives [of "(fst s ! i, snd s)" a b sub]) (use st out own at_i(3) sub Cons.prems(2) in auto)
    have run: "on_probe i (probe_send_gather E sub) s = (Inr (), ((fst s)[i := fst t], snd t))"
      using t(1) by (cases t) (simp add: on_probe_def)
    have "stepped V (fst s ! i, snd s) (p', w') \<and> served sub p' (v_out V w' (pb_sock p')) (v_srv V w' (pb_sock p'))"
      if "probe_send_gather E sub (fst s ! i, snd s) = (Inr (), (p', w'))" for p' w'
      using probe_send_gather_ok [OF that st] out sub(1) t that by (cases t) (simp add: served_def)
    then show ?thesis
      using on_probe_in [OF Cons.prems(1) i run] run t(2) False unfolding G_def by auto
  qed
  then obtain s1 where 1: "(if sub = [] then ret () else on_probe i (probe_send_gather E sub)) s = (Inr (), s1)"
    and c: "calm a b (snd s1)" and same: "same_ranges (fst s) (fst s1)" and stage: "in_stage G s1"
    by blast
  have len: "length (fst s1) = length (fst s)"
    using same_ranges_sel(1) [OF same] .
  have owns: "probe_owns (fst s1 ! j) x \<longleftrightarrow> probe_owns (fst s ! j) x" if "j < length (fst s)" for j x
    using arg_cong [OF same_ranges_sel(2) [OF same], of "\<lambda>xs. xs ! j"]
      arg_cong [OF same_ranges_sel(3) [OF same], of "\<lambda>xs. xs ! j"] that len by (simp add: probe_owns_def)
  have 2: "Suc i + length subs = length (fst s1)" and 3: "\<And>j. Suc i \<le> j \<Longrightarrow> G j = at_rest j"
    using Cons.prems(3,4) len by (auto simp: G_def)
  have 4: "(\<forall>x\<in>set (subs ! j). x < 2 ^ 32 \<and> probe_owns (fst s1 ! (Suc i + j)) x) \<and>
      length (subs ! j) \<le> limit \<and> length (subs ! j) < 2 ^ 32" if "j < length subs" for j
    using Cons.prems(5) [of "Suc j"] that owns [of "Suc i + j"] Cons.prems(3) by simp
  from Cons.IH [OF stage c 2 3 4]
  obtain s' where s': "ask_probes E (Suc i) subs s1 = (Inr (), s')" "calm a b (snd s')" "same_ranges (fst s1) (fst s')"
    and ih: "in_stage (\<lambda>j. if Suc i \<le> j \<and> j < length (fst s1) \<and> subs ! (j - Suc i) \<noteq> []
        then served (subs ! (j - Suc i)) else G j) s'"
    by blast
  have "in_stage (\<lambda>j. if i \<le> j \<and> j < length (fst s) \<and> (sub # subs) ! (j - i) \<noteq> []
      then served ((sub # subs) ! (j - i)) else F j) s'"
  proof (rule probes_in_weaken [OF ih])
    fix j p out srv
    assume "(if Suc i \<le> j \<and> j < length (fst s1) \<and> subs ! (j - Suc i) \<noteq> []
      then served (subs ! (j - Suc i)) else G j) p out srv"
    then show "(if i \<le> j \<and> j < length (fst s) \<and> (sub # subs) ! (j - i) \<noteq> []
      then served ((sub # subs) ! (j - i)) else F j) p out srv"
      using i len by (cases "j = i"; cases "i < j") (auto simp: G_def nth_Cons' split: if_splits)
  qed
  moreover have "ask_probes E i (sub # subs) s = (Inr (), s')"
    using 1 s'(1) by (simp only: ask_probes.simps seq_run prod.case sum.case)
  ultimately show ?case
    using s'(2,3) same same_ranges_trans by blast
qed

lemma fill_probes_lives:
  assumes "in_stage F s" and "calm a b (snd s)" and "i + length work = length (fst s)"
    and "holds base count width row deployed truth"
    and "\<And>j. i \<le> j \<Longrightarrow> j < length (fst s) \<Longrightarrow>
      F j = (if fst (work ! (j - i)) = [] then at_rest j else served (fst (work ! (j - i))))"
  shows "\<exists>res s'. fill_probes E i work out s = (Inr res, s') \<and> calm a b (snd s')"
  using assms(1-3,5)
proof (induction work arbitrary: i out s F)
  case Nil
  then show ?case
    by (simp add: ret_run)
next
  case (Cons x work)
  obtain sub mk where x: "x = (sub, mk)"
    by fastforce
  have i: "i < length (fst s)"
    using Cons.prems(3) by simp
  have Fi: "F i = (if sub = [] then at_rest i else served sub)"
    using Cons.prems(4) [of i] i x by simp
  have later: "F j = (if fst (work ! (j - Suc i)) = [] then at_rest j else served (fst (work ! (j - Suc i))))"
    if "Suc i \<le> j" "j < length (fst s)" for j
    using Cons.prems(4) [of j] that by (simp add: nth_Cons')
  show ?case
  proof (cases "sub = []")
    case True
    have "Suc i + length work = length (fst s)"
      using Cons.prems(3) by simp
    then show ?thesis
      using Cons.IH [OF Cons.prems(1,2) _ later] x True by simp
  next
    case False
    note at_i = probes_in_nth [OF Cons.prems(1) i]
    have st: "steady (fst s ! i, snd s)"
      using in_stage_steady [OF Cons.prems(1) i] .
    have w: "served sub (fst s ! i) (v_out V (snd s) (pb_sock (fst s ! i))) (v_srv V (snd s) (pb_sock (fst s ! i)))"
      using at_i(4) Fi False by simp
    obtain raw t where t: "probe_read_gather E (length sub) (fst s ! i, snd s) = (Inr raw, t)" "calm a b (snd t)"
      by (rule probe_read_gather_lives [of "(fst s ! i, snd s)" a b sub])
        (use st w at_i(3) assms(4) Cons.prems(2) in auto)
    define s1 where "s1 = ((fst s)[i := fst t], snd t)"
    have 1: "on_probe i (probe_read_gather E (length sub)) s = (Inr raw, s1)"
      using t(1) by (cases t) (simp add: on_probe_def s1_def)
    have "stepped V (fst s ! i, snd s) (p', w') \<and> v_out V w' (pb_sock p') = []"
      if "probe_read_gather E (length sub) (fst s ! i, snd s) = (Inr raw, (p', w'))" for p' w'
      using probe_read_gather_ok [OF that st _ assms(4)] w at_i(3) by (simp add: served_def)
    then have step: "in_stage (F(i := (\<lambda>p out srv. out = []))) s1" "same_ranges (fst s) (fst s1)"
      using on_probe_in [OF Cons.prems(1) i 1, of "\<lambda>p out srv. out = []"] by blast+
    have len: "length (fst s1) = length (fst s)"
      using same_ranges_sel(1) [OF step(2)] .
    have 2: "Suc i + length work = length (fst s1)"
      using Cons.prems(3) len by simp
    have 3: "(F(i := (\<lambda>p out srv. out = []))) j = (if fst (work ! (j - Suc i)) = [] then at_rest j
        else served (fst (work ! (j - Suc i))))" if "Suc i \<le> j" "j < length (fst s1)" for j
      using later [of j] that len by simp
    have "calm a b (snd s1)"
      using t(2) by (simp add: s1_def)
    from Cons.IH [OF step(1) this 2 3] show ?thesis
      using 1 x False by (simp add: bnd_def)
  qed
qed

lemma probe_gather_lives:
  assumes "in_stage at_rest s" and "calm a b (snd s)" and "probe_cover 0 (fst s) = Inr n"
    and "holds base count width row deployed truth"
    and "\<forall>i\<in>set ids. 0 \<le> i \<and> i < int n \<and> i < 2 ^ 32" and "length ids \<le> limit" and "length ids < 2 ^ 32"
  shows "\<exists>s'. probe_gather E ids s = (Inr (map (\<lambda>i. truth (nat i)) ids), s') \<and> calm a b (snd s')"
proof -
  define xs where "xs = map nat ids"
  have xs: "uint32_array ids = Inr xs" "\<forall>x\<in>set xs. x < n \<and> x < 2 ^ 32" "length xs = length ids"
    using assms(5) by (auto simp: uint32_array_def xs_def list_all_iff nat_less_iff)
  define marks where "marks = probe_masks (fst s) xs"
  define subs where "subs = map (\<lambda>mk. picked mk xs) marks"
  define blank where "blank = replicate (length xs) (replicate PROBE_ROW (n_junk E))"
  have sum: "sum_list (map (\<lambda>mk. length (filter (\<lambda>b. b) mk)) marks) = length xs"
    using covered_sum(1) [OF assms(3), of xs] xs(2) unfolding marks_def by blast
  have len: "length subs = length (fst s)" "length marks = length (fst s)"
    by (simp_all add: subs_def marks_def probe_masks_def)
  have sub_j: "subs ! j = filter (probe_owns (fst s ! j)) xs" if "j < length subs" for j
  proof -
    have "picked (map P xs) xs = filter P xs" for P :: "nat \<Rightarrow> bool"
      by (induction xs) (auto simp: picked_def)
    then show ?thesis
      using that by (simp add: subs_def marks_def probe_masks_def)
  qed
  have fits: "(\<forall>x\<in>set (subs ! j). x < 2 ^ 32 \<and> probe_owns (fst s ! (0 + j)) x) \<and>
      length (subs ! j) \<le> limit \<and> length (subs ! j) < 2 ^ 32" if "j < length subs" for j
    using xs(2,3) assms(6,7) length_filter_le [of "probe_owns (fst s ! j)" xs] unfolding sub_j [OF that] by auto
  have "0 + length subs = length (fst s)"
    using len by simp
  from ask_probes_lives [OF assms(1,2) this refl fits] obtain s1
    where 1: "ask_probes E 0 subs s = (Inr (), s1)" "calm a b (snd s1)" "same_ranges (fst s) (fst s1)"
      and stage: "in_stage (\<lambda>j. if 0 \<le> j \<and> j < length (fst s) \<and> subs ! (j - 0) \<noteq> []
        then served (subs ! (j - 0)) else at_rest j) s1"
    by blast
  have len1: "length (fst s1) = length (fst s)"
    using same_ranges_sel(1) [OF 1(3)] .
  have "\<exists>res s'. fill_probes E 0 (zip subs marks) blank s1 = (Inr res, s') \<and> calm a b (snd s')"
    by (rule fill_probes_lives [OF stage 1(2) _ assms(4)]) (simp_all add: len len1)
  then obtain res s' where 2: "fill_probes E 0 (zip subs marks) blank s1 = (Inr res, s')" "calm a b (snd s')"
    by blast
  have run: "probe_gather E ids s = (Inr res, s')"
    using xs(1) sum 1(1) 2(1)
    by (simp add: probe_gather_def of_sum_def bnd_def Let_def seq_run ret_run
        marks_def [symmetric] subs_def [symmetric] blank_def [symmetric])
  then show ?thesis
    using probe_gather_ok [OF run assms(1,3,4)] 2(2) by blast
qed

end

end
