(* ===== verification/Probe_Guarantees.thy ===== *)
theory Probe_Guarantees
  imports Probe_Live Run
begin

section \<open>What the probe guarantees\<close>

text \<open>
  The gather of the probe as a refinement of the table lookup, the verdict of its verification, and
  the order of the latencies it reports; each is run on the loopback deployment, the verdict at the
  real geometry.
\<close>

subsection \<open>A probe over the loopback deployment\<close>

definition demo_probe :: "nat \<Rightarrow> nat \<Rightarrow> nat \<Rightarrow> probe_peer" where
  "demo_probe k b c = \<lparr>pb_addr = ''a'', pb_sock = k, pb_req_id = 1, pb_base = b, pb_count = c,
     pb_stat = \<lparr>st_base_row = b, st_row_count = c, st_row_bytes = 160, st_resident_pages = 0, st_served_requests = 0\<rparr>\<rparr>"

definition two_probes :: "probe_peer list \<times> loop" where
  "two_probes = ([demo_probe 0 0 4, demo_probe 1 4 4], (quiet_world [])\<lparr>lo_next := 2,
     lo_srv := (\<lambda>k. if k = 0 then slice_server (synthetic_table 8 160) 0 4 else slice_server (synthetic_table 8 160) 4 8)\<rparr>)"

lemma two_hold:
  "holds si_base (\<lambda>s. m_rows (si_table s)) (\<lambda>s. m_cols (si_table s)) si_row (listed (two_halves n 160))
     (matrix_row (synthetic_table n 160))"
  unfolding holds_def
  by (auto simp: listed_def two_halves_def slice_row PROBE_ROW_def slice_server_def synthetic_table_def split: if_splits)
    (auto simp: si_row_def matrix_row_def)

lemma two_probes_idle:
  "probes_idle si_base (\<lambda>s. m_rows (si_table s)) loop_view (listed (two_halves 8 160)) two_probes"
proof -
  have "listed (two_halves 8 160) (slice_server (synthetic_table 8 160) 0 4)"
    "listed (two_halves 8 160) (slice_server (synthetic_table 8 160) 4 8)"
    by (rule listedI [of _ "(''127.0.0.1'', 9001)"], simp add: two_halves_def)
      (rule listedI [of _ "(''127.0.0.1'', 9002)"], simp add: two_halves_def)
  then show ?thesis
    by (auto simp: probes_idle_def probes_in_def two_probes_def demo_probe_def loop_view_def at_rest_def
        slice_server_def less_Suc_eq numeral_2_eq_2 quiet_world_def)
qed

definition no_ids :: "nat \<Rightarrow> nat \<Rightarrow> unit \<Rightarrow> exn + int list \<times> unit" where
  "no_ids m k g = Inr ([], g)"

definition ticking :: "loop \<Rightarrow> rat \<times> loop" where
  "ticking w = (lo_clock w, w\<lparr>lo_clock := lo_clock w + 1\<rparr>)"

lemma ticking_bystander: "bystander loop_view ticking"
  by (simp add: bystander_def ticking_def quiet_keeps quiet_def)

lemma null_gather: "probe_gather E [] s = (Inr [], s)"
proof -
  have "ask_probes E i (map (\<lambda>p. []) ps) s = (Inr (), s)" for i and ps :: "probe_peer list"
    by (induction ps arbitrary: i) (simp_all add: ret_run seq_run)
  moreover have "fill_probes E i (zip (map (\<lambda>p. []) ps) (map (\<lambda>p. []) ps)) [] s = (Inr [], s)"
    for i and ps :: "probe_peer list"
    by (induction ps arbitrary: i) (simp_all add: ret_run)
  ultimately show ?thesis
    by (simp add: probe_gather_def uint32_array_def of_sum_def bnd_def ret_run Let_def probe_masks_def picked_def
        comp_def seq_run sum_list_triv)
qed

lemma null_run:
  assumes "0 < k"
  shows "\<exists>r w'. probe_run E ticking no_ids () nrows k m label (ps, w) = (Inr r, (ps, w'))"
proof -
  have warm: "probe_warmup E no_ids nrows m j () s = (Inr (), s)" for j s
    by (induction j) (simp_all add: no_ids_def of_sum_def bnd_def ret_run null_gather)
  have clock: "ask_clock ticking (ps, w) = (Inr (lo_clock w), (ps, w\<lparr>lo_clock := lo_clock w + 1\<rparr>))" for ps :: "probe_peer list" and w
    by (simp add: ask_clock_def ticking_def io_def)
  have timed: "probe_timed E ticking no_ids nrows m j () (ps, w) =
      (Inr (replicate j 1000), (ps, w\<lparr>lo_clock := lo_clock w + 2 * of_nat j\<rparr>))" for j w
    by (induction j arbitrary: w)
      (simp_all add: no_ids_def of_sum_def bnd_def ret_run null_gather clock algebra_simps)
  have "replicate k (1000 :: rat) \<noteq> []"
    using assms by simp
  then obtain p50 where "median (replicate k 1000) = Inr p50"
    using median_Inr by blast
  moreover have "\<exists>v. pct (replicate k 1000) q = Inr v" for q
    using assms by (simp add: pct_def)
  then obtain p90 p99 where "pct (replicate k 1000) 900 = Inr p90" "pct (replicate k 1000) 990 = Inr p99"
    by blast
  ultimately have "\<exists>r. probe_summary label nrows k (replicate k 1000) (2 * of_nat k + 1) = Inr r"
    by (simp add: probe_summary_def)
  then show ?thesis
    by (auto simp: probe_run_def bnd_def warm clock timed of_sum_run algebra_simps)
qed

lemma collect_returns:
  assumes "\<And>x s. x \<in> set xs \<Longrightarrow> fst s = c \<Longrightarrow> \<exists>y s'. f x s = (Inr y, s') \<and> fst s' = c" and "fst s = c"
  shows "\<exists>ys s'. collect xs f s = (Inr ys, s')"
  using assms
proof (induction xs arbitrary: s)
  case Nil
  then show ?case by (simp add: ret_run)
next
  case (Cons x xs)
  obtain y s1 where 1: "f x s = (Inr y, s1)" "fst s1 = c"
    using Cons.prems(1) [of x s, OF _ Cons.prems(2)] by auto
  obtain ys s2 where "collect xs f s1 = (Inr ys, s2)"
    using Cons.IH [OF Cons.prems(1) 1(2)] by auto
  then show ?case
    using 1 by (simp add: bnd_def ret_run)
qed

lemmas probe_run_defs = open_probe_def partition_at_def py_strip_def py_space_def py_int_def digit_val_def Let_def on_probe_def
  probe_query_def probe_hdr_def probe_send_def probe_ping_def probe_read_hdr_def probe_recv_def probe_check_def recv_all.simps
  ask_clock_def ticking_def stat_of_fields_def

abbreviation "real_net \<equiv> loop_net (two_halves 320001536 160)"

definition true_row :: "int \<Rightarrow> loop \<Rightarrow> (exn + byte list) \<times> loop" where
  "true_row i w = (Inr (matrix_row (synthetic_table 320001536 160) (nat i)), w)"

definition real_args :: probe_args where
  "real_args = \<lparr>pa_peers = ''127.0.0.1:9001,127.0.0.1:9002'', pa_skip_verify = False, pa_iters = 1\<rparr>"

lemma real_opening:
  "case open_probes real_net (split_on (CHR '','') (pa_peers real_args)) (quiet_world []) of
    (Inl e, w) \<Rightarrow> False
  | (Inr ps, w) \<Rightarrow> map pb_base ps = [0, 160000768] \<and> map pb_count ps = [160000768, 160000768] \<and>
     sort_key pb_base ps = ps \<and> lo_script w = [] \<and> (case ask_clock ticking (ps, w) of (Inl e, s) \<Rightarrow> False | (Inr t, s) \<Rightarrow>
     (case each [0..<length ps] (\<lambda>i. on_probe i (probe_ping real_net)) s of
       (Inl e, s) \<Rightarrow> False | (Inr u, s) \<Rightarrow> lo_script (snd s) = []))"
  by (simp add: real_args_def probe_run_defs base_run loop_run wire_run quiet_world_def synthetic_table_def cong: run_congs)

lemma compare_true:
  "compare_truth true_row (map (\<lambda>i. (i, matrix_row (synthetic_table 320001536 160) (nat i))) is) s =
    (Inr (replicate (length is) True), s)"
  by (induction "is") (simp_all add: ret_run bnd_def io_def true_row_def)

lemma real_probe: "\<exists>rep w'. probe_main real_net ticking no_ids () true_row real_args (quiet_world []) = (Inr rep, w')"
proof -
  let ?base = si_base and ?count = "\<lambda>s. m_rows (si_table s)" and ?D = "listed (two_halves 320001536 160)"
  obtain ps w1 t0 s1 s2 where 1: "open_probes real_net (split_on (CHR '','') (pa_peers real_args)) (quiet_world []) = (Inr ps, w1)"
    and ps: "map pb_base ps = [0, 160000768]" "map pb_count ps = [160000768, 160000768]" "sort_key pb_base ps = ps"
    and 2: "ask_clock ticking (ps, w1) = (Inr t0, s1)"
    and 3: "each [0..<length ps] (\<lambda>i. on_probe i (probe_ping real_net)) s1 = (Inr (), s2)"
    and calm: "lo_script (snd s2) = []"
  proof -
    obtain x w1 where 1: "open_probes real_net (split_on (CHR '','') (pa_peers real_args)) (quiet_world []) = (x, w1)"
      by (metis surj_pair)
    obtain y s1 where 2: "ask_clock ticking (projr x, w1) = (y, s1)"
      by (metis surj_pair)
    obtain z s2 where 3: "each [0..<length (projr x)] (\<lambda>i. on_probe i (probe_ping real_net)) s1 = (z, s2)"
      by (metis surj_pair)
    show thesis
      using real_opening 1 2 3 that by (cases x; cases y; cases z) simp_all
  qed
  have wf: "v_wf loop_view w" for w
    by (simp add: loop_view_def)
  have i0: "probes_in ?base ?count loop_view ?D at_rest (ps, w1)"
    using honest_net.open_probes_ok [OF loop_honest 1 wf] by blast
  note c = ask_clock_ok [OF 2 ticking_bystander wf]
  have i1: "probes_in ?base ?count loop_view ?D at_rest s1"
    using honest_net.idle_keeps [OF loop_honest i0 c(2)] c(1) by (metis prod.collapse)
  have i2: "probes_in ?base ?count loop_view ?D at_rest s2" "same_ranges ps (fst s2)"
    using honest_net.pings_ok [OF loop_honest 3 i1] c(1) by auto
  obtain t1 s3 where 4: "ask_clock ticking s2 = (Inr t1, s3)" and s3: "fst s3 = fst s2" "lo_script (snd s3) = []"
    using calm by (cases s2) (auto simp: ask_clock_def ticking_def io_def)
  note c3 = ask_clock_ok [OF 4 ticking_bystander wf]
  have i3: "probes_in ?base ?count loop_view ?D at_rest s3"
    using honest_net.idle_keeps [OF loop_honest i2(1) c3(2)] c3(1) by (metis prod.collapse)
  obtain p q where pq: "ps = [p, q]" "pb_base p = 0" "pb_base q = 160000768" "pb_count p = 160000768" "pb_count q = 160000768"
    using ps(1,2) by (auto simp: map_eq_Cons_conv)
  have cover: "probe_cover 0 ps = Inr 320001536"
    using pq by simp
  have same: "same_ranges ps (fst s3)"
    using i2(2) s3(1) by simp
  have cover3: "probe_cover 0 (fst s3) = Inr 320001536"
    using cover same_ranges_cover [OF same] by simp
  have half: "pb_count (hd (fst s3)) = 160000768"
    using same_ranges_sel(2) [OF same] pq by (cases "fst s3") auto
  let ?ids = "probe_ids 160000768 320001536"
  have "lo_calm (lo_clock (snd s3)) (lo_clock (snd s3) + 1) (snd s3)"
    using s3(2) by (simp add: lo_calm_def)
  from live_net.probe_gather_lives [OF two_live i3 this cover3 two_hold, of ?ids]
  obtain s4 where 5: "probe_gather real_net ?ids s3 = (Inr (map (\<lambda>i. matrix_row (synthetic_table 320001536 160) (nat i)) ?ids), s4)"
    by (auto simp: probe_ids_def)
  have z: "zip xs (map f xs) = map (\<lambda>x. (x, f x)) xs" for xs and f :: "int \<Rightarrow> byte list"
    by (induction xs) auto
  have 6: "probe_verify real_net true_row 320001536 s3 = (Inr (replicate 8 True), s4)"
  proof -
    have len: "length ?ids = 8"
      by (simp add: probe_ids_def)
    have "\<not> False \<in> set (replicate 8 True)"
      by simp
    then show ?thesis
      unfolding probe_verify_def bnd_gets half Let_def bnd_def [of "probe_gather real_net ?ids"] 5 prod.case sum.case z
        bnd_def [of "compare_truth true_row _"] compare_true len by (simp add: ret_run)
  qed
  have "\<exists>rs s5. collect (probe_plan 1) (\<lambda>(label, nrows, iters).
      probe_run real_net ticking no_ids () nrows iters 320001536 label) s4 = (Inr rs, s5)"
  proof (rule collect_returns [where c = "fst s4"])
    fix x :: "string \<times> nat \<times> nat" and s :: "probe_peer list \<times> loop"
    assume "x \<in> set (probe_plan 1)" and s: "fst s = fst s4"
    then have "0 < snd (snd x)"
      by (auto simp: probe_plan_def)
    then show "\<exists>y s'. (case x of (label, nrows, iters) \<Rightarrow>
        probe_run real_net ticking no_ids () nrows iters 320001536 label) s = (Inr y, s') \<and> fst s' = fst s4"
      using null_run [of "snd (snd x)" real_net "fst (snd x)" 320001536 "fst x" "fst s" "snd s"] s
      by (cases x; cases s) fastforce
  qed simp
  then obtain rs s5 where 7: "collect (probe_plan 1) (\<lambda>(label, nrows, iters).
      probe_run real_net ticking no_ids () nrows iters 320001536 label) s4 = (Inr rs, s5)"
    by blast
  have total: "sum_list (map pb_count ps) = 320001536"
    using pq by simp
  have "\<exists>rep s6. probe_body real_net ticking no_ids () true_row real_args (ps, w1) = (Inr rep, s6)"
    using cover 2 3 4 6 7 total
    by (simp add: probe_body_def Let_def of_sum_def bnd_def seq_run ret_run real_args_def)
  then show ?thesis
    using 1 ps(3) by (auto simp: probe_main_def)
qed

subsection \<open>The properties\<close>

text \<open>
  C14.  The probe's gather refines the lookup in one table: over an honest network whose servers
  hold the rows \<open>T\<close>, with contiguous peers that are all at rest, whatever it returns is the lookup
  of its ids in order, and the peers are at rest again; when the lookup has no answer it raises
  before it touches a socket.
\<close>

theorem probe_gather_refines_the_lookup:
  assumes "honest_net reply lo n width row E V deployed" and "holds lo n width row deployed T"
    and "probes_idle lo n V deployed s" and "probe_cover 0 (fst s) = Inr m"
  shows "case probe_gather E ids s of
      (Inr rs, s') \<Rightarrow> lookup T m ids = Some rs \<and> probes_idle lo n V deployed s' \<and>
        probe_cover 0 (fst s') = Inr m
    | (Inl e, s') \<Rightarrow> lookup T m ids = None \<longrightarrow> s' = s \<and> exn_kind e \<in> {ValueError, OverflowError}"
proof -
  obtain r s' where run: "probe_gather E ids s = (r, s')"
    by (metis surj_pair)
  show ?thesis
  proof (cases r)
    case (Inl e)
    then show ?thesis
      using run probe_refused [OF assms(4) _ run] by auto
  next
    case (Inr rs)
    note ok = honest_net.probe_gather_ok [OF assms(1) run [unfolded Inr] assms(3) [unfolded probes_idle_def] assms(4,2)]
    then show ?thesis
      using run Inr same_ranges_cover [of "fst s" "fst s'" 0] assms(4)
      by (auto simp: lookup_def list_all_iff probes_idle_def)
  qed
qed

theorem probe_gather_refines_the_lookup_witness:
  "\<exists>rs s'. probe_gather (loop_net (two_halves 8 160)) [5, 0, 5] two_probes = (Inr rs, s') \<and>
     lookup (matrix_row (synthetic_table 8 160)) 8 [5, 0, 5] = Some rs"
proof -
  have calm: "lo_calm 0 1 (snd two_probes)" and cover: "probe_cover 0 (fst two_probes) = Inr 8"
    by (simp_all add: two_probes_def demo_probe_def lo_calm_def quiet_world_def)
  obtain rs s' where run: "probe_gather (loop_net (two_halves 8 160)) [5, 0, 5] two_probes = (Inr rs, s')"
    using live_net.probe_gather_lives [OF two_live two_probes_idle [unfolded probes_idle_def] calm cover two_hold, of "[5, 0, 5]"]
    by auto
  show ?thesis
    using probe_gather_refines_the_lookup [OF loop_honest two_hold two_probes_idle cover, of "[5, 0, 5]"] run
    by auto
qed

text \<open>
  C33.  Over a network that stays calm, the probe's gather of valid ids, no more of them than a server
  takes in one request, returns, with the true rows in request order, duplicates included.
\<close>

theorem probe_gather_returns_over_a_calm_network:
  assumes "live_net reply lo n width row E V deployed truth calm limit" and "holds lo n width row deployed truth"
    and "probes_idle lo n V deployed s" and "calm a b (snd s)" and "probe_cover 0 (fst s) = Inr m"
    and "\<forall>i\<in>set ids. 0 \<le> i \<and> i < int m \<and> i < 2 ^ 32" and "length ids \<le> limit" and "length ids < 2 ^ 32"
  shows "\<exists>s'. probe_gather E ids s = (Inr (map (\<lambda>i. truth (nat i)) ids), s') \<and> calm a b (snd s')"
  using live_net.probe_gather_lives [OF assms(1) assms(3) [unfolded probes_idle_def] assms(4,5,2,6,7,8)] .

theorem probe_gather_returns_over_a_calm_network_witness:
  "\<exists>s'. probe_gather (loop_net (two_halves 8 160)) [5, 0, 5] two_probes =
     (Inr (map (matrix_row (synthetic_table 8 160)) [5, 0, 5]), s')"
proof -
  have calm: "lo_calm 0 1 (snd two_probes)" and cover: "probe_cover 0 (fst two_probes) = Inr 8"
    by (simp_all add: two_probes_def demo_probe_def lo_calm_def quiet_world_def)
  show ?thesis
    using probe_gather_returns_over_a_calm_network [OF two_live two_hold two_probes_idle calm cover, of "[5, 0, 5]"]
    by auto
qed

text \<open>
  C34.  A probe that ran its verification and passed has found every row in exactly one peer, and the
  eight rows it samples (the edges of the table and of the split, and two in between) are on the
  servers what the exporter reads from the checkpoint.
\<close>

theorem passing_probe_has_checked_the_rows:
  assumes "honest_net reply lo n width row E V deployed" and "holds lo n width row deployed T"
    and "v_wf V w" and "bystander V clock" and "exports truth_row X"
    and "probe_main E clock integers seed truth_row a w = (Inr rep, w')" and "\<not> pa_skip_verify a"
  shows "\<exists>ps. pp_peers rep = map describe_probe ps \<and> tiling (map as_peer ps) 0 (pp_cover rep) \<and>
    ps \<noteq> [] \<and> (\<forall>i\<in>set (probe_ids (pb_count (hd ps)) (pp_cover rep)).
       0 \<le> i \<and> i < int (pp_cover rep) \<and> T (nat i) = X i)"
proof -
  obtain ps w1 s where 1: "open_probes E (split_on (CHR '','') (pa_peers a)) w = (Inr ps, w1)"
    and 2: "probe_body E clock integers seed truth_row a (sort_key pb_base ps, w1) = (Inr rep, s)"
    using assms(6) by (auto simp: probe_main_def split: prod.splits sum.splits)
  let ?ps = "sort_key pb_base ps"
  have idle: "probes_in lo n V deployed at_rest (?ps, w1)"
    using honest_net.open_probes_ok [OF assms(1) 1 assms(3)] honest_net.idle_sort [OF assms(1)] by blast
  have body: "probe_cover 0 ?ps = Inr (pp_cover rep)" "pp_peers rep = map describe_probe ?ps"
    "\<forall>i\<in>set (probe_ids (pb_count (hd ?ps)) (sum_list (map pb_count ?ps))).
       0 \<le> i \<and> i < int (pp_cover rep) \<and> T (nat i) = X i"
    using honest_net.probe_body_ok [OF assms(1) 2 idle assms(7,4,2,5)] by simp_all
  have sum: "probe_cover c qs = Inr m \<Longrightarrow> m = c + sum_list (map pb_count qs)" for c qs m
    by (induction c qs rule: probe_cover.induct) (auto split: if_splits)
  have "tiling (map as_peer ?ps) 0 (pp_cover rep)"
    using body(1) split_walk_tiling unfolding probe_cover_walk by blast
  moreover have "?ps \<noteq> []"
    using body(1,3) by (auto simp: probe_ids_def)
  ultimately show ?thesis
    using body(2,3) sum [OF body(1)] by (intro exI [of _ ?ps]) simp
qed

theorem passing_probe_has_checked_the_rows_witness:
  "\<exists>rep w' ps. probe_main real_net ticking no_ids () true_row real_args (quiet_world []) = (Inr rep, w') \<and>
     tiling (map as_peer ps) 0 (pp_cover rep)"
proof -
  obtain rep w' where run: "probe_main real_net ticking no_ids () true_row real_args (quiet_world []) = (Inr rep, w')"
    using real_probe by blast
  have "v_wf loop_view (quiet_world [])"
    by (simp add: loop_view_def)
  moreover have "exports true_row (\<lambda>i. matrix_row (synthetic_table 320001536 160) (nat i))"
    by (simp add: exports_def true_row_def)
  moreover have "\<not> pa_skip_verify real_args"
    by (simp add: real_args_def)
  ultimately show ?thesis
    using passing_probe_has_checked_the_rows [OF loop_honest two_hold _ ticking_bystander _ run] run by blast
qed

text \<open>
  The latencies of a run are in order: the least, the median, the 90th and the 99th percentile
  and the greatest, whatever was measured and however few.
\<close>

lemma probe_latencies_are_ordered:
  assumes "probe_run E clock integers seed nrows iters m label s = (Inr r, s')"
  shows "pr_min r \<le> pr_p50 r \<and> pr_p50 r \<le> pr_p90 r \<and> pr_p90 r \<le> pr_p99 r \<and> pr_p99 r \<le> pr_max r"
proof -
  obtain lat wall where "probe_summary label nrows iters lat wall = Inr r"
    using assms by (auto simp: probe_run_def of_sum_run elim!: bnd_InrE)
  then show ?thesis
    by (rule summary_ordered)
qed

end
