(* ===== verification/Recharge.thy ===== *)
theory Recharge
  imports Bare
begin

section \<open>The cache recharge tool\<close>

text \<open>
  \<open>tools/recharge_cache.py\<close>: its client, the search for the daemon's cgroup under \<open>/proc\<close>, the cgroup's
  page cache charge, and \<open>main\<close> from the arguments to the exit status.  The files it reads are a
  function of the world at the time, the page size and the account database are parameters.
\<close>

definition RC_ROW_BYTES :: nat where "RC_ROW_BYTES = 160"

subsection \<open>The client\<close>

record rc_client =
  rc_sock :: nat
  rc_timeout :: rat
  rc_req_id :: nat

type_synonym ('w, 'a) rc = "(rc_client \<times> 'w, 'a) prog"

definition open_client :: "'w net \<Rightarrow> string \<Rightarrow> int \<Rightarrow> rat \<Rightarrow> ('w, rc_client) prog" where
  "open_client E h prt tmo w = (case n_connect E (h, prt) tmo w of
     (Inl e, w') \<Rightarrow> (Inl e, w')
   | (Inr k, w') \<Rightarrow> (Inr \<lparr>rc_sock = k, rc_timeout = tmo, rc_req_id = 0\<rparr>, w'))"

definition client_recv :: "'w net \<Rightarrow> nat \<Rightarrow> ('w, byte list) rc" where
  "client_recv E n = bnd (gets fst) (\<lambda>c. io (recv_all E (rc_sock c) (rc_timeout c) n []))"

definition client_check :: "nat list \<Rightarrow> ('w, unit) rc" where
  "client_check fs = (case fs of
     [magic, rid, status, n] \<Rightarrow> bnd (gets (\<lambda>s. rc_req_id (fst s))) (\<lambda>r.
       if magic \<noteq> MAGIC_RESP then raise (Exn IOError (BadMagic magic))
       else if rid \<noteq> r then raise (Exn IOError (OutOfSync rid (Some r)))
       else if status \<noteq> 0 then raise (Exn IOError (BadStatus status))
       else if n \<noteq> 0 then raise (Exn IOError CarriedRowData)
       else ret ())
   | _ \<Rightarrow> raise (Exn StructError FieldRange))"

definition client_call :: "'w net \<Rightarrow> nat \<Rightarrow> nat \<Rightarrow> nat \<Rightarrow> ('w, byte list) rc" where
  "client_call E op arg body_len =
     bnd (gets (\<lambda>s. (rc_req_id (fst s) + 1) mod 2 ^ 32)) (\<lambda>r.
     seq (upd (\<lambda>c. c\<lparr>rc_req_id := r\<rparr>))
     (bnd (of_sum (pack_request op arg r 0)) (\<lambda>h.
      bnd (gets fst) (\<lambda>c.
      seq (io (n_send E (rc_sock c) (rc_timeout c) h))
      (bnd (client_recv E HEADER) (\<lambda>bs.
       bnd (of_sum (struct_unpack RESP_FMT bs)) (\<lambda>fs.
       seq (client_check fs) (client_recv E body_len))))))))"

definition client_stat :: "'w net \<Rightarrow> ('w, stat) rc" where
  "client_stat E = bnd (client_call E OP_STAT 0 STAT_BODY) (\<lambda>body.
     bnd (of_sum (struct_unpack STAT_FMT body)) (\<lambda>fs. of_sum (stat_of_fields fs)))"

record recharged =
  pages_before :: nat
  pages_after :: nat
  pages_recharged :: nat
  slices_done :: nat
  slices_total :: nat
  slice_pages :: nat
  elapsed_ms :: nat

definition recharged_of_fields :: "nat list \<Rightarrow> exn + recharged" where
  "recharged_of_fields fs = (case fs of
     [before, after, moved, finished, all, spages, ms] \<Rightarrow> Inr \<lparr>pages_before = before, pages_after = after,
       pages_recharged = moved, slices_done = finished, slices_total = all, slice_pages = spages, elapsed_ms = ms\<rparr>
   | _ \<Rightarrow> Inl (Exn StructError FieldRange))"

definition client_recharge :: "'w net \<Rightarrow> nat \<Rightarrow> ('w, recharged) rc" where
  "client_recharge E slice_mib = bnd (client_call E OP_RECHARGE slice_mib RECHARGE_BODY) (\<lambda>body.
     bnd (of_sum (struct_unpack RECHARGE_FMT body)) (\<lambda>fs. of_sum (recharged_of_fields fs)))"

subsection \<open>Whose page cache it is\<close>

text \<open>
  What the tool reads of the machine: \<open>os.stat\<close> gives the device numbers and the inode, a file is
  its lines, each of them may fail.
\<close>

record machine =
  mc_stat :: "string \<Rightarrow> exn + nat \<times> nat \<times> nat"
  mc_proc :: "exn + string list"
  mc_lines :: "string \<Rightarrow> exn + string list"

definition hex_digit :: "nat \<Rightarrow> char" where
  "hex_digit d = (if d < 10 then char_of (48 + d) else char_of (87 + d))"

fun show_hex :: "nat \<Rightarrow> string" where
  "show_hex n = (if n < 16 then [hex_digit n] else show_hex (n div 16) @ [hex_digit (n mod 16)])"

declare show_hex.simps [simp del]

definition hex02 :: "nat \<Rightarrow> string" where
  "hex02 n = (if n < 16 then CHR ''0'' # show_hex n else show_hex n)"

fun split_words :: "string \<Rightarrow> string \<Rightarrow> string list" where
  "split_words w [] = (if w = [] then [] else [w])"
| "split_words w (c # cs) =
     (if py_space c then (if w = [] then split_words [] cs else w # split_words [] cs) else split_words (w @ [c]) cs)"

definition all_digits :: "string \<Rightarrow> bool" where
  "all_digits s \<longleftrightarrow> s \<noteq> [] \<and> list_all (\<lambda>c. digit_val c \<noteq> None) s"

definition maps_it :: "string \<Rightarrow> string \<Rightarrow> string \<Rightarrow> bool" where
  "maps_it want_dev want_ino line = (let f = split_words [] line in
     5 \<le> length f \<and> f ! 3 = want_dev \<and> f ! 4 = want_ino)"

text \<open>A line without its newlines, split at the first double colon.\<close>

definition NEWLINE :: char where "NEWLINE = CHR 0x0A"

definition chomp :: "string \<Rightarrow> string" where
  "chomp line = rev (dropWhile (\<lambda>c. c = NEWLINE) (rev line))"

fun partition_colons :: "string \<Rightarrow> string \<times> string" where
  "partition_colons (a # b # cs) =
     (if a = CHR '':'' \<and> b = CHR '':'' then ([], cs)
      else (case partition_colons (b # cs) of (x, y) \<Rightarrow> (a # x, y)))"
| "partition_colons s = (s, [])"

definition cgroup_dirs :: "string list \<Rightarrow> string list" where
  "cgroup_dirs lines = List.map_filter (\<lambda>line. case partition_colons (chomp line) of
     (ident, rest) \<Rightarrow> if ident = ''0'' then Some (''/sys/fs/cgroup'' @ rest) else None) lines"

text \<open>The body of the loop over \<open>/proc\<close>: an \<open>OSError\<close> of either file skips the process.\<close>

definition scan_process :: "machine \<Rightarrow> string \<Rightarrow> string \<Rightarrow> string \<Rightarrow> exn + (int \<times> string) list" where
  "scan_process m want_dev want_ino entry =
     (if \<not> all_digits entry then Inr []
      else (case mc_lines m (''/proc/'' @ entry @ ''/maps'') of
          Inl e \<Rightarrow> if is_os_error e then Inr [] else Inl e
        | Inr lines \<Rightarrow>
            if \<not> list_ex (maps_it want_dev want_ino) lines then Inr []
            else (case mc_lines m (''/proc/'' @ entry @ ''/cgroup'') of
                Inl e \<Rightarrow> if is_os_error e then Inr [] else Inl e
              | Inr lines \<Rightarrow> (case py_int entry of
                    Inl e \<Rightarrow> if cgroup_dirs lines = [] then Inr [] else Inl e
                  | Inr pid \<Rightarrow> Inr (map (\<lambda>d. (pid, d)) (cgroup_dirs lines))))))"

fun scan_processes :: "machine \<Rightarrow> string \<Rightarrow> string \<Rightarrow> string list \<Rightarrow> exn + (int \<times> string) list" where
  "scan_processes m want_dev want_ino [] = Inr []"
| "scan_processes m want_dev want_ino (entry # entries) =
     (case scan_process m want_dev want_ino entry of Inl e \<Rightarrow> Inl e
      | Inr found \<Rightarrow> (case scan_processes m want_dev want_ino entries of Inl e \<Rightarrow> Inl e
        | Inr rest \<Rightarrow> Inr (found @ rest)))"

definition mapping_cgroups :: "machine \<Rightarrow> string \<Rightarrow> exn + (int \<times> string) list" where
  "mapping_cgroups m path = (case mc_stat m path of
     Inl e \<Rightarrow> if is_os_error e then Inr [] else Inl e
   | Inr (major, minor, ino) \<Rightarrow>
       (case mc_proc m of Inl e \<Rightarrow> Inl e
        | Inr entries \<Rightarrow> scan_processes m (hex02 major @ '':'' @ hex02 minor) (show_nat ino) entries))"

definition path_join :: "string \<Rightarrow> string \<Rightarrow> string" where
  "path_join a b = (if b \<noteq> [] \<and> hd b = CHR ''/'' then b
     else if a = [] \<or> last a = CHR ''/'' then a @ b else a @ CHR ''/'' # b)"

fun file_charge :: "string list \<Rightarrow> exn + int option" where
  "file_charge [] = Inr None"
| "file_charge (line # lines) = (case partition_at (CHR '' '') line of (key, value) \<Rightarrow>
     if key = ''file'' then map_sum id Some (py_int value) else file_charge lines)"

definition cgroup_file_bytes :: "machine \<Rightarrow> string \<Rightarrow> exn + int option" where
  "cgroup_file_bytes m cgdir = (case mc_lines m (path_join cgdir ''memory.stat'') of
     Inl e \<Rightarrow> if is_os_error e then Inr None else Inl e
   | Inr lines \<Rightarrow> file_charge lines)"

text \<open>\<open>pw_dir\<close> looks an account up; \<open>None\<close> stands for the \<open>ImportError\<close> or \<open>KeyError\<close> that is passed over.\<close>

definition default_table :: "(string \<Rightarrow> string option) \<Rightarrow> (string \<Rightarrow> string option) \<Rightarrow> string \<Rightarrow> string" where
  "default_table environ pw_dir expanded =
     (let home = (case environ ''HOME'' of Some h \<Rightarrow> h | None \<Rightarrow> []);
          home' = (case environ ''SUDO_USER'' of None \<Rightarrow> home
            | Some u \<Rightarrow> if u = [] then home else (case pw_dir u of Some d \<Rightarrow> d | None \<Rightarrow> home))
      in path_join (path_join (if home' = [] then expanded else home') ''ple'') ''half.bin'')"

subsection \<open>The whole tool\<close>

record rc_args =
  ra_host :: string
  ra_port :: int
  ra_slice_mib :: int
  ra_file :: string
  ra_timeout :: rat
  ra_dry_run :: bool

definition residency :: "nat \<Rightarrow> nat \<Rightarrow> nat \<times> nat \<times> rat" where
  "residency resident all = (resident, all, if all \<noteq> 0 then 100 * of_nat resident / of_nat all else 0)"

text \<open>What it prints, as values; \<open>None\<close> where it stops before that line.\<close>

record rc_report =
  rr_range :: "nat \<times> nat"
  rr_served :: nat
  rr_before :: "nat \<times> nat \<times> rat"
  rr_mapped :: "(int \<times> string) list"
  rr_charge_before :: "int option"
  rr_table_pages :: nat
  rr_recharge :: "recharged option"
  rr_round_trip :: "rat option"
  rr_after :: "(nat \<times> nat \<times> rat) option"
  rr_charge_after :: "int option"
  rr_charge_failed :: bool
  rr_short :: "int option"

definition charge_at :: "('w \<Rightarrow> machine) \<Rightarrow> (int \<times> string) list \<Rightarrow> 'w \<Rightarrow> exn + int option" where
  "charge_at mach mapped w = (case mapped of [] \<Rightarrow> Inr None | x # _ \<Rightarrow> cgroup_file_bytes (mach w) (snd x))"

text \<open>\<open>charge_failed\<close>: the daemon's cgroup is readable and holds less than half the table.\<close>

definition charge_short :: "int option \<Rightarrow> int \<Rightarrow> bool" where
  "charge_short charge_after table_bytes = (case charge_after of None \<Rightarrow> False | Some c \<Rightarrow> c < table_bytes div 2)"

definition pages_of :: "nat \<Rightarrow> nat \<Rightarrow> nat" where
  "pages_of bytes page = (bytes + page - 1) div page"

text \<open>The verdict on a finished sweep: the exit status, and the pages that went again.\<close>

definition sweep_verdict :: "recharged \<Rightarrow> nat \<Rightarrow> bool \<Rightarrow> exn + nat \<times> int option" where
  "sweep_verdict rep all charge_failed =
     (if slices_done rep < slices_total rep then Inr (1, None)
      else let short = int all - int (pages_after rep) in
        if short \<noteq> 0 then
          (if all = 0 then Inl (Exn ZeroDivisionError (Failed ''total_pages''))
           else Inr (if 100 * of_nat (pages_after rep) / of_nat all < (95 :: rat) \<or> charge_failed then 1 else 0,
             Some short))
        else Inr (if charge_failed then 1 else 0, None))"

text \<open>The part after a dry run stops: the sweep and what is made of it.\<close>

definition rc_sweep ::
  "'w net \<Rightarrow> ('w \<Rightarrow> rat \<times> 'w) \<Rightarrow> ('w \<Rightarrow> machine) \<Rightarrow> nat \<Rightarrow> rc_args \<Rightarrow> rc_report \<Rightarrow> ('w, rc_report \<times> nat) rc" where
  "rc_sweep E clock mach page a rep0 =
     bnd (ask_clock clock) (\<lambda>t0.
     bnd (handle (client_recharge E (nat (ra_slice_mib a))) is_os_error
       (\<lambda>e. raise (Exn SystemExit (Failed ''recharge failed'')))) (\<lambda>rep.
     bnd (ask_clock clock) (\<lambda>t1.
     bnd (bnd (gets snd) (\<lambda>w. of_sum (charge_at mach (rr_mapped rep0) w))) (\<lambda>charge_after.
     let all = rr_table_pages rep0; failed = charge_short charge_after (int (all * page)) in
     bnd (of_sum (sweep_verdict rep all failed)) (\<lambda>(code, short).
     ret (rep0\<lparr>rr_recharge := Some rep, rr_round_trip := Some (t1 - t0), rr_after := Some (residency (pages_after rep) all),
       rr_charge_after := charge_after, rr_charge_failed := failed, rr_short := short\<rparr>, code))))))"

definition rc_body ::
  "'w net \<Rightarrow> ('w \<Rightarrow> rat \<times> 'w) \<Rightarrow> ('w \<Rightarrow> machine) \<Rightarrow> nat \<Rightarrow> rc_args \<Rightarrow> ('w, rc_report \<times> nat) rc" where
  "rc_body E clock mach page a =
     bnd (client_stat E) (\<lambda>st.
     if st_row_bytes st \<noteq> RC_ROW_BYTES then raise (Exn SystemExit (RowBytesMismatch (st_row_bytes st) RC_ROW_BYTES))
     else let all = pages_of (st_row_count st * st_row_bytes st) page in
     bnd (bnd (gets snd) (\<lambda>w. of_sum (mapping_cgroups (mach w) (ra_file a)))) (\<lambda>mapped.
     bnd (bnd (gets snd) (\<lambda>w. of_sum (charge_at mach mapped w))) (\<lambda>charge_before.
     let rep0 = \<lparr>rr_range = (st_base_row st, st_base_row st + st_row_count st), rr_served = st_served_requests st,
       rr_before = residency (st_resident_pages st) all, rr_mapped = mapped, rr_charge_before = charge_before,
       rr_table_pages = all, rr_recharge = None, rr_round_trip = None, rr_after = None, rr_charge_after = None,
       rr_charge_failed = False, rr_short = None\<rparr> in
     if ra_dry_run a then ret (rep0, 0) else rc_sweep E clock mach page a rep0)))"

definition rc_main ::
  "'w net \<Rightarrow> ('w \<Rightarrow> rat \<times> 'w) \<Rightarrow> ('w \<Rightarrow> machine) \<Rightarrow> nat \<Rightarrow> rc_args \<Rightarrow> ('w, rc_report \<times> nat) prog" where
  "rc_main E clock mach page a w =
     (if \<not> (0 \<le> ra_slice_mib a \<and> ra_slice_mib a \<le> 65535)
      then (Inl (Exn SystemExit (Failed ''--slice-mib rides in a u16 header field'')), w)
      else (case open_client E (ra_host a) (ra_port a) (ra_timeout a) w of
          (Inl e, w') \<Rightarrow> (Inl e, w')
        | (Inr c, w') \<Rightarrow> (case rc_body E clock mach page a (c, w') of (r, s) \<Rightarrow> (r, snd s))))"

subsection \<open>Over an honest network\<close>

context honest_net begin

text \<open>
  A call that returns sent its request and read the answer to it: a header with its id, no status
  and no rows, and exactly the body after it.
\<close>

lemma client_check_ok:
  "client_check fs s = (Inr (), s') \<Longrightarrow> s' = s \<and> fs = [MAGIC_RESP, rc_req_id (fst s), 0, 0]"
  by (auto simp: client_check_def raise_run ret_run split: list.splits if_splits)

lemma client_call_ok:
  assumes "client_call E op arg n s = (Inr body, s')" and "v_wf V (snd s)"
    and "rc_sock (fst s) \<in> v_used V (snd s)" and "v_out V (snd s) (rc_sock (fst s)) = []"
  shows "keeps V {rc_sock (fst s)} (snd s) (snd s')" and "rc_sock (fst s') = rc_sock (fst s)"
    and "length body = n"
    and "\<exists>h g. pack_request op arg (rc_req_id (fst s')) 0 = Inr h \<and> pack_response (rc_req_id (fst s')) 0 0 = Inr g \<and>
      reply (v_srv V (snd s) (rc_sock (fst s))) h (g @ body @ v_out V (snd s') (rc_sock (fst s)))"
proof -
  let ?k = "rc_sock (fst s)" and ?r = "(rc_req_id (fst s) + 1) mod 2 ^ 32" and ?t = "rc_timeout (fst s)"
  let ?c = "(fst s)\<lparr>rc_req_id := ?r\<rparr>"
  obtain h w1 bs w2 fs t where h: "pack_request op arg ?r 0 = Inr h"
    and 1: "n_send E ?k ?t h (snd s) = (Inr (), w1)"
    and 2: "recv_all E ?k ?t HEADER [] w1 = (Inr bs, w2)"
    and fs: "struct_unpack RESP_FMT bs = Inr fs" and 3: "client_check fs (?c, w2) = (Inr (), t)"
    and 4: "client_recv E n t = (Inr body, s')"
    using assms(1)
    by (auto simp: client_call_def client_recv_def of_sum_run io_def elim!: bnd_InrE seq_InrE split: prod.splits)
  have t: "t = (?c, w2)" "fs = [MAGIC_RESP, ?r, 0, 0]"
    using client_check_ok [OF 3] by simp_all
  have 4: "recv_all E ?k ?t n [] w2 = (Inr body, snd s')" and c: "fst s' = ?c"
    using 4 t(1) by (auto simp: client_recv_def io_def split: prod.splits)
  note k1 = send_keeps [OF assms(2) 1]
  note u1 = keeps_wf [OF k1] keeps_used [OF k1 assms(3)]
  note a = recv_all_ok [OF 2 u1]
  note u2 = keeps_wf [OF a(1)] keeps_used [OF a(1) u1(2)]
  note b = recv_all_ok [OF 4 u2]
  show "keeps V {?k} (snd s) (snd s')"
    using keeps_trans [OF k1 keeps_trans [OF a(1) b(1)]] .
  show "rc_sock (fst s') = ?k"
    using c by simp
  show "length body = n"
    using b(3) by simp
  have rep: "reply (v_srv V (snd s) ?k) h (v_out V w1 ?k)"
    using send_ok [OF assms(2,3,4) 1] .
  have out: "v_out V w1 ?k = bs @ body @ v_out V (snd s') ?k" and len: "length bs = 16"
    using a(3) [OF refl] b(3) [OF refl] by (simp_all add: HEADER_def)
  have "struct_fields RESP_FMT bs = [MAGIC_RESP, ?r, 0, 0]"
    using fs t(2) by (simp add: struct_unpack_def split: if_splits)
  then have "pack_response ?r 0 0 = Inr bs"
    using struct_pack_fields [of bs RESP_FMT] len by (simp add: pack_response_def)
  then show "\<exists>h g. pack_request op arg (rc_req_id (fst s')) 0 = Inr h \<and> pack_response (rc_req_id (fst s')) 0 0 = Inr g \<and>
      reply (v_srv V (snd s) ?k) h (g @ body @ v_out V (snd s') ?k)"
    using h rep out c by auto
qed

end

end
