(* ===== verification/Recharge_Guarantees.thy ===== *)
theory Recharge_Guarantees
  imports Recharge Run
begin

section \<open>What the recharge tool guarantees\<close>

text \<open>
  The report a recharge returns is the one the server sent, and the exit status is what the report
  and the cgroup's charge say.  A server that answers one recharge is the network of the examples.
\<close>

subsection \<open>The report\<close>

lemma recharged_fields:
  assumes "struct_unpack RECHARGE_FMT body = Inr fs" and "recharged_of_fields fs = Inr rep" and "length body = 40"
  shows "struct_pack RECHARGE_FMT (map int [pages_before rep, pages_after rep, pages_recharged rep, slices_done rep,
    slices_total rep, slice_pages rep, elapsed_ms rep]) = Inr body"
proof -
  have "fs = [pages_before rep, pages_after rep, pages_recharged rep, slices_done rep, slices_total rep,
      slice_pages rep, elapsed_ms rep]"
    using assms(2) by (auto simp: recharged_of_fields_def split: list.splits)
  moreover have "fs = struct_fields RECHARGE_FMT body"
    using assms(1) by (auto simp: struct_unpack_def split: if_splits)
  ultimately show ?thesis
    using struct_pack_fields [of body RECHARGE_FMT] assms(3) by simp
qed

subsection \<open>A server that answers one recharge\<close>

text \<open>The world is what socket 0 has still to deliver.\<close>

definition sample_body :: "byte list" where
  "sample_body = projr (struct_pack RECHARGE_FMT [10, 9, 8, 1, 1, 10, 5])"

definition sample_answer :: "byte list \<Rightarrow> byte list" where
  "sample_answer m = projr (pack_response (struct_fields REQ_FMT m ! 4) 0 0) @ sample_body"

definition sample_reply :: "unit \<Rightarrow> byte list \<Rightarrow> byte list \<Rightarrow> bool" where
  "sample_reply s m out \<longleftrightarrow> struct_fields REQ_FMT m ! 2 = OP_RECHARGE \<and> out = sample_answer m"

definition sample_net :: "byte list net" where
  "sample_net = \<lparr>n_connect = (\<lambda>a t w. (Inl (Exn ConnectionError (Env 0)), w)),
     n_peername = (\<lambda>k w. (Inl (Exn OSError (Env 1)), w)),
     n_send = (\<lambda>k t m w. if k = 0 \<and> w = [] \<and> struct_fields REQ_FMT m ! 2 = OP_RECHARGE
       then (Inr (), sample_answer m) else (Inl (Exn ConnectionError (Env 2)), w)),
     n_recv = (\<lambda>k t n w. if k = 0 then (Inr (take n w), drop n w) else (Inl (Exn OSError (Env 3)), w)),
     n_select = (\<lambda>ks t w. (Inr [], w)), n_close = (\<lambda>k ab w. (Inr (), w)), n_now = (\<lambda>w. (0, w)),
     n_sleep = (\<lambda>d w. w), n_junk = 0, n_fuel = 1\<rparr>"

definition sample_view :: "(byte list, unit) view" where
  "sample_view = \<lparr>v_wf = (\<lambda>w. True), v_used = (\<lambda>w. {0}), v_out = (\<lambda>w k. if k = 0 then w else []),
     v_srv = (\<lambda>w k. ())\<rparr>"

lemma sample_honest:
  "honest_net sample_reply (\<lambda>s. 0) (\<lambda>s. 0) (\<lambda>s. 0) (\<lambda>s i. []) sample_net sample_view (\<lambda>s. True)"
proof unfold_locales
  fix h ids out rid and s :: unit
  assume "sample_reply s (h @ id_bytes ids) out" and h: "pack_request OP_GATHER 0 rid (length ids) = Inr h"
  then show "refusal rid out \<or> (\<forall>i\<in>set ids. 0 \<le> i \<and> i < 0 + 0) \<and>
      (\<exists>g. pack_response rid 0 (length ids) = Inr g \<and> out = g @ concat (map (\<lambda>i. []) ids))"
    using pack_request_Inr(6) [OF h, of "id_bytes ids"] by (simp add: sample_reply_def wire_consts)
next
  fix h out rid and s :: unit
  assume "sample_reply s h out" and h: "pack_request OP_STAT 0 rid 0 = Inr h"
  then show "refusal rid out \<or> (\<exists>g b res served. pack_response rid 0 0 = Inr g \<and> out = g @ b \<and>
      struct_pack STAT_FMT (map int [0, 0, 0, res, served]) = Inr b)"
    using pack_request_Inr(6) [OF h, of "[]"] by (simp add: sample_reply_def wire_consts)
next
  fix h out rid and s :: unit
  assume "sample_reply s h out" and h: "pack_request OP_PING 0 rid 0 = Inr h"
  then show "refusal rid out \<or> pack_response rid 0 0 = Inr out"
    using pack_request_Inr(6) [OF h, of "[]"] by (simp add: sample_reply_def wire_consts)
qed (auto simp: sample_net_def sample_view_def sample_reply_def keeps_def split: if_splits)

text \<open>
  C35.  A recharge that returns hands back the seven numbers the server sent in answer to this very
  request: the request carries the slice size asked for, the answer its id, no status and no rows,
  and the report is the body after the header, which lies next on the wire.
\<close>

theorem recharge_returns_the_servers_report:
  assumes "honest_net reply lo n width row E V deployed" and "v_wf V (snd s)"
    and "rc_sock (fst s) \<in> v_used V (snd s)" and "v_out V (snd s) (rc_sock (fst s)) = []"
    and "client_recharge E slice_mib s = (Inr rep, s')"
  shows "\<exists>h g body. pack_request OP_RECHARGE slice_mib (rc_req_id (fst s')) 0 = Inr h \<and>
    pack_response (rc_req_id (fst s')) 0 0 = Inr g \<and>
    struct_pack RECHARGE_FMT (map int [pages_before rep, pages_after rep, pages_recharged rep, slices_done rep,
      slices_total rep, slice_pages rep, elapsed_ms rep]) = Inr body \<and>
    reply (v_srv V (snd s) (rc_sock (fst s))) h (g @ body @ v_out V (snd s') (rc_sock (fst s)))"
proof -
  obtain body fs where 1: "client_call E OP_RECHARGE slice_mib RECHARGE_BODY s = (Inr body, s')"
    and 2: "struct_unpack RECHARGE_FMT body = Inr fs" "recharged_of_fields fs = Inr rep"
    using assms(5) by (auto simp: client_recharge_def of_sum_run elim!: bnd_InrE)
  note c = honest_net.client_call_ok [OF assms(1) 1 assms(2,3,4)]
  have "length body = 40"
    using c(3) by (simp add: RECHARGE_BODY_def)
  from recharged_fields [OF 2 this] c(4) show ?thesis
    by blast
qed

definition sample_client :: rc_client where
  "sample_client = \<lparr>rc_sock = 0, rc_timeout = 660, rc_req_id = 0\<rparr>"

lemmas rc_run = client_recharge_def client_call_def client_recv_def client_check_def client_stat_def recharged_of_fields_def
  recv_all.simps stat_of_fields_def

theorem recharge_returns_the_servers_report_witness:
  "\<exists>rep s'. client_recharge sample_net 1024 (sample_client, []) = (Inr rep, s') \<and> pages_after rep = 9 \<and>
     struct_pack RECHARGE_FMT (map int [pages_before rep, pages_after rep, pages_recharged rep, slices_done rep,
       slices_total rep, slice_pages rep, elapsed_ms rep]) = Inr sample_body"
proof -
  obtain rep s' where run: "client_recharge sample_net 1024 (sample_client, []) = (Inr rep, s')"
    and s': "snd s' = []" "rc_req_id (fst s') = 1" and rep: "pages_after rep = 9"
    by (simp add: rc_run sample_client_def sample_net_def sample_answer_def sample_body_def base_run wire_run)
  obtain h g body where m: "pack_request OP_RECHARGE 1024 (rc_req_id (fst s')) 0 = Inr h"
    "pack_response (rc_req_id (fst s')) 0 0 = Inr g"
    "struct_pack RECHARGE_FMT (map int [pages_before rep, pages_after rep, pages_recharged rep, slices_done rep,
      slices_total rep, slice_pages rep, elapsed_ms rep]) = Inr body"
    "sample_reply () h (g @ body @ v_out sample_view (snd s') (rc_sock (fst (sample_client, []))))"
    using recharge_returns_the_servers_report [OF sample_honest _ _ _ run]
    by (auto simp: sample_view_def sample_client_def)
  have "g @ body = sample_answer h"
    using m(4) s'(1) by (simp add: sample_reply_def sample_view_def)
  moreover have "sample_answer h = g @ sample_body"
    using pack_request_Inr(6) [OF m(1), of "[]"] m(2) by (simp add: sample_answer_def)
  ultimately show ?thesis
    using run rep m(3) by auto
qed

subsection \<open>The exit status\<close>

lemma sweep_verdict_Inr:
  assumes "sweep_verdict rep all bad = Inr (code, short)"
  shows "code \<in> {0, 1}" and "code = 0 \<longleftrightarrow> slices_total rep \<le> slices_done rep \<and> \<not> bad \<and>
    (pages_after rep = all \<or> 0 < all \<and> 95 * all \<le> 100 * pages_after rep)"
proof -
  have pct: "\<not> 100 * of_nat x / of_nat all < (95 :: rat) \<longleftrightarrow> 95 * all \<le> 100 * x" if "0 < all" for x
  proof -
    have "(of_nat (95 * all) :: rat) \<le> of_nat (100 * x) \<longleftrightarrow> 95 * all \<le> 100 * x"
      by (rule of_nat_le_iff)
    then show ?thesis
      using that by (simp add: not_less pos_le_divide_eq)
  qed
  show "code \<in> {0, 1}"
    using assms by (auto simp: sweep_verdict_def Let_def split: if_splits)
  show "code = 0 \<longleftrightarrow> slices_total rep \<le> slices_done rep \<and> \<not> bad \<and>
    (pages_after rep = all \<or> 0 < all \<and> 95 * all \<le> 100 * pages_after rep)"
    using assms pct [of "pages_after rep"]
    by (cases "slices_done rep < slices_total rep"; cases "all = 0")
      (auto simp: sweep_verdict_def Let_def split: if_splits)
qed

lemma rc_sweep_Inr:
  assumes "rc_sweep E clock mach page a rep0 t = (Inr (rep, code), s')"
  shows "\<exists>r charge short.
    sweep_verdict r (rr_table_pages rep0) (charge_short charge (int (rr_table_pages rep0 * page))) = Inr (code, short) \<and>
    rr_recharge rep = Some r \<and> rr_charge_after rep = charge \<and> rr_table_pages rep = rr_table_pages rep0 \<and>
    rr_charge_failed rep = charge_short charge (int (rr_table_pages rep0 * page))"
  using assms unfolding rc_sweep_def Let_def
  by (elim bnd_InrE) (clarsimp simp: ret_run of_sum_run split: prod.splits)

text \<open>
  C36.  The tool exits with 0 exactly when the sweep covered every slice, at least 95 per cent of the
  table is resident after it, and the daemon's cgroup, where it can be read, holds at least half the
  table; it exits with 1 in every other case it reports.
\<close>

theorem recharge_exit_status:
  assumes "rc_main E clock mach page a w = (Inr (rep, code), w')" and "\<not> ra_dry_run a"
  shows "\<exists>r. rr_recharge rep = Some r \<and> code \<in> {0, 1} \<and>
    (rr_charge_failed rep \<longleftrightarrow> (\<exists>c. rr_charge_after rep = Some c \<and> c < int (rr_table_pages rep * page) div 2)) \<and>
    (code = 0 \<longleftrightarrow> slices_total r \<le> slices_done r \<and> \<not> rr_charge_failed rep \<and>
      (pages_after r = rr_table_pages rep \<or>
       0 < rr_table_pages rep \<and> 95 * rr_table_pages rep \<le> 100 * pages_after r))"
proof -
  obtain s s' where body: "rc_body E clock mach page a s = (Inr (rep, code), s')"
    using assms(1) by (auto simp: rc_main_def split: if_splits prod.splits sum.splits)
  obtain rep0 t where "rc_sweep E clock mach page a rep0 t = (Inr (rep, code), s')"
    using body assms(2) by (auto simp: rc_body_def Let_def raise_run elim!: bnd_InrE split: if_splits)
  then obtain r charge short where
    v: "sweep_verdict r (rr_table_pages rep0) (charge_short charge (int (rr_table_pages rep0 * page))) = Inr (code, short)"
    and rep: "rr_recharge rep = Some r" "rr_charge_after rep = charge" "rr_table_pages rep = rr_table_pages rep0"
      "rr_charge_failed rep = charge_short charge (int (rr_table_pages rep0 * page))"
    using rc_sweep_Inr by blast
  have r: "rr_recharge rep = Some r" "sweep_verdict r (rr_table_pages rep) (rr_charge_failed rep) = Inr (code, short)"
    and f: "rr_charge_failed rep = charge_short (rr_charge_after rep) (int (rr_table_pages rep * page))"
    using v by (simp_all add: rep)
  have "rr_charge_failed rep \<longleftrightarrow> (\<exists>c. rr_charge_after rep = Some c \<and> c < int (rr_table_pages rep * page) div 2)"
    using f by (auto simp: charge_short_def split: option.splits)
  then show ?thesis
    using r(1) sweep_verdict_Inr [OF r(2)] by (intro exI [of _ r] conjI)
qed

text \<open>A machine without the daemon's files, and a server whose answers are all on the wire.\<close>

definition no_machine :: "'w \<Rightarrow> machine" where
  "no_machine w = \<lparr>mc_stat = (\<lambda>p. Inl (Exn OSError (Env 0))), mc_proc = Inr [], mc_lines = (\<lambda>p. Inl (Exn OSError (Env 0)))\<rparr>"

definition tape_net :: "byte list net" where
  "tape_net = sample_net\<lparr>n_connect := (\<lambda>a t w. (Inr 0, w)), n_send := (\<lambda>k t m w. (Inr (), w))\<rparr>"

definition tape :: "byte list" where
  "tape = projr (pack_response 1 0 0) @ projr (struct_pack STAT_FMT [0, 256, 160, 10, 3]) @
     projr (pack_response 2 0 0) @ sample_body"

definition tape_args :: rc_args where
  "tape_args = \<lparr>ra_host = ''a'', ra_port = 9000, ra_slice_mib = 1024, ra_file = ''f'', ra_timeout = 660, ra_dry_run = False\<rparr>"

theorem recharge_exit_status_witness:
  "\<exists>rep w'. rc_main tape_net (\<lambda>w. (0, w)) no_machine 4096 tape_args tape = (Inr (rep, 1), w') \<and>
     rr_table_pages rep = 10 \<and> \<not> rr_charge_failed rep"
proof -
  obtain rep code w' where run: "rc_main tape_net (\<lambda>w. (0, w)) no_machine 4096 tape_args tape = (Inr (rep, code), w')"
    and rep: "rr_table_pages rep = 10" "\<not> rr_charge_failed rep"
      "\<forall>r. rr_recharge rep = Some r \<longrightarrow> pages_after r = 9"
    by (simp add: rc_main_def rc_body_def rc_sweep_def open_client_def rc_run tape_def tape_net_def sample_net_def sample_body_def
        tape_args_def no_machine_def base_run wire_run Let_def mapping_cgroups_def charge_at_def ask_clock_def
        sweep_verdict_def pages_of_def RC_ROW_BYTES_def charge_short_def)
  have "code = 1"
    using recharge_exit_status [OF run] rep by (auto simp: tape_args_def)
  then show ?thesis
    using run rep by blast
qed

end
