(* ===== verification/Thrash.thy ===== *)
theory Thrash
  imports Kv Settings "HOL-Library.Sublist"
begin

section \<open>The memory pressure trend\<close>

text \<open>
  \<open>deploy/thrash_trend.py\<close>: which of the logged samples are compared (those since the last restart,
  past the load phase), the growth of the counters over them, and the verdict.  A sample is a row of
  the log by column name; \<open>csv\<close>, \<open>float()\<close> and \<open>strptime\<close> are parameters, the last as seconds.
\<close>

type_synonym sample = "string \<Rightarrow> string option"

text \<open>\<open>r.get(k) or d\<close>: an absent and an empty field both count as missing.\<close>

definition field_of :: "sample \<Rightarrow> string \<Rightarrow> string option" where
  "field_of r k = (case r k of Some v \<Rightarrow> if v = [] then None else Some v | None \<Rightarrow> None)"

definition num :: "(string \<Rightarrow> exn + rat) \<Rightarrow> sample \<Rightarrow> string \<Rightarrow> exn + rat" where
  "num to_float r k = (case field_of r k of
     None \<Rightarrow> Inr 0
   | Some v \<Rightarrow> (case to_float v of
       Inr x \<Rightarrow> Inr x
     | Inl e \<Rightarrow> if exn_kind e = ValueError then Inr 0 else Inl e))"

definition up :: "(string \<Rightarrow> exn + rat) \<Rightarrow> sample \<Rightarrow> exn + rat" where
  "up to_float r = num to_float r ''uptime_s''"

fun all_ok :: "('a \<Rightarrow> exn + 'b) \<Rightarrow> 'a list \<Rightarrow> exn + 'b list" where
  "all_ok f [] = Inr []"
| "all_ok f (x # xs) = (case f x of Inl e \<Rightarrow> Inl e | Inr y \<Rightarrow>
     (case all_ok f xs of Inl e \<Rightarrow> Inl e | Inr ys \<Rightarrow> Inr (y # ys)))"

subsection \<open>Which samples count\<close>

text \<open>The last sample whose uptime is below that of the one before it.\<close>

definition restart_cut :: "rat list \<Rightarrow> nat" where
  "restart_cut ups = fold (\<lambda>i cut. if ups ! i < ups ! (i - 1) then i else cut) [1..<length ups] 0"

definition warm :: "rat \<Rightarrow> (sample \<times> rat) list \<Rightarrow> (sample \<times> rat) list" where
  "warm skip_s kept = filter (\<lambda>x. skip_s \<le> snd x) kept"

text \<open>The samples analysed, each with its uptime.\<close>

definition analysed :: "(string \<Rightarrow> exn + rat) \<Rightarrow> rat \<Rightarrow> sample list \<Rightarrow> exn + (sample \<times> rat) list" where
  "analysed to_float skip_s samples =
     (let kept = filter (\<lambda>r. field_of r ''pgmajfault'' \<noteq> None) samples in
      (case all_ok (up to_float) kept of
         Inl e \<Rightarrow> Inl e
       | Inr ups \<Rightarrow>
           (let current = drop (restart_cut ups) (zip kept ups);
                steady = (if 2 \<le> length (warm skip_s current) then warm skip_s current else current)
            in if length steady < 2 then Inl (Exn SystemExit (Failed ''not enough steady-state samples yet''))
               else Inr steady)))"

subsection \<open>Growth and verdict\<close>

datatype trend = NoThrash | MildFaults rat | FaultsClimbing rat

definition judge :: "rat \<Rightarrow> rat \<Rightarrow> trend" where
  "judge maj_rate swap_delta =
     (if maj_rate < 1000 \<and> swap_delta \<le> 0 then NoThrash
      else if maj_rate < 10000 then MildFaults maj_rate
      else FaultsClimbing maj_rate)"

text \<open>A printed counter: first value, last value, growth, growth per hour.\<close>

type_synonym growth = "rat \<times> rat \<times> rat \<times> rat"

definition line :: "(string \<Rightarrow> exn + rat) \<Rightarrow> sample \<Rightarrow> sample \<Rightarrow> rat \<Rightarrow> string \<Rightarrow> exn + growth" where
  "line to_float first final hours key =
     (case (num to_float first key, num to_float final key) of
        (Inr a, Inr b) \<Rightarrow> Inr (a, b, b - a, (b - a) / hours)
      | (Inl e, _) \<Rightarrow> Inl e
      | (_, Inl e) \<Rightarrow> Inl e)"

definition both :: "(string \<Rightarrow> exn + rat) \<Rightarrow> sample \<Rightarrow> sample \<Rightarrow> string \<Rightarrow> exn + rat \<times> rat" where
  "both to_float first final key =
     (case (num to_float first key, num to_float final key) of
        (Inr a, Inr b) \<Rightarrow> Inr (a, b)
      | (Inl e, _) \<Rightarrow> Inl e
      | (_, Inl e) \<Rightarrow> Inl e)"

text \<open>The ratio of two growths, where the denominator's counter grew (and the numerator's, if asked).\<close>

definition ratio_of :: "rat \<times> rat \<Rightarrow> rat \<times> rat \<Rightarrow> (rat \<times> rat \<times> rat) option" where
  "ratio_of n d = (if snd d > fst d
     then Some ((snd n - fst n) / (snd d - fst d), snd n - fst n, snd d - fst d) else None)"

record trend_report =
  tr_hours :: rat
  tr_samples :: nat
  tr_lines :: "growth list"
  tr_gauges :: "(rat \<times> rat) list"
  tr_ttft :: "(rat \<times> int) option"
  tr_decode_ms :: "rat option"
  tr_prefix :: "(rat \<times> int \<times> int) option"
  tr_verdict :: trend

definition LINES :: "string list" where
  "LINES = [''pgmajfault'', ''refault_file'', ''pgscan'', ''pgsteal'', ''vllm_swap_kb'']"

definition GAUGES :: "string list" where
  "GAUGES = [''swap_used_gb'', ''mem_free_gb'', ''mem_cache_gb'']"

definition window_hours :: "(string option \<Rightarrow> exn + rat) \<Rightarrow> sample \<Rightarrow> sample \<Rightarrow> exn + rat" where
  "window_hours at_time first final =
     (case (at_time (final ''ts''), at_time (first ''ts'')) of
        (Inr t1, Inr t0) \<Rightarrow> Inr (if (t1 - t0) / 3600 = 0 then 1 / 1000000000 else (t1 - t0) / 3600)
      | (Inl e, _) \<Rightarrow> Inl e
      | (_, Inl e) \<Rightarrow> Inl e)"

definition trend_of ::
  "(string \<Rightarrow> exn + rat) \<Rightarrow> (string option \<Rightarrow> exn + rat) \<Rightarrow> (sample \<times> rat) list \<Rightarrow> exn + trend_report" where
  "trend_of to_float at_time kept =
     (let first = fst (hd kept); final = fst (last kept) in
      (case window_hours at_time first final of Inl e \<Rightarrow> Inl e | Inr hours \<Rightarrow>
      (case all_ok (line to_float first final hours) LINES of Inl e \<Rightarrow> Inl e | Inr lines \<Rightarrow>
      (case all_ok (both to_float first final) (GAUGES @ [''ttft_sum'', ''ttft_count'', ''gen_tokens'', ''decode_s'',
          ''prefix_hits'', ''prefix_queries'']) of Inl e \<Rightarrow> Inl e | Inr v \<Rightarrow>
        let maj_rate = (case lines ! 0 of (a, b, d, r) \<Rightarrow> r); swap_delta = (case lines ! 4 of (a, b, d, r) \<Rightarrow> d);
            gen = v ! 5; dec = v ! 6
        in Inr \<lparr>tr_hours = hours, tr_samples = length kept, tr_lines = lines, tr_gauges = take 3 v,
             tr_ttft = map_option (\<lambda>(q, n, d). (q, py_trunc d)) (ratio_of (v ! 3) (v ! 4)),
             tr_decode_ms = (if snd gen > fst gen \<and> snd dec > fst dec
               then Some ((snd dec - fst dec) / (snd gen - fst gen) * 1000) else None),
             tr_prefix = map_option (\<lambda>(q, n, d). (q * 100, py_trunc n, py_trunc d)) (ratio_of (v ! 7) (v ! 8)),
             tr_verdict = judge maj_rate swap_delta\<rparr>))))"

definition thrash_trend ::
  "(string \<Rightarrow> exn + rat) \<Rightarrow> (string option \<Rightarrow> exn + rat) \<Rightarrow> string option \<Rightarrow> sample list \<Rightarrow> exn + trend_report" where
  "thrash_trend to_float at_time minutes samples =
     (case (case minutes of None \<Rightarrow> Inr 3600 | Some m \<Rightarrow> map_sum id (\<lambda>x. x * 60) (to_float m)) of
        Inl e \<Rightarrow> Inl e
      | Inr skip_s \<Rightarrow> (case analysed to_float skip_s samples of
          Inl e \<Rightarrow> Inl e
        | Inr kept \<Rightarrow> trend_of to_float at_time kept))"

subsection \<open>No comparison across a restart\<close>

definition cut_upto :: "rat list \<Rightarrow> nat \<Rightarrow> nat" where
  "cut_upto ups n = fold (\<lambda>i cut. if ups ! i < ups ! (i - 1) then i else cut) [1..<n] 0"

lemma cut_upto_Suc: "cut_upto ups (Suc (Suc n)) = (if ups ! Suc n < ups ! n then Suc n else cut_upto ups (Suc n))"
  by (simp add: cut_upto_def)

lemma cut_upto_steps: "cut_upto ups (Suc n) \<le> n \<and>
    (\<forall>j. cut_upto ups (Suc n) < j \<longrightarrow> j \<le> n \<longrightarrow> ups ! (j - 1) \<le> ups ! j)"
proof (induction n)
  case 0
  then show ?case
    by (simp add: cut_upto_def)
next
  case (Suc n)
  then show ?case
    by (cases "ups ! Suc n < ups ! n") (auto simp: cut_upto_Suc le_Suc_eq)
qed

lemma after_cut:
  assumes "restart_cut ups < j" and "j < length ups"
  shows "ups ! (j - 1) \<le> ups ! j"
proof -
  obtain n where n: "length ups = Suc n"
    using assms(2) by (cases "length ups") auto
  have "restart_cut ups = cut_upto ups (Suc n)"
    by (simp add: restart_cut_def cut_upto_def n)
  then show ?thesis
    using cut_upto_steps [of ups n] assms n by simp
qed

lemma sorted_after_cut: "sorted (drop (restart_cut ups) ups)"
  unfolding sorted_iff_nth_Suc
proof (intro allI impI)
  fix i assume "Suc i < length (drop (restart_cut ups) ups)"
  then show "drop (restart_cut ups) ups ! i \<le> drop (restart_cut ups) ups ! Suc i"
    using after_cut [of ups "restart_cut ups + Suc i"] by simp
qed

lemma sorted_subseq: "subseq xs ys \<Longrightarrow> sorted ys \<Longrightarrow> sorted (xs :: rat list)"
  by (induction rule: list_emb.induct) (auto dest: list_emb_set)

lemma all_ok_map: "all_ok f xs = Inr ys \<Longrightarrow> length ys = length xs \<and> (\<forall>i<length xs. f (xs ! i) = Inr (ys ! i))"
proof (induction xs arbitrary: ys)
  case (Cons x xs)
  then show ?case
    by (auto simp: nth_Cons split: sum.splits nat.splits)
qed simp

text \<open>
  C37.  The samples compared lie in one run of the container, in the order of the log: their uptimes
  never fall.  They are past the load phase, unless fewer than two samples are, in which case every
  sample since the restart is compared, the load phase included.
\<close>

theorem trend_compares_one_run:
  assumes "analysed to_float skip_s samples = Inr kept"
  shows "2 \<le> length kept \<and> sorted (map snd kept) \<and> subseq (map fst kept) samples \<and>
    (\<forall>x\<in>set kept. up to_float (fst x) = Inr (snd x)) \<and>
    ((\<forall>x\<in>set kept. skip_s \<le> snd x) \<or> length (warm skip_s kept) < 2)"
proof -
  let ?rs = "filter (\<lambda>r. field_of r ''pgmajfault'' \<noteq> None) samples"
  obtain ups where ups: "all_ok (up to_float) ?rs = Inr ups"
    using assms by (auto simp: analysed_def Let_def split: sum.splits)
  note ok = all_ok_map [OF ups]
  let ?cur = "drop (restart_cut ups) (zip ?rs ups)"
  have kept: "kept = (if 2 \<le> length (warm skip_s ?cur) then warm skip_s ?cur else ?cur)" "2 \<le> length kept"
    using assms ups by (auto simp: analysed_def Let_def split: if_splits)
  have first: "subseq kept ?cur"
    unfolding kept(1) by (simp add: warm_def subseq_filter_left)
  have sub: "subseq kept (zip ?rs ups)"
    using first by (rule subseq_order.trans) (rule suffix_imp_subseq [OF suffix_drop])
  have cur: "map snd ?cur = drop (restart_cut ups) ups" "map fst (zip ?rs ups) = ?rs"
    using ok by (simp_all add: drop_map [symmetric])
  have "subseq (map snd kept) (map snd ?cur)"
    using subseq_map [OF first] .
  then have "sorted (map snd kept)"
    using sorted_after_cut [of ups] sorted_subseq unfolding cur(1) by blast
  moreover have "subseq (map fst kept) samples"
    using subseq_map [OF sub, of fst] subseq_filter_left subseq_order.trans unfolding cur(2) by blast
  moreover have "up to_float (fst x) = Inr (snd x)" if x: "x \<in> set kept" for x
  proof -
    have "x \<in> set (zip ?rs ups)"
      using list_emb_set [OF sub x] by blast
    then obtain i where "i < length ?rs" "x = (?rs ! i, ups ! i)"
      using ok by (auto simp: set_zip)
    then show ?thesis
      using ok by simp
  qed
  moreover have "(\<forall>x\<in>set kept. skip_s \<le> snd x) \<or> length (warm skip_s kept) < 2"
    unfolding kept(1) by (auto simp: warm_def)
  ultimately show ?thesis
    using kept(2) by blast
qed

definition sample_at :: "string \<Rightarrow> sample" where
  "sample_at t k = (if k = ''uptime_s'' then Some t else if k = ''pgmajfault'' then Some ''7'' else None)"

definition one_digit :: "string \<Rightarrow> exn + rat" where
  "one_digit s = (case py_int s of Inl e \<Rightarrow> Inl e | Inr n \<Rightarrow> Inr (of_int n))"

theorem trend_compares_one_run_witness:
  "\<exists>kept. analysed one_digit 2 [sample_at ''9'', sample_at ''0'', sample_at ''3'', sample_at ''5''] = Inr kept \<and>
     length kept = 2 \<and> sorted (map snd kept)"
proof -
  have "\<exists>kept. analysed one_digit 2 [sample_at ''9'', sample_at ''0'', sample_at ''3'', sample_at ''5''] = Inr kept \<and> length kept = 2"
    by (simp add: analysed_def Let_def field_of_def sample_at_def up_def num_def one_digit_def py_int_def py_strip_def
        py_space_def digit_val_def restart_cut_def upt_rec_numeral warm_def)
  then show ?thesis
    using trend_compares_one_run by blast
qed

end
