(* ===== verification/Metrics.thy ===== *)
theory Metrics
  imports Export Bare Stats
begin

section \<open>Talking to the inference server: counters, prompts, streams\<close>

text \<open>
  What the latency experiments of \<open>bench/\<close> share: the counters read off the metrics page, the synthetic
  prompts, the chat request, and the lines of a streamed answer.  HTTP, JSON and the random generator
  are parameters: \<open>json.loads\<close> maps the payload of a line to the fields the scripts look at.
\<close>

subsection \<open>Counters\<close>

text \<open>\<open>float(line.rsplit(" ", 1)[1])\<close>.\<close>

definition metric_value :: "(string \<Rightarrow> exn + rat) \<Rightarrow> string \<Rightarrow> exn + rat" where
  "metric_value to_float txt = (case rpartition (CHR '' '') txt of
     (front, sep, v) \<Rightarrow> if sep then to_float v else Inl (Exn IndexError (NoSuchKey 1)))"

type_synonym counters = "string \<Rightarrow> rat option"

fun note_keys :: "(string \<Rightarrow> exn + rat) \<Rightarrow> string \<Rightarrow> string list \<Rightarrow> counters \<Rightarrow> exn + counters" where
  "note_keys to_float txt [] out = Inr out"
| "note_keys to_float txt (key # keys) out =
     (if starts_with txt key
      then (case metric_value to_float txt of
          Inl e \<Rightarrow> Inl e | Inr v \<Rightarrow> note_keys to_float txt keys (out(key \<mapsto> v)))
      else note_keys to_float txt keys out)"

fun metric_lines :: "(string \<Rightarrow> exn + rat) \<Rightarrow> string list \<Rightarrow> string list \<Rightarrow> counters \<Rightarrow> exn + counters" where
  "metric_lines to_float keys [] out = Inr out"
| "metric_lines to_float keys (txt # txts) out =
     (case note_keys to_float txt keys out of
        Inl e \<Rightarrow> Inl e | Inr out' \<Rightarrow> metric_lines to_float keys txts out')"

text \<open>\<open>m.get(key, 0)\<close> and \<open>m[key]\<close>.\<close>

definition get_or0 :: "counters \<Rightarrow> string \<Rightarrow> rat" where
  "get_or0 m k = (case m k of Some v \<Rightarrow> v | None \<Rightarrow> 0)"

definition must_get :: "counters \<Rightarrow> string \<Rightarrow> exn + rat" where
  "must_get m k = (case m k of Some v \<Rightarrow> Inr v | None \<Rightarrow> Inl (Exn KeyError (Failed k)))"

definition PROMPT_TOTAL :: string where "PROMPT_TOTAL = ''vllm:prompt_tokens_total''"
definition GEN_TOTAL :: string where "GEN_TOTAL = ''vllm:generation_tokens_total''"
definition RUNNING :: string where "RUNNING = ''vllm:num_requests_running''"
definition WAITING :: string where "WAITING = ''vllm:num_requests_waiting''"
definition HITS :: string where "HITS = ''vllm:prefix_cache_hits_total''"
definition QUERIES :: string where "QUERIES = ''vllm:prefix_cache_queries_total''"
definition KV_USAGE :: string where "KV_USAGE = ''vllm:kv_cache_usage_perc''"
definition TTFT_SUM :: string where "TTFT_SUM = ''vllm:time_to_first_token_seconds_sum''"
definition TTFT_COUNT :: string where "TTFT_COUNT = ''vllm:time_to_first_token_seconds_count''"
definition DECODE_SUM :: string where "DECODE_SUM = ''vllm:request_decode_time_seconds_sum''"
definition PREEMPTIONS :: string where "PREEMPTIONS = ''vllm:num_preemptions_total''"

subsection \<open>Prompts and requests\<close>

fun join_spaces :: "string list \<Rightarrow> string" where
  "join_spaces [] = []"
| "join_spaces [x] = x"
| "join_spaces (x # xs) = x @ CHR '' '' # join_spaces xs"

text \<open>\<open>random.seed(seed)\<close> and then one \<open>randint(0, 999999)\<close> per word.\<close>

definition corpus :: "(nat \<Rightarrow> nat \<Rightarrow> nat list) \<Rightarrow> nat \<Rightarrow> nat \<Rightarrow> string" where
  "corpus randints words seed = join_spaces (map (\<lambda>n. CHR ''w'' # show_nat n) (randints seed words))"

record chat =
  ch_model :: string
  ch_content :: string
  ch_max_tokens :: nat
  ch_stream :: bool
  ch_usage :: bool

definition read_clock :: "('w \<Rightarrow> rat \<times> 'w) \<Rightarrow> ('w, rat) prog" where
  "read_clock clock w = (case clock w of (t, w') \<Rightarrow> (Inr t, w'))"

subsection \<open>A streamed answer\<close>

text \<open>
  The fields of a parsed line: \<open>usage\<close>, if there is one, with its token count; per choice, the content of
  its delta.  A line that could not be read is the exception.
\<close>

record chunk =
  ck_usage :: "int option option"
  ck_choices :: "string option list"

type_synonym answer_lines = "(exn + string) list"

definition sse_payload :: "string \<Rightarrow> string option" where
  "sse_payload txt = (if \<not> starts_with txt ''data: '' \<or> ends_with txt ''[DONE]'' then None else Some (drop 6 txt))"

definition usage_of :: "chunk \<Rightarrow> int \<Rightarrow> int" where
  "usage_of c completion = (case ck_usage c of Some (Some n) \<Rightarrow> if n \<noteq> 0 then n else completion | _ \<Rightarrow> completion)"

definition has_content :: "chunk \<Rightarrow> bool" where
  "has_content c = (case ck_choices c of Some s # _ \<Rightarrow> s \<noteq> [] | _ \<Rightarrow> False)"

text \<open>
  \<open>next_chunk\<close>: the next line that carries content, the token count seen by then, and the lines after
  it; \<open>None\<close> at the end of the stream.
\<close>

fun next_chunk ::
  "(string \<Rightarrow> exn + chunk) \<Rightarrow> answer_lines \<Rightarrow> int \<Rightarrow> exn + int \<times> answer_lines option" where
  "next_chunk parse [] completion = Inr (completion, None)"
| "next_chunk parse (raw # lines) completion =
     (case raw of
        Inl e \<Rightarrow> Inl e
      | Inr txt \<Rightarrow> (case sse_payload (py_strip txt) of
          None \<Rightarrow> next_chunk parse lines completion
        | Some p \<Rightarrow> (case parse p of
            Inl e \<Rightarrow> Inl e
          | Inr c \<Rightarrow> (if has_content c then Inr (usage_of c completion, Some lines)
              else next_chunk parse lines (usage_of c completion)))))"

lemma next_chunk_less: "next_chunk parse lines n = Inr (m, Some rest) \<Longrightarrow> length rest < length lines"
  by (induction parse lines n rule: next_chunk.induct)
    (auto split: sum.splits option.splits if_splits intro: less_SucI)

end
