(* ===== verification/Pauses.thy ===== *)
theory Pauses
  imports Metrics
begin

section \<open>The streaming experiments: gaps between chunks\<close>

text \<open>
  \<open>bench/itl_ab.py\<close>, \<open>bench/itl_pauses.py\<close> and \<open>bench/prove_prefill_pause.py\<close>: each reads a streamed
  answer, notes the time of every chunk that carries content, and reports on the gaps.  The loops end
  because every turn consumes a line.
\<close>

subsection \<open>\<open>itl_ab\<close>: one run\<close>

record itl =
  it_first :: "rat option"
  it_prev :: "rat option"
  it_gaps :: "rat list"
  it_completion :: int

definition itl_chunk :: "rat \<Rightarrow> rat \<Rightarrow> itl \<Rightarrow> itl" where
  "itl_chunk t0 t st = (case it_first st of
     None \<Rightarrow> st\<lparr>it_first := Some (t - t0), it_prev := Some t\<rparr>
   | Some f \<Rightarrow> st\<lparr>it_gaps := it_gaps st @ [(t - (case it_prev st of Some p \<Rightarrow> p | None \<Rightarrow> 0)) * 1000],
       it_prev := Some t\<rparr>)"

function itl_loop ::
  "(string \<Rightarrow> exn + chunk) \<Rightarrow> ('w \<Rightarrow> rat \<times> 'w) \<Rightarrow> rat \<Rightarrow> answer_lines \<Rightarrow> itl \<Rightarrow> ('w, itl) prog" where
  "itl_loop parse clock t0 lines st w =
     (case next_chunk parse lines (it_completion st) of
        Inl e \<Rightarrow> (Inl e, w)
      | Inr (n, None) \<Rightarrow> (Inr (st\<lparr>it_completion := n\<rparr>), w)
      | Inr (n, Some rest) \<Rightarrow> (case clock w of (t, w') \<Rightarrow>
          itl_loop parse clock t0 rest (itl_chunk t0 t (st\<lparr>it_completion := n\<rparr>)) w'))"
  by pat_completeness auto
termination
  by (relation "measure (\<lambda>(parse, clock, t0, lines, st, w). length lines)") (auto dest: next_chunk_less)

declare itl_loop.simps [simp del]

record itl_run =
  ir_ttft_s :: "rat option"
  ir_chunks :: nat
  ir_completion :: int
  ir_decode_s :: "rat option"
  ir_tok_per_s :: "rat option"
  ir_ms_per_token :: "rat option"
  ir_gap_p50 :: "rat option"

text \<open>A Python number that is \<open>None\<close> or zero is false.\<close>

definition truthy :: "rat option \<Rightarrow> bool" where
  "truthy x \<longleftrightarrow> (case x of None \<Rightarrow> False | Some v \<Rightarrow> v \<noteq> 0)"

definition itl_summary :: "rat \<Rightarrow> itl \<Rightarrow> itl_run" where
  "itl_summary t0 st =
     (let gaps = sort (it_gaps st);
          decode = (if truthy (it_prev st) \<and> truthy (it_first st)
            then Some ((the (it_prev st) - t0) - the (it_first st)) else None);
          usable = (truthy decode \<and> it_completion st \<noteq> 0)
      in \<lparr>ir_ttft_s = it_first st, ir_chunks = length gaps + 1, ir_completion = it_completion st, ir_decode_s = decode,
          ir_tok_per_s = (if usable then Some (of_int (it_completion st) / the decode) else None),
          ir_ms_per_token = (if usable then Some (the decode / of_int (it_completion st) * 1000) else None),
          ir_gap_p50 = (if gaps = [] then None else Some (projr (median gaps)))\<rparr>)"

text \<open>\<open>post chat\<close> opens the answer; \<open>measure\<close> times it from just before.\<close>

definition itl_prompt :: "(nat \<Rightarrow> nat \<Rightarrow> nat list) \<Rightarrow> string \<Rightarrow> nat \<Rightarrow> nat \<Rightarrow> nat \<Rightarrow> chat" where
  "itl_prompt randints model words max_tokens seed = \<lparr>ch_model = model,
     ch_content = ''Ignore this corpus.'' @ [CHR 0x0A] @ corpus randints words seed @ [CHR 0x0A] @
       ''Count slowly from 1 to 80, one number per line.'',
     ch_max_tokens = max_tokens, ch_stream = True, ch_usage = True\<rparr>"

definition itl_start :: itl where
  "itl_start = \<lparr>it_first = None, it_prev = None, it_gaps = [], it_completion = 0\<rparr>"

definition itl_measure ::
  "(string \<Rightarrow> exn + chunk) \<Rightarrow> ('w \<Rightarrow> rat \<times> 'w) \<Rightarrow> (chat \<Rightarrow> 'w \<Rightarrow> (exn + answer_lines) \<times> 'w) \<Rightarrow> chat \<Rightarrow> ('w, itl_run) prog" where
  "itl_measure parse clock post request =
     bnd (read_clock clock) (\<lambda>t0. bnd (post request) (\<lambda>lines.
     bnd (itl_loop parse clock t0 lines itl_start) (\<lambda>st. ret (itl_summary t0 st))))"

text \<open>Printing a run formats each of its numbers; \<open>None\<close> raises.\<close>

definition itl_printable :: "itl_run \<Rightarrow> exn + unit" where
  "itl_printable r = (if None \<in> {ir_ttft_s r, ir_decode_s r, ir_tok_per_s r, ir_ms_per_token r, ir_gap_p50 r}
     then Inl (Exn TypeError (Failed ''format'')) else Inr ())"

primrec itl_runs ::
  "(string \<Rightarrow> exn + chunk) \<Rightarrow> ('w \<Rightarrow> rat \<times> 'w) \<Rightarrow> (chat \<Rightarrow> 'w \<Rightarrow> (exn + answer_lines) \<times> 'w) \<Rightarrow> (nat \<Rightarrow> chat)
    \<Rightarrow> nat list \<Rightarrow> ('w, itl_run list) prog" where
  "itl_runs parse clock post prompt [] = ret []"
| "itl_runs parse clock post prompt (i # is) =
     bnd (itl_measure parse clock post (prompt (4000 + i))) (\<lambda>r.
     seq (of_sum (itl_printable r)) (bnd (itl_runs parse clock post prompt is) (\<lambda>rs. ret (r # rs))))"

definition itl_main ::
  "(string \<Rightarrow> exn + chunk) \<Rightarrow> ('w \<Rightarrow> rat \<times> 'w) \<Rightarrow> (chat \<Rightarrow> 'w \<Rightarrow> (exn + answer_lines) \<times> 'w)
    \<Rightarrow> (nat \<Rightarrow> nat \<Rightarrow> nat list) \<Rightarrow> string \<Rightarrow> nat \<Rightarrow> nat \<Rightarrow> nat \<Rightarrow> ('w, itl_run list \<times> rat \<times> rat) prog" where
  "itl_main parse clock post randints model words max_tokens runs =
     bnd (itl_runs parse clock post (itl_prompt randints model words max_tokens) [0..<runs]) (\<lambda>rs.
     let rates = map (\<lambda>r. the (ir_tok_per_s r)) (filter (\<lambda>r. truthy (ir_tok_per_s r)) rs) in
     bnd (of_sum (median rates)) (\<lambda>m. ret (rs, m, Max (set rates))))"

subsection \<open>\<open>itl_pauses\<close>: the sampler\<close>

definition SAMPLER_KEYS :: "string list" where
  "SAMPLER_KEYS = [PROMPT_TOTAL, GEN_TOTAL, RUNNING, WAITING]"

type_synonym samples = "(rat \<times> counters) list"

text \<open>A turn of the thread: any exception is passed over; the deque keeps the last 20000.\<close>

definition keep_last :: "nat \<Rightarrow> 'a list \<Rightarrow> 'a list" where
  "keep_last n xs = drop (length xs - n) xs"

definition sampler_turn ::
  "(string \<Rightarrow> exn + rat) \<Rightarrow> ('w \<Rightarrow> rat \<times> 'w) \<Rightarrow> ('w \<Rightarrow> (exn + string list) \<times> 'w) \<Rightarrow> samples \<Rightarrow> ('w, samples) prog" where
  "sampler_turn to_float clock fetch samples =
     handle (bnd fetch (\<lambda>txts. bnd (of_sum (metric_lines to_float SAMPLER_KEYS txts Map.empty)) (\<lambda>got.
         bnd (read_clock clock) (\<lambda>t. ret (keep_last 20000 (samples @ [(t, got)]))))))
       is_exception (\<lambda>e. ret samples)"

definition between :: "samples \<Rightarrow> rat \<Rightarrow> rat \<Rightarrow> (rat \<times> rat) option" where
  "between samples t0 t1 =
     (let pts = filter (\<lambda>s. t0 - 1 / 2 \<le> fst s \<and> fst s \<le> t1 + 1 / 2) samples in
      if length pts < 2 then None
      else Some (get_or0 (snd (last pts)) PROMPT_TOTAL - get_or0 (snd (hd pts)) PROMPT_TOTAL,
        Max (set (map (\<lambda>s. get_or0 (snd s) RUNNING) pts))))"

subsection \<open>\<open>itl_pauses\<close>: the stream and the report\<close>

type_synonym gap = "rat \<times> rat \<times> rat"

definition gap_ms :: "gap \<Rightarrow> rat" where
  "gap_ms g = snd (snd g)"

function gap_loop ::
  "(string \<Rightarrow> exn + chunk) \<Rightarrow> ('w \<Rightarrow> rat \<times> 'w) \<Rightarrow> answer_lines \<Rightarrow> int \<Rightarrow> rat option \<Rightarrow> gap list
    \<Rightarrow> ('w, int \<times> gap list) prog" where
  "gap_loop parse clock lines completion prev gaps w =
     (case next_chunk parse lines completion of
        Inl e \<Rightarrow> (Inl e, w)
      | Inr (n, None) \<Rightarrow> (Inr (n, gaps), w)
      | Inr (n, Some rest) \<Rightarrow> (case clock w of (t, w') \<Rightarrow>
          gap_loop parse clock rest n (Some t)
            (case prev of None \<Rightarrow> gaps | Some p \<Rightarrow> gaps @ [(p, t, (t - p) * 1000)]) w'))"
  by pat_completeness auto
termination
  by (relation "measure (\<lambda>(parse, clock, lines, n, prev, gaps, w). length lines)") (auto dest: next_chunk_less)

declare gap_loop.simps [simp del]

record pause_report =
  pz_tokens :: int
  pz_wall :: rat
  pz_chunks :: nat
  pz_p50 :: rat
  pz_p90 :: rat
  pz_p99 :: rat
  pz_max :: rat
  pz_pauses :: "gap list"
  pz_shown :: "(rat \<times> rat \<times> (rat \<times> rat) option) list"
  pz_prefilling :: nat

text \<open>\<open>ms[int(n * q)]\<close> of the sorted gaps.\<close>

definition at_fraction :: "rat list \<Rightarrow> rat \<Rightarrow> rat" where
  "at_fraction xs q = sort xs ! nat \<lfloor>of_nat (length xs) * q\<rfloor>"

definition longest_first :: "gap list \<Rightarrow> gap list" where
  "longest_first gaps = sort_key (\<lambda>g. - gap_ms g) gaps"

definition pause_report_of :: "samples \<Rightarrow> rat \<Rightarrow> rat \<Rightarrow> rat \<Rightarrow> int \<Rightarrow> gap list \<Rightarrow> pause_report option" where
  "pause_report_of samples pause_ms t0 wall completion gaps =
     (if gaps = [] then None
      else let ms = map gap_ms gaps; pauses = filter (\<lambda>g. pause_ms \<le> gap_ms g) gaps in
        Some \<lparr>pz_tokens = completion, pz_wall = wall, pz_chunks = length gaps + 1, pz_p50 = sort ms ! (length ms div 2),
          pz_p90 = at_fraction ms (9 / 10), pz_p99 = at_fraction ms (99 / 100), pz_max = last (sort ms), pz_pauses = pauses,
          pz_shown = map (\<lambda>g. (fst g - t0, gap_ms g, between samples (fst g) (fst (snd g))))
            (take 12 (longest_first pauses)),
          pz_prefilling = length (filter (\<lambda>g. case between samples (fst g) (fst (snd g)) of
            None \<Rightarrow> False | Some (prompt, running) \<Rightarrow> 500 < prompt) pauses)\<rparr>)"

text \<open>\<open>main\<close>; what the sampler holds when the report is written is a function of the world.\<close>

definition pauses_main ::
  "(string \<Rightarrow> exn + chunk) \<Rightarrow> ('w \<Rightarrow> rat \<times> 'w) \<Rightarrow> (chat \<Rightarrow> 'w \<Rightarrow> (exn + answer_lines) \<times> 'w) \<Rightarrow> ('w \<Rightarrow> samples)
    \<Rightarrow> string \<Rightarrow> nat \<Rightarrow> rat \<Rightarrow> ('w, pause_report option) prog" where
  "pauses_main parse clock post sampled model max_tokens pause_ms =
     bnd (read_clock clock) (\<lambda>t0.
     bnd (post \<lparr>ch_model = model, ch_content = ''Write out the numbers from 1 to 250, one per line, nothing else.'',
       ch_max_tokens = max_tokens, ch_stream = True, ch_usage = True\<rparr>) (\<lambda>lines.
     bnd (gap_loop parse clock lines 0 None []) (\<lambda>(completion, gaps).
     bnd (read_clock clock) (\<lambda>t1.
     bnd (gets sampled) (\<lambda>samples. ret (pause_report_of samples pause_ms t0 (t1 - t0) completion gaps))))))"

subsection \<open>\<open>prove_prefill_pause\<close>\<close>

text \<open>A gap is its time since the start and its length; \<open>ended\<close> is when the interferer finished, if it has.\<close>

function prove_loop ::
  "(string \<Rightarrow> exn + chunk) \<Rightarrow> ('w \<Rightarrow> rat \<times> 'w) \<Rightarrow> ('w \<Rightarrow> rat option) \<Rightarrow> rat \<Rightarrow> answer_lines \<Rightarrow> rat option
    \<Rightarrow> (rat \<times> rat) list \<Rightarrow> ('w, (rat \<times> rat) list) prog" where
  "prove_loop parse clock ended t0 lines prev gaps w =
     (case next_chunk parse lines 0 of
        Inl e \<Rightarrow> (Inl e, w)
      | Inr (n, None) \<Rightarrow> (Inr gaps, w)
      | Inr (n, Some rest) \<Rightarrow> (case clock w of (t, w') \<Rightarrow>
          let gaps' = (case prev of None \<Rightarrow> gaps | Some p \<Rightarrow> gaps @ [(t - t0, (t - p) * 1000)]) in
          if (case ended w' of None \<Rightarrow> False | Some e \<Rightarrow> e \<noteq> 0 \<and> t - t0 > (e - t0) + 8) then (Inr gaps', w')
          else prove_loop parse clock ended t0 rest (Some t) gaps' w'))"
  by pat_completeness auto
termination
  by (relation "measure (\<lambda>(parse, clock, ended, t0, lines, prev, gaps, w). length lines)") (auto dest: next_chunk_less)

declare prove_loop.simps [simp del]

definition before_gaps :: "(rat \<times> rat) list \<Rightarrow> rat \<Rightarrow> rat list" where
  "before_gaps gaps s = map snd (filter (\<lambda>g. fst g < s) gaps)"

definition during_gaps :: "(rat \<times> rat) list \<Rightarrow> rat \<Rightarrow> rat \<Rightarrow> rat list" where
  "during_gaps gaps s e = map snd (filter (\<lambda>g. s \<le> fst g \<and> fst g \<le> e) gaps)"

definition after_gaps :: "(rat \<times> rat) list \<Rightarrow> rat \<Rightarrow> rat list" where
  "after_gaps gaps e = map snd (filter (\<lambda>g. fst g > e) gaps)"

text \<open>\<open>describe\<close>: the count, the median, the 90th percentile, the longest, and how many reach 400 ms.\<close>

definition describe :: "rat list \<Rightarrow> (nat \<times> rat \<times> rat \<times> rat \<times> nat) option" where
  "describe xs = (if xs = [] then None
     else Some (length xs, sort xs ! (length xs div 2), at_fraction xs (9 / 10), last (sort xs),
       length (filter (\<lambda>x. 400 \<le> x) xs)))"

type_synonym description = "(nat \<times> rat \<times> rat \<times> rat \<times> nat) option"

definition prove_report ::
  "rat \<Rightarrow> rat option \<Rightarrow> rat \<Rightarrow> (rat \<times> rat) list \<Rightarrow> exn + description list \<times> (rat \<times> rat \<times> rat) option" where
  "prove_report t0 started finish gaps =
     (if \<not> truthy started then Inl (Exn SystemExit (Failed ''interferer never started''))
      else let s = the started - t0; e = finish - t0; before = before_gaps gaps s; during = during_gaps gaps s e;
             after = after_gaps gaps e;
             b = sort before ! (length before div 2); d = sort during ! (length during div 2)
        in if before \<noteq> [] \<and> during \<noteq> [] then
             (if b = 0 then Inl (Exn ZeroDivisionError (Failed ''median gap''))
              else Inr (map describe [before, during, after], Some (b, d, d / b)))
           else Inr (map describe [before, during, after], None))"

text \<open>The whole script: the interferer's window is what its thread has noted by then.\<close>

definition prove_main ::
  "(string \<Rightarrow> exn + chunk) \<Rightarrow> ('w \<Rightarrow> rat \<times> 'w) \<Rightarrow> (chat \<Rightarrow> 'w \<Rightarrow> (exn + answer_lines) \<times> 'w)
    \<Rightarrow> ('w \<Rightarrow> rat option) \<Rightarrow> ('w \<Rightarrow> rat option) \<Rightarrow> ('w, description list \<times> (rat \<times> rat \<times> rat) option) prog" where
  "prove_main parse clock post started ended =
     bnd (read_clock clock) (\<lambda>t0.
     bnd (post \<lparr>ch_model = ''qwen3.8-flash-next'', ch_content = ''Write the numbers 1 to 600, one per line, nothing else.'',
       ch_max_tokens = 2400, ch_stream = True, ch_usage = False\<rparr>) (\<lambda>lines.
     bnd (prove_loop parse clock ended t0 lines None []) (\<lambda>gaps.
     bnd (gets started) (\<lambda>s. bnd (gets ended) (\<lambda>e.
     if \<not> truthy s then raise (Exn SystemExit (Failed ''interferer never started''))
     else bnd (if truthy e then ret (the e) else read_clock clock) (\<lambda>finish.
       of_sum (prove_report t0 s finish gaps)))))))"

text \<open>The interfering thread: its window, whatever becomes of its request.\<close>

definition interferer ::
  "('w \<Rightarrow> rat \<times> 'w) \<Rightarrow> (rat \<Rightarrow> 'w \<Rightarrow> 'w) \<Rightarrow> (chat \<Rightarrow> 'w \<Rightarrow> (exn + unit) \<times> 'w) \<Rightarrow> (nat \<Rightarrow> nat \<Rightarrow> nat list)
    \<Rightarrow> ('w, rat \<times> rat) prog" where
  "interferer clock wait post_json randints =
     seq (modify (wait 12)) (bnd (read_clock clock) (\<lambda>s.
     seq (handle (post_json \<lparr>ch_model = ''qwen3.8-flash-next'',
           ch_content = corpus randints 17000 4242 @ [CHR 0x0A] @ ''Say OK'', ch_max_tokens = 16,
           ch_stream = False, ch_usage = False\<rparr>) is_exception (\<lambda>e. ret ()))
     (bnd (read_clock clock) (\<lambda>e. ret (s, e)))))"

end
