(* ===== verification/Pauses_Guarantees.thy ===== *)
theory Pauses_Guarantees
  imports Pauses "HOL-Library.Multiset"
begin

section \<open>What the streaming experiments report\<close>

text \<open>
  The reference is the list of times at which chunks arrive; both scripts are folds over it.  The gaps
  add up to the decode time, the quantiles grow, and the pauses shown are the longest there are.
\<close>

subsection \<open>Arrivals\<close>

function arrivals ::
  "(string \<Rightarrow> exn + chunk) \<Rightarrow> ('w \<Rightarrow> rat \<times> 'w) \<Rightarrow> answer_lines \<Rightarrow> int \<Rightarrow> ('w, int \<times> rat list) prog" where
  "arrivals parse clock lines n w =
     (case next_chunk parse lines n of
        Inl e \<Rightarrow> (Inl e, w)
      | Inr (m, None) \<Rightarrow> (Inr (m, []), w)
      | Inr (m, Some rest) \<Rightarrow> (case clock w of (t, w') \<Rightarrow>
          bnd (arrivals parse clock rest m) (\<lambda>(k, ts). ret (k, t # ts)) w'))"
  by pat_completeness auto
termination
  by (relation "measure (\<lambda>(parse, clock, lines, n, w). length lines)") (auto dest: next_chunk_less)

declare arrivals.simps [simp del]

fun diffs :: "rat list \<Rightarrow> rat list" where
  "diffs (a # b # ts) = (b - a) * 1000 # diffs (b # ts)"
| "diffs ts = []"

fun steps :: "rat list \<Rightarrow> gap list" where
  "steps (a # b # ts) = (a, b, (b - a) * 1000) # steps (b # ts)"
| "steps ts = []"

lemma gap_ms_steps: "map gap_ms (steps ts) = diffs ts"
  by (induction ts rule: steps.induct) (simp_all add: gap_ms_def)

lemma length_diffs: "length (diffs ts) = length ts - 1"
  by (induction ts rule: diffs.induct) simp_all

lemma length_steps: "length (steps ts) = length ts - 1"
  by (metis gap_ms_steps length_diffs length_map)

lemma diffs_Nil: "diffs ts = [] \<longleftrightarrow> length ts \<le> 1"
  by (cases ts rule: diffs.cases) simp_all

lemma sum_diffs: "sum_list (diffs (a # ts)) = (last (a # ts) - a) * 1000"
  by (induction ts arbitrary: a) (simp_all add: algebra_simps)

lemma sum_all_diffs: "ts \<noteq> [] \<Longrightarrow> sum_list (diffs ts) = (last ts - hd ts) * 1000"
  by (cases ts) (simp_all add: sum_diffs del: diffs.simps)

subsection \<open>The loops are folds over the arrivals\<close>

lemma itl_chunk_completion: "itl_chunk t0 t (st\<lparr>it_completion := n\<rparr>) = (itl_chunk t0 t st)\<lparr>it_completion := n\<rparr>"
  by (simp add: itl_chunk_def split: option.split)

lemma fold_completion: "fold (itl_chunk t0) ts (st\<lparr>it_completion := n\<rparr>) = (fold (itl_chunk t0) ts st)\<lparr>it_completion := n\<rparr>"
  by (induction ts arbitrary: st) (simp_all add: itl_chunk_completion)

lemma itl_loop_arrivals:
  "itl_loop parse clock t0 lines st w =
     bnd (arrivals parse clock lines (it_completion st)) (\<lambda>(k, ts). ret ((fold (itl_chunk t0) ts st)\<lparr>it_completion := k\<rparr>)) w"
proof (induction parse clock t0 lines st w rule: itl_loop.induct)
  case (1 parse clock t0 lines st w)
  show ?case
  proof (cases "next_chunk parse lines (it_completion st)")
    case (Inl e)
    then show ?thesis
      by (simp add: itl_loop.simps arrivals.simps bnd_def)
  next
    case (Inr r)
    obtain n z where r: "r = (n, z)"
      by (metis surj_pair)
    show ?thesis
    proof (cases z)
      case None
      then show ?thesis
        using Inr r by (simp add: itl_loop.simps arrivals.simps bnd_def ret_def)
    next
      case (Some rest)
      obtain t w' where c: "clock w = (t, w')"
        by (metis surj_pair)
      have comp: "it_completion (itl_chunk t0 t (st\<lparr>it_completion := n\<rparr>)) = n"
        by (simp add: itl_chunk_completion)
      have step: "itl_loop parse clock t0 lines st w = itl_loop parse clock t0 rest (itl_chunk t0 t (st\<lparr>it_completion := n\<rparr>)) w'"
        using Inr r Some c by (subst itl_loop.simps) simp
      have arr: "arrivals parse clock lines (it_completion st) w = bnd (arrivals parse clock rest n) (\<lambda>(k, ts). ret (k, t # ts)) w'"
        using Inr r Some c by (subst arrivals.simps) simp
      have "itl_loop parse clock t0 lines st w =
          bnd (arrivals parse clock rest n)
            (\<lambda>(k, ts). ret ((fold (itl_chunk t0) ts (itl_chunk t0 t (st\<lparr>it_completion := n\<rparr>)))\<lparr>it_completion := k\<rparr>)) w'"
        unfolding step using "1.IH" [OF Inr r [symmetric] Some c [symmetric]] by (simp add: comp)
      also have "\<dots> = bnd (arrivals parse clock lines (it_completion st))
            (\<lambda>(k, ts). ret ((fold (itl_chunk t0) ts st)\<lparr>it_completion := k\<rparr>)) w"
        unfolding bnd_def arr itl_chunk_completion fold_completion
        by (auto simp: ret_def split: prod.splits sum.splits)
      finally show ?thesis .
    qed
  qed
qed

lemma gap_loop_arrivals:
  "gap_loop parse clock lines n prev gaps w =
     bnd (arrivals parse clock lines n)
       (\<lambda>(k, ts). ret (k, gaps @ steps (case prev of None \<Rightarrow> ts | Some p \<Rightarrow> p # ts))) w"
proof (induction parse clock lines n prev gaps w rule: gap_loop.induct)
  case (1 parse clock lines n prev gaps w)
  show ?case
  proof (cases "next_chunk parse lines n")
    case (Inl e)
    then show ?thesis
      by (simp add: gap_loop.simps arrivals.simps bnd_def)
  next
    case (Inr r)
    obtain m z where r: "r = (m, z)"
      by (metis surj_pair)
    show ?thesis
    proof (cases z)
      case None
      then show ?thesis
        using Inr r by (simp add: gap_loop.simps arrivals.simps bnd_def ret_def split: option.split)
    next
      case (Some rest)
      obtain t w' where c: "clock w = (t, w')"
        by (metis surj_pair)
      have step: "gap_loop parse clock lines n prev gaps w = gap_loop parse clock rest m (Some t)
          (case prev of None \<Rightarrow> gaps | Some p \<Rightarrow> gaps @ [(p, t, (t - p) * 1000)]) w'"
        using Inr r Some c by (subst gap_loop.simps) simp
      have arr: "arrivals parse clock lines n w = bnd (arrivals parse clock rest m) (\<lambda>(k, ts). ret (k, t # ts)) w'"
        using Inr r Some c by (subst arrivals.simps) simp
      show ?thesis
        unfolding step "1.IH" [OF Inr r [symmetric] Some c [symmetric]]
        by (auto simp: bnd_def arr ret_def split: prod.splits sum.splits option.splits)
    qed
  qed
qed

lemma itl_started:
  assumes "it_first st = Some f" and "it_prev st = Some p"
  shows "it_first (fold (itl_chunk t0) ts st) = Some f \<and> it_prev (fold (itl_chunk t0) ts st) = Some (last (p # ts)) \<and>
    it_gaps (fold (itl_chunk t0) ts st) = it_gaps st @ diffs (p # ts)"
  using assms
proof (induction ts arbitrary: st p)
  case (Cons t ts)
  have "it_first (itl_chunk t0 t st) = Some f" "it_prev (itl_chunk t0 t st) = Some t"
    "it_gaps (itl_chunk t0 t st) = it_gaps st @ [(t - p) * 1000]"
    using Cons.prems by (simp_all add: itl_chunk_def)
  with Cons.IH [OF this(1,2)] show ?case
    by simp
qed simp

lemma itl_fold:
  "it_first (fold (itl_chunk t0) ts itl_start) = (if ts = [] then None else Some (hd ts - t0))"
  "it_prev (fold (itl_chunk t0) ts itl_start) = (if ts = [] then None else Some (last ts))"
  "it_gaps (fold (itl_chunk t0) ts itl_start) = diffs ts"
proof -
  show "it_first (fold (itl_chunk t0) ts itl_start) = (if ts = [] then None else Some (hd ts - t0))"
    "it_prev (fold (itl_chunk t0) ts itl_start) = (if ts = [] then None else Some (last ts))"
    "it_gaps (fold (itl_chunk t0) ts itl_start) = diffs ts"
  proof (atomize (full), cases ts)
    case (Cons t rest)
    have "it_first (itl_chunk t0 t itl_start) = Some (t - t0)" "it_prev (itl_chunk t0 t itl_start) = Some t"
      "it_gaps (itl_chunk t0 t itl_start) = []"
      by (simp_all add: itl_chunk_def itl_start_def)
    then show "it_first (fold (itl_chunk t0) ts itl_start) = (if ts = [] then None else Some (hd ts - t0)) \<and>
      it_prev (fold (itl_chunk t0) ts itl_start) = (if ts = [] then None else Some (last ts)) \<and>
      it_gaps (fold (itl_chunk t0) ts itl_start) = diffs ts"
      using itl_started [of "itl_chunk t0 t itl_start" "t - t0" t t0 rest] Cons by simp
  qed (simp add: itl_start_def)
qed

subsection \<open>The summary of a run\<close>

lemma median_sort: "median (sort xs) = median xs"
  by (simp add: median_def Let_def sorted_sort_id)

lemma summary_of_arrivals:
  fixes ts :: "rat list"
  defines "r \<equiv> \<lambda>t0 k. itl_summary t0 ((fold (itl_chunk t0) ts itl_start)\<lparr>it_completion := k\<rparr>)"
  shows "ir_ttft_s (r t0 k) = (if ts = [] then None else Some (hd ts - t0))"
    and "ir_chunks (r t0 k) = max 1 (length ts)"
    and "ir_completion (r t0 k) = k"
    and "ir_decode_s (r t0 k) = Some d \<Longrightarrow> ts \<noteq> [] \<and> d = last ts - hd ts"
    and "ir_tok_per_s (r t0 k) = Some v \<Longrightarrow> v * (last ts - hd ts) = of_int k"
    and "ir_ms_per_token (r t0 k) = Some u \<Longrightarrow> u * of_int k = sum_list (diffs ts)"
    and "ir_gap_p50 (r t0 k) = Some p \<Longrightarrow> median (diffs ts) = Inr p"
proof -
  show "ir_ttft_s (r t0 k) = (if ts = [] then None else Some (hd ts - t0))"
    "ir_completion (r t0 k) = k"
    by (simp_all add: r_def itl_summary_def Let_def itl_fold)
  show "ir_chunks (r t0 k) = max 1 (length ts)"
    by (simp add: r_def itl_summary_def Let_def itl_fold length_diffs)
  show "ir_decode_s (r t0 k) = Some d \<Longrightarrow> ts \<noteq> [] \<and> d = last ts - hd ts"
    by (auto simp: r_def itl_summary_def Let_def itl_fold truthy_def split: if_splits)
  show "ir_tok_per_s (r t0 k) = Some v \<Longrightarrow> v * (last ts - hd ts) = of_int k"
    by (auto simp: r_def itl_summary_def Let_def itl_fold truthy_def split: if_splits)
  show "ir_ms_per_token (r t0 k) = Some u \<Longrightarrow> u * of_int k = sum_list (diffs ts)"
    by (auto simp: sum_all_diffs r_def itl_summary_def Let_def itl_fold truthy_def split: if_splits)
  show "median (diffs ts) = Inr p" if "ir_gap_p50 (r t0 k) = Some p"
  proof -
    have "diffs ts \<noteq> []" "p = projr (median (diffs ts))"
      using that by (auto simp: r_def itl_summary_def Let_def itl_fold median_sort split: if_splits)
    then show ?thesis
      using median_Inr [of "diffs ts"] by auto
  qed
qed

lemma itl_measure_arrivals:
  assumes "itl_measure parse clock post request w = (Inr r, w')"
  shows "\<exists>t0 w0 lines w1 k ts. clock w = (t0, w0) \<and> post request w0 = (Inr lines, w1) \<and>
    arrivals parse clock lines 0 w1 = (Inr (k, ts), w') \<and>
    r = itl_summary t0 ((fold (itl_chunk t0) ts itl_start)\<lparr>it_completion := k\<rparr>)"
  using assms unfolding itl_measure_def read_clock_def itl_loop_arrivals
  by (elim bnd_InrE) (auto simp: itl_start_def ret_def bnd_def split: prod.splits sum.splits)

subsection \<open>The report on the pauses\<close>

lemma sort_nth_le: "i \<le> j \<Longrightarrow> j < length xs \<Longrightarrow> sort xs ! i \<le> (sort xs ! j :: rat)"
  by (rule sorted_nth_mono) simp_all

lemma fraction_index: "0 < (n :: nat) \<Longrightarrow> 0 \<le> q \<Longrightarrow> q < 1 \<Longrightarrow> nat \<lfloor>of_nat n * q\<rfloor> < n" for q :: rat
  by (simp add: nat_less_iff floor_less_iff)

lemma at_fraction_mono:
  assumes "xs \<noteq> []" and "0 \<le> p" and "p \<le> q" and "q < 1"
  shows "at_fraction xs p \<le> at_fraction xs q"
  unfolding at_fraction_def using assms
  by (intro sort_nth_le fraction_index nat_mono floor_mono mult_left_mono) auto

lemma at_fraction_last:
  assumes "xs \<noteq> []" and "0 \<le> q" and "q < 1"
  shows "at_fraction xs q \<le> last (sort xs)"
proof -
  have "last (sort xs) = sort xs ! (length xs - 1)"
    using assms(1) by (metis last_conv_nth length_0_conv length_sort)
  moreover have "nat \<lfloor>of_nat (length xs) * q\<rfloor> < length xs"
    using assms by (intro fraction_index) simp_all
  ultimately show ?thesis
    unfolding at_fraction_def by (simp add: sort_nth_le)
qed

lemma half_fraction: "sort xs ! (length xs div 2) = at_fraction xs (1 / 2)"
proof -
  have "\<lfloor>of_nat (length xs) * (1 / 2 :: rat)\<rfloor> = int (length xs div 2)"
    by (simp add: floor_divide_of_nat_eq [of "length xs" 2, simplified])
  then show ?thesis
    by (simp add: at_fraction_def)
qed

lemma last_sort_Max:
  fixes xs :: "rat list"
  assumes "xs \<noteq> []"
  shows "last (sort xs) = Max (set xs)"
proof -
  have ne: "sort xs \<noteq> []"
    using assms by (metis length_0_conv length_sort)
  have "y \<le> last (sort xs)" if "y \<in> set xs" for y
  proof -
    obtain i where "i < length xs" "sort xs ! i = y"
      using \<open>y \<in> set xs\<close> by (metis in_set_conv_nth length_sort set_sort)
    then show ?thesis
      using ne sort_nth_le [of i "length xs - 1" xs] by (simp add: last_conv_nth)
  qed
  then show ?thesis
    using last_in_set [OF ne] by (intro Max_eqI [symmetric]) simp_all
qed

lemma longest_mset: "mset (longest_first gaps) = mset gaps"
  by (simp add: longest_first_def)

lemma longest_sorted: "sorted_wrt (\<lambda>g h. gap_ms h \<le> gap_ms g) (longest_first gaps)"
proof -
  have "sorted (map (\<lambda>g. - gap_ms g) (longest_first gaps))"
    by (simp add: longest_first_def)
  then show ?thesis
    by (simp add: sorted_map)
qed

lemma longest_split:
  assumes "g \<in> set (take n (longest_first gaps))" and "h \<in> set (drop n (longest_first gaps))"
  shows "gap_ms h \<le> gap_ms g"
proof -
  have "sorted_wrt (\<lambda>g h. gap_ms h \<le> gap_ms g) (take n (longest_first gaps) @ drop n (longest_first gaps))"
    by (simp only: append_take_drop_id longest_sorted)
  then show ?thesis
    using assms by (simp only: sorted_wrt_append)
qed

subsection \<open>The guarantees\<close>

text \<open>
  C38. A run that \<open>itl_ab\<close> measures is a function of the chunk arrivals alone: the time to the first token
  counts from the request, the decode time runs from the first chunk to the last, the rates divide the
  token count of the usage record by it, the milliseconds per token are the summed gaps over the tokens,
  and the middle gap is the median gap.  \<open>itl_pauses\<close>, reading the same answer, measures the same gaps.
  The number of chunks is theirs, except that a stream without any is reported as one.
\<close>

theorem run_measures_the_arrivals:
  assumes "itl_measure parse clock post request w = (Inr r, w')"
  shows "\<exists>t0 w0 lines w1 k ts. clock w = (t0, w0) \<and> post request w0 = (Inr lines, w1) \<and>
    arrivals parse clock lines 0 w1 = (Inr (k, ts), w') \<and>
    gap_loop parse clock lines 0 None [] w1 = (Inr (k, steps ts), w') \<and> map gap_ms (steps ts) = diffs ts \<and>
    ir_completion r = k \<and> ir_chunks r = max 1 (length ts) \<and>
    ir_ttft_s r = (if ts = [] then None else Some (hd ts - t0)) \<and>
    (\<forall>d. ir_decode_s r = Some d \<longrightarrow> ts \<noteq> [] \<and> d = last ts - hd ts) \<and>
    (\<forall>v. ir_tok_per_s r = Some v \<longrightarrow> v * (last ts - hd ts) = of_int k) \<and>
    (\<forall>u. ir_ms_per_token r = Some u \<longrightarrow> u * of_int k = sum_list (diffs ts)) \<and>
    (\<forall>p. ir_gap_p50 r = Some p \<longrightarrow> median (diffs ts) = Inr p)"
proof -
  obtain t0 w0 lines w1 k ts where run: "clock w = (t0, w0)" "post request w0 = (Inr lines, w1)"
      "arrivals parse clock lines 0 w1 = (Inr (k, ts), w')"
      and r: "r = itl_summary t0 ((fold (itl_chunk t0) ts itl_start)\<lparr>it_completion := k\<rparr>)"
    using itl_measure_arrivals [OF assms] by blast
  have "gap_loop parse clock lines 0 None [] w1 = (Inr (k, steps ts), w')"
    by (simp add: gap_loop_arrivals bnd_def run(3) ret_def)
  then show ?thesis
    using run summary_of_arrivals [where ts = ts and k = k] by (intro exI conjI) (auto simp: r gap_ms_steps)
qed

definition tape :: "rat list \<Rightarrow> rat \<times> rat list" where
  "tape w = (hd w, tl w)"

definition answer_of :: "string list \<Rightarrow> chat \<Rightarrow> rat list \<Rightarrow> (exn + answer_lines) \<times> rat list" where
  "answer_of txts request w = (Inr (map (\<lambda>s. Inr (''data: '' @ s)) txts), w)"

definition toy_parse :: "string \<Rightarrow> exn + chunk" where
  "toy_parse s = (if s = ''end'' then Inr \<lparr>ck_usage = Some (Some 6), ck_choices = []\<rparr>
     else Inr \<lparr>ck_usage = None, ck_choices = [Some s]\<rparr>)"

lemma toy_arrivals:
  "itl_measure toy_parse tape (answer_of [''a'', ''b'', ''c'', ''end'']) request [1, 3, 4, 6, 9] =
    (Inr \<lparr>ir_ttft_s = Some 2, ir_chunks = 3, ir_completion = 6, ir_decode_s = Some 3, ir_tok_per_s = Some 2,
       ir_ms_per_token = Some 500, ir_gap_p50 = Some 1500\<rparr>, [9])"
  by code_simp

lemma run_measures_the_arrivals_witness:
  "\<exists>k ts. arrivals toy_parse tape (map (\<lambda>s. Inr (''data: '' @ s)) [''a'', ''b'', ''c'', ''end'']) 0 [3, 4, 6, 9] = (Inr (k, ts), [9]) \<and>
     2 * (last ts - hd ts) = of_int k \<and> 500 * of_int k = sum_list (diffs ts)"
  using run_measures_the_arrivals [OF toy_arrivals] by (auto simp: tape_def answer_of_def)

lemma pauses_main_arrivals:
  assumes "pauses_main parse clock post sampled model max_tokens pause_ms w = (Inr rp, w')"
  shows "\<exists>t0 w0 request lines w1 k ts w2 t1. clock w = (t0, w0) \<and> post request w0 = (Inr lines, w1) \<and>
    arrivals parse clock lines 0 w1 = (Inr (k, ts), w2) \<and> clock w2 = (t1, w') \<and>
    rp = pause_report_of (sampled w') pause_ms t0 (t1 - t0) k (steps ts)"
  using assms unfolding pauses_main_def read_clock_def gap_loop_arrivals
  apply (elim bnd_InrE)
  apply (clarsimp simp: ret_def gets_def bnd_def split: prod.splits sum.splits)
  apply metis
  done

text \<open>
  C39. The report of \<open>itl_pauses\<close>: the chunks are those that arrived, the four figures grow from the median
  to the maximum, which is the longest gap; the pauses are the gaps of at least the length asked for;
  and the lines shown are the twelve longest of them (or all), longest first, each at its time since the
  request, with what the sampler saw around it.
\<close>

theorem pauses_shown_are_the_longest:
  assumes "pauses_main parse clock post sampled model max_tokens pause_ms w = (Inr (Some rp), w')"
  shows "\<exists>t0 w0 request lines w1 k ts w2 kept rest. clock w = (t0, w0) \<and> post request w0 = (Inr lines, w1) \<and>
    arrivals parse clock lines 0 w1 = (Inr (k, ts), w2) \<and> pz_tokens rp = k \<and> pz_chunks rp = length ts \<and>
    pz_p50 rp \<le> pz_p90 rp \<and> pz_p90 rp \<le> pz_p99 rp \<and> pz_p99 rp \<le> pz_max rp \<and> pz_max rp = Max (set (diffs ts)) \<and>
    pz_pauses rp = filter (\<lambda>g. pause_ms \<le> gap_ms g) (steps ts) \<and>
    mset (pz_pauses rp) = mset (kept @ rest) \<and> length kept = min 12 (length (pz_pauses rp)) \<and>
    sorted_wrt (\<lambda>g h. gap_ms h \<le> gap_ms g) kept \<and> (\<forall>g \<in> set kept. \<forall>h \<in> set rest. gap_ms h \<le> gap_ms g) \<and>
    pz_shown rp = map (\<lambda>g. (fst g - t0, gap_ms g, between (sampled w') (fst g) (fst (snd g)))) kept"
proof -
  obtain t0 w0 request lines w1 k ts w2 t1 where run: "clock w = (t0, w0)" "post request w0 = (Inr lines, w1)"
      "arrivals parse clock lines 0 w1 = (Inr (k, ts), w2)"
      and rp: "Some rp = pause_report_of (sampled w') pause_ms t0 (t1 - t0) k (steps ts)"
    using pauses_main_arrivals [OF assms] by blast
  define pauses where "pauses = filter (\<lambda>g. pause_ms \<le> gap_ms g) (steps ts)"
  define kept where "kept = take 12 (longest_first pauses)"
  define rest where "rest = drop 12 (longest_first pauses)"
  have ne: "steps ts \<noteq> []" "diffs ts \<noteq> []"
    using rp gap_ms_steps [of ts] by (auto simp: pause_report_of_def split: if_splits)
  then have len: "length (steps ts) + 1 = length ts"
    using length_steps [of ts] by (cases ts) auto
  have fields: "pz_tokens rp = k" "pz_chunks rp = length ts" "pz_pauses rp = pauses"
    "pz_p50 rp = at_fraction (diffs ts) (1 / 2)" "pz_p90 rp = at_fraction (diffs ts) (9 / 10)"
    "pz_p99 rp = at_fraction (diffs ts) (99 / 100)" "pz_max rp = last (sort (diffs ts))"
    "pz_shown rp = map (\<lambda>g. (fst g - t0, gap_ms g, between (sampled w') (fst g) (fst (snd g)))) kept"
    using rp ne len by (simp_all add: pause_report_of_def Let_def gap_ms_steps pauses_def kept_def half_fraction)
  have "pz_p50 rp \<le> pz_p90 rp" "pz_p90 rp \<le> pz_p99 rp" "pz_p99 rp \<le> pz_max rp"
    unfolding fields by (simp_all add: at_fraction_mono at_fraction_last ne)
  moreover have "pz_max rp = Max (set (diffs ts))"
    unfolding fields using ne by (simp add: last_sort_Max)
  moreover have "mset (pz_pauses rp) = mset (kept @ rest)" "length kept = min 12 (length (pz_pauses rp))"
    by (simp_all add: kept_def rest_def fields longest_mset longest_first_def min.commute del: mset_append)
  moreover have "sorted_wrt (\<lambda>g h. gap_ms h \<le> gap_ms g) kept"
    unfolding kept_def by (rule sorted_wrt_take [OF longest_sorted])
  moreover have "\<forall>g \<in> set kept. \<forall>h \<in> set rest. gap_ms h \<le> gap_ms g"
    unfolding kept_def rest_def using longest_split by blast
  ultimately show ?thesis
    using run fields unfolding pauses_def by blast
qed

definition toy_sampled :: "rat list \<Rightarrow> samples" where
  "toy_sampled w = [(2, [RUNNING \<mapsto> 1]), (5, [RUNNING \<mapsto> 2])]"

definition toy_report :: "(exn + pause_report option) \<times> rat list" where
  "toy_report = pauses_main toy_parse tape (answer_of [''a'', ''b'', ''c'', ''end'']) toy_sampled ''m'' 900 1500 [1, 3, 4, 6, 9, 10]"

lemma toy_report_shape:
  "(case toy_report of (Inr (Some rp), w') \<Rightarrow> w' = [10] \<and> pz_max rp = 2000 \<and> length (pz_pauses rp) = 1 | _ \<Rightarrow> False)"
  by code_simp

lemma pauses_shown_are_the_longest_witness:
  "\<exists>rp. toy_report = (Inr (Some rp), [10]) \<and> pz_max rp = 2000 \<and> length (pz_pauses rp) = 1 \<and> length (pz_shown rp) = 1"
proof -
  obtain rp where rp: "pauses_main toy_parse tape (answer_of [''a'', ''b'', ''c'', ''end'']) toy_sampled ''m'' 900 1500
      [1, 3, 4, 6, 9, 10] = (Inr (Some rp), [10])" "pz_max rp = 2000" "length (pz_pauses rp) = 1"
    using toy_report_shape by (auto simp: toy_report_def split: prod.splits sum.splits option.splits)
  have "length (pz_shown rp) = 1"
    using pauses_shown_are_the_longest [OF rp(1)] rp(3) by auto
  then show ?thesis
    using rp unfolding toy_report_def by blast
qed

end
