(* ===== verification/Eviction.thy ===== *)
theory Eviction
  imports Metrics Kv
begin

section \<open>The retention experiments and the review bench\<close>

text \<open>
  \<open>bench/prefix_eviction.py\<close>, \<open>bench/retention_threshold.py\<close> and \<open>bench/review_bench.py\<close>: each reads
  the counters of the inference server around requests and judges what changed.  \<open>fetch\<close> is one read of
  the metrics page, \<open>post\<close> one request, whose answer is its prompt token count (or the failed lookup).
\<close>

type_synonym 'w page = "'w \<Rightarrow> (exn + string list) \<times> 'w"
type_synonym 'w post = "chat \<Rightarrow> 'w \<Rightarrow> (exn + (exn + int)) \<times> 'w"

definition read_counters :: "(string \<Rightarrow> exn + rat) \<Rightarrow> 'w page \<Rightarrow> string list \<Rightarrow> ('w, counters) prog" where
  "read_counters to_float fetch keys =
     bnd fetch (\<lambda>txts. of_sum (metric_lines to_float keys txts Map.empty))"

text \<open>\<open>after[key] - before[key]\<close>.\<close>

definition growth :: "counters \<Rightarrow> counters \<Rightarrow> string \<Rightarrow> exn + rat" where
  "growth before after key = (case must_get after key of
     Inl e \<Rightarrow> Inl e
   | Inr a \<Rightarrow> (case must_get before key of Inl e \<Rightarrow> Inl e | Inr b \<Rightarrow> Inr (a - b)))"

definition percent :: "rat \<Rightarrow> rat \<Rightarrow> rat" where
  "percent part whole = (if whole \<noteq> 0 then part / whole * 100 else 0)"

definition ask_ok :: "string \<Rightarrow> string \<Rightarrow> nat \<Rightarrow> chat" where
  "ask_ok model txt tokens = \<lparr>ch_model = model, ch_content = txt @ CHR 0x0A # ''Reply with exactly: OK'',
     ch_max_tokens = tokens, ch_stream = False, ch_usage = False\<rparr>"

definition ignored_corpus :: "(nat \<Rightarrow> nat \<Rightarrow> nat list) \<Rightarrow> nat \<Rightarrow> nat \<Rightarrow> string" where
  "ignored_corpus randints words seed = ''Here is a corpus. Ignore it.'' @ CHR 0x0A # corpus randints words seed"

subsection \<open>\<open>prefix_eviction\<close>\<close>

definition EVICTION_KEYS :: "string list" where
  "EVICTION_KEYS = [HITS, QUERIES, KV_USAGE]"

record sent =
  se_elapsed :: rat
  se_prompt :: int
  se_hits :: rat
  se_queries :: rat
  se_kv :: rat

definition eviction_send ::
  "(string \<Rightarrow> exn + rat) \<Rightarrow> ('w \<Rightarrow> rat \<times> 'w) \<Rightarrow> 'w page \<Rightarrow> 'w post \<Rightarrow> string \<Rightarrow> string \<Rightarrow> ('w, sent) prog" where
  "eviction_send to_float clock fetch post model txt =
     bnd (read_counters to_float fetch EVICTION_KEYS) (\<lambda>before.
     bnd (read_clock clock) (\<lambda>t0.
     bnd (post (ask_ok model txt 500)) (\<lambda>usage.
     bnd (read_clock clock) (\<lambda>t1.
     bnd (read_counters to_float fetch EVICTION_KEYS) (\<lambda>after.
     bnd (of_sum (growth before after QUERIES)) (\<lambda>dq.
     bnd (of_sum (growth before after HITS)) (\<lambda>dh.
     bnd (of_sum usage) (\<lambda>tokens.
     bnd (of_sum (must_get after KV_USAGE)) (\<lambda>kv.
     ret \<lparr>se_elapsed = t1 - t0, se_prompt = tokens, se_hits = dh, se_queries = dq, se_kv = kv * 100\<rparr>)))))))))"

primrec send_fillers :: "(nat \<Rightarrow> ('w, sent) prog) \<Rightarrow> nat list \<Rightarrow> ('w, sent list) prog" where
  "send_fillers send [] = ret []"
| "send_fillers send (i # is) = bnd (send i) (\<lambda>s. bnd (send_fillers send is) (\<lambda>ss. ret (s # ss)))"

datatype eviction =
    NoTime
  | Evicted rat rat rat rat
  | Retained rat rat rat

definition eviction_verdict :: "rat \<Rightarrow> rat \<Rightarrow> rat \<Rightarrow> exn + eviction" where
  "eviction_verdict cold warm again =
     (if again > warm * 3 then
        (if warm = 0 then Inl (Exn ZeroDivisionError (Failed ''again / warm'')) else Inr (Evicted cold warm again (again / warm)))
      else Inr (Retained cold warm again))"

definition eviction_main ::
  "(string \<Rightarrow> exn + rat) \<Rightarrow> ('w \<Rightarrow> rat \<times> 'w) \<Rightarrow> 'w page \<Rightarrow> 'w post \<Rightarrow> (nat \<Rightarrow> nat \<Rightarrow> nat list)
    \<Rightarrow> string \<Rightarrow> nat \<Rightarrow> nat \<Rightarrow> ('w, eviction) prog" where
  "eviction_main to_float clock fetch post randints model words fillers =
     (let send = eviction_send to_float clock fetch post model; subject = ignored_corpus randints words 777 in
     bnd (send subject) (\<lambda>cold. bnd (send subject) (\<lambda>warm.
     if se_elapsed cold \<le> 0 then ret NoTime
     else bnd (send_fillers (\<lambda>i. send (ignored_corpus randints words (1000 + i))) [0..<fillers]) (\<lambda>_.
          bnd (send subject) (\<lambda>again.
          of_sum (eviction_verdict (se_elapsed cold) (se_elapsed warm) (se_elapsed again)))))))"

subsection \<open>\<open>retention_threshold\<close>\<close>

definition RETENTION_KEYS :: "string list" where
  "RETENTION_KEYS = [HITS, QUERIES]"

text \<open>The elapsed time, the prompt tokens and the percentage of hits.\<close>

definition retention_send ::
  "(string \<Rightarrow> exn + rat) \<Rightarrow> ('w \<Rightarrow> rat \<times> 'w) \<Rightarrow> 'w page \<Rightarrow> 'w post \<Rightarrow> string \<Rightarrow> string
    \<Rightarrow> ('w, rat \<times> int \<times> rat) prog" where
  "retention_send to_float clock fetch post model txt =
     bnd (read_counters to_float fetch RETENTION_KEYS) (\<lambda>before.
     bnd (read_clock clock) (\<lambda>t0.
     bnd (post (ask_ok model txt 400)) (\<lambda>usage.
     bnd (read_clock clock) (\<lambda>t1.
     bnd (read_counters to_float fetch RETENTION_KEYS) (\<lambda>after.
     bnd (of_sum (growth before after QUERIES)) (\<lambda>dq.
     bnd (of_sum (growth before after HITS)) (\<lambda>dh.
     bnd (of_sum usage) (\<lambda>tokens. ret (t1 - t0, tokens, percent dh dq)))))))))"

text \<open>A line of the table: how many others, their volume, its share of the pool, the time, the hits.\<close>

record shown =
  sh_others :: nat
  sh_volume :: int
  sh_share :: rat
  sh_subject :: rat
  sh_hits :: rat
  sh_warm :: bool

datatype retention =
    NotCaching
  | LostAfter nat rat bool
  | Survived nat

definition share :: "int \<Rightarrow> int \<Rightarrow> exn + rat" where
  "share volume pool = (if pool = 0 then Inl (Exn ZeroDivisionError (Failed ''volume / pool''))
     else Inr (of_int volume / of_int pool * 100))"

primrec retention_loop ::
  "(nat \<Rightarrow> ('w, rat \<times> int \<times> rat) prog) \<Rightarrow> ('w, rat \<times> int \<times> rat) prog \<Rightarrow> rat \<Rightarrow> int \<Rightarrow> int \<Rightarrow> nat \<Rightarrow> nat list
    \<Rightarrow> ('w, shown list \<times> retention) prog" where
  "retention_loop filler subject cold tokens pool fillers [] = ret ([], Survived fillers)"
| "retention_loop filler subject cold tokens pool fillers (n # ns) =
     bnd (filler n) (\<lambda>_. bnd subject (\<lambda>(again, _, hit).
     let volume = int n * tokens; warm = again < cold * (1 / 2) in
     bnd (of_sum (share volume pool)) (\<lambda>part.
     let row = \<lparr>sh_others = n, sh_volume = volume, sh_share = part, sh_subject = again, sh_hits = hit, sh_warm = warm\<rparr> in
     if \<not> warm then ret ([row], LostAfter n part (of_int volume < of_int pool * (1 / 2 :: rat)))
     else bnd (retention_loop filler subject cold tokens pool fillers ns) (\<lambda>(rows, res). ret (row # rows, res)))))"

definition retention_main ::
  "(string \<Rightarrow> exn + rat) \<Rightarrow> ('w \<Rightarrow> rat \<times> 'w) \<Rightarrow> 'w page \<Rightarrow> 'w post \<Rightarrow> (nat \<Rightarrow> nat \<Rightarrow> nat list)
    \<Rightarrow> string \<Rightarrow> nat \<Rightarrow> nat \<Rightarrow> int \<Rightarrow> ('w, shown list \<times> retention) prog" where
  "retention_main to_float clock fetch post randints model words fillers pool =
     (let send = retention_send to_float clock fetch post model; subject = ignored_corpus randints words 424242 in
     bnd (send subject) (\<lambda>(cold, tokens, _). bnd (send subject) (\<lambda>(warm, _, hit).
     if warm > cold * (1 / 2) then ret ([], NotCaching)
     else if tokens = 0 then raise (Exn ZeroDivisionError (Failed ''pool // tokens''))
     else retention_loop (\<lambda>n. send (ignored_corpus randints words (90000 + n))) (send subject) cold tokens pool fillers
         [1..<fillers + 1])))"

subsection \<open>\<open>review_bench\<close>\<close>

definition REVIEW_KEYS :: "string list" where
  "REVIEW_KEYS = [PROMPT_TOTAL, GEN_TOTAL, TTFT_SUM, TTFT_COUNT, DECODE_SUM, HITS, QUERIES, RUNNING, PREEMPTIONS, KV_USAGE]"

text \<open>A page that cannot be had counts as no counters at all.\<close>

definition review_metrics :: "(string \<Rightarrow> exn + rat) \<Rightarrow> 'w page \<Rightarrow> ('w, counters) prog" where
  "review_metrics to_float fetch =
     bnd (handle (bnd fetch (\<lambda>txts. ret (Some txts))) is_exception (\<lambda>e. ret None)) (\<lambda>txts.
     case txts of None \<Rightarrow> ret Map.empty | Some ls \<Rightarrow> of_sum (metric_lines to_float REVIEW_KEYS ls Map.empty))"

record watcher =
  wa_peak :: rat
  wa_kv_peak :: rat

definition watcher_start :: watcher where
  "watcher_start = \<lparr>wa_peak = 0, wa_kv_peak = 0\<rparr>"

definition watcher_turn :: "(string \<Rightarrow> exn + rat) \<Rightarrow> 'w page \<Rightarrow> watcher \<Rightarrow> ('w, watcher) prog" where
  "watcher_turn to_float fetch s = bnd (review_metrics to_float fetch) (\<lambda>m.
     ret \<lparr>wa_peak = max (wa_peak s) (get_or0 m RUNNING), wa_kv_peak = max (wa_kv_peak s) (get_or0 m KV_USAGE)\<rparr>)"

record review =
  rv_idx :: nat
  rv_rc :: int
  rv_wall :: rat
  rv_bytes :: nat
  rv_path :: string

text \<open>\<open>call\<close> opens the output, runs the review into it and closes it; \<open>getsize\<close> asks for its length.\<close>

definition run_one ::
  "('w \<Rightarrow> rat \<times> 'w) \<Rightarrow> (string \<Rightarrow> 'w \<Rightarrow> (exn + int) \<times> 'w) \<Rightarrow> (string \<Rightarrow> 'w \<Rightarrow> (exn + nat) \<times> 'w)
    \<Rightarrow> (string \<Rightarrow> string \<Rightarrow> string) \<Rightarrow> nat \<Rightarrow> string \<Rightarrow> ('w, review) prog" where
  "run_one clock call getsize join idx outdir =
     (let path = join outdir (''review_'' @ show_nat idx @ ''.txt'') in
     bnd (read_clock clock) (\<lambda>t0. bnd (call path) (\<lambda>rc. bnd (read_clock clock) (\<lambda>t1. bnd (getsize path) (\<lambda>n.
     ret \<lparr>rv_idx = idx, rv_rc = rc, rv_wall = t1 - t0, rv_bytes = n, rv_path = path\<rparr>)))))"

record findings =
  fi_severity :: "(string \<times> nat) list"
  fi_confirmed :: bool
  fi_discarded :: bool
  fi_citations :: nat

text \<open>\<open>matches pattern ignore_case text\<close> is the number of matches.\<close>

definition count_findings ::
  "(string \<Rightarrow> bool \<Rightarrow> string \<Rightarrow> nat) \<Rightarrow> (string \<Rightarrow> 'w \<Rightarrow> (exn + string) \<times> 'w) \<Rightarrow> string \<Rightarrow> ('w, findings option) prog" where
  "count_findings matches read_text path =
     bnd (handle (bnd (read_text path) (\<lambda>s. ret (Some s))) is_os_error (\<lambda>e. ret None)) (\<lambda>txt.
     ret (map_option (\<lambda>s. \<lparr>fi_severity = map (\<lambda>v. (v, matches (CHR 0x5C # CHR ''['' # v) True s)) [''HIGH'', ''MEDIUM'', ''LOW''],
       fi_confirmed = (0 < matches ''CONFIRMED'' False s), fi_discarded = (0 < matches ''DISCARD'' True s),
       fi_citations = matches (CHR 0x5C # ''w+'' @ CHR 0x5C # ''.(?:sol|ts|sh|md):'' @ CHR 0x5C # ''d+'') False s\<rparr>) txt))"

text \<open>\<open>round(x, n)\<close> with \<open>p = 10 ^ n\<close>: to the nearest, ties to even.\<close>

definition round_half_even :: "rat \<Rightarrow> int" where
  "round_half_even x = (let d = x - of_int \<lfloor>x\<rfloor> in
     if d < 1 / 2 \<or> d = 1 / 2 \<and> even \<lfloor>x\<rfloor> then \<lfloor>x\<rfloor> else \<lfloor>x\<rfloor> + 1)"

definition rounded :: "nat \<Rightarrow> rat \<Rightarrow> rat" where
  "rounded n x = of_int (round_half_even (x * 10 ^ n)) / 10 ^ n"

definition since :: "counters \<Rightarrow> counters \<Rightarrow> string \<Rightarrow> rat" where
  "since before after key = get_or0 after key - get_or0 before key"

record ledger_row =
  lr_parallel :: nat
  lr_wall :: rat
  lr_slowest :: rat
  lr_requests :: int
  lr_prompt :: int
  lr_generated :: int
  lr_ttft_mean :: "rat option"
  lr_decode_ms :: "rat option"
  lr_gen_rate :: "rat option"
  lr_hit_pct :: "rat option"
  lr_peak :: rat
  lr_kv_peak :: rat
  lr_preemptions :: int
  lr_reviews :: "(review \<times> findings option) list"

definition ledger_row_of ::
  "counters \<Rightarrow> counters \<Rightarrow> watcher \<Rightarrow> rat \<Rightarrow> review option list \<Rightarrow> (review \<times> findings option) list \<Rightarrow> ledger_row" where
  "ledger_row_of before after s wall results reviews =
     (let d = since before after; gen = d GEN_TOTAL; dec = d DECODE_SUM; ttft_s = d TTFT_SUM; ttft_c = d TTFT_COUNT;
          hits = d HITS; queries = d QUERIES
      in \<lparr>lr_parallel = length results, lr_wall = rounded 1 wall,
          lr_slowest = rounded 1 (Max (set (map rv_wall (map the (filter (\<lambda>r. r \<noteq> None) results))))),
          lr_requests = py_trunc ttft_c, lr_prompt = py_trunc (d PROMPT_TOTAL), lr_generated = py_trunc gen,
          lr_ttft_mean = (if ttft_c \<noteq> 0 then Some (rounded 2 (ttft_s / ttft_c)) else None),
          lr_decode_ms = (if gen \<noteq> 0 then Some (rounded 2 (dec / gen * 1000)) else None),
          lr_gen_rate = (if wall \<noteq> 0 then Some (rounded 1 (gen / wall)) else None),
          lr_hit_pct = (if queries \<noteq> 0 then Some (rounded 1 (hits / queries * 100)) else None),
          lr_peak = wa_peak s, lr_kv_peak = rounded 1 (wa_kv_peak s * 100), lr_preemptions = py_trunc (d PREEMPTIONS),
          lr_reviews = reviews\<rparr>)"

primrec judged ::
  "(string \<Rightarrow> ('w, findings option) prog) \<Rightarrow> review option list \<Rightarrow> ('w, (review \<times> findings option) list) prog" where
  "judged findings_of [] = ret []"
| "judged findings_of (r # rs) = (case r of
      None \<Rightarrow> judged findings_of rs
    | Some v \<Rightarrow> bnd (findings_of (rv_path v)) (\<lambda>f. bnd (judged findings_of rs) (\<lambda>vs. ret ((v, f) # vs))))"

text \<open>
  \<open>main\<close>: the reviews run in threads, of which \<open>run_all\<close> gives what each has left in \<open>results\<close> when all are
  joined (nothing, if it raised), and \<open>watched\<close> what the watcher has seen.
\<close>

definition review_main ::
  "(string \<Rightarrow> exn + rat) \<Rightarrow> ('w \<Rightarrow> rat \<times> 'w) \<Rightarrow> 'w page \<Rightarrow> (nat \<Rightarrow> 'w \<Rightarrow> (exn + review option list) \<times> 'w) \<Rightarrow> ('w \<Rightarrow> watcher)
    \<Rightarrow> (string \<Rightarrow> ('w, findings option) prog) \<Rightarrow> nat \<Rightarrow> ('w, ledger_row) prog" where
  "review_main to_float clock fetch run_all watched findings_of parallel =
     bnd (review_metrics to_float fetch) (\<lambda>before.
     bnd (read_clock clock) (\<lambda>t0. bnd (run_all parallel) (\<lambda>results. bnd (read_clock clock) (\<lambda>t1.
     bnd (review_metrics to_float fetch) (\<lambda>after.
     if \<forall>r \<in> set results. r = None then raise (Exn ValueError (Failed ''max() arg is an empty sequence''))
     else bnd (gets watched) (\<lambda>s. bnd (judged findings_of results) (\<lambda>reviews.
       ret (ledger_row_of before after s (t1 - t0) results reviews))))))))"

subsection \<open>The verdicts\<close>

lemma share_Inr: "share volume pool = Inr part \<Longrightarrow> pool \<noteq> 0 \<and> part = of_int volume / of_int pool * 100"
  by (auto simp: share_def split: if_splits)

definition table_row :: "nat \<Rightarrow> int \<Rightarrow> rat \<Rightarrow> rat \<Rightarrow> rat \<Rightarrow> rat \<Rightarrow> shown" where
  "table_row n tokens part again hit cold = \<lparr>sh_others = n, sh_volume = int n * tokens, sh_share = part, sh_subject = again,
     sh_hits = hit, sh_warm = again < cold * (1 / 2)\<rparr>"

text \<open>
  The lines as they come about: for each, the filler of its number is sent, then the subject, whose time
  and hits are the line's; the worlds are chained, so no other request comes in between.
\<close>

primrec turns ::
  "(nat \<Rightarrow> ('w, 'f) prog) \<Rightarrow> ('w, rat \<times> int \<times> rat) prog \<Rightarrow> 'w \<Rightarrow> shown list \<Rightarrow> 'w \<Rightarrow> bool" where
  "turns filler subject w [] w' \<longleftrightarrow> w' = w"
| "turns filler subject w (r # rs) w' \<longleftrightarrow>
     (\<exists>f v tok u. filler (sh_others r) w = (Inr f, v) \<and> subject v = (Inr (sh_subject r, tok, sh_hits r), u) \<and>
        turns filler subject u rs w')"

lemma retention_turn:
  assumes "retention_loop filler subject cold tokens pool fillers (n # ns) w = (Inr (lns, res), w')"
  obtains f v again tk hit w2 part where "filler n w = (Inr f, v)" "subject v = (Inr (again, tk, hit), w2)"
    "share (int n * tokens) pool = Inr part"
    and "again < cold * (1 / 2) \<Longrightarrow> \<exists>lns'.
      retention_loop filler subject cold tokens pool fillers ns w2 = (Inr (lns', res), w') \<and>
      lns = table_row n tokens part again hit cold # lns'"
    and "\<not> again < cold * (1 / 2) \<Longrightarrow> lns = [table_row n tokens part again hit cold] \<and> w' = w2 \<and>
      res = LostAfter n part (of_int (int n * tokens) < of_int pool * (1 / 2 :: rat))"
proof -
  obtain f v again tk hit w2 where sends: "filler n w = (Inr f, v)" "subject v = (Inr (again, tk, hit), w2)"
    and t: "(let volume = int n * tokens; warm = again < cold * (1 / 2) in
     bnd (of_sum (share volume pool)) (\<lambda>part.
     let row = \<lparr>sh_others = n, sh_volume = volume, sh_share = part, sh_subject = again, sh_hits = hit, sh_warm = warm\<rparr> in
     if \<not> warm then ret ([row], LostAfter n part (of_int volume < of_int pool * (1 / 2 :: rat)))
     else bnd (retention_loop filler subject cold tokens pool fillers ns) (\<lambda>(rows, res). ret (row # rows, res)))) w2
     = (Inr (lns, res), w')"
    using assms unfolding retention_loop.simps by (elim bnd_InrE) (simp only: split_paired_all prod.case)
  then obtain part where part: "share (int n * tokens) pool = Inr part"
    and u: "(if \<not> again < cold * (1 / 2) then ret ([table_row n tokens part again hit cold],
        LostAfter n part (of_int (int n * tokens) < of_int pool * (1 / 2 :: rat)))
     else bnd (retention_loop filler subject cold tokens pool fillers ns)
       (\<lambda>(rows, res). ret (table_row n tokens part again hit cold # rows, res))) w2 = (Inr (lns, res), w')"
    unfolding Let_def table_row_def by (elim bnd_InrE) (simp add: of_sum_run del: less_divide_eq_numeral1)
  show ?thesis
  proof (rule that [OF sends part])
    assume "again < cold * (1 / 2)"
    then show "\<exists>lns'. retention_loop filler subject cold tokens pool fillers ns w2 = (Inr (lns', res), w') \<and>
      lns = table_row n tokens part again hit cold # lns'"
      using u unfolding if_not_P [OF not_not [THEN iffD2]] by (auto simp: bnd_def ret_def split: prod.splits sum.splits)
  next
    assume "\<not> again < cold * (1 / 2)"
    then show "lns = [table_row n tokens part again hit cold] \<and> w' = w2 \<and>
      res = LostAfter n part (of_int (int n * tokens) < of_int pool * (1 / 2 :: rat))"
      using u by (simp only: if_True not_False_eq_True) (simp add: ret_def)
  qed
qed

lemma below_half: "(of_int v < of_int pool * (1 / 2 :: rat)) \<longleftrightarrow> 2 * v < pool"
proof -
  have "(of_int v < of_int pool * (1 / 2 :: rat)) \<longleftrightarrow> (of_int (2 * v) < (of_int pool :: rat))"
    by auto
  then show ?thesis
    by (simp only: of_int_less_iff)
qed

lemma retention_loop_turns:
  assumes "retention_loop filler subject cold tokens pool fillers ns w = (Inr (lns, res), w')"
  shows "turns filler subject w lns w' \<and>
    (\<forall>r \<in> set lns. pool \<noteq> 0 \<and> sh_share r = of_int (sh_volume r) / of_int pool * 100)"
  using assms
proof (induction ns arbitrary: w lns)
  case Nil
  then show ?case
    by (simp add: ret_def)
next
  case (Cons n ns)
  from Cons.prems show ?case
  proof (rule retention_turn)
    fix f v again tk hit w2 part
    let ?row = "table_row n tokens part again hit cold"
    assume sends: "filler n w = (Inr f, v)" "subject v = (Inr (again, tk, hit), w2)"
      and part: "share (int n * tokens) pool = Inr part"
      and on: "again < cold * (1 / 2) \<Longrightarrow> \<exists>lns'.
        retention_loop filler subject cold tokens pool fillers ns w2 = (Inr (lns', res), w') \<and> lns = ?row # lns'"
      and off: "\<not> again < cold * (1 / 2) \<Longrightarrow> lns = [?row] \<and> w' = w2 \<and>
        res = LostAfter n part (of_int (int n * tokens) < of_int pool * (1 / 2 :: rat))"
    have row: "pool \<noteq> 0 \<and> sh_share ?row = of_int (sh_volume ?row) / of_int pool * 100"
      using share_Inr [OF part] by (simp add: table_row_def)
    have turn: "turns filler subject w (?row # rs) w' \<longleftrightarrow> turns filler subject w2 rs w'" for rs
      using sends by (cases f) (simp add: table_row_def)
    show ?thesis
    proof (cases "again < cold * (1 / 2)")
      case False
      then show ?thesis
        using off [OF False] row turn [of "[]"] by simp
    next
      case True
      then obtain lns' where lns': "retention_loop filler subject cold tokens pool fillers ns w2 = (Inr (lns', res), w')"
        "lns = ?row # lns'"
        using on by blast
      then show ?thesis
        using Cons.IH [OF lns'(1)] row turn [of lns'] by simp
    qed
  qed
qed

lemma retention_loop_rows:
  assumes "retention_loop filler subject cold tokens pool fillers ns w = (Inr (lns, res), w')"
  shows "(\<forall>r \<in> set lns. sh_volume r = int (sh_others r) * tokens \<and> (sh_warm r \<longleftrightarrow> sh_subject r < cold / 2)) \<and>
    (res = Survived fillers \<and> map sh_others lns = ns \<and> (\<forall>r \<in> set lns. sh_warm r) \<or>
     (\<exists>warm row. lns = warm @ [row] \<and> map sh_others lns = take (length lns) ns \<and> (\<forall>r \<in> set warm. sh_warm r) \<and>
        \<not> sh_warm row \<and> res = LostAfter (sh_others row) (sh_share row) (2 * sh_volume row < pool)))"
  using assms
proof (induction ns arbitrary: w lns)
  case Nil
  then show ?case
    by (simp add: ret_def)
next
  case (Cons n ns)
  from Cons.prems show ?case
  proof (rule retention_turn)
    fix f v again tk hit w2 part
    let ?row = "table_row n tokens part again hit cold"
    assume on: "again < cold * (1 / 2) \<Longrightarrow> \<exists>lns'.
        retention_loop filler subject cold tokens pool fillers ns w2 = (Inr (lns', res), w') \<and> lns = ?row # lns'"
      and off: "\<not> again < cold * (1 / 2) \<Longrightarrow> lns = [?row] \<and> w' = w2 \<and>
        res = LostAfter n part (of_int (int n * tokens) < of_int pool * (1 / 2 :: rat))"
    show ?thesis
    proof (cases "again < cold * (1 / 2)")
      case False
      then show ?thesis
        using off [OF False, unfolded below_half] by (simp add: table_row_def)
    next
      case True
      obtain lns' where lns': "retention_loop filler subject cold tokens pool fillers ns w2 = (Inr (lns', res), w')"
        "lns = ?row # lns'"
        using on [OF True] by blast
      have row: "sh_volume ?row = int n * tokens" "sh_others ?row = n" "sh_warm ?row" "sh_subject ?row < cold / 2"
        using True by (simp_all add: table_row_def)
      note ih = Cons.IH [OF lns'(1)]
      show ?thesis
      proof (cases "res = Survived fillers \<and> map sh_others lns' = ns \<and> (\<forall>r \<in> set lns'. sh_warm r)")
        case True
        then show ?thesis
          using ih row by (simp add: lns'(2))
      next
        case False
        then obtain warm last_row where last: "lns' = warm @ [last_row]" "map sh_others lns' = take (length lns') ns"
          "\<forall>r \<in> set warm. sh_warm r" "\<not> sh_warm last_row"
          "res = LostAfter (sh_others last_row) (sh_share last_row) (2 * sh_volume last_row < pool)"
          using ih by blast
        have "lns = (?row # warm) @ [last_row]" "map sh_others lns = take (length lns) (n # ns)"
          "\<forall>r \<in> set (?row # warm). sh_warm r"
          using row last(2,3) by (simp_all add: lns'(2) last(1) del: upt_Suc)
        moreover have "\<forall>r \<in> set lns. sh_volume r = int (sh_others r) * tokens \<and> (sh_warm r \<longleftrightarrow> sh_subject r < cold / 2)"
          using ih row unfolding lns'(2) by simp
        ultimately show ?thesis
          using last(4,5) by blast
      qed
    qed
  qed
qed

lemma retention_main_loop:
  assumes "retention_main to_float clock fetch post randints model words fillers pool w = (Inr (lns, res), w')"
  shows "\<exists>cold tokens hit w0 warm z z' w1. retention_send to_float clock fetch post model (ignored_corpus randints words 424242) w
        = (Inr (cold, tokens, hit), w0) \<and>
      retention_send to_float clock fetch post model (ignored_corpus randints words 424242) w0 = (Inr (warm, z, z'), w1) \<and>
      (if warm > cold * (1 / 2) then lns = [] \<and> res = NotCaching \<and> w' = w1
       else retention_loop (\<lambda>n. retention_send to_float clock fetch post model (ignored_corpus randints words (90000 + n)))
         (retention_send to_float clock fetch post model (ignored_corpus randints words 424242)) cold tokens pool fillers
         [1..<fillers + 1] w1 = (Inr (lns, res), w'))"
  using assms unfolding retention_main_def Let_def
  by (elim bnd_InrE) (auto simp: ret_def raise_def bnd_def split: prod.splits sum.splits if_splits)

text \<open>
  C40. The verdict of \<open>retention_threshold\<close>: when the second sending took more than half the time of the
  first, it reports that nothing is cached.  Otherwise its lines are for 1, 2, ... other requests in
  turn: before each, the prompt of its number is sent, then the subject again and nothing else, and the
  time and the hits of the line are what that sending of the subject gave.  A line has that many prompts
  of volume, its share is that volume in percent of the pool, and it is marked warm exactly if the
  subject took less than half its cold time; the loss is reported at the first line that is not warm, with its share of the
  pool, and blamed on something other than capacity exactly if the volume is under half the pool; and
  survival is reported only if all the lines up to the limit are warm.
\<close>

theorem threshold_is_the_first_loss:
  assumes "retention_main to_float clock fetch post randints model words fillers pool w = (Inr (lns, res), w')"
  shows "\<exists>cold tokens hit w0 warm z z' w1. retention_send to_float clock fetch post model (ignored_corpus randints words 424242) w
        = (Inr (cold, tokens, hit), w0) \<and>
      retention_send to_float clock fetch post model (ignored_corpus randints words 424242) w0 = (Inr (warm, z, z'), w1) \<and>
      (res = NotCaching \<longleftrightarrow> warm > cold / 2) \<and> length lns \<le> fillers \<and> map sh_others lns = [1..<length lns + 1] \<and>
      turns (\<lambda>n. retention_send to_float clock fetch post model (ignored_corpus randints words (90000 + n)))
        (retention_send to_float clock fetch post model (ignored_corpus randints words 424242)) w1 lns w' \<and>
      (\<forall>r \<in> set lns. pool \<noteq> 0 \<and> sh_share r = of_int (sh_volume r) / of_int pool * 100) \<and>
      (\<forall>r \<in> set lns. sh_volume r = int (sh_others r) * tokens \<and> (sh_warm r \<longleftrightarrow> sh_subject r < cold / 2)) \<and>
      (\<forall>n part few. res = LostAfter n part few \<longrightarrow> n = length lns \<and> 0 < n \<and> \<not> sh_warm (last lns) \<and>
         (\<forall>r \<in> set (butlast lns). sh_warm r) \<and> part = sh_share (last lns) \<and> (few \<longleftrightarrow> 2 * (int n * tokens) < pool)) \<and>
      (\<forall>n. res = Survived n \<longrightarrow> n = fillers \<and> length lns = fillers \<and> (\<forall>r \<in> set lns. sh_warm r))"
proof -
  obtain cold tokens hit w0 warm z z' w1 where send: "retention_send to_float clock fetch post model (ignored_corpus randints words 424242) w
        = (Inr (cold, tokens, hit), w0)"
      "retention_send to_float clock fetch post model (ignored_corpus randints words 424242) w0 = (Inr (warm, z, z'), w1)"
    and rest: "if warm > cold * (1 / 2) then lns = [] \<and> res = NotCaching \<and> w' = w1
       else retention_loop (\<lambda>n. retention_send to_float clock fetch post model (ignored_corpus randints words (90000 + n)))
         (retention_send to_float clock fetch post model (ignored_corpus randints words 424242)) cold tokens pool fillers
         [1..<fillers + 1] w1 = (Inr (lns, res), w')"
    using retention_main_loop [OF assms] by blast
  show ?thesis
  proof (cases "warm > cold / 2")
    case True
    then show ?thesis
      using send rest by auto
  next
    case False
    then have loop: "retention_loop (\<lambda>n. retention_send to_float clock fetch post model (ignored_corpus randints words (90000 + n)))
         (retention_send to_float clock fetch post model (ignored_corpus randints words 424242)) cold tokens pool fillers
         [1..<fillers + 1] w1 = (Inr (lns, res), w')"
      using rest by simp
    note lines = retention_loop_rows [OF loop] and turn = retention_loop_turns [OF loop]
    have others: "map sh_others lns = take (length lns) [1..<fillers + 1]"
      using lines by (metis length_map order_refl take_all)
    then have len: "length lns \<le> fillers"
      by (metis add_diff_cancel_right' length_map length_take length_upt min.cobounded1 min.commute)
    then have upto: "map sh_others lns = [1..<length lns + 1]"
      using others by (simp add: take_upt del: upt_Suc)
    have at_end: "sh_others row = length lns" if "lns = init @ [row]" for init row
    proof -
      have "last (map sh_others lns) = length lns"
        unfolding upto using that by simp
      then show ?thesis
        using that by simp
    qed
    have lost: "n = length lns \<and> 0 < n \<and> \<not> sh_warm (last lns) \<and> (\<forall>r \<in> set (butlast lns). sh_warm r) \<and>
        part = sh_share (last lns) \<and> (few \<longleftrightarrow> 2 * (int n * tokens) < pool)" if loss: "res = LostAfter n part few" for n part few
    proof -
      obtain init row where row: "lns = init @ [row]" "\<forall>r \<in> set init. sh_warm r" "\<not> sh_warm row" "n = sh_others row"
        "part = sh_share row" "few \<longleftrightarrow> 2 * sh_volume row < pool"
        using lines by (simp only: loss retention.distinct retention.inject simp_thms) blast
      moreover have "sh_volume row = int (sh_others row) * tokens"
        using lines row(1) by simp
      ultimately show ?thesis
        using at_end [OF row(1)] by simp
    qed
    have survived: "n = fillers \<and> length lns = fillers \<and> (\<forall>r \<in> set lns. sh_warm r)" if "res = Survived n" for n
    proof -
      have "map sh_others lns = [1..<fillers + 1] \<and> n = fillers \<and> (\<forall>r \<in> set lns. sh_warm r)"
        using lines by (simp only: that retention.distinct retention.inject simp_thms) blast
      then show ?thesis
        using upto by (metis add_diff_cancel_right' length_map length_upt)
    qed
    have "res \<noteq> NotCaching"
      using lines by (elim conjE disjE exE) simp_all
    then show ?thesis
      using send False len upto conjunct1 [OF lines] conjunct1 [OF turn] conjunct2 [OF turn] lost survived by blast
  qed
qed

definition two_lines :: "rat list \<Rightarrow> (exn + string list) \<times> rat list" where
  "two_lines w = (Inr [HITS @ '' 1'', QUERIES @ '' 2''], w)"

definition twenty_tokens :: "chat \<Rightarrow> rat list \<Rightarrow> (exn + (exn + int)) \<times> rat list" where
  "twenty_tokens request w = (Inr (Inr 20), w)"

definition next_time :: "rat list \<Rightarrow> rat \<times> rat list" where
  "next_time w = (hd w, tl w)"

definition two_fillers :: "(exn + shown list \<times> retention) \<times> rat list" where
  "two_fillers = retention_main (\<lambda>s. Inr 0) next_time two_lines twenty_tokens (\<lambda>seed n. []) ''m'' 0 5 1000
     [0, 10, 10, 11, 11, 20, 20, 21, 21, 30, 30, 39]"

lemma toy_page:
  "\<exists>m. metric_lines (\<lambda>s. Inr 0) RETENTION_KEYS [HITS @ '' 1'', QUERIES @ '' 2''] Map.empty = Inr m \<and> m HITS = Some 0 \<and> m QUERIES = Some 0"
proof -
  have "case metric_lines (\<lambda>s. Inr 0) RETENTION_KEYS [HITS @ '' 1'', QUERIES @ '' 2''] Map.empty of
      Inl e \<Rightarrow> False | Inr m \<Rightarrow> m HITS = Some 0 \<and> m QUERIES = Some 0"
    by code_simp
  then show ?thesis
    by (auto split: sum.splits)
qed

lemma toy_send:
  "retention_send (\<lambda>s. Inr 0) next_time two_lines twenty_tokens ''m'' txt w = (Inr (hd (tl w) - hd w, 20, 0), tl (tl w))"
proof -
  obtain m where m: "metric_lines (\<lambda>s. Inr 0) RETENTION_KEYS [HITS @ '' 1'', QUERIES @ '' 2''] Map.empty = Inr m"
    "m HITS = Some 0" "m QUERIES = Some 0"
    using toy_page by blast
  show ?thesis
    by (simp add: retention_send_def read_counters_def two_lines_def m bnd_def of_sum_def ret_def read_clock_def next_time_def
        twenty_tokens_def growth_def must_get_def percent_def del: metric_lines.simps)
qed

lemma two_fillers_run:
  "(case two_fillers of (Inr (lns, res), w') \<Rightarrow> w' = [] \<and> res = LostAfter 2 4 True | _ \<Rightarrow> False)"
  by (simp add: two_fillers_def retention_main_def toy_send bnd_def ret_def of_sum_def share_def upt_rec Let_def)

lemma threshold_is_the_first_loss_witness:
  "\<exists>lns. two_fillers = (Inr (lns, LostAfter 2 4 True), []) \<and> length lns = 2 \<and> \<not> sh_warm (last lns) \<and>
     (\<forall>r \<in> set (butlast lns). sh_warm r) \<and> sh_share (last lns) = 4"
proof -
  obtain lns where lns: "two_fillers = (Inr (lns, LostAfter 2 4 True), [])"
    using two_fillers_run by (auto split: prod.splits sum.splits)
  then show ?thesis
    using threshold_is_the_first_loss [OF lns [unfolded two_fillers_def]] by auto
qed

text \<open>
  A metrics page that cannot be had after the reviews counts as no counters: the ledger row is written
  all the same, with the counters of before taken away from nothing.
\<close>

lemma failed_scrape_counts_backwards:
  assumes "before GEN_TOTAL = Some (of_nat n)"
  shows "lr_generated (ledger_row_of before Map.empty s wall results reviews) = - int n"
  using assms by (simp add: ledger_row_of_def Let_def since_def get_or0_def py_trunc_def ceiling_minus)

end
