(* ===== verification/Typed.thy ===== *)
theory Typed
  imports Session
begin

section \<open>The types the buffers keep, whatever arrives\<close>

text \<open>
  Nothing is assumed of the network here: servers may send what they like.  The buffers of a peer hold
  the capacity on record, ids and the pending request fit their field, staged rows have the width of
  the table; every operation keeps it so, and a gather that returns gives rows of that width, one for
  each id.
\<close>

subsection \<open>Programs that keep a predicate of the object\<close>

definition kept :: "('x \<Rightarrow> bool) \<Rightarrow> ('x \<times> 'w, 'a) prog \<Rightarrow> bool" where
  "kept P m \<longleftrightarrow> (\<forall>s. P (fst s) \<longrightarrow> P (fst (snd (m s))))"

named_theorems keeping \<open>programs that keep a predicate\<close>

lemma keptD: "kept P m \<Longrightarrow> P (fst s) \<Longrightarrow> m s = (r, s') \<Longrightarrow> P (fst s')"
  by (metis kept_def snd_conv)

lemma keptI: "(\<And>s r s'. P (fst s) \<Longrightarrow> m s = (r, s') \<Longrightarrow> P (fst s')) \<Longrightarrow> kept P m"
  unfolding kept_def by (metis prod.collapse)

lemma kept_ret [keeping]: "kept P (ret x)" and kept_raise [keeping]: "kept P (raise e)"
  by (simp_all add: kept_def ret_run raise_run)

lemma kept_gets [keeping]: "kept P (gets f)"
  by (simp add: kept_def)

lemma kept_io [keeping]: "kept P (io f)"
  by (simp add: kept_def io_def split: prod.split)

lemma kept_now [keeping]: "kept P (now E)" and kept_sleep [keeping]: "kept P (sleep E d)"
  by (simp_all add: now_def sleep_def kept_io)

lemma kept_of_sum [keeping]: "kept P (of_sum r)"
  by (simp add: kept_def of_sum_run)

lemma kept_upd: "(\<And>x. P x \<Longrightarrow> P (f x)) \<Longrightarrow> kept P (upd f)"
  by (simp add: kept_def)

lemma kept_bnd_of_sum: "(\<And>x. r = Inr x \<Longrightarrow> kept P (f x)) \<Longrightarrow> kept P (bnd (of_sum r) f)"
  by (cases r) (auto simp: kept_def bnd_def of_sum_run)

lemma kept_bnd: "kept P m \<Longrightarrow> (\<And>x. kept P (f x)) \<Longrightarrow> kept P (bnd m f)"
  by (rule keptI) (auto simp: bnd_def split: prod.splits sum.splits dest: keptD)

lemma kept_seq: "kept P m \<Longrightarrow> kept P n \<Longrightarrow> kept P (seq m n)"
  by (simp add: seq_def kept_bnd)

lemma kept_if: "kept P m \<Longrightarrow> kept P n \<Longrightarrow> kept P (if b then m else n)"
  by simp

lemma kept_case_option: "kept P m \<Longrightarrow> (\<And>x. kept P (f x)) \<Longrightarrow> kept P (case z of None \<Rightarrow> m | Some x \<Rightarrow> f x)"
  by (simp split: option.split)

lemma kept_handle: "kept P m \<Longrightarrow> (\<And>e. kept P (h e)) \<Longrightarrow> kept P (handle m c h)"
  by (rule keptI) (auto simp: handle_def split: prod.splits sum.splits if_splits dest: keptD)

lemma kept_ensure: "kept P m \<Longrightarrow> (\<And>s. P (fst s) \<Longrightarrow> P (fst (f s))) \<Longrightarrow> kept P (ensure m f)"
  by (rule keptI) (auto simp: ensure_def split: prod.splits; metis fst_conv keptD)

lemma kept_each: "(\<And>x. x \<in> set xs \<Longrightarrow> kept P (f x)) \<Longrightarrow> kept P (each xs f)"
  by (induction xs) (simp_all add: kept_ret kept_seq)

lemma kept_collect: "(\<And>x. kept P (f x)) \<Longrightarrow> kept P (collect xs f)"
  by (induction xs) (simp_all add: kept_ret kept_bnd)

lemma kept_with_sock: "(\<And>k. kept P (f k)) \<Longrightarrow> kept P (with_sock f)"
  unfolding with_sock_def by (intro kept_bnd kept_gets kept_case_option kept_raise)

lemmas kept_intros = kept_seq kept_bnd kept_if kept_case_option kept_handle kept_with_sock kept_upd

subsection \<open>A peer with its buffers\<close>

definition typed_peer :: "nat \<Rightarrow> nat \<Rightarrow> peer \<Rightarrow> bool" where
  "typed_peer c b p \<longleftrightarrow> cap p = c \<and> row_bytes p = b \<and> length (req_ids p) = c \<and> length (rows p) = c * b \<and>
     (\<forall>x \<in> set (req_ids p). x < 2 ^ 32) \<and> (\<forall>r. pending p = Some r \<longrightarrow> r < 2 ^ 32)"

lemma typed_peer_plain [simp]:
  "typed_peer c b (p\<lparr>armed := x\<rparr>) = typed_peer c b p" "typed_peer c b (p\<lparr>deadline := d\<rparr>) = typed_peer c b p"
  "typed_peer c b (p\<lparr>answered := a\<rparr>) = typed_peer c b p" "typed_peer c b (p\<lparr>addr := ad\<rparr>) = typed_peer c b p"
  "typed_peer c b (p\<lparr>sock := so, timeout := tm\<rparr>) = typed_peer c b p"
  "typed_peer c b (p\<lparr>rd_want := wt, rd_got := g\<rparr>) = typed_peer c b p"
  "typed_peer c b (note_stat st p) = typed_peer c b p"
  by (simp_all add: typed_peer_def note_stat_def)

lemma typed_peer_pending [simp]:
  "typed_peer c b p \<Longrightarrow> typed_peer c b (p\<lparr>pending := None\<rparr>)"
  "typed_peer c b p \<Longrightarrow> typed_peer c b (p\<lparr>sock := None, pending := None\<rparr>)"
  "typed_peer c b p \<Longrightarrow> r < 2 ^ 32 \<Longrightarrow> typed_peer c b (p\<lparr>pending := Some r\<rparr>)"
  by (simp_all add: typed_peer_def)

lemma typed_same: "same_but_armed p q \<Longrightarrow> typed_peer c b p \<Longrightarrow> typed_peer c b q"
  by (auto simp: same_but_armed_def)

lemma arm_typed [keeping]: "kept (typed_peer c b) (arm E)"
  unfolding kept_def by (metis arm_frame prod.collapse typed_same)

lemma recv_typed [keeping]: "kept (typed_peer c b) (recv E a n)"
  unfolding kept_def by (metis recv_frame(1) prod.collapse typed_same)

lemma recv_exact_typed [keeping]: "kept (typed_peer c b) (recv_exact E n bs)"
proof -
  have "typed_peer c b (fst s) \<Longrightarrow> typed_peer c b (fst (snd (recv_exact E n bs s)))" for s
  proof (induction E n bs s rule: recv_exact.induct)
    case (1 E want got s)
    obtain r s1 where run: "recv E (want - length got) (want - length got) s = (r, s1)"
      by (metis surj_pair)
    have "typed_peer c b (fst s1)"
      by (rule keptD [OF recv_typed "1.prems" run])
    then show ?case
      using "1.IH" [OF _ run [symmetric]] "1.prems" run
      by (subst recv_exact.simps) (auto split: sum.split)
  qed
  then show ?thesis
    by (simp add: kept_def)
qed

lemma peer_connect_typed [keeping]: "kept (typed_peer c b) (peer_connect E ct tm)"
  and peer_close_typed [keeping]: "kept (typed_peer c b) (peer_close E abort)"
  unfolding peer_connect_def peer_close_def by (auto intro!: kept_intros keeping)

lemma send_bare_typed [keeping]: "kept (typed_peer c b) (send_bare E op rid)"
  and send_gather_typed [keeping]: "kept (typed_peer c b) (send_gather E rid n)"
  unfolding send_bare_def send_gather_def
  by (auto intro!: kept_bnd_of_sum kept_seq kept_with_sock keeping kept_bnd [OF kept_gets] kept_upd dest: pack_request_Inr(4))

lemma check_header_typed [keeping]: "kept (typed_peer c b) (check_header fs)"
  unfolding check_header_def
  by (simp split: list.split) (auto intro!: kept_intros keeping)

lemma read_header_typed [keeping]: "kept (typed_peer c b) (read_header E)"
  and begin_rows_typed [keeping]: "kept (typed_peer c b) (begin_rows E n)"
  and read_ack_typed [keeping]: "kept (typed_peer c b) (read_ack E)"
  and query_stat_typed [keeping]: "kept (typed_peer c b) (query_stat E rid)"
  and check_range_typed [keeping]: "kept (typed_peer c b) (check_range st)"
  unfolding read_header_def begin_rows_def read_ack_def query_stat_def check_range_def
  by (auto intro!: kept_intros keeping)

lemma pump_rows_typed [keeping]: "kept (typed_peer c b) (pump_rows E)"
proof -
  have "typed_peer c b (fst s')" if p: "typed_peer c b (fst s)" and run: "pump_rows E s = (r, s')" for s r s'
  proof -
    define a where "a = length (take (rd_want (fst s)) (rows (fst s))) - rd_got (fst s)"
    define n where "n = rd_want (fst s) - rd_got (fst s)"
    obtain x s1 where 1: "recv E a n s = (x, s1)"
      by (metis surj_pair)
    note q = keptD [OF recv_typed p 1]
    show ?thesis
    proof (cases x)
      case (Inl e)
      then show ?thesis
        using run 1 q by (simp add: pump_rows_def bnd_def a_def n_def)
    next
      case (Inr bs)
      have fit: "bs = [] \<or> rd_got (fst s1) + length bs \<le> length (rows (fst s1))"
      proof -
        have "length bs \<le> length (rows (fst s)) - rd_got (fst s)"
          using recv_frame(2) [OF 1 Inr] unfolding a_def length_take by linarith
        then show ?thesis
          using same_but_armed_sel [OF recv_frame(1) [OF 1]] by (cases bs) simp_all
      qed
      have "bs \<noteq> [] \<Longrightarrow> typed_peer c b (store_body bs (fst s1))"
        using fit q by (simp add: typed_peer_def store_body_def)
      then show ?thesis
        using run 1 q Inr by (auto simp: pump_rows_def bnd_def seq_def raise_run a_def n_def split: if_splits)
    qed
  qed
  then show ?thesis
    unfolding kept_def by (metis prod.collapse)
qed

lemma finish_rows_typed [keeping]: "kept (typed_peer c b) (finish_rows E)"
proof -
  have "typed_peer c b (fst s) \<Longrightarrow> typed_peer c b (fst (snd (finish_rows E s)))" for s
  proof (induction E s rule: finish_rows.induct)
    case (1 E s)
    obtain r s1 where run: "pump_rows E s = (r, s1)"
      by (metis surj_pair)
    have "typed_peer c b (fst s1)"
      by (rule keptD [OF pump_rows_typed "1.prems" run])
    then show ?case
      using "1.IH" [OF _ run [symmetric]] "1.prems" run
      by (subst finish_rows.simps) (auto split: sum.split)
  qed
  then show ?thesis
    by (simp add: kept_def)
qed

lemma connect_loop_typed [keeping]: "kept (typed_peer c b) (connect_loop fuel E ct tm dl pause)"
  by (induction fuel arbitrary: pause) (auto intro!: kept_intros keeping)

subsection \<open>A table with its peers\<close>

text \<open>The width, the capacities of the peers and the staged rows are the parameters.\<close>

definition typed_table :: "int \<Rightarrow> nat list \<Rightarrow> byte list list option \<Rightarrow> table \<Rightarrow> bool" where
  "typed_table wb cs z t \<longleftrightarrow> t_row_bytes t = wb \<and> length (peers t) = length cs \<and>
     (\<forall>i < length cs. typed_peer (cs ! i) (nat wb) (peers t ! i)) \<and> length (sel t) = length cs \<and>
     req_id t < 2 ^ 32 \<and> staging t = z"

definition room :: "byte list list option \<Rightarrow> nat" where
  "room z = (case z of None \<Rightarrow> 0 | Some st \<Rightarrow> length st)"

definition wide :: "nat \<Rightarrow> byte list list option \<Rightarrow> bool" where
  "wide b z \<longleftrightarrow> (\<forall>st. z = Some st \<longrightarrow> (\<forall>r \<in> set st. length r = b))"

definition typed :: "int \<Rightarrow> nat \<Rightarrow> table \<Rightarrow> bool" where
  "typed wb n t \<longleftrightarrow> (\<exists>cs z. typed_table wb cs z t \<and> wide (nat wb) z \<and> n \<le> room z)"

lemma typed_less: "typed wb n t \<Longrightarrow> m \<le> n \<Longrightarrow> typed wb m t"
  unfolding typed_def by (meson le_trans)

lemma kept_typed: "(\<And>cs z. kept (typed_table wb cs z) m) \<Longrightarrow> kept (typed wb n) m"
  unfolding typed_def kept_def by blast

lemma typed_table_plain [simp]:
  "typed_table wb cs z (t\<lparr>failed := f\<rparr>) = typed_table wb cs z t"
  "typed_table wb cs z (t\<lparr>workspace := k\<rparr>) = typed_table wb cs z t"
  "typed_table wb cs z (t\<lparr>num_shards := k, shard_rows := l\<rparr>) = typed_table wb cs z t"
  by (simp_all add: typed_table_def)

lemma kept_on_peer:
  assumes "\<And>c. kept (typed_peer c (nat wb)) m"
  shows "kept (typed_table wb cs z) (on_peer i m)"
proof (rule keptI)
  fix s r s' assume t: "typed_table wb cs z (fst s)" and run: "on_peer i m s = (r, s')"
  show "typed_table wb cs z (fst s')"
  proof (cases "i < length (peers (fst s))")
    case True
    then have "typed_peer (cs ! i) (nat wb) (peers (fst s) ! i)"
      using t by (simp add: typed_table_def)
    then have "typed_peer (cs ! i) (nat wb) (fst (snd (m (peers (fst s) ! i, snd s))))"
      using assms by (simp add: kept_def)
    then show ?thesis
      using t run True by (auto simp: on_peer_def typed_table_def nth_list_update split: prod.splits)
  qed (use t run in \<open>simp add: on_peer_def\<close>)
qed

lemma next_req_id_typed [keeping]: "kept (typed_table wb cs z) next_req_id"
  unfolding next_req_id_def kept_def by (simp add: typed_table_def ret_run)

lemma check_usable_typed [keeping]: "kept (typed_table wb cs z) check_usable"
  unfolding check_usable_def by (intro kept_intros keeping)

lemma condemn_typed: "kept (typed_table wb cs z) m \<Longrightarrow> kept (typed_table wb cs z) (condemn m)"
  unfolding condemn_def by (auto intro!: kept_intros keeping)

lemma connect_peer_typed [keeping]: "kept (typed_table wb cs z) (connect_peer E i dl)"
  and stat_peer_typed [keeping]: "kept (typed_table wb cs z) (stat_peer E i)"
  unfolding connect_peer_def stat_peer_def by (intro kept_intros keeping kept_on_peer)+

lemma close_all_typed [keeping]: "kept (typed_table wb cs z) (close_all E)"
  unfolding close_all_def by (intro kept_intros keeping kept_on_peer kept_each)

lemma ping_typed: "kept (typed_table wb cs z) (ping E)"
  and close_typed: "kept (typed_table wb cs z) (Table.close E)"
  and stat_typed: "kept (typed_table wb cs z) (Table.stat E)"
  unfolding ping_def Table.close_def Table.stat_def
  by (auto intro!: kept_intros keeping kept_on_peer kept_each condemn_typed kept_collect)

subsection \<open>The exchange\<close>

lemma drain_ready_typed [keeping]: "kept (typed_table wb cs z) (drain_ready E ready waiting)"
  by (induction ready arbitrary: waiting) (auto intro!: kept_intros keeping kept_on_peer)

lemma drain_select_typed [keeping]: "kept (typed_table wb cs z) (drain_select E ks dl)"
  unfolding drain_select_def Let_def by (intro kept_intros keeping)

lemma drain_loop_typed [keeping]: "kept (typed_table wb cs z) (drain_loop E dl waiting)"
proof -
  have "typed_table wb cs z (fst s) \<Longrightarrow> typed_table wb cs z (fst (snd (drain_loop E dl waiting s)))" for s
  proof (induction E dl waiting s rule: drain_loop.induct)
    case (1 E dl waiting s)
    obtain r s1 where select: "drain_select E (map fst waiting) dl s = (r, s1)"
      by (metis surj_pair)
    note t1 = keptD [OF drain_select_typed "1.prems" select]
    show ?case
    proof (cases r)
      case (Inl e)
      then show ?thesis
        using t1 "1.prems" select by (subst drain_loop.simps) simp
    next
      case (Inr ready)
      obtain q s2 where step: "drain_ready E ready waiting s1 = (q, s2)"
        by (metis surj_pair)
      note t2 = keptD [OF drain_ready_typed t1 step]
      show ?thesis
        using "1.IH" [OF _ select [symmetric] Inr step [symmetric] _ t2] "1.prems" t2 select Inr step
        by (subst drain_loop.simps) (auto split: sum.split)
    qed
  qed
  then show ?thesis
    by (simp add: kept_def)
qed

lemma waiting_for_typed [keeping]: "kept (typed_table wb cs z) (waiting_for is waiting)"
  by (induction "is" arbitrary: waiting) (auto intro!: kept_intros keeping kept_on_peer)

lemma read_bodies_typed [keeping]: "kept (typed_table wb cs z) (read_bodies E dl todo)"
  unfolding read_bodies_def drain_def
  by (cases todo) (auto intro!: kept_intros keeping kept_on_peer)

lemma prepare_typed [keeping]: "kept (typed_table wb cs z) (prepare E dl x)"
  and ask_typed [keeping]: "kept (typed_table wb cs z) (ask E x)"
  and begin_answer_typed [keeping]: "kept (typed_table wb cs z) (begin_answer E x)"
  unfolding prepare_def ask_def begin_answer_def by (auto intro!: kept_intros keeping kept_on_peer)

lemma exchange_loop_typed [keeping]: "kept (typed_table wb cs z) (exchange_loop E dl left todo)"
proof (induction left arbitrary: todo)
  case 0
  then show ?case
    by (simp add: kept_ret)
next
  case (Suc left)
  have "kept (typed_table wb cs z) (attempt E dl todo)" "kept (typed_table wb cs z) (abort_all E todo')" for todo'
    unfolding attempt_def abort_all_def by (auto intro!: kept_intros keeping kept_on_peer kept_each)
  then show ?case
    by (auto intro!: kept_intros keeping Suc)
qed

lemma set_deadlines_typed: "typed_table wb cs z t \<Longrightarrow> typed_table wb cs z (set_deadlines d active t)"
proof (induction active arbitrary: t)
  case (Cons x active)
  have "typed_table wb cs z (set_deadline d (fst x) t)"
    using Cons.prems by (cases "fst x < length cs") (auto simp: typed_table_def set_deadline_def nth_list_update)
  then show ?case
    using Cons.IH by (simp add: set_deadlines_def)
qed (simp add: set_deadlines_def)

lemma exchange_typed [keeping]: "kept (typed_table wb cs z) (exchange E active)"
  unfolding exchange_def by (auto intro!: kept_intros keeping kept_ensure set_deadlines_typed)

subsection \<open>A gather\<close>

lemma triple_kept: "kept P m \<Longrightarrow> triple (\<lambda>s. P (fst s)) m (\<lambda>_ s. P (fst s)) (\<lambda>_ s. P (fst s))"
  by (rule tripleI) (blast dest: keptD)+

lemma staging_for_typed: "triple (\<lambda>s. typed wb 0 (fst s)) (staging_for E n) (\<lambda>_ s. typed wb n (fst s)) R"
proof (rule tripleI)
  fix s :: "table \<times> 'a" and x s'
  assume "typed wb 0 (fst s)" and run: "staging_for E n s = (Inr x, s')"
  then obtain cs z where t: "typed_table wb cs z (fst s)" "wide (nat wb) z"
    by (auto simp: typed_def)
  define z' where "z' = (if room z < n \<or> z = None then Some (replicate (max n 4096) (replicate (nat wb) (n_junk E))) else z)"
  have "typed_table wb cs z' (fst s')"
    using t(1) run by (auto simp: staging_for_def typed_table_def z'_def room_def ret_run split: option.splits if_splits)
  moreover have "wide (nat wb) z'" "n \<le> room z'"
    using t(2) by (auto simp: z'_def wide_def room_def)
  ultimately show "typed wb n (fst s')"
    unfolding typed_def by blast
qed (auto simp: staging_for_def ret_run split: option.splits if_splits)

lemma partition_loop_typed [keeping]: "kept (typed_table wb cs z) (partition_loop ids is routed)"
  by (induction "is" arbitrary: routed) (auto intro!: kept_intros keeping simp: Let_def typed_table_def)

lemma partition_ids_typed [keeping]: "kept (typed_table wb cs z) (partition_ids ids)"
  and raise_unroutable_typed [keeping]: "kept (typed_table wb cs z) (raise_unroutable ids)"
  and workspace_for_typed [keeping]: "kept (typed_table wb cs z) (workspace_for n)"
  unfolding partition_ids_def raise_unroutable_def workspace_for_def
  by (auto intro!: kept_intros keeping split: list.split)

text \<open>Marshalling grows the buffers of a peer to the rows asked of it.\<close>

definition roomy :: "(nat \<times> nat list) list \<Rightarrow> nat list \<Rightarrow> bool" where
  "roomy xs cs \<longleftrightarrow> (\<forall>x \<in> set xs. length (snd x) \<le> cs ! fst x)"

lemma reserve_typed:
  assumes "typed_peer c b (fst s)"
  shows "\<exists>p'. seq (reserve E (length js)) (upd (write_ids ids js)) s = (Inr (), (p', snd s)) \<and>
    typed_peer (if length js \<le> c then c else max (length js) 4096) b p'"
proof -
  have ids: "wire_id x < 2 ^ 32" for x
    by (simp add: wire_id_def nat_less_iff)
  have written_ids: "typed_peer k b q \<Longrightarrow> length js \<le> k \<Longrightarrow> typed_peer k b (write_ids ids js q)" for k q
    using ids by (auto simp: typed_peer_def write_ids_def dest: in_set_dropD)
  show ?thesis
  proof (cases "length js \<le> c")
    case True
    then show ?thesis
      using assms written_ids [OF assms] by (cases s) (simp add: reserve_def seq_def bnd_def ret_run typed_peer_def)
  next
    case False
    let ?q = "(fst s)\<lparr>req_ids := replicate (max (length js) 4096) 0,
      rows := replicate (max (length js) 4096 * row_bytes (fst s)) (n_junk E), cap := max (length js) 4096\<rparr>"
    have "typed_peer (max (length js) 4096) b ?q"
      using assms by (simp add: typed_peer_def)
    then show ?thesis
      using False assms written_ids [of "max (length js) 4096" ?q] by (simp add: reserve_def seq_def bnd_def typed_peer_def)
  qed
qed

lemma marshal_typed:
  assumes "typed_table wb cs z (fst s)" and "fst x < length cs"
  shows "\<exists>c s'. marshal E ids x s = (Inr (), s') \<and> cs ! fst x \<le> c \<and> length (snd x) \<le> c \<and> typed_table wb (cs[fst x := c]) z (fst s')"
proof -
  let ?i = "fst x" and ?c = "if length (snd x) \<le> cs ! fst x then cs ! fst x else max (length (snd x)) 4096"
  have i: "?i < length (peers (fst s))" "typed_peer (cs ! ?i) (nat wb) (peers (fst s) ! ?i)"
    using assms by (simp_all add: typed_table_def)
  obtain p' where p': "seq (reserve E (length (snd x))) (upd (write_ids ids (snd x))) (peers (fst s) ! ?i, snd s) = (Inr (), (p', snd s))"
    "typed_peer ?c (nat wb) p'"
    using reserve_typed [of "cs ! ?i" "nat wb" "(peers (fst s) ! ?i, snd s)" E "snd x" ids] i(2) by auto
  have "typed_table wb (cs[?i := ?c]) z ((fst s)\<lparr>peers := (peers (fst s))[?i := p']\<rparr>)"
    using assms p'(2) by (auto simp: typed_table_def nth_list_update)
  moreover have "marshal E ids x s = (Inr (), ((fst s)\<lparr>peers := (peers (fst s))[?i := p']\<rparr>, snd s))"
    using i(1) p'(1) by (simp add: marshal_def on_peer_def)
  ultimately show ?thesis
    by (intro exI [of _ ?c] exI) auto
qed

lemma marshal_all_typed:
  assumes "typed_table wb cs z (fst s)" and "\<forall>x \<in> set xs. fst x < length cs" and "roomy ys cs" and "\<forall>y \<in> set ys. fst y < length cs"
  shows "\<exists>cs' s'. each xs (marshal E ids) s = (Inr (), s') \<and> typed_table wb cs' z (fst s') \<and> roomy (ys @ xs) cs' \<and> length cs' = length cs"
  using assms
proof (induction xs arbitrary: cs s ys)
  case Nil
  then show ?case
    by (auto simp: ret_run)
next
  case (Cons x xs)
  obtain c s1 where x: "marshal E ids x s = (Inr (), s1)" "cs ! fst x \<le> c" "length (snd x) \<le> c"
    "typed_table wb (cs[fst x := c]) z (fst s1)"
    using marshal_typed [OF Cons.prems(1), of x E ids] Cons.prems(2) by auto
  have "roomy (ys @ [x]) (cs[fst x := c])"
    using Cons.prems(2,3,4) x(2,3) by (auto simp: roomy_def nth_list_update)
  then obtain cs' s' where "each xs (marshal E ids) s1 = (Inr (), s')" "typed_table wb cs' z (fst s')"
    "roomy ((ys @ [x]) @ xs) cs'" "length cs' = length cs"
    using Cons.IH [OF x(4), of "ys @ [x]"] Cons.prems(2,4) by auto
  then show ?case
    using x(1) by (auto simp: seq_def bnd_def)
qed

lemma place_rows_wide: "\<forall>r \<in> set rs. length r = b \<Longrightarrow> \<forall>r \<in> set st. length r = b \<Longrightarrow> \<forall>r \<in> set (place_rows s rs st). length r = b"
proof (induction s arbitrary: rs st)
  case (Cons j s)
  then show ?case
  proof (cases rs)
    case (Cons r rs')
    have "\<forall>q \<in> set (st[j := r]). length q = b"
      using Cons.prems Cons by (auto dest: set_update_subset_insert [THEN subsetD])
    then show ?thesis
      using Cons.IH [of rs' "st[j := r]"] Cons.prems Cons by (simp add: place_rows_def)
  qed (simp add: place_rows_def)
qed (simp add: place_rows_def)

lemma rows_upto_wide:
  assumes "typed_peer c b p" and "n \<le> c"
  shows "\<forall>r \<in> set (rows_upto p n). length r = b"
proof -
  have "length (row_at p j) = b" if "j < n" for j
  proof -
    have "(j + 1) * b \<le> c * b"
      using that assms(2) by (intro mult_le_mono1) simp
    then show ?thesis
      using assms(1) by (simp add: row_at_def typed_peer_def)
  qed
  then show ?thesis
    by (auto simp: rows_upto_def)
qed

lemma scatter_typed:
  assumes "typed_table wb cs z t" and "wide (nat wb) z" and "n \<le> room z" and "roomy active cs"
    and "\<forall>x \<in> set active. fst x < length cs"
  shows "typed wb n (scatter active t)"
proof -
  define f where "f = fold (\<lambda>x. place_rows (snd x) (rows_upto (peers t ! fst x) (length (snd x)))) active"
  have rs: "\<forall>r \<in> set (rows_upto (peers t ! fst x) (length (snd x))). length r = nat wb" if "x \<in> set active" for x
    using assms(1,4,5) that by (intro rows_upto_wide [of "cs ! fst x"]) (auto simp: typed_table_def roomy_def)
  then have "\<forall>r \<in> set (f st). length r = nat wb" if "\<forall>r \<in> set st. length r = nat wb" for st
    using that unfolding f_def
  proof (induction active arbitrary: st)
    case (Cons x active)
    note first = place_rows_wide [OF Cons.prems(1) [OF list.set_intros(1)] Cons.prems(2)]
    show ?case
      unfolding fold.simps o_apply by (rule Cons.IH [OF Cons.prems(1) first]) simp
  qed simp
  then have "wide (nat wb) (map_option f z)" "n \<le> room (map_option f z)"
    using assms(2,3) by (auto simp: wide_def room_def f_def split: option.splits)
  moreover have "typed_table wb cs (map_option f z) (scatter active t)"
    using assms(1) by (simp add: typed_table_def scatter_def f_def)
  ultimately show ?thesis
    unfolding typed_def by blast
qed

lemma section_typed: "kept (typed wb n) (section_of E ids)"
proof (rule keptI)
  fix s r s' assume "typed wb n (fst s)" and run: "section_of E ids s = (r, s')"
  then obtain cs z where t: "typed_table wb cs z (fst s)" "wide (nat wb) z" "n \<le> room z"
    by (auto simp: typed_def)
  define active where "active = active_work (fst s)"
  have act: "\<forall>x \<in> set active. fst x < length cs"
    using t(1) by (auto simp: active_def active_work_def typed_table_def dest!: set_zip_leftD)
  obtain cs' s1 where s1: "each active (marshal E ids) s = (Inr (), s1)" "typed_table wb cs' z (fst s1)"
    "roomy active cs'" "length cs' = length cs"
    using marshal_all_typed [OF t(1) act, where ys = "[]" and ids = ids and E = E] by (auto simp: roomy_def)
  obtain r2 s2 where s2: "exchange E active s1 = (r2, s2)"
    by (metis surj_pair)
  note t2 = keptD [OF exchange_typed s1(2) s2]
  have "s' = (case r2 of Inl e \<Rightarrow> s2 | Inr _ \<Rightarrow> (scatter active (fst s2), snd s2))"
    using run s1(1) s2 by (auto simp: section_of_def seq_def bnd_def active_def split: sum.splits)
  moreover have "typed wb n (fst s2)"
    using t2 t(2,3) unfolding typed_def by blast
  moreover have "typed wb n (scatter active (fst s2))"
    using scatter_typed [OF t2 t(2,3) s1(3)] act s1(4) by simp
  ultimately show "typed wb n (fst s')"
    by (simp split: sum.split)
qed

lemma typed_failed [simp]: "typed wb n (t\<lparr>failed := f\<rparr>) = typed wb n t"
  by (simp add: typed_def)

lemma gather_cpu_typed:
  "triple (\<lambda>s. typed wb 0 (fst s)) (gather_cpu E ids)
     (\<lambda>rs s. typed wb 0 (fst s) \<and> length rs = length ids \<and> (\<forall>r \<in> set rs. length r = nat wb)) (\<lambda>_ s. typed wb 0 (fst s))"
proof -
  have staged: "typed wb n t \<Longrightarrow> length (staged n t) = n \<and> (\<forall>r \<in> set (staged n t). length r = nat wb)" for n t
    by (auto simp: typed_def typed_table_def staged_def wide_def room_def split: option.splits dest: in_set_takeD)
  let ?n = "length ids"
  let ?R = "\<lambda>_ s. typed wb ?n (fst s)"
  have condemned: "kept (typed wb ?n) (condemn (section_of E ids))"
    unfolding condemn_def by (auto intro!: kept_intros keeping section_typed)
  have rest: "triple (\<lambda>s. typed wb ?n (fst s)) (if ?n = 0 then gets (\<lambda>s. staged 0 (fst s)) else seq check_usable
       (seq (workspace_for ?n) (bnd (partition_ids ids) (\<lambda>routed.
        seq (if routed \<noteq> ?n then raise_unroutable ids else ret ())
        (seq (condemn (section_of E ids)) (gets (\<lambda>s. staged ?n (fst s))))))))
     (\<lambda>rs s. typed wb ?n (fst s) \<and> length rs = ?n \<and> (\<forall>r \<in> set rs. length r = nat wb)) ?R"
    (is "triple _ _ ?Q _")
  proof (rule triple_if)
    assume "?n = 0"
    then show "triple (\<lambda>s. typed wb ?n (fst s)) (gets (\<lambda>s. staged 0 (fst s))) ?Q ?R"
      using staged [of 0] by (auto simp: triple_def)
  next
    show "triple (\<lambda>s. typed wb ?n (fst s)) (seq check_usable (seq (workspace_for ?n) (bnd (partition_ids ids) (\<lambda>routed.
        seq (if routed \<noteq> ?n then raise_unroutable ids else ret ())
        (seq (condemn (section_of E ids)) (gets (\<lambda>s. staged ?n (fst s)))))))) ?Q ?R"
    proof (rule triple_seq [OF triple_kept [OF kept_typed]], rule check_usable_typed,
        rule triple_seq [OF triple_kept [OF kept_typed]], rule workspace_for_typed,
        rule triple_bnd [OF triple_kept [OF kept_typed]], rule partition_ids_typed,
        rule triple_seq [OF triple_kept [OF kept_typed]])
      show "kept (typed_table wb cs z) (if routed \<noteq> ?n then raise_unroutable ids else ret ())" for routed cs z
        by (intro kept_if keeping)
      show "triple (\<lambda>s. typed wb ?n (fst s)) (seq (condemn (section_of E ids)) (gets (\<lambda>s. staged ?n (fst s)))) ?Q ?R"
        by (rule triple_seq [OF triple_kept [OF condemned]]) (simp add: triple_def staged)
    qed
  qed
  show ?thesis
    unfolding gather_cpu_def section_of_def [symmetric]
    by (rule triple_seq [OF staging_for_typed triple_weaken [OF rest]]) (auto elim: typed_less)
qed

lemma gather_cpu_kept [keeping]: "kept (typed wb 0) (gather_cpu E ids)"
proof (rule keptI)
  fix s r s' assume "typed wb 0 (fst s)" "gather_cpu E ids s = (r, s')"
  then show "typed wb 0 (fst s')"
    using triple_InlD [OF gather_cpu_typed] triple_InrD [OF gather_cpu_typed] by (cases r) blast+
qed

lemma gather_typed: "kept (typed wb 0) (gather E ids out)"
  unfolding gather_def by (auto intro!: kept_intros keeping)

lemma read_chunks_typed: "kept (typed wb 0) (read_chunks E start nrows step buf got)"
proof -
  have "typed wb 0 (fst s) \<Longrightarrow> typed wb 0 (fst (snd (read_chunks E start nrows step buf got s)))" for s
  proof (induction E start nrows step buf got s rule: read_chunks.induct)
    case (1 E start nrows step buf got s)
    obtain r s1 where run: "gather_cpu E (id_range (start + int got) (min (max step 1) (nrows - got))) s = (r, s1)"
      by (metis surj_pair)
    have "typed wb 0 (fst s1)"
      by (rule keptD [OF gather_cpu_kept "1.prems" run])
    then show ?case
      using "1.IH" [OF _ refl run [symmetric]] "1.prems" run
      by (subst read_chunks.simps) (auto simp: Let_def split: sum.split)
  qed
  then show ?thesis
    by (simp add: kept_def)
qed

lemma read_rows_contiguous_typed: "kept (typed wb 0) (read_rows_contiguous E start n chunk)"
  unfolding read_rows_contiguous_def by (auto intro!: kept_intros keeping read_chunks_typed)

lemma session_typed: "session E s0 s \<Longrightarrow> typed wb 0 (fst s0) \<Longrightarrow> typed wb 0 (fst s)"
proof (induction rule: session.induct)
  case (gathered s ids dst r s')
  then show ?case
    using keptD [OF gather_typed] by blast
next
  case (gathered_cpu s ids r s')
  then show ?case
    using keptD [OF gather_cpu_kept] by blast
next
  case (sliced s start n chunk r s')
  then show ?case
    using keptD [OF read_rows_contiguous_typed] by blast
next
  case (pinged s r s')
  then show ?case
    using keptD [OF kept_typed [OF ping_typed]] by blast
next
  case (statted s r s')
  then show ?case
    using keptD [OF kept_typed [OF stat_typed]] by blast
next
  case (closed s s')
  then show ?case
    using keptD [OF kept_typed [OF close_typed]] by blast
qed simp

subsection \<open>The constructor\<close>

text \<open>Before the first gather no peer has buffers, so its row width may still be anything.\<close>

definition bare_table :: "int \<Rightarrow> nat list \<Rightarrow> table \<Rightarrow> bool" where
  "bare_table wb bs t \<longleftrightarrow> t_row_bytes t = wb \<and> length (peers t) = length bs \<and>
     (\<forall>i < length bs. typed_peer 0 (bs ! i) (peers t ! i)) \<and> length (sel t) = length bs \<and>
     req_id t < 2 ^ 32 \<and> staging t = None"

lemma bare_on_peer:
  assumes "\<And>b. kept (typed_peer 0 b) m"
  shows "kept (bare_table wb bs) (on_peer i m)"
proof (rule keptI)
  fix s r s' assume t: "bare_table wb bs (fst s)" and run: "on_peer i m s = (r, s')"
  show "bare_table wb bs (fst s')"
  proof (cases "i < length (peers (fst s))")
    case True
    then have "typed_peer 0 (bs ! i) (peers (fst s) ! i)"
      using t by (simp add: bare_table_def)
    then have "typed_peer 0 (bs ! i) (fst (snd (m (peers (fst s) ! i, snd s))))"
      using assms by (simp add: kept_def)
    then show ?thesis
      using t run True by (auto simp: on_peer_def bare_table_def nth_list_update split: prod.splits)
  qed (use t run in \<open>simp add: on_peer_def\<close>)
qed

lemma bare_stat: "kept (bare_table wb bs) (stat_peer E i)"
proof -
  have "kept (bare_table wb bs) next_req_id"
    unfolding next_req_id_def kept_def by (simp add: bare_table_def ret_run)
  then show ?thesis
    unfolding stat_peer_def by (intro kept_bnd bare_on_peer query_stat_typed)
qed

lemma apply_stat_bare:
  assumes "bare_table wb bs (fst s)" and "on_peer i (apply_stat wb st) s = (Inr x, s')"
  shows "\<exists>b. int b = wb \<and> bare_table wb (bs[i := b]) (fst s')"
proof -
  obtain p' w' where p': "i < length (peers (fst s))" "apply_stat wb st (peers (fst s) ! i, snd s) = (Inr x, (p', w'))"
    "s' = ((fst s)\<lparr>peers := (peers (fst s))[i := p']\<rparr>, w')"
    using assms(2) by (rule on_peer_Inr)
  then have "int (row_bytes p') = wb" "typed_peer 0 (row_bytes p') p'"
    using assms(1) by (auto simp: bare_table_def typed_peer_def apply_stat_def note_stat_def ret_run raise_run split: if_splits)
  then show ?thesis
    using assms(1) p'(1,3) by (intro exI [of _ "row_bytes p'"]) (auto simp: bare_table_def nth_list_update)
qed

lemma bring_up_bare:
  assumes "bare_table wb bs (fst s)" and "bring_up E dl i s = (Inr (), s')"
  shows "\<exists>b. int b = wb \<and> bare_table wb (bs[i := b]) (fst s')"
proof -
  have c: "kept (bare_table wb bs) (connect_peer E i dl)"
    unfolding connect_peer_def by (intro kept_bnd kept_gets bare_on_peer connect_loop_typed)
  obtain s1 st s2 where run: "connect_peer E i dl s = (Inr (), s1)" "stat_peer E i s1 = (Inr st, s2)"
    "on_peer i (apply_stat (t_row_bytes (fst s2)) st) s2 = (Inr (), s')"
    using assms(2) unfolding bring_up_def by (elim seq_InrE bnd_InrE) auto
  have "bare_table wb bs (fst s2)"
    by (rule keptD [OF bare_stat keptD [OF c assms(1) run(1)] run(2)])
  then show ?thesis
    using apply_stat_bare [of wb bs s2 i st "()" s'] run(3) by (simp add: bare_table_def)
qed

lemma bring_up_all:
  assumes "each is (bring_up E dl) s = (Inr (), s')" and "bare_table wb bs (fst s)" and "\<forall>i \<in> set is. i < length bs"
  shows "\<exists>bs'. bare_table wb bs' (fst s') \<and> length bs' = length bs \<and> (\<forall>i < length bs. i \<in> set is \<or> int (bs ! i) = wb \<longrightarrow> int (bs' ! i) = wb)"
  using assms
proof (induction "is" arbitrary: s bs)
  case Nil
  then show ?case
    by (auto simp: ret_run)
next
  case (Cons i "is")
  obtain s1 where s1: "bring_up E dl i s = (Inr (), s1)" "each is (bring_up E dl) s1 = (Inr (), s')"
    using Cons.prems(1) by (auto elim: seq_InrE)
  obtain b where b: "int b = wb" "bare_table wb (bs[i := b]) (fst s1)"
    using bring_up_bare [OF Cons.prems(2) s1(1)] by blast
  obtain bs' where "bare_table wb bs' (fst s')" "length bs' = length bs"
    "\<forall>j < length bs. j \<in> set is \<or> int (bs[i := b] ! j) = wb \<longrightarrow> int (bs' ! j) = wb"
    using Cons.IH [OF s1(2) b(2)] Cons.prems(3) by auto
  moreover have "j \<in> set is \<or> int (bs[i := b] ! j) = wb" if "j \<in> set (i # is) \<or> int (bs ! j) = wb" "j < length bs" for j
    using that b(1) by (cases "j = i") auto
  ultimately show ?case
    by (intro exI [of _ bs']) blast
qed

lemma bare_typed:
  assumes "bare_table wb bs t" and "\<forall>i < length bs. int (bs ! i) = wb" and "set ps = set (peers t)" and "length ps = length bs"
  shows "typed wb 0 (t\<lparr>peers := ps\<rparr>)"
proof -
  have "typed_peer 0 (nat wb) p" if p: "p \<in> set (peers t)" for p
  proof -
    obtain i where i: "i < length bs" "p = peers t ! i"
      using p assms(1) by (auto simp: bare_table_def in_set_conv_nth)
    moreover have "bs ! i = nat wb"
      using assms(2) i(1) by (metis nat_int)
    ultimately show ?thesis
      using assms(1) by (auto simp: bare_table_def)
  qed
  then have "typed_table wb (replicate (length bs) 0) None (t\<lparr>peers := ps\<rparr>)"
    using assms by (simp add: typed_table_def bare_table_def) (metis nth_mem)
  then show ?thesis
    unfolding typed_def by (intro exI conjI) (auto simp: wide_def)
qed

lemma init_table_typed:
  assumes "init_table E to_float environ c w = (Inr t, w')"
  shows "typed (t_row_bytes t) 0 t" and "t_row_bytes t = c_row_bytes c" and "0 \<le> t_row_bytes t"
proof -
  obtain t0 s where t0: "new_table to_float environ c w = (Inr t0, w)" "connect_all E (t0, w) = (Inr (), s)"
    and t: "t = (fst s)\<lparr>num_shards := length (peers (fst s)), shard_rows := row_count (peers (fst s) ! 0)\<rparr>"
    using assms unfolding init_table_def
    by (elim bnd_InrE) (auto split: prod.splits sum.splits dest: new_table_Inr(1))
  have "\<forall>p \<in> set (peers t0). typed_peer 0 (row_bytes p) p"
    using new_table_Inr(3) [OF t0(1)] by (auto simp: blank_def typed_peer_def)
  then have bare: "bare_table (t_row_bytes t0) (map row_bytes (peers t0)) t0"
    using new_table_Inr(4,7,8) [OF t0(1)] by (simp add: bare_table_def)
  obtain dl s1 s2 where run: "each [0..<length (peers t0)] (bring_up E dl) s1 = (Inr (), s2)" "fst s1 = t0"
    "check_split s2 = (Inr (), s)"
    using t0(2) unfolding connect_all_def
    by (auto simp: handle_def seq_def bnd_def raise_def peer_indices_def split: prod.splits sum.splits if_splits dest!: now_fst)
  obtain bs where bs: "bare_table (t_row_bytes t0) bs (fst s2)" "length bs = length (peers t0)"
    "\<forall>i < length bs. int (bs ! i) = t_row_bytes t0"
    using bring_up_all [OF run(1) bare [folded run(2)]] run(2) by auto
  have "fst s = (fst s2)\<lparr>peers := sort_key base_row (peers (fst s2))\<rparr>"
    using run(3) by (auto simp: check_split_def of_sum_run raise_run ret_run elim!: bnd_InrE split: if_splits)
  moreover have "typed (t_row_bytes t0) 0 ((fst s2)\<lparr>peers := sort_key base_row (peers (fst s2))\<rparr>)"
    using bare_typed [OF bs(1,3)] bs(1) by (simp add: bare_table_def)
  ultimately have "typed (t_row_bytes t0) 0 t" "t_row_bytes (fst s) = t_row_bytes t0"
    using t bs(1) by (simp_all add: typed_def bare_table_def)
  then show "typed (t_row_bytes t) 0 t" "t_row_bytes t = c_row_bytes c"
    using t new_table_Inr(6) [OF t0(1)] by simp_all
  have "bs \<noteq> []"
    using bs(2) new_table_Inr(2) [OF t0(1)] by auto
  then have "0 \<le> t_row_bytes t0"
    using bs(3) by (metis length_greater_0_conv of_nat_0_le_iff)
  then show "0 \<le> t_row_bytes t"
    using t \<open>t_row_bytes (fst s) = t_row_bytes t0\<close> by simp
qed

end
