(* ===== verification/Typed_Guarantees.thy ===== *)
theory Typed_Guarantees
  imports Typed Guarantees
begin

section \<open>The buffers stay typed\<close>

text \<open>
  C8. Whatever the network does and whatever the servers send (nothing is assumed of either), after the
  constructor and any sequence of operations every peer's id and row buffers have the sizes of the
  capacity on record and the width the caller asked for, the ids in them and the request that is
  pending fit their 32-bit fields, as does the request counter, and every staged row has that width;
  and a gather that returns then gives one row of that width for each id.  So no receive writes
  outside its buffer, and no row is cut from beyond one.
\<close>

theorem buffers_stay_typed_over_any_network:
  assumes "init_table E to_float environ c w0 = (Inr t0, w1)" and "session E (t0, w1) (t, w)"
  shows "(\<forall>p \<in> set (peers t). length (req_ids p) = cap p \<and> length (rows p) = cap p * row_bytes p \<and>
      int (row_bytes p) = c_row_bytes c \<and> (\<forall>x \<in> set (req_ids p). x < 2 ^ 32) \<and> (\<forall>r. pending p = Some r \<longrightarrow> r < 2 ^ 32)) \<and>
    req_id t < 2 ^ 32 \<and> (\<forall>st. staging t = Some st \<longrightarrow> (\<forall>r \<in> set st. int (length r) = c_row_bytes c)) \<and>
    (\<forall>ids rs s'. gather_cpu E ids (t, w) = (Inr rs, s') \<longrightarrow>
       length rs = length ids \<and> (\<forall>r \<in> set rs. int (length r) = c_row_bytes c))"
proof -
  define wb where "wb = c_row_bytes c"
  have t: "typed wb 0 t" and wb: "int (nat wb) = wb"
    using init_table_typed [OF assms(1)] session_typed [OF assms(2)] by (auto simp: wb_def)
  then obtain cs z where ty: "typed_table wb cs z t" "wide (nat wb) z"
    by (auto simp: typed_def)
  have "\<exists>k. typed_peer k (nat wb) p" if "p \<in> set (peers t)" for p
    using ty(1) that by (auto simp: typed_table_def in_set_conv_nth)
  then have "\<forall>p \<in> set (peers t). length (req_ids p) = cap p \<and> length (rows p) = cap p * row_bytes p \<and>
      int (row_bytes p) = wb \<and> (\<forall>x \<in> set (req_ids p). x < 2 ^ 32) \<and> (\<forall>r. pending p = Some r \<longrightarrow> r < 2 ^ 32)"
    using wb by (fastforce simp: typed_peer_def)
  moreover have "length rs = length ids \<and> (\<forall>r \<in> set rs. int (length r) = wb)"
    if "gather_cpu E ids (t, w) = (Inr rs, s')" for ids rs s'
    using triple_InrD [OF gather_cpu_typed _ that, of wb] t wb by simp
  moreover have "\<forall>r \<in> set st. int (length r) = wb" if "staging t = Some st" for st
  proof -
    have "\<forall>r \<in> set st. length r = nat wb"
      using ty that unfolding typed_table_def wide_def by blast
    then show ?thesis
      using wb by simp
  qed
  ultimately show ?thesis
    using ty(1) unfolding wb_def typed_table_def by blast
qed

theorem buffers_stay_typed_over_any_network_witness:
  "\<exists>t u s. opened 8 1 a_reset = (Inr t, u) \<and>
     gather_cpu (loop_net (two_halves 8 1)) [1, 6, 1] (t, u) = (Inr [[31], [186], [31]], s) \<and>
     (\<forall>p \<in> set (peers (fst s)). length (rows p) = cap p * row_bytes p \<and> row_bytes p = 1)"
proof -
  obtain t u where o: "opened 8 1 a_reset = (Inr t, u)"
    and g: "fst (gather_cpu (loop_net (two_halves 8 1)) [1, 6, 1] (t, u)) = Inr [[31], [186], [31]]"
    using opened_run [OF retried_run] by metis
  obtain t' u' where s: "gather_cpu (loop_net (two_halves 8 1)) [1, 6, 1] (t, u) = (Inr [[31], [186], [31]], (t', u'))"
    using g by (metis prod.collapse)
  have "session (loop_net (two_halves 8 1)) (t, u) (t', u')"
    by (rule session.gathered_cpu [OF session.opened s]) (simp add: settled_def)
  from buffers_stay_typed_over_any_network [OF opened_init [OF o] this] show ?thesis
    using o s by (auto simp: loop_config_def)
qed

end
