(* ===== verification/Daemon_Table.thy ===== *)
theory Daemon_Table
  imports Server
begin

section \<open>The row server daemon: the table\<close>

text \<open>
  The parts of \<open>server/rowserverd.c\<close> that only look at the table: \<open>struct server\<close>, the byte order
  helpers and \<open>gather_rows\<close>.  Integers keep the width C gives them; where an index leaves its buffer
  C's behaviour is undefined, and the model's result is \<open>None\<close>.  The shifts of the byte order helpers
  are shown to be the little-endian fields of theory \<open>Wire\<close>, and the one unsigned compare of
  \<open>gather_rows\<close> to accept exactly the rows of the half.
\<close>

unbundle bit_operations_syntax

definition ROWD_BYTES :: nat where "ROWD_BYTES = 160"
definition ST_OK :: "32 word" where "ST_OK = 0"
definition ST_BAD_HEADER :: "32 word" where "ST_BAD_HEADER = 1"
definition ST_BAD_OP :: "32 word" where "ST_BAD_OP = 2"
definition ST_RANGE :: "32 word" where "ST_RANGE = 3"
definition ST_TOO_MANY :: "32 word" where "ST_TOO_MANY = 4"
definition ST_INTERNAL :: "32 word" where "ST_INTERNAL = 5"
definition ST_BAD_PARAM :: "32 word" where "ST_BAD_PARAM = 6"
definition ST_BUSY :: "32 word" where "ST_BUSY = 7"

lemmas st_defs = ST_OK_def ST_BAD_HEADER_def ST_BAD_OP_def ST_RANGE_def ST_TOO_MANY_def ST_INTERNAL_def
  ST_BAD_PARAM_def ST_BUSY_def

definition MAX_MAX_ROWS :: nat where "MAX_MAX_ROWS = 2 ^ 21"
text \<open>\<open>struct server\<close>; the mapping is its bytes.\<close>

record server =
  sv_map :: "byte list"
  sv_page :: nat
  sv_base_row :: "64 word"
  sv_row_count :: "64 word"
  sv_base32 :: "32 word"
  sv_rows32 :: "32 word"
  sv_max_rows :: "32 word"

subsection \<open>Byte order\<close>

definition rd_u16 :: "byte list \<Rightarrow> nat \<Rightarrow> 16 word" where
  "rd_u16 p i = ucast (p ! i) OR push_bit 8 (ucast (p ! (i + 1)))"

definition rd_u32 :: "byte list \<Rightarrow> nat \<Rightarrow> 32 word" where
  "rd_u32 p i = ucast (p ! i) OR push_bit 8 (ucast (p ! (i + 1))) OR
     push_bit 16 (ucast (p ! (i + 2))) OR push_bit 24 (ucast (p ! (i + 3)))"

definition wr_u32 :: "32 word \<Rightarrow> byte list" where
  "wr_u32 v = [ucast v, ucast (drop_bit 8 v), ucast (drop_bit 16 v), ucast (drop_bit 24 v)]"

definition wr_u64 :: "64 word \<Rightarrow> byte list" where
  "wr_u64 v = wr_u32 (ucast v) @ wr_u32 (ucast (drop_bit 32 v))"

subsection \<open>Rows\<close>

text \<open>Writing into a buffer; \<open>None\<close> outside it.\<close>

definition put_at :: "byte list \<Rightarrow> nat \<Rightarrow> byte list \<Rightarrow> byte list option" where
  "put_at buf off bs = (if off + length bs \<le> length buf then Some (take off buf @ bs @ drop (off + length bs) buf) else None)"

text \<open>Reading \<open>n\<close> bytes of a buffer; \<open>None\<close> outside it.\<close>

definition bytes_at :: "byte list \<Rightarrow> nat \<Rightarrow> nat \<Rightarrow> byte list option" where
  "bytes_at buf off n = (if off + n \<le> length buf then Some (take n (drop off buf)) else None)"

text \<open>\<open>gather_rows\<close>, with \<open>n\<close> ids to go.\<close>

fun gather_rows :: "server \<Rightarrow> byte list \<Rightarrow> nat \<Rightarrow> nat \<Rightarrow> byte list \<Rightarrow> (32 word \<times> byte list) option" where
  "gather_rows s ids 0 i dst = Some (ST_OK, dst)"
| "gather_rows s ids (Suc n) i dst =
     (case bytes_at ids (4 * i) 4 of
        None \<Rightarrow> None
      | Some p \<Rightarrow> let loc = rd_u32 p 0 - sv_base32 s in
          if sv_rows32 s \<le> loc then Some (ST_RANGE, dst)
          else (case bytes_at (sv_map s) (unat loc * ROWD_BYTES) ROWD_BYTES of
              None \<Rightarrow> None
            | Some r \<Rightarrow> (case put_at dst (i * ROWD_BYTES) r of
                None \<Rightarrow> None
              | Some dst' \<Rightarrow> gather_rows s ids n (Suc i) dst')))"


subsection \<open>Byte order: the shifts are the wire format\<close>

lemma unat_drop: "unat (drop_bit k (w :: 'a::len word)) = unat w div 2 ^ k"
  by (rule trans [OF unat_drop_bit_eq drop_bit_eq_div])

lemma le_encode_wr_u32: "le_encode 4 (unat v) = wr_u32 v"
proof -
  have b: "ucast (drop_bit k v) = (word_of_nat (unat v div 2 ^ k) :: byte)" for k
    using of_nat_unat [of "drop_bit k v", where ?'a = byte, symmetric]
    by (simp only: unat_drop)
  have num: "le_encode (numeral k) n = word_of_nat n # le_encode (pred_numeral k) (n div 256)" for k n
    by (simp only: numeral_eq_Suc [of k] le_encode.simps)
  have four: "le_encode 4 k = [word_of_nat k, word_of_nat (k div 256), word_of_nat (k div 256 div 256),
      word_of_nat (k div 256 div 256 div 256)]" for k
    by (simp add: num)
  show ?thesis
    unfolding wr_u32_def b four by (simp add: div_mult2_eq [symmetric])
qed

lemma length_wr [simp]: "length (wr_u32 v) = 4" "length (wr_u64 u) = 8"
  by (simp_all add: wr_u32_def wr_u64_def)

lemma le_decode_wr_u32: "le_decode (wr_u32 v) = unat v"
  unfolding le_encode_wr_u32 [symmetric] by (rule le_decode_encode) (use unsigned_less [of v] in simp)

lemma wr_u32_rd_u32: "wr_u32 (rd_u32 [a, b, c, d] 0) = [a, b, c, d]"
proof -
  have out: "\<not> bit x (8 + k)" "\<not> bit x (16 + k)" "\<not> bit x (24 + k)" for x :: byte and k
    using bit_imp_le_length [of x] by force+
  show ?thesis
    unfolding wr_u32_def rd_u32_def by (auto intro!: bit_word_eqI simp: bit_simps out)
qed

lemma unat_rd_u32: "i + 4 \<le> length p \<Longrightarrow> unat (rd_u32 p i) = le_decode (take 4 (drop i p))"
proof -
  assume l: "i + 4 \<le> length p"
  have t: "take 4 (drop i p) = [p ! i, p ! (i + 1), p ! (i + 2), p ! (i + 3)]"
    using l by (intro nth_equalityI) (auto simp: less_Suc_eq numeral_eq_Suc nth_Cons')
  have "rd_u32 p i = rd_u32 [p ! i, p ! (i + 1), p ! (i + 2), p ! (i + 3)] 0"
    by (simp add: rd_u32_def)
  then show ?thesis
    unfolding t by (metis le_decode_wr_u32 wr_u32_rd_u32)
qed

lemma le_encode_add: "le_encode (a + b) v = le_encode a v @ le_encode b (v div 256 ^ a)"
  by (induction a v rule: le_encode.induct) (auto simp: div_mult2_eq)

lemma le_decode_encode_mod: "le_decode (le_encode w v) = v mod 256 ^ w"
  by (induction w v rule: le_encode.induct) (auto simp: unat_byte_of_nat mod_mult2_eq)

lemma le_encode_mod: "le_encode w (v mod 256 ^ w) = le_encode w v"
  using le_encode_decode [of "le_encode w v"] by (simp add: le_decode_encode_mod)

lemma le_encode_wr_u64: "le_encode 8 (unat u) = wr_u64 u"
proof -
  have lo: "unat (ucast u :: 32 word) = unat u mod 256 ^ 4"
    by (simp add: unsigned_ucast_eq take_bit_eq_mod)
  have hi: "unat (ucast (drop_bit 32 u) :: 32 word) = unat u div 256 ^ 4"
  proof -
    have "unat u < 2 ^ 64"
      using unsigned_less [of u] by simp
    then show ?thesis
      by (simp add: unsigned_ucast_eq unat_drop take_bit_eq_mod less_mult_imp_div_less)
  qed
  show ?thesis
    unfolding wr_u64_def le_encode_wr_u32 [symmetric] lo hi le_encode_mod
    using le_encode_add [of 4 4 "unat u"] by simp
qed


lemma unat_rd_u16: "i + 2 \<le> length p \<Longrightarrow> unat (rd_u16 p i) = le_decode (take 2 (drop i p))"
proof -
  assume l: "i + 2 \<le> length p"
  let ?v = "rd_u16 p i" and ?a = "p ! i" and ?b = "p ! (i + 1)"
  have t: "take 2 (drop i p) = [?a, ?b]"
    using l by (intro nth_equalityI) (auto simp: less_Suc_eq numeral_eq_Suc nth_Cons')
  have len8: "LENGTH(8) = 8"
    by simp
  have out: "\<not> bit x (8 + k)" for x :: byte and k
    using bit_imp_le_length [of x] by force
  have v: "ucast ?v = ?a" "ucast (drop_bit 8 ?v) = ?b"
    unfolding rd_u16_def by (auto intro!: bit_word_eqI simp: bit_simps out)
  have "unat (ucast ?v :: byte) = unat ?v mod 2 ^ 8" "unat (ucast (drop_bit 8 ?v) :: byte) = unat ?v div 2 ^ 8 mod 2 ^ 8"
    by (simp_all only: unsigned_ucast_eq unat_drop take_bit_eq_mod len8)
  then have "unat ?a = unat ?v mod 2 ^ 8" "unat ?b = unat ?v div 2 ^ 8 mod 2 ^ 8"
    unfolding v by simp_all
  moreover have "unat ?v div 2 ^ 8 < 2 ^ 8"
    using unsigned_less [of ?v] by (intro less_mult_imp_div_less) simp
  ultimately have "unat ?a + 256 * unat ?b = unat ?v"
    using mult_div_mod_eq [of "2 ^ 8" "unat ?v"] by simp
  then show ?thesis
    unfolding t by simp
qed

subsection \<open>A server that \<open>main\<close> has checked\<close>

definition in_service :: "server \<Rightarrow> bool" where
  "in_service s \<longleftrightarrow> 0 < sv_page s \<and> length (sv_map s) = unat (sv_row_count s) * ROWD_BYTES \<and>
     unat (sv_base_row s) + unat (sv_row_count s) < 2 ^ 32 \<and>
     sv_base32 s = ucast (sv_base_row s) \<and> sv_rows32 s = ucast (sv_row_count s) \<and>
     0 < unat (sv_max_rows s) \<and> unat (sv_max_rows s) \<le> MAX_MAX_ROWS"

definition in_half :: "server \<Rightarrow> nat \<Rightarrow> bool" where
  "in_half s i \<longleftrightarrow> unat (sv_base_row s) \<le> i \<and> i < unat (sv_base_row s) + unat (sv_row_count s)"

definition mapped_row :: "server \<Rightarrow> nat \<Rightarrow> byte list" where
  "mapped_row s i = take ROWD_BYTES (drop ((i - unat (sv_base_row s)) * ROWD_BYTES) (sv_map s))"

lemma in_service_32:
  assumes "in_service s"
  shows "unat (sv_base32 s) = unat (sv_base_row s)" "unat (sv_rows32 s) = unat (sv_row_count s)"
  using assms by (auto simp: in_service_def unsigned_ucast_eq take_bit_eq_mod)

text \<open>The one unsigned compare: an id below the base wraps past every row.\<close>

lemma one_compare:
  fixes base id n :: "32 word"
  assumes "unat base + unat n \<le> 2 ^ 32"
  shows "n \<le> id - base \<longleftrightarrow> \<not> (unat base \<le> unat id \<and> unat id < unat base + unat n)"
    and "\<not> n \<le> id - base \<Longrightarrow> unat (id - base) = unat id - unat base"
proof -
  have l: "unat id < 2 ^ 32" "unat base < 2 ^ 32"
    using unsigned_less [of id] unsigned_less [of base] by simp_all
  have ge: "unat (id - base) = unat id - unat base" if "unat base \<le> unat id"
    using that by (intro unat_sub) (simp add: word_le_nat_alt)
  have lt: "unat (id - base) = 2 ^ 32 + unat id - unat base" if "\<not> unat base \<le> unat id"
    using that l by (simp add: unat_sub_if')
  show "n \<le> id - base \<longleftrightarrow> \<not> (unat base \<le> unat id \<and> unat id < unat base + unat n)"
    using ge lt assms by (cases "unat base \<le> unat id") (auto simp: word_le_nat_alt)
  then show "\<not> n \<le> id - base \<Longrightarrow> unat (id - base) = unat id - unat base"
    using ge by blast
qed

lemma length_mapped_row: "in_service s \<Longrightarrow> in_half s i \<Longrightarrow> length (mapped_row s i) = ROWD_BYTES"
proof -
  assume s: "in_service s" and i: "in_half s i"
  then have "(i - unat (sv_base_row s) + 1) * ROWD_BYTES \<le> length (sv_map s)"
    unfolding in_service_def in_half_def by (metis (no_types, lifting) Suc_eq_plus1 Suc_leI mult_le_mono1
        less_diff_conv2 add.commute)
  then show ?thesis
    by (simp add: mapped_row_def algebra_simps)
qed

lemma put_row:
  assumes "length r = w" "i * w + w \<le> length dst"
  shows "\<exists>d. put_at dst (i * w) r = Some d \<and> length d = length dst \<and>
    take (Suc i * w) d = take (i * w) dst @ r \<and> (\<forall>m\<ge>Suc i * w. drop m d = drop m dst)"
  using assms by (auto simp: put_at_def)

lemma gather_rows_from:
  assumes "in_service s"
  shows "4 * (i + n) \<le> length p \<Longrightarrow> (i + n) * ROWD_BYTES \<le> length dst \<Longrightarrow>
    (\<exists>dst'. length dst' = length dst \<and>
       gather_rows s p n i dst = Some (if \<forall>k\<in>set (id_array n (drop (4 * i) p)). in_half s k then ST_OK else ST_RANGE, dst') \<and>
       ((\<forall>k\<in>set (id_array n (drop (4 * i) p)). in_half s k) \<longrightarrow>
         dst' = take (i * ROWD_BYTES) dst @ concat (map (mapped_row s) (id_array n (drop (4 * i) p))) @
           drop ((i + n) * ROWD_BYTES) dst))"
proof (induction n arbitrary: i dst)
  case 0
  show ?case by simp
next
  case (Suc n)
  let ?k = "le_decode (take 4 (drop (4 * i) p))" and ?id = "rd_u32 (take 4 (drop (4 * i) p)) 0"
  have four: "4 * i + 4 \<le> length p"
    using Suc.prems(1) by simp
  have k: "unat ?id = ?k"
    using unat_rd_u32 [of 0 "take 4 (drop (4 * i) p)"] four by simp
  have ids: "id_array (Suc n) (drop (4 * i) p) = ?k # id_array n (drop (4 * Suc i) p)"
    by (simp add: add.commute)
  have cmp: "sv_rows32 s \<le> ?id - sv_base32 s \<longleftrightarrow> \<not> in_half s ?k"
    "in_half s ?k \<Longrightarrow> unat (?id - sv_base32 s) = ?k - unat (sv_base_row s)"
    using one_compare [of "sv_base32 s" "sv_rows32 s" ?id] assms in_service_32 [OF assms] k
    by (auto simp: in_half_def in_service_def)
  show ?case
  proof (cases "in_half s ?k")
    case False
    then show ?thesis
      using cmp(1) four unfolding ids by (auto simp: bytes_at_def Let_def)
  next
    case True
    have row: "bytes_at (sv_map s) (unat (?id - sv_base32 s) * ROWD_BYTES) ROWD_BYTES = Some (mapped_row s ?k)"
      using length_mapped_row [OF assms True] unfolding cmp(2) [OF True]
      by (auto simp: bytes_at_def mapped_row_def ROWD_BYTES_def)
    have len: "length (mapped_row s ?k) = ROWD_BYTES"
      by (rule length_mapped_row [OF assms True])
    have "i * ROWD_BYTES + ROWD_BYTES \<le> length dst"
      using Suc.prems(2) by (simp add: add_mult_distrib)
    from put_row [OF len this] obtain d where put: "put_at dst (i * ROWD_BYTES) (mapped_row s ?k) = Some d"
      and ld: "length d = length dst"
      and tk: "take (Suc i * ROWD_BYTES) d = take (i * ROWD_BYTES) dst @ mapped_row s ?k"
      and dr: "drop ((Suc i + n) * ROWD_BYTES) d = drop ((i + Suc n) * ROWD_BYTES) dst"
      by (auto simp: add_mult_distrib)
    have step: "gather_rows s p (Suc n) i dst = gather_rows s p n (Suc i) d"
      using cmp(1) True four row put by (simp add: bytes_at_def Let_def)
    have pre: "4 * (Suc i + n) \<le> length p" "(Suc i + n) * ROWD_BYTES \<le> length d"
      using Suc.prems ld by simp_all
    show ?thesis
      using Suc.IH [OF pre] True unfolding step ids tk dr ld by auto
  qed
qed


text \<open>The whole gather, from the raw bytes of the id array.\<close>

lemma gather_rows_all:
  assumes "in_service s" "4 * n \<le> length p" "n * ROWD_BYTES \<le> length dst"
  obtains dst' where "length dst' = length dst"
    and "gather_rows s p n 0 dst = Some (if \<forall>k\<in>set (id_array n p). in_half s k then ST_OK else ST_RANGE, dst')"
    and "\<forall>k\<in>set (id_array n p). in_half s k \<Longrightarrow>
      dst' = concat (map (mapped_row s) (id_array n p)) @ drop (n * ROWD_BYTES) dst"
  using gather_rows_from [OF assms(1), of 0 n p dst] assms(2,3) that by auto

lemma length_gathered:
  assumes "in_service s"
  shows "\<forall>k\<in>set ks. in_half s k \<Longrightarrow> length (concat (map (mapped_row s) ks)) = length ks * ROWD_BYTES"
  by (induction ks) (auto simp: length_mapped_row [OF assms])

end
