(* ===== verification/Daemon_Sweep.thy ===== *)
theory Daemon_Sweep
  imports Daemon_Table "HOL-Library.Signed_Division" "HOL-Library.Sublist"
begin

section \<open>The row server daemon: residency and the cache sweep\<close>

text \<open>
  \<open>resident_pages\<close>, \<open>touch_range\<close>, \<open>elapsed_ms\<close> and \<open>recharge_map\<close> of \<open>server/rowserverd.c\<close>.  The
  kernel's answers to system calls are functions of the calls made so far, which the model logs; the
  daemon's own log lines are left out.  \<open>cold\<close> is what a log of calls has dropped and not touched since:
  the sweep leaves nothing cold, whatever fails and wherever it stops, and at no moment more than the
  slice in flight.  \<open>None\<close> is an access outside the residency vector.
\<close>

unbundle bit_operations_syntax

definition WARM_CHUNK :: nat where "WARM_CHUNK = 64 * 2 ^ 20"
definition MINCORE_PAGES :: nat where "MINCORE_PAGES = 2 ^ 15"
definition RECHARGE_SLICE_MIB :: nat where "RECHARGE_SLICE_MIB = 1024"
definition RECHARGE_MAX_SLICE_MIB :: nat where "RECHARGE_MAX_SLICE_MIB = 4096"
definition RECHARGE_MAX_MS :: nat where "RECHARGE_MAX_MS = 600 * 1000"

subsection \<open>The kernel\<close>

text \<open>The calls on the mapping, in the order they are made (latest first in a log).\<close>

datatype call =
    Normal nat nat | WillNeed nat nat | Random nat nat
  | DropMapping nat nat bool
  | DropCache nat nat bool
  | Touch nat
  | Mincore nat nat
  | Clock

type_synonym log = "call list"

record kernel =
  kn_mincore :: "log \<Rightarrow> (nat \<Rightarrow> byte) option"
  kn_madvise :: "log \<Rightarrow> bool"
  kn_fadvise :: "log \<Rightarrow> bool"
  kn_clock :: "log \<Rightarrow> int \<times> int"
  kn_busy :: "log \<Rightarrow> bool"

definition page_count :: "nat \<Rightarrow> nat \<Rightarrow> nat" where
  "page_count len page = (len + page - 1) div page"

text \<open>
  \<open>resident_pages\<close>: a span at a time, \<open>mincore\<close> writes a byte for each of its pages to the vector, of which
  the low bits are added up; 0 if a call fails.  The vector has \<open>MINCORE_PAGES\<close> bytes.
\<close>

function resident_loop :: "kernel \<Rightarrow> server \<Rightarrow> byte list \<Rightarrow> nat \<Rightarrow> 64 word \<Rightarrow> log \<Rightarrow> (64 word \<times> log) option" where
  "resident_loop K s vec off acc lg =
     (if off < length (sv_map s) then
        let span = MINCORE_PAGES * sv_page s; len = min (length (sv_map s) - off) span;
            pages = page_count len (sv_page s); lg' = Mincore off len # lg in
        (case kn_mincore K lg' of
           None \<Rightarrow> Some (0, lg')
         | Some f \<Rightarrow> (case put_at vec 0 (map f [0..<pages]) of
             None \<Rightarrow> None
           | Some vec' \<Rightarrow> (case bytes_at vec' 0 pages of
               None \<Rightarrow> None
             | Some bs \<Rightarrow> resident_loop K s vec' (off + max 1 span) (acc + sum_list (map (\<lambda>b. ucast (b AND 1)) bs)) lg')))
      else Some (acc, lg))"
  by pat_completeness auto
termination
  by (relation "measure (\<lambda>(K, s, vec, off, acc, lg). length (sv_map s) - off)") (auto intro!: diff_less_mono2)

declare resident_loop.simps [simp del]

definition resident_pages :: "kernel \<Rightarrow> server \<Rightarrow> log \<Rightarrow> (64 word \<times> log) option" where
  "resident_pages K s lg = resident_loop K s (replicate MINCORE_PAGES 0) 0 0 lg"

text \<open>\<open>touch_range\<close>: a chunk's pages are read one by one, the readahead of the next chunk asked for first.\<close>

definition touches :: "nat \<Rightarrow> nat \<Rightarrow> nat \<Rightarrow> call list" where
  "touches pos chunk page = map (\<lambda>j. Touch (pos + j * page)) [0..<page_count chunk page]"

function touch_loop :: "nat \<Rightarrow> nat \<Rightarrow> nat \<Rightarrow> log \<Rightarrow> log" where
  "touch_loop page end_at pos lg =
     (if pos < end_at then
        let chunk = min (end_at - pos) WARM_CHUNK; next = pos + WARM_CHUNK;
            lg1 = (if next < end_at then WillNeed next (min (end_at - next) WARM_CHUNK) # lg else lg)
        in touch_loop page end_at next (rev (touches pos chunk page) @ lg1)
      else lg)"
  by pat_completeness auto
termination
  by (relation "measure (\<lambda>(page, end_at, pos, lg). end_at - pos)") (auto simp: WARM_CHUNK_def)

declare touch_loop.simps [simp del]

definition touch_range :: "server \<Rightarrow> nat \<Rightarrow> nat \<Rightarrow> log \<Rightarrow> log" where
  "touch_range s off len lg =
     (if len = 0 then lg
      else Random off len # touch_loop (sv_page s) (off + len) off
        (WillNeed off (min len WARM_CHUNK) # Normal off len # lg))"

subsection \<open>The cache sweep\<close>

record sweep_report =
  sw_before :: "64 word"
  sw_after :: "64 word"
  sw_recharged :: "64 word"
  sw_done :: "32 word"
  sw_total :: "32 word"
  sw_slice_pages :: "32 word"
  sw_elapsed :: "32 word"

text \<open>Two readings of the clock, seconds and nanoseconds; C's division rounds toward zero.\<close>

definition since_ms :: "int \<times> int \<Rightarrow> int \<times> int \<Rightarrow> int" where
  "since_ms since t = (fst t - fst since) * 1000 + (snd t - snd since) sdiv 1000000"

definition elapsed_ms :: "kernel \<Rightarrow> int \<times> int \<Rightarrow> log \<Rightarrow> nat \<times> log" where
  "elapsed_ms K t0 lg = (nat (since_ms t0 (kn_clock K (Clock # lg))), Clock # lg)"

function sweep :: "kernel \<Rightarrow> server \<Rightarrow> nat \<Rightarrow> int \<times> int \<Rightarrow> nat \<Rightarrow> sweep_report \<Rightarrow> log \<Rightarrow> 32 word \<times> sweep_report \<times> log" where
  "sweep K s piece t0 off rep lg =
     (if off < length (sv_map s) then
        let len = min (length (sv_map s) - off) piece in
        (case elapsed_ms K t0 lg of (ms, lg1) \<Rightarrow>
          if RECHARGE_MAX_MS \<le> ms then (ST_OK, rep, lg1)
          else let ok = kn_madvise K lg1; lg2 = DropMapping off len ok # lg1 in
            if \<not> ok then (ST_INTERNAL, rep, lg2)
            else let ok' = kn_fadvise K lg2; lg3 = touch_range s off len (DropCache off len ok' # lg2) in
              if \<not> ok' then (ST_INTERNAL, rep, lg3)
              else sweep K s piece t0 (off + max 1 piece)
                (rep\<lparr>sw_recharged := sw_recharged rep + word_of_nat (page_count len (sv_page s)),
                   sw_done := sw_done rep + 1\<rparr>) lg3)
      else (ST_OK, rep, lg))"
  by pat_completeness auto
termination
  by (relation "measure (\<lambda>(K, s, piece, t0, off, rep, lg). length (sv_map s) - off)") (auto intro!: diff_less_mono2)

declare sweep.simps [simp del]

definition slice_mib :: "nat \<Rightarrow> nat" where
  "slice_mib asked_mib = (if asked_mib = 0 then RECHARGE_SLICE_MIB else asked_mib)"

definition first_report :: "server \<Rightarrow> nat \<Rightarrow> 64 word \<Rightarrow> sweep_report" where
  "first_report s piece before = \<lparr>sw_before = before, sw_after = 0, sw_recharged = 0, sw_done = 0,
     sw_total = word_of_nat ((length (sv_map s) + piece - 1) div piece),
     sw_slice_pages = word_of_nat (piece div sv_page s), sw_elapsed = 0\<rparr>"

definition recharge_map :: "kernel \<Rightarrow> server \<Rightarrow> nat \<Rightarrow> log \<Rightarrow> (32 word \<times> sweep_report option \<times> log) option" where
  "recharge_map K s asked_mib lg =
     (if slice_mib asked_mib > RECHARGE_MAX_SLICE_MIB then Some (ST_BAD_PARAM, None, lg)
      else if kn_busy K lg then Some (ST_BUSY, None, lg)
      else let lg0 = Clock # lg; t0 = kn_clock K lg0; piece = slice_mib asked_mib * 2 ^ 20 in
        (case resident_pages K s lg0 of None \<Rightarrow> None | Some (before, lg1) \<Rightarrow>
        (case sweep K s piece t0 0 (first_report s piece before) lg1 of (st, rep, lg2) \<Rightarrow>
        (case resident_pages K s lg2 of None \<Rightarrow> None | Some (after, lg3) \<Rightarrow>
        (case elapsed_ms K t0 lg3 of (ms, lg4) \<Rightarrow>
          Some (st, Some (rep\<lparr>sw_after := after, sw_elapsed := word_of_nat ms\<rparr>), lg4))))))"

subsection \<open>What the sweep leaves cold\<close>

text \<open>The pages, by number, that the calls of a log have dropped and not touched since.\<close>

definition pages_in :: "nat \<Rightarrow> nat \<Rightarrow> nat \<Rightarrow> nat set" where
  "pages_in page off len = (\<lambda>j. (off + j * page) div page) ` {..<page_count len page}"

fun cold :: "nat \<Rightarrow> log \<Rightarrow> nat set" where
  "cold page [] = {}"
| "cold page (DropMapping off len ok # lg) = (if ok then pages_in page off len else {}) \<union> cold page lg"
| "cold page (DropCache off len ok # lg) = (if ok then pages_in page off len else {}) \<union> cold page lg"
| "cold page (Touch a # lg) = cold page lg - {a div page}"
| "cold page (c # lg) = cold page lg"

lemma cold_touches: "cold page (rev (touches pos chunk page) @ lg) = cold page lg - pages_in page pos chunk"
proof -
  have "cold page (rev (map (\<lambda>j. Touch (pos + j * page)) js) @ lg) =
      cold page lg - (\<lambda>j. (pos + j * page) div page) ` set js" for js
    by (induction js rule: rev_induct) auto
  then show ?thesis
    by (simp add: touches_def pages_in_def lessThan_atLeast0)
qed

lemma less_page_count: "0 < page \<Longrightarrow> j < page_count len page \<longleftrightarrow> j * page < len"
proof -
  assume p: "0 < page"
  have "j < page_count len page \<longleftrightarrow> Suc j * page \<le> len + page - 1"
    unfolding page_count_def using less_eq_div_iff_mult_less_eq [OF p, of "Suc j" "len + page - 1"] by auto
  then show ?thesis
    using p by auto
qed

lemma page_count_mult: "0 < page \<Longrightarrow> page_count (k * page) page = k"
  by (metis less_page_count mult_less_cancel2 nat_neq_iff)

lemma page_count_add: "0 < page \<Longrightarrow> page_count (k * page + len) page = k + page_count len page"
proof -
  assume p: "0 < page"
  have "k * page + len + page - 1 = len + page - 1 + k * page"
    using p by simp
  then show ?thesis
    using p unfolding page_count_def by (simp only: div_mult_self1)
qed

lemma pages_in_eq: "0 < page \<Longrightarrow> pages_in page off len = {off div page..<off div page + page_count len page}"
proof -
  assume "0 < page"
  then have "pages_in page off len = (+) (off div page) ` {0..<page_count len page}"
    unfolding pages_in_def by (simp add: lessThan_atLeast0 add.commute)
  then show ?thesis
    by (simp add: add.commute)
qed

lemma pages_in_split:
  "0 < page \<Longrightarrow> pages_in page off (k * page + len) = pages_in page off (k * page) \<union> pages_in page (off + k * page) len"
  by (auto simp: pages_in_eq page_count_add page_count_mult)

lemma page_count_0 [simp]: "page_count 0 page = 0"
  by (cases page) (simp_all add: page_count_def)

lemma pages_in_0 [simp]: "pages_in page off 0 = {}"
  by (simp add: pages_in_def)

lemma pages_in_chunk:
  assumes "0 < page" "page dvd piece"
  shows "pages_in page off (min len piece) \<union> pages_in page (off + piece) (len - piece) = pages_in page off len"
proof (cases "len \<le> piece")
  case False
  obtain k where k: "piece = k * page"
    using assms(2) by (auto simp: dvd_def mult.commute)
  then have "len = k * page + (len - piece)"
    using False by simp
  then show ?thesis
    using pages_in_split [OF assms(1), of off k "len - piece"] False k by simp
qed simp

lemma cold_WillNeed_if: "cold page (if b then WillNeed x y # lg else lg) = cold page lg"
  by simp

lemma touch_loop_cold:
  assumes "0 < page" "page dvd WARM_CHUNK"
  shows "cold page (touch_loop page end_at pos lg) = cold page lg - pages_in page pos (end_at - pos)"
  using assms
proof (induction page end_at pos lg rule: touch_loop.induct)
  case (1 page end_at pos lg)
  show ?case
  proof (cases "pos < end_at")
    case True
    have "cold page (touch_loop page end_at pos lg) = cold page lg - pages_in page pos (min (end_at - pos) WARM_CHUNK) -
        pages_in page (pos + WARM_CHUNK) (end_at - (pos + WARM_CHUNK))"
      using True "1.IH" [OF True refl refl refl "1.prems"]
      by (subst touch_loop.simps) (simp add: Let_def cold_touches cold_WillNeed_if)
    also have "\<dots> = cold page lg - pages_in page pos (end_at - pos)"
      using pages_in_chunk [OF "1.prems", of pos "end_at - pos"] by auto
    finally show ?thesis .
  qed (simp add: touch_loop.simps)
qed

lemma touch_range_cold:
  assumes "0 < sv_page s" "sv_page s dvd WARM_CHUNK"
  shows "cold (sv_page s) (touch_range s off len lg) = cold (sv_page s) lg - pages_in (sv_page s) off len"
  by (simp add: touch_range_def touch_loop_cold [OF assms])

lemma page_count_span: "page_count (min len (k * page)) page \<le> k"
proof (cases "page = 0")
  case False
  have "\<not> k < page_count (min len (k * page)) page"
    using less_page_count [of page k "min len (k * page)"] False by simp
  then show ?thesis
    by simp
qed (simp add: page_count_def)

text \<open>A round of the residency count: within the vector whatever the length of the mapping.\<close>

lemma resident_round:
  assumes "length vec = MINCORE_PAGES" and "off < length (sv_map s)"
  obtains (failed) lg' where "resident_loop K s vec off acc lg = Some (0, lg')"
      "lg' = Mincore off (min (length (sv_map s) - off) (MINCORE_PAGES * sv_page s)) # lg"
  | (counted) vec' acc' lg' where "resident_loop K s vec off acc lg =
        resident_loop K s vec' (off + max 1 (MINCORE_PAGES * sv_page s)) acc' lg'"
      "lg' = Mincore off (min (length (sv_map s) - off) (MINCORE_PAGES * sv_page s)) # lg" "length vec' = MINCORE_PAGES"
proof -
  let ?len = "min (length (sv_map s) - off) (MINCORE_PAGES * sv_page s)"
  let ?lg = "Mincore off ?len # lg" and ?n = "page_count ?len (sv_page s)"
  have n: "?n \<le> length vec"
    using page_count_span assms(1) by simp
  show thesis
  proof (cases "kn_mincore K ?lg")
    case None
    then show thesis
      using assms(2) by (intro failed) (simp_all add: resident_loop.simps [of K s vec] Let_def)
  next
    case (Some f)
    let ?vec = "map f [0..<?n] @ drop ?n vec"
    have "put_at vec 0 (map f [0..<?n]) = Some ?vec" "bytes_at ?vec 0 ?n = Some (map f [0..<?n])"
      using n by (simp_all add: put_at_def bytes_at_def del: upt_Suc)
    then show thesis
      using assms n Some by (intro counted [of ?vec])
        (simp_all add: resident_loop.simps [of K s vec] Let_def del: upt_Suc)
  qed
qed

lemma resident_loop_cold:
  "length vec = MINCORE_PAGES \<Longrightarrow>
    \<exists>n lg'. resident_loop K s vec off acc lg = Some (n, lg') \<and> cold page lg' = cold page lg"
proof (induction "length (sv_map s) - off" arbitrary: vec off acc lg rule: less_induct)
  case less
  show ?case
  proof (cases "off < length (sv_map s)")
    case True
    from less.prems True show ?thesis
    proof (cases rule: resident_round [of vec off s K acc lg])
      case (counted vec' acc' lg')
      have "length (sv_map s) - (off + max 1 (MINCORE_PAGES * sv_page s)) < length (sv_map s) - off"
        using True by (intro diff_less_mono2) auto
      then show ?thesis
        using less.hyps counted by fastforce
    qed simp
  qed (simp add: resident_loop.simps [of K s vec])
qed

lemma resident_pages_some:
  obtains n lg' where "resident_pages K s lg = Some (n, lg')"
  using resident_loop_cold [of "replicate MINCORE_PAGES 0" K s 0 0 lg undefined] that unfolding resident_pages_def by auto

text \<open>The ways a round of the sweep goes.\<close>

abbreviation piece_at :: "server \<Rightarrow> nat \<Rightarrow> nat \<Rightarrow> nat" where
  "piece_at s piece off \<equiv> min (length (sv_map s) - off) piece"

definition swept :: "server \<Rightarrow> nat \<Rightarrow> nat \<Rightarrow> bool \<Rightarrow> log \<Rightarrow> log" where
  "swept s piece off ok lg = touch_range s off (piece_at s piece off)
     (DropCache off (piece_at s piece off) ok # DropMapping off (piece_at s piece off) True # Clock # lg)"

definition counted :: "server \<Rightarrow> nat \<Rightarrow> nat \<Rightarrow> sweep_report \<Rightarrow> sweep_report" where
  "counted s piece off rep =
     rep\<lparr>sw_recharged := sw_recharged rep + word_of_nat (page_count (piece_at s piece off) (sv_page s)),
       sw_done := sw_done rep + 1\<rparr>"

lemma sweep_round:
  assumes "sweep K s piece t0 off rep lg = (st, rep', lg')"
  obtains (all) "length (sv_map s) \<le> off" "st = ST_OK" "rep' = rep" "lg' = lg"
  | (late) "off < length (sv_map s)" "RECHARGE_MAX_MS \<le> fst (elapsed_ms K t0 lg)" "st = ST_OK" "rep' = rep" "lg' = Clock # lg"
  | (kept) "off < length (sv_map s)" "\<not> kn_madvise K (Clock # lg)" "st = ST_INTERNAL" "rep' = rep"
      "lg' = DropMapping off (piece_at s piece off) False # Clock # lg"
  | (stuck) "off < length (sv_map s)" "st = ST_INTERNAL" "rep' = rep" "lg' = swept s piece off False lg"
      "\<not> kn_fadvise K (DropMapping off (piece_at s piece off) True # Clock # lg)"
  | (moved) "off < length (sv_map s)"
      "sweep K s piece t0 (off + max 1 piece) (counted s piece off rep) (swept s piece off True lg) = (st, rep', lg')"
proof (cases "off < length (sv_map s)")
  case True
  note one = assms [unfolded sweep.simps [of K s piece t0 off rep lg] Let_def elapsed_ms_def, simplified]
  let ?ms = "RECHARGE_MAX_MS \<le> fst (elapsed_ms K t0 lg)" and ?lg2 = "DropMapping off (piece_at s piece off) True # Clock # lg"
  consider ?ms | "\<not> ?ms" "\<not> kn_madvise K (Clock # lg)"
    | "\<not> ?ms" "kn_madvise K (Clock # lg)" "\<not> kn_fadvise K ?lg2"
    | "\<not> ?ms" "kn_madvise K (Clock # lg)" "kn_fadvise K ?lg2"
    by blast
  then show thesis
  proof cases
    case 1
    then show ?thesis
      using one True by (intro late) (simp_all add: elapsed_ms_def)
  next
    case 2
    then show ?thesis
      using one True by (intro kept) (simp_all add: elapsed_ms_def)
  next
    case 3
    then show ?thesis
      using one True by (intro stuck) (simp_all add: elapsed_ms_def swept_def)
  next
    case 4
    then show ?thesis
      using one True by (intro moved) (simp_all add: elapsed_ms_def swept_def counted_def)
  qed
next
  case False
  then show thesis
    using assms by (intro all) (simp_all add: sweep.simps [of K s piece t0 off rep lg])
qed

lemma sweep_induct [consumes 1, case_names all late kept stuck moved]:
  assumes "sweep K s piece t0 off rep lg = (st, rep', lg')"
    and "\<And>off rep lg. length (sv_map s) \<le> off \<Longrightarrow> P off rep lg ST_OK rep lg"
    and "\<And>off rep lg. off < length (sv_map s) \<Longrightarrow> RECHARGE_MAX_MS \<le> fst (elapsed_ms K t0 lg) \<Longrightarrow> P off rep lg ST_OK rep (Clock # lg)"
    and "\<And>off rep lg. off < length (sv_map s) \<Longrightarrow> \<not> kn_madvise K (Clock # lg) \<Longrightarrow>
      P off rep lg ST_INTERNAL rep (DropMapping off (piece_at s piece off) False # Clock # lg)"
    and "\<And>off rep lg. off < length (sv_map s) \<Longrightarrow>
      \<not> kn_fadvise K (DropMapping off (piece_at s piece off) True # Clock # lg) \<Longrightarrow>
      P off rep lg ST_INTERNAL rep (swept s piece off False lg)"
    and "\<And>off rep lg st rep' lg'. off < length (sv_map s) \<Longrightarrow>
      P (off + max 1 piece) (counted s piece off rep) (swept s piece off True lg) st rep' lg' \<Longrightarrow> P off rep lg st rep' lg'"
  shows "P off rep lg st rep' lg'"
  using assms(1)
proof (induction "length (sv_map s) - off" arbitrary: off rep lg rule: less_induct)
  case less
  from less.prems show ?case
  proof (cases rule: sweep_round)
    case moved
    then have "length (sv_map s) - (off + max 1 piece) < length (sv_map s) - off"
      by (intro diff_less_mono2) auto
    from less.hyps [OF this moved(2)] show ?thesis
      by (rule assms(6) [OF moved(1)])
  qed (use assms in auto)
qed

lemma cold_swept:
  assumes "0 < sv_page s" "sv_page s dvd WARM_CHUNK"
  shows "cold (sv_page s) (swept s piece off ok lg) = cold (sv_page s) lg - pages_in (sv_page s) off (piece_at s piece off)"
  by (auto simp: swept_def touch_range_cold [OF assms])

text \<open>Whatever the kernel answers and wherever the sweep stops, it leaves nothing cold.\<close>

lemma sweep_cold:
  assumes "0 < sv_page s" "sv_page s dvd WARM_CHUNK" "sweep K s piece t0 off rep lg = (st, rep', lg')"
  shows "cold (sv_page s) lg' \<subseteq> cold (sv_page s) lg"
  using assms(3) by (induction rule: sweep_induct) (auto simp: cold_swept [OF assms(1,2)])

text \<open>The ways \<open>recharge_map\<close> goes, with the piece it works in.\<close>

abbreviation piece_bytes :: "nat \<Rightarrow> nat" where
  "piece_bytes mib \<equiv> slice_mib mib * 2 ^ 20"

lemma recharge_cases:
  assumes "recharge_map K s mib lg = Some (st, rep, lg')"
  obtains (refused) "mib > RECHARGE_MAX_SLICE_MIB \<or> kn_busy K lg" "st \<noteq> ST_OK" "rep = None" "lg' = lg"
  | (ran) before l1 rep1 l2 after l3 where "resident_pages K s (Clock # lg) = Some (before, l1)"
      "sweep K s (piece_bytes mib) (kn_clock K (Clock # lg)) 0 (first_report s (piece_bytes mib) before) l1 = (st, rep1, l2)"
      "resident_pages K s l2 = Some (after, l3)" "lg' = Clock # l3"
      "rep = Some (rep1\<lparr>sw_after := after, sw_elapsed := word_of_nat (fst (elapsed_ms K (kn_clock K (Clock # lg)) l3))\<rparr>)"
proof (cases "mib > RECHARGE_MAX_SLICE_MIB \<or> kn_busy K lg")
  case True
  then show thesis
    using assms by (intro refused)
      (auto simp: recharge_map_def Let_def slice_mib_def RECHARGE_SLICE_MIB_def RECHARGE_MAX_SLICE_MIB_def st_defs split: if_splits)
next
  case False
  obtain before l1 where 1: "resident_pages K s (Clock # lg) = Some (before, l1)"
    by (rule resident_pages_some)
  obtain st' rep1 l2 where 2: "sweep K s (piece_bytes mib) (kn_clock K (Clock # lg)) 0 (first_report s (piece_bytes mib) before) l1 =
      (st', rep1, l2)"
    by (metis prod_cases3)
  obtain after l3 where 3: "resident_pages K s l2 = Some (after, l3)"
    by (rule resident_pages_some)
  have mib: "\<not> slice_mib mib > RECHARGE_MAX_SLICE_MIB"
    using False by (simp add: slice_mib_def RECHARGE_SLICE_MIB_def RECHARGE_MAX_SLICE_MIB_def)
  have "recharge_map K s mib lg = Some (st', Some (rep1\<lparr>sw_after := after,
      sw_elapsed := word_of_nat (fst (elapsed_ms K (kn_clock K (Clock # lg)) l3))\<rparr>), Clock # l3)"
    using False mib by (simp only: recharge_map_def Let_def 1 2 3 prod.case option.case if_False elapsed_ms_def fst_conv de_Morgan_disj)
  then show thesis
    using assms 2 by (intro ran [OF 1 _ 3]) simp_all
qed

text \<open>The residency counts stay within their vector, so a sweep is never undefined.\<close>

lemma recharge_map_some:
  obtains st rep lg' where "recharge_map K s mib lg = Some (st, rep, lg')"
proof (cases "slice_mib mib > RECHARGE_MAX_SLICE_MIB \<or> kn_busy K lg")
  case True
  then show thesis
    using that by (cases "slice_mib mib > RECHARGE_MAX_SLICE_MIB") (simp_all add: recharge_map_def)
next
  case False
  obtain before l1 where 1: "resident_pages K s (Clock # lg) = Some (before, l1)"
    by (rule resident_pages_some)
  obtain st rep l2 where 2: "sweep K s (piece_bytes mib) (kn_clock K (Clock # lg)) 0 (first_report s (piece_bytes mib) before) l1 =
      (st, rep, l2)"
    by (metis prod_cases3)
  obtain after l3 where 3: "resident_pages K s l2 = Some (after, l3)"
    by (rule resident_pages_some)
  show thesis
    using False by (intro that) (simp only: recharge_map_def Let_def 1 2 3 prod.case option.case if_False elapsed_ms_def
      de_Morgan_disj)
qed

text \<open>At any moment of a sweep nothing but the piece in flight is colder than before.\<close>

fun drops :: "nat \<Rightarrow> call \<Rightarrow> nat set" where
  "drops page (DropMapping off len ok) = pages_in page off len"
| "drops page (DropCache off len ok) = pages_in page off len"
| "drops page c = {}"

lemma cold_Cons: "cold page (c # lg) \<subseteq> drops page c \<union> cold page lg"
  by (cases c) auto

text \<open>\<open>logs P lg lg'\<close>: \<open>lg'\<close> continues \<open>lg\<close> with calls of which each satisfies \<open>P\<close>.\<close>

definition logs :: "(call \<Rightarrow> bool) \<Rightarrow> log \<Rightarrow> log \<Rightarrow> bool" where
  "logs P lg lg' \<longleftrightarrow> (\<exists>new. lg' = new @ lg \<and> (\<forall>c\<in>set new. P c))"

lemma logs_refl [simp]: "logs P lg lg"
  by (auto simp: logs_def)

lemma logs_Cons [simp]: "logs P lg lg' \<Longrightarrow> P c \<Longrightarrow> logs P lg (c # lg')"
  unfolding logs_def by (metis Cons_eq_appendI set_ConsD)

lemma logs_app: "logs P lg lg' \<Longrightarrow> \<forall>c\<in>set new. P c \<Longrightarrow> logs P lg (new @ lg')"
  unfolding logs_def by (metis Un_iff append_assoc set_append)

lemma logs_trans: "logs P lg lg' \<Longrightarrow> logs P lg' lg'' \<Longrightarrow> logs P lg lg''"
  unfolding logs_def by (metis Un_iff append_assoc set_append)

text \<open>The bytes of the mapping a call is about, and the calls within a range of it.\<close>

fun call_span :: "call \<Rightarrow> (nat \<times> nat) option" where
  "call_span (Normal off len) = Some (off, off + len)"
| "call_span (WillNeed off len) = Some (off, off + len)"
| "call_span (Random off len) = Some (off, off + len)"
| "call_span (DropMapping off len ok) = Some (off, off + len)"
| "call_span (DropCache off len ok) = Some (off, off + len)"
| "call_span (Touch a) = Some (a, a + 1)"
| "call_span (Mincore off len) = Some (off, off + len)"
| "call_span Clock = None"

definition inside :: "nat \<Rightarrow> nat \<Rightarrow> call \<Rightarrow> bool" where
  "inside lo hi c \<longleftrightarrow> (case call_span c of None \<Rightarrow> True | Some (a, b) \<Rightarrow> lo \<le> a \<and> b \<le> hi)"

lemma inside_simps [simp]:
  "inside lo hi (Normal off len) \<longleftrightarrow> lo \<le> off \<and> off + len \<le> hi"
  "inside lo hi (WillNeed off len) \<longleftrightarrow> lo \<le> off \<and> off + len \<le> hi"
  "inside lo hi (Random off len) \<longleftrightarrow> lo \<le> off \<and> off + len \<le> hi"
  "inside lo hi (DropMapping off len ok) \<longleftrightarrow> lo \<le> off \<and> off + len \<le> hi"
  "inside lo hi (DropCache off len ok) \<longleftrightarrow> lo \<le> off \<and> off + len \<le> hi"
  "inside lo hi (Touch a) \<longleftrightarrow> lo \<le> a \<and> a < hi"
  "inside lo hi (Mincore off len) \<longleftrightarrow> lo \<le> off \<and> off + len \<le> hi"
  "inside lo hi Clock"
  by (auto simp: inside_def)

lemma inside_mono: "inside lo hi c \<Longrightarrow> lo' \<le> lo \<Longrightarrow> hi \<le> hi' \<Longrightarrow> inside lo' hi' c"
  by (cases c) auto

abbreviation mild :: "nat \<Rightarrow> nat \<Rightarrow> call \<Rightarrow> bool" where
  "mild lo hi c \<equiv> inside lo hi c \<and> (\<forall>page. drops page c = {})"

lemma touch_loop_logs:
  "0 < page \<Longrightarrow> logs (mild off end_at) lg lg' \<Longrightarrow> off \<le> pos \<Longrightarrow> logs (mild off end_at) lg (touch_loop page end_at pos lg')"
proof (induction page end_at pos lg' rule: touch_loop.induct)
  case (1 page end_at pos lg')
  let ?chunk = "min (end_at - pos) WARM_CHUNK" and ?next = "pos + WARM_CHUNK"
  show ?case
  proof (cases "pos < end_at")
    case True
    have t: "\<forall>c\<in>set (rev (touches pos ?chunk page)). mild off end_at c"
      using "1.prems" by (auto simp: touches_def less_page_count)
    have "logs (mild off end_at) lg (if ?next < end_at then WillNeed ?next (min (end_at - ?next) WARM_CHUNK) # lg' else lg')"
      using "1.prems" by simp
    note a = logs_app [OF this t]
    have "off \<le> ?next"
      using "1.prems"(3) by simp
    then show ?thesis
      unfolding touch_loop.simps [of page end_at pos lg'] Let_def if_P [OF True]
      by (rule "1.IH" [OF True refl refl refl "1.prems"(1) a])
  next
    case False
    then show ?thesis
      using "1.prems" by (simp add: touch_loop.simps)
  qed
qed

lemma logs_mono: "logs P lg lg' \<Longrightarrow> (\<And>c. P c \<Longrightarrow> Q c) \<Longrightarrow> logs Q lg lg'"
  unfolding logs_def by blast

lemma touch_range_logs:
  assumes "0 < sv_page s" "logs P lg lg'" "\<And>c. mild off (off + len) c \<Longrightarrow> P c"
  shows "logs P lg (touch_range s off len lg')"
proof -
  have "logs (mild off (off + len)) lg' (touch_range s off len lg')"
    unfolding touch_range_def using assms(1) by (simp add: touch_loop_logs)
  from logs_mono [OF this assms(3)] show ?thesis
    by (rule logs_trans [OF assms(2)])
qed

lemma resident_loop_logs:
  "length vec = MINCORE_PAGES \<Longrightarrow> logs (mild 0 (length (sv_map s))) lg lg' \<Longrightarrow>
    \<exists>n lg''. resident_loop K s vec off acc lg' = Some (n, lg'') \<and> logs (mild 0 (length (sv_map s))) lg lg''"
proof (induction "length (sv_map s) - off" arbitrary: vec off acc lg' rule: less_induct)
  case less
  show ?case
  proof (cases "off < length (sv_map s)")
    case True
    from less.prems(1) True show ?thesis
    proof (cases rule: resident_round [of vec off s K acc lg'])
      case (counted vec' acc' l)
      have "length (sv_map s) - (off + max 1 (MINCORE_PAGES * sv_page s)) < length (sv_map s) - off"
        using True by (intro diff_less_mono2) auto
      moreover have "logs (mild 0 (length (sv_map s))) lg l"
        using counted(2) less.prems(2) True by auto
      ultimately show ?thesis
        using less.hyps counted(1,3) by fastforce
    qed (use less.prems(2) True in auto)
  qed (use less.prems(2) in \<open>simp add: resident_loop.simps [of K s vec]\<close>)
qed

text \<open>The calls that drop only pages of \<open>X\<close>.\<close>

abbreviation adds :: "nat \<Rightarrow> nat set \<Rightarrow> log \<Rightarrow> log \<Rightarrow> bool" where
  "adds page X \<equiv> logs (\<lambda>c. drops page c \<subseteq> X)"

lemma cold_adds: "adds page X lg lg' \<Longrightarrow> cold page lg' \<subseteq> cold page lg \<union> X"
proof -
  have "\<forall>c\<in>set new. drops page c \<subseteq> X \<Longrightarrow> cold page (new @ lg) \<subseteq> cold page lg \<union> X" for new
  proof (induction new)
    case (Cons c new)
    then show ?case
      using cold_Cons [of page c "new @ lg"] by auto
  qed simp
  then show "adds page X lg lg' \<Longrightarrow> ?thesis"
    by (auto simp: logs_def)
qed

text \<open>A log between the two of a \<open>logs\<close> is one too.\<close>

lemma logs_between: "logs P lg lg' \<Longrightarrow> suffix l lg' \<Longrightarrow> suffix lg l \<Longrightarrow> logs P lg l"
  unfolding logs_def suffix_def by (metis Un_iff append_assoc append_same_eq set_append)

lemma resident_pages_cold: "resident_pages K s lg = Some (n, lg') \<Longrightarrow> cold page lg' = cold page lg"
  using resident_loop_cold [of "replicate MINCORE_PAGES 0" K s 0 0 lg page] by (auto simp: resident_pages_def)

lemma resident_pages_logs: "resident_pages K s lg = Some (n, lg') \<Longrightarrow> logs (mild 0 (length (sv_map s))) lg lg'"
  using resident_loop_logs [OF _ logs_refl, of "replicate MINCORE_PAGES 0" K s 0 0 lg] by (auto simp: resident_pages_def)

lemma swept_adds:
  assumes "0 < sv_page s"
  shows "adds (sv_page s) (pages_in (sv_page s) off (piece_at s piece off)) lg (swept s piece off ok lg)"
  using assms unfolding swept_def by (intro touch_range_logs) auto

definition one_piece :: "server \<Rightarrow> nat \<Rightarrow> log \<Rightarrow> log \<Rightarrow> bool" where
  "one_piece s piece lg lg' \<longleftrightarrow> suffix lg lg' \<and> (\<forall>l. suffix l lg' \<and> suffix lg l \<longrightarrow>
     (\<exists>off. cold (sv_page s) l \<subseteq> cold (sv_page s) lg \<union> pages_in (sv_page s) off (piece_at s piece off)))"

lemma one_piece_adds:
  "adds (sv_page s) (pages_in (sv_page s) off (piece_at s piece off)) lg lg' \<Longrightarrow> one_piece s piece lg lg'"
proof -
  assume a: "adds (sv_page s) (pages_in (sv_page s) off (piece_at s piece off)) lg lg'"
  then have "suffix lg lg'"
    by (auto simp: logs_def suffix_def)
  then show ?thesis
    unfolding one_piece_def using cold_adds [OF logs_between [OF a]] by blast
qed

lemma one_piece_trans:
  assumes "one_piece s piece lg lg'" "cold (sv_page s) lg' \<subseteq> cold (sv_page s) lg" "one_piece s piece lg' lg''"
  shows "one_piece s piece lg lg''"
proof -
  have "\<exists>off. cold (sv_page s) l \<subseteq> cold (sv_page s) lg \<union> pages_in (sv_page s) off (piece_at s piece off)"
    if l: "suffix l lg''" "suffix lg l" for l
  proof -
    have "suffix lg' lg''"
      using assms(3) by (simp add: one_piece_def)
    with l(1) consider "suffix l lg'" | "suffix lg' l"
      using suffix_same_cases by blast
    then show ?thesis
    proof cases
      case 1
      then show ?thesis
        using assms(1) l(2) unfolding one_piece_def by blast
    next
      case 2
      then obtain off where "cold (sv_page s) l \<subseteq> cold (sv_page s) lg' \<union> pages_in (sv_page s) off (piece_at s piece off)"
        using assms(3) l(1) unfolding one_piece_def by blast
      then show ?thesis
        using assms(2) by blast
    qed
  qed
  then show ?thesis
    using assms(1,3) unfolding one_piece_def by (blast intro: suffix_order.trans)
qed

lemma sweep_one_piece:
  assumes "0 < sv_page s" "sv_page s dvd WARM_CHUNK" "sweep K s piece t0 off rep lg = (st, rep', lg')"
  shows "one_piece s piece lg lg'"
  using assms(3)
proof (induction rule: sweep_induct)
  case (kept off rep lg)
  show ?case
    by (rule one_piece_adds [of _ off]) simp
next
  case (stuck off rep lg)
  show ?case
    by (rule one_piece_adds [OF swept_adds [OF assms(1)]])
next
  case (moved off rep lg st rep' lg')
  then show ?case
    using one_piece_trans [OF one_piece_adds [OF swept_adds [OF assms(1)]]] cold_swept [OF assms(1,2)] by (metis Diff_subset)
next
  case (all off rep lg)
  show ?case
    by (rule one_piece_adds) (rule logs_refl)
next
  case (late off rep lg)
  show ?case
    by (rule one_piece_adds [of _ off]) simp
qed


lemma sweep_logs:
  assumes "0 < sv_page s" "sweep K s piece t0 off rep lg = (st, rep', lg')"
  shows "logs (inside 0 (length (sv_map s))) lg lg'"
  using assms(2)
proof (induction rule: sweep_induct)
  case (stuck off rep lg)
  then show ?case
    unfolding swept_def by (intro touch_range_logs [OF assms(1)]) (auto elim: inside_mono)
next
  case (moved off rep lg st rep' lg')
  have "logs (inside 0 (length (sv_map s))) lg (swept s piece off True lg)"
    unfolding swept_def using moved(1) by (intro touch_range_logs [OF assms(1)]) (auto elim: inside_mono)
  then show ?case
    by (rule logs_trans) (rule moved(2))
qed auto

lemma recharge_logs:
  assumes "0 < sv_page s" "recharge_map K s mib lg = Some (st, rep, lg')"
  shows "logs (inside 0 (length (sv_map s))) lg lg'"
  using assms(2)
proof (cases rule: recharge_cases)
  case (ran before l1 rep1 l2 after l3)
  have "logs (inside 0 (length (sv_map s))) lg l1" "logs (inside 0 (length (sv_map s))) l2 l3"
    using logs_trans [OF _ logs_mono [OF resident_pages_logs [OF ran(1)]], of _ lg]
      logs_mono [OF resident_pages_logs [OF ran(3)]] by auto
  then have "logs (inside 0 (length (sv_map s))) lg l3"
    using logs_trans sweep_logs [OF assms(1) ran(2)] by blast
  then show ?thesis
    using ran(4) by simp
qed simp

lemma recharge_cold:
  assumes "0 < sv_page s" "sv_page s dvd WARM_CHUNK" "recharge_map K s mib lg = Some (st, rep, lg')"
  shows "cold (sv_page s) lg' \<subseteq> cold (sv_page s) lg"
  using assms(3)
proof (cases rule: recharge_cases)
  case (ran before l1 rep1 l2 after l3)
  then show ?thesis
    using sweep_cold [OF assms(1,2) ran(2)] by (simp add: resident_pages_cold)
qed simp

lemma recharge_one_piece:
  assumes "0 < sv_page s" "sv_page s dvd WARM_CHUNK" "recharge_map K s mib lg = Some (st, rep, lg')"
  shows "one_piece s (piece_bytes mib) lg lg'"
proof -
  note calm = one_piece_adds [of s 0 "piece_bytes mib"]
  have id: "one_piece s (piece_bytes mib) l l" and clock: "one_piece s (piece_bytes mib) l (Clock # l)" for l
    by (rule calm, simp)+
  have res: "one_piece s (piece_bytes mib) l l'" "cold (sv_page s) l' \<subseteq> cold (sv_page s) l"
    if "resident_pages K s l = Some (n, l')" for l n l'
    using calm [OF logs_mono [OF resident_pages_logs [OF that]]] resident_pages_cold [OF that, of "sv_page s"] by auto
  from assms(3) show ?thesis
  proof (cases rule: recharge_cases)
    case (ran before l1 rep1 l2 after l3)
    then show ?thesis
      using one_piece_trans [OF clock _ one_piece_trans [OF res [OF ran(1)]
        one_piece_trans [OF sweep_one_piece [OF assms(1,2) ran(2)] sweep_cold [OF assms(1,2) ran(2)]
        one_piece_trans [OF res [OF ran(3)] clock]]]] by simp
  qed (simp only: id)
qed

lemma page_count_div: "(n + k - 1) div k = page_count n k"
  by (simp add: page_count_def)

lemma page_count_step: "0 < k \<Longrightarrow> off < n \<Longrightarrow> page_count (n - off) k = Suc (page_count (n - (off + k)) k)"
proof -
  assume k: "0 < k" and off: "off < n"
  show ?thesis
  proof (cases "n - off \<le> k")
    case True
    then have "0 < page_count (n - off) k" "\<not> 1 < page_count (n - off) k"
      using k off by (simp_all add: less_page_count)
    then show ?thesis
      using True by simp
  next
    case False
    then have "n - off = 1 * k + (n - (off + k))"
      by simp
    then show ?thesis
      using page_count_add [OF k, of 1 "n - (off + k)"] by simp
  qed
qed

lemma page_count_piece:
  assumes "0 < page" "page dvd piece"
  shows "page_count (min len piece) page + page_count (len - piece) page = page_count len page"
proof (cases "len \<le> piece")
  case False
  obtain k where k: "piece = k * page"
    using assms(2) by (auto simp: dvd_def mult.commute)
  then have "len = k * page + (len - piece)"
    using False by simp
  then show ?thesis
    using page_count_add [OF assms(1), of k "len - piece"] False k by (simp add: page_count_mult assms(1))
qed simp

text \<open>With no failing call and time to spare the sweep reaches the end and counts every page.\<close>

lemma sweep_whole:
  assumes "0 < sv_page s" "sv_page s dvd piece" "0 < piece"
    and "\<forall>l. kn_madvise K l" "\<forall>l. kn_fadvise K l" "\<forall>l. fst (elapsed_ms K t0 l) < RECHARGE_MAX_MS"
    and "sweep K s piece t0 off rep lg = (st, rep', lg')"
  shows "st = ST_OK \<and> sw_total rep' = sw_total rep \<and>
    sw_done rep' = sw_done rep + word_of_nat (page_count (length (sv_map s) - off) piece) \<and>
    sw_recharged rep' = sw_recharged rep + word_of_nat (page_count (length (sv_map s) - off) (sv_page s))"
  using assms(7)
proof (induction rule: sweep_induct)
  case (moved off rep lg st rep' lg')
  have "page_count (length (sv_map s) - off) (sv_page s) =
      page_count (piece_at s piece off) (sv_page s) + page_count (length (sv_map s) - (off + piece)) (sv_page s)"
    using page_count_piece [OF assms(1,2), of "length (sv_map s) - off"] by simp
  moreover have "max 1 piece = piece"
    using assms(3) by simp
  ultimately show ?case
    using moved page_count_step [OF assms(3) moved(1)] by (simp add: counted_def)
qed (use assms in \<open>auto simp: not_less [symmetric]\<close>)


lemma recharge_whole:
  assumes "0 < sv_page s" "sv_page s dvd 2 ^ 20" "mib \<le> RECHARGE_MAX_SLICE_MIB" "\<not> kn_busy K lg"
    and "\<forall>l. kn_madvise K l" "\<forall>l. kn_fadvise K l" "\<forall>l l'. fst (elapsed_ms K (kn_clock K l) l') < RECHARGE_MAX_MS"
  obtains rep lg' where "recharge_map K s mib lg = Some (ST_OK, Some rep, lg')"
    and "sw_done rep = sw_total rep"
    and "sw_total rep = word_of_nat (page_count (length (sv_map s)) (piece_bytes mib))"
    and "sw_recharged rep = word_of_nat (page_count (length (sv_map s)) (sv_page s))"
proof -
  obtain st rep lg' where r: "recharge_map K s mib lg = Some (st, rep, lg')"
    by (rule recharge_map_some)
  have p: "sv_page s dvd piece_bytes mib" "0 < piece_bytes mib"
    using assms(2) by (simp_all add: slice_mib_def RECHARGE_SLICE_MIB_def)
  from r show thesis
  proof (cases rule: recharge_cases)
    case refused
    then show ?thesis
      using assms(3,4) by simp
  next
    case (ran before l1 rep1 l2 after l3)
    have "fst (elapsed_ms K (kn_clock K (Clock # lg)) l) < RECHARGE_MAX_MS" for l
      using assms(7) by blast
    from sweep_whole [OF assms(1) p assms(5,6) _ ran(2)] this
    have w: "st = ST_OK" "sw_total rep1 = word_of_nat (page_count (length (sv_map s)) (piece_bytes mib))"
      "sw_done rep1 = word_of_nat (page_count (length (sv_map s)) (piece_bytes mib))"
      "sw_recharged rep1 = word_of_nat (page_count (length (sv_map s)) (sv_page s))"
      by (simp_all add: first_report_def page_count_def)
    show ?thesis
      by (rule that [OF r [unfolded w(1) ran(5)]]) (simp_all add: w del: of_nat_mult)
  qed
qed

end
