(* ===== verification/Daemon.thy ===== *)
theory Daemon
  imports Daemon_Sweep
begin

section \<open>The row server daemon: a connection\<close>

text \<open>
  The connection thread of \<open>server/rowserverd.c\<close>: the socket loops \<open>read_full\<close>, \<open>write_full\<close> and
  \<open>drain\<close>, the answers and \<open>serve_conn\<close>.  A connection is the list of what its \<open>read\<close> and \<open>write\<close> calls
  will return; a list that has run out is a peer that has closed.  The buffers are lists of the length
  C gives them: every read and write of theirs checks its place, and outside it the result is \<open>None\<close>.
  The counter of served requests is the thread's view of it.  The thread is shown to end, to stay inside its buffers and the mapping
  whatever the peer sends, to keep the stream at a header boundary, and to keep the contract
  \<open>row_service\<close> the client's lemmas are proved from.
\<close>

unbundle bit_operations_syntax

definition MAX_DRAIN_BYTES :: nat where "MAX_DRAIN_BYTES = 64 * 2 ^ 20"

subsection \<open>Socket loops\<close>

text \<open>What a \<open>read\<close> returns: some bytes (none of them: the end), \<open>EAGAIN\<close>, \<open>EINTR\<close>, another error.\<close>

datatype rd = Data "byte list" | Again | Interrupted | ReadFailed
datatype rd_status = RD_OK | RD_EOF | RD_ERR | RD_TIMEOUT

text \<open>\<open>read_full\<close> of \<open>n\<close> bytes into a buffer, of which \<open>got\<close> are there; what a \<open>read\<close> delivers goes behind them.\<close>

fun read_full :: "rd list \<Rightarrow> nat \<Rightarrow> nat \<Rightarrow> byte list \<Rightarrow> (rd_status \<times> byte list \<times> rd list) option" where
  "read_full [] n got buf = Some (if n \<le> got then RD_OK else if got = 0 then RD_EOF else RD_ERR, buf, [])"
| "read_full (x # xs) n got buf =
     (if n \<le> got then Some (RD_OK, buf, x # xs)
      else (case x of
          Data bs \<Rightarrow>
            if bs = [] then Some (if got = 0 then RD_EOF else RD_ERR, buf, xs)
            else (case put_at buf got (take (n - got) bs) of
                None \<Rightarrow> None
              | Some buf' \<Rightarrow>
                  if length bs \<le> n - got then read_full xs n (got + length bs) buf'
                  else Some (RD_OK, buf', Data (drop (n - got) bs) # xs))
        | Interrupted \<Rightarrow> read_full xs n got buf
        | Again \<Rightarrow> Some (if got = 0 then RD_TIMEOUT else RD_ERR, buf, xs)
        | ReadFailed \<Rightarrow> Some (RD_ERR, buf, xs)))"

text \<open>What a \<open>write\<close> returns: a number of bytes, \<open>EINTR\<close>, another error; past the list it takes all.\<close>

datatype wr = Took nat | WrInterrupted | WrBroken

fun write_full :: "wr list \<Rightarrow> byte list \<Rightarrow> bool \<times> byte list \<times> wr list" where
  "write_full [] bs = (True, bs, [])"
| "write_full (x # xs) bs =
     (if bs = [] then (True, [], x # xs)
      else (case x of
          Took k \<Rightarrow> if k = 0 then (False, [], xs)
            else (case write_full xs (drop k bs) of (ok, sent, ys) \<Rightarrow> (ok, take k bs @ sent, ys))
        | WrInterrupted \<Rightarrow> write_full xs bs
        | WrBroken \<Rightarrow> (False, [], xs)))"

text \<open>\<open>drain\<close> reads what it throws away into the scratch buffer; with a scratch length of zero it would never return.\<close>

function drain_scratch :: "rd list \<Rightarrow> byte list \<Rightarrow> nat \<Rightarrow> nat \<Rightarrow> (bool \<times> byte list \<times> rd list) option" where
  "drain_scratch xs scratch scratch_len bytes =
     (if bytes = 0 then Some (True, scratch, xs)
      else if scratch_len = 0 then None
      else let n = min bytes scratch_len in
        (case read_full xs n 0 scratch of
           None \<Rightarrow> None
         | Some (r, scratch', ys) \<Rightarrow>
             if r = RD_OK then drain_scratch ys scratch' scratch_len (bytes - n) else Some (False, scratch', ys)))"
  by pat_completeness auto
termination
  by (relation "measure (\<lambda>(xs, scratch, scratch_len, bytes). bytes)") auto

declare drain_scratch.simps [simp del]

definition drain_bytes :: "rd list \<Rightarrow> byte list \<Rightarrow> nat \<Rightarrow> nat \<Rightarrow> (bool \<times> byte list \<times> rd list) option" where
  "drain_bytes xs scratch scratch_len bytes =
     (if bytes > MAX_DRAIN_BYTES then Some (False, scratch, xs) else drain_scratch xs scratch scratch_len bytes)"

subsection \<open>A connection\<close>

text \<open>
  The thread's buffers: the header of a request, \<open>ids\<close>, and \<open>resp\<close> in its two parts, the 16 bytes of the
  header (\<open>dc_head\<close>) and the rows at \<open>resp + HDR_BYTES\<close> (\<open>dc_buf\<close>).
\<close>

record dconn =
  dc_in :: "rd list"
  dc_wr :: "wr list"
  dc_out :: "byte list"
  dc_hdr :: "byte list"
  dc_ids :: "byte list"
  dc_head :: "byte list"
  dc_buf :: "byte list"
  dc_served :: "64 word"
  dc_log :: log

definition resp_head :: "32 word \<Rightarrow> 32 word \<Rightarrow> 32 word \<Rightarrow> byte list" where
  "resp_head rid status n = wr_u32 (word_of_nat MAGIC_RESP) @ wr_u32 rid @ wr_u32 status @ wr_u32 n"

text \<open>\<open>send_response\<close>, with the bytes of the body; the result is whether all was written.\<close>

definition send_response :: "32 word \<Rightarrow> 32 word \<Rightarrow> 32 word \<Rightarrow> nat \<Rightarrow> dconn \<Rightarrow> (bool \<times> dconn) option" where
  "send_response rid status n body c = (case put_at (dc_head c) 0 (resp_head rid status n) of
     None \<Rightarrow> None
   | Some head \<Rightarrow> (case bytes_at (head @ dc_buf c) 0 (HEADER + body) of
       None \<Rightarrow> None
     | Some bs \<Rightarrow> (case write_full (dc_wr c) bs of (ok, sent, ws) \<Rightarrow>
         Some (ok, c\<lparr>dc_head := head, dc_out := dc_out c @ sent, dc_wr := ws\<rparr>))))"

definition fill_stat :: "kernel \<Rightarrow> server \<Rightarrow> dconn \<Rightarrow> dconn option" where
  "fill_stat K s c = (case resident_pages K s (dc_log c) of None \<Rightarrow> None | Some (pages, lg) \<Rightarrow>
     map_option (\<lambda>buf. c\<lparr>dc_buf := buf, dc_log := lg\<rparr>)
       (put_at (dc_buf c) 0 (wr_u64 (sv_base_row s) @ wr_u64 (sv_row_count s) @ wr_u32 (word_of_nat ROWD_BYTES) @
          wr_u32 (if pages > 2 ^ 32 - 1 then 2 ^ 32 - 1 else ucast pages) @ wr_u64 (dc_served c))))"

definition fill_recharge :: "sweep_report \<Rightarrow> dconn \<Rightarrow> dconn option" where
  "fill_recharge rep c = map_option (\<lambda>buf. c\<lparr>dc_buf := buf\<rparr>)
     (put_at (dc_buf c) 0 (wr_u64 (sw_before rep) @ wr_u64 (sw_after rep) @ wr_u64 (sw_recharged rep) @
        wr_u32 (sw_done rep) @ wr_u32 (sw_total rep) @ wr_u32 (sw_slice_pages rep) @ wr_u32 (sw_elapsed rep)))"

text \<open>One request after its header is read: whether the loop goes on.\<close>

definition serve_gather :: "server \<Rightarrow> 32 word \<Rightarrow> 32 word \<Rightarrow> dconn \<Rightarrow> (bool \<times> dconn) option" where
  "serve_gather s rid n c =
     (if n > sv_max_rows s then
        (case drain_bytes (dc_in c) (dc_ids c) (unat (sv_max_rows s) * 4) (unat n * 4) of
           None \<Rightarrow> None
         | Some (ok, ids, xs) \<Rightarrow> let c = c\<lparr>dc_in := xs, dc_ids := ids\<rparr> in
             if \<not> ok then map_option (\<lambda>(_, c). (False, c)) (send_response rid ST_TOO_MANY 0 0 c)
             else send_response rid ST_TOO_MANY 0 0 c)
      else (case (if n > 0 then read_full (dc_in c) (unat n * 4) 0 (dc_ids c) else Some (RD_OK, dc_ids c, dc_in c)) of
          None \<Rightarrow> None
        | Some (r, ids, xs) \<Rightarrow> let c = c\<lparr>dc_in := xs, dc_ids := ids\<rparr> in
            if r \<noteq> RD_OK then Some (False, c)
            else (case gather_rows s (dc_ids c) (unat n) 0 (dc_buf c) of
                None \<Rightarrow> None
              | Some (st, buf) \<Rightarrow>
                  if st \<noteq> ST_OK then send_response rid st 0 0 (c\<lparr>dc_buf := buf\<rparr>)
                  else send_response rid ST_OK n (unat n * ROWD_BYTES) (c\<lparr>dc_buf := buf\<rparr>))))"

definition serve_other :: "kernel \<Rightarrow> server \<Rightarrow> byte \<Rightarrow> nat \<Rightarrow> 32 word \<Rightarrow> 32 word \<Rightarrow> dconn \<Rightarrow> (bool \<times> dconn) option" where
  "serve_other K s op arg rid n c =
     (case (if n > 0 then drain_bytes (dc_in c) (dc_ids c) (unat (sv_max_rows s) * 4) (unat n * 4)
            else Some (True, dc_ids c, dc_in c)) of
        None \<Rightarrow> None
      | Some (ok, ids, xs) \<Rightarrow> let c = c\<lparr>dc_in := xs, dc_ids := ids\<rparr> in
        if \<not> ok then map_option (\<lambda>(_, c). (False, c)) (send_response rid ST_TOO_MANY 0 0 c)
        else if unat op = OP_PING then send_response rid ST_OK 0 0 c
        else if unat op = OP_STAT then
          (case fill_stat K s c of None \<Rightarrow> None | Some c' \<Rightarrow> send_response rid ST_OK 0 STAT_BODY c')
        else if unat op = OP_RECHARGE then
          (case recharge_map K s arg (dc_log c) of
             None \<Rightarrow> None
           | Some (st, None, lg) \<Rightarrow> send_response rid st 0 0 (c\<lparr>dc_log := lg\<rparr>)
           | Some (st, Some rep, lg) \<Rightarrow>
               if st \<noteq> ST_OK then send_response rid st 0 0 (c\<lparr>dc_log := lg\<rparr>)
               else (case fill_recharge rep (c\<lparr>dc_log := lg\<rparr>) of None \<Rightarrow> None
                 | Some c' \<Rightarrow> send_response rid ST_OK 0 RECHARGE_BODY c'))
        else send_response rid ST_BAD_OP 0 0 c)"

text \<open>The fields of the header buffer.\<close>

definition hdr_u32 :: "byte list \<Rightarrow> nat \<Rightarrow> 32 word option" where
  "hdr_u32 hdr i = map_option (\<lambda>p. rd_u32 p 0) (bytes_at hdr i 4)"

definition hdr_u16 :: "byte list \<Rightarrow> nat \<Rightarrow> 16 word option" where
  "hdr_u16 hdr i = map_option (\<lambda>p. rd_u16 p 0) (bytes_at hdr i 2)"

definition hdr_u8 :: "byte list \<Rightarrow> nat \<Rightarrow> byte option" where
  "hdr_u8 hdr i = map_option hd (bytes_at hdr i 1)"

definition serve_request :: "kernel \<Rightarrow> server \<Rightarrow> dconn \<Rightarrow> (bool \<times> dconn) option" where
  "serve_request K s c =
     (case (hdr_u32 (dc_hdr c) 0, hdr_u8 (dc_hdr c) 4, hdr_u8 (dc_hdr c) 5, hdr_u16 (dc_hdr c) 6, hdr_u32 (dc_hdr c) 8,
         hdr_u32 (dc_hdr c) 12) of
       (Some magic, Some version, Some op, Some arg, Some rid, Some n) \<Rightarrow>
         if unat magic \<noteq> MAGIC_REQ \<or> unat version \<noteq> VERSION
         then map_option (\<lambda>(_, c). (False, c)) (send_response rid ST_BAD_HEADER 0 0 c)
         else let c = c\<lparr>dc_served := dc_served c + 1\<rparr> in
           if unat op = OP_GATHER then serve_gather s rid n c
           else serve_other K s op (unat arg) rid n c
     | _ \<Rightarrow> None)"

text \<open>A round of the loop of \<open>serve_conn\<close>.\<close>

definition serve_step :: "kernel \<Rightarrow> server \<Rightarrow> dconn \<Rightarrow> (bool \<times> dconn) option" where
  "serve_step K s c = (case read_full (dc_in c) HEADER 0 (dc_hdr c) of
     None \<Rightarrow> None
   | Some (r, hdr, xs) \<Rightarrow> let c = c\<lparr>dc_in := xs, dc_hdr := hdr\<rparr> in
     if r = RD_EOF then Some (False, c)
     else if r = RD_TIMEOUT then Some (True, c)
     else if r \<noteq> RD_OK then Some (False, c)
     else serve_request K s c)"

function serve_loop :: "kernel \<Rightarrow> server \<Rightarrow> dconn \<Rightarrow> dconn option" where
  "serve_loop K s c = (case serve_step K s c of
     None \<Rightarrow> None
   | Some (go, c') \<Rightarrow> if go then serve_loop K s c' else Some c')"
  by pat_completeness auto

text \<open>What is still to be read; every round takes some of it.\<close>

fun rd_weight :: "rd list \<Rightarrow> nat" where
  "rd_weight [] = 0"
| "rd_weight (Data bs # xs) = 1 + length bs + rd_weight xs"
| "rd_weight (x # xs) = 1 + rd_weight xs"

lemma read_full_weight:
  "read_full xs n got buf = Some (r, buf', ys) \<Longrightarrow> rd_weight ys \<le> rd_weight xs \<and>
     (got < n \<and> r \<in> {RD_OK, RD_TIMEOUT} \<longrightarrow> rd_weight ys < rd_weight xs)"
  by (induction xs n got buf arbitrary: r buf' ys rule: read_full.induct)
    (fastforce split: rd.splits if_splits option.splits)+

lemma drain_scratch_weight: "drain_scratch xs scratch sl bytes = Some (ok, scratch', ys) \<Longrightarrow> rd_weight ys \<le> rd_weight xs"
proof (induction xs scratch sl bytes arbitrary: ok scratch' ys rule: drain_scratch.induct)
  case (1 xs scratch sl bytes)
  show ?case
  proof (cases "bytes = 0")
    case False
    with "1.prems" obtain r got zs where r: "sl \<noteq> 0" "read_full xs (min bytes sl) 0 scratch = Some (r, got, zs)"
      by (subst (asm) drain_scratch.simps) (auto simp: Let_def split: if_splits option.splits)
    then show ?thesis
      using "1.prems" False "1.IH" [OF False r(1) refl r(2) refl refl] read_full_weight [OF r(2)]
      by (subst (asm) drain_scratch.simps) (auto simp: Let_def split: if_splits intro: order.trans)
  qed (use "1.prems" in \<open>simp add: drain_scratch.simps\<close>)
qed

lemma drain_bytes_weight: "drain_bytes xs scratch sl bytes = Some (ok, scratch', ys) \<Longrightarrow> rd_weight ys \<le> rd_weight xs"
  by (auto simp: drain_bytes_def dest: drain_scratch_weight split: if_splits)

lemma send_response_in: "send_response rid st n body c = Some (ok, c') \<Longrightarrow> dc_in c' = dc_in c"
  by (auto simp: send_response_def split: option.splits prod.splits)

lemma serve_request_weight:
  assumes "serve_request K s c = Some (go, c')"
  shows "rd_weight (dc_in c') \<le> rd_weight (dc_in c)"
proof -
  have g: "serve_gather s rid n c = Some (go, c') \<Longrightarrow> rd_weight (dc_in c') \<le> rd_weight (dc_in c)" for s rid n c
    unfolding serve_gather_def Let_def
    by (auto dest!: send_response_in drain_bytes_weight read_full_weight split: if_splits prod.splits option.splits)
  have fs: "fill_stat K s c1 = Some c2 \<Longrightarrow> dc_in c2 = dc_in c1" for c1 c2
    by (auto simp: fill_stat_def split: prod.splits option.splits)
  have fr: "fill_recharge rep c1 = Some c2 \<Longrightarrow> dc_in c2 = dc_in c1" for rep c1 c2
    by (auto simp: fill_recharge_def)
  have o: "serve_other K s op arg rid n c = Some (go, c') \<Longrightarrow> rd_weight (dc_in c') \<le> rd_weight (dc_in c)" for op arg rid n c
    unfolding serve_other_def Let_def
    by (auto dest!: send_response_in fs fr drain_bytes_weight split: if_splits prod.splits option.splits)
  show ?thesis
    using assms unfolding serve_request_def Let_def
    by (auto dest!: g o send_response_in split: if_splits option.splits)
qed

lemma serve_step_weight: "serve_step K s c = Some (True, c') \<Longrightarrow> rd_weight (dc_in c') < rd_weight (dc_in c)"
  unfolding serve_step_def Let_def
  by (auto simp: HEADER_def dest!: read_full_weight serve_request_weight split: prod.splits if_splits option.splits)

termination serve_loop
  by (relation "measure (\<lambda>(K, s, c). rd_weight (dc_in c))") (auto dest: serve_step_weight)

declare serve_loop.simps [simp del]


text \<open>
  \<open>serve_conn\<close>: \<open>mem\<close> is whether \<open>malloc\<close> gave both buffers, \<open>junk\<close> what fresh memory holds.  Without them one
  header is read into 16 bytes of the stack, and the refusal sent from there.
\<close>

definition fresh :: "(nat \<Rightarrow> byte) \<Rightarrow> nat \<Rightarrow> byte list" where
  "fresh junk n = map junk [0..<n]"

definition with_buffers :: "server \<Rightarrow> (nat \<Rightarrow> byte) \<Rightarrow> dconn \<Rightarrow> dconn" where
  "with_buffers s junk c = c\<lparr>dc_hdr := fresh junk HEADER, dc_ids := fresh junk (unat (sv_max_rows s) * 4),
     dc_head := fresh junk HEADER, dc_buf := fresh junk (unat (sv_max_rows s) * ROWD_BYTES)\<rparr>"

definition serve_conn :: "kernel \<Rightarrow> server \<Rightarrow> bool \<Rightarrow> (nat \<Rightarrow> byte) \<Rightarrow> dconn \<Rightarrow> dconn option" where
  "serve_conn K s mem junk c =
     (if \<not> mem then
        (case read_full (dc_in c) HEADER 0 (fresh junk HEADER) of
           None \<Rightarrow> None
         | Some (r, hdr, xs) \<Rightarrow>
             if r = RD_OK then (case hdr_u32 hdr 8 of
                None \<Rightarrow> None
              | Some rid \<Rightarrow> map_option snd (send_response rid ST_INTERNAL 0 0 (c\<lparr>dc_in := xs, dc_head := hdr, dc_buf := []\<rparr>)))
             else Some (c\<lparr>dc_in := xs\<rparr>))
      else serve_loop K s (with_buffers s junk c))"

subsection \<open>Inside the buffers and the mapping\<close>

definition conn_ok :: "server \<Rightarrow> dconn \<Rightarrow> bool" where
  "conn_ok s c \<longleftrightarrow> length (dc_hdr c) = HEADER \<and> length (dc_ids c) = unat (sv_max_rows s) * 4 \<and>
     length (dc_head c) = HEADER \<and> length (dc_buf c) = unat (sv_max_rows s) * ROWD_BYTES"

lemma length_fresh [simp]: "length (fresh junk n) = n"
  by (simp add: fresh_def)

definition stays :: "server \<Rightarrow> dconn \<Rightarrow> dconn \<Rightarrow> bool" where
  "stays s c c' \<longleftrightarrow> conn_ok s c' \<and> logs (inside 0 (length (sv_map s))) (dc_log c) (dc_log c')"

lemma stays_trans: "stays s c c' \<Longrightarrow> stays s c' c'' \<Longrightarrow> stays s c c''"
  by (auto simp: stays_def intro: logs_trans)

lemma body_room:
  assumes "in_service s" "conn_ok s c"
  shows "RECHARGE_BODY \<le> length (dc_buf c)" "STAT_BODY \<le> length (dc_buf c)"
  using assms by (auto simp: in_service_def conn_ok_def ROWD_BYTES_def wire_consts)

lemma length_resp_head [simp]: "length (resp_head rid st n) = HEADER"
  by (simp add: resp_head_def HEADER_def)

lemma send_response_ok:
  assumes "body \<le> length (dc_buf c)" "length (dc_head c) = HEADER"
  obtains ok sent ws where
      "send_response rid st n body c = Some (ok, c\<lparr>dc_head := resp_head rid st n, dc_out := dc_out c @ sent, dc_wr := ws\<rparr>)"
    and "write_full (dc_wr c) (resp_head rid st n @ take body (dc_buf c)) = (ok, sent, ws)"
proof -
  obtain ok sent ws where "write_full (dc_wr c) (resp_head rid st n @ take body (dc_buf c)) = (ok, sent, ws)"
    by (metis prod_cases3)
  then show thesis
    using assms that by (simp add: send_response_def bytes_at_def put_at_def)
qed

lemma send_response_stays:
  assumes "body \<le> length (dc_buf c)" "conn_ok s c"
  shows "\<exists>ok c'. send_response rid st n body c = Some (ok, c') \<and> stays s c c'"
proof -
  have h: "length (dc_head c) = HEADER"
    using assms(2) by (simp add: conn_ok_def)
  obtain ok sent ws where
      "send_response rid st n body c = Some (ok, c\<lparr>dc_head := resp_head rid st n, dc_out := dc_out c @ sent, dc_wr := ws\<rparr>)"
    using send_response_ok [OF assms(1) h] by blast
  moreover have "stays s c (c\<lparr>dc_head := resp_head rid st n, dc_out := dc_out c @ sent, dc_wr := ws\<rparr>)"
    using assms(2) by (simp add: stays_def conn_ok_def)
  ultimately show ?thesis
    by blast
qed

text \<open>Reads stay within a buffer that has room for what was asked.\<close>

lemma read_full_room:
  "n \<le> length buf \<Longrightarrow> \<exists>r buf' ys. read_full xs n got buf = Some (r, buf', ys) \<and> length buf' = length buf"
proof (induction xs n got buf rule: read_full.induct)
  case (2 x xs n got buf)
  show ?case
  proof (cases "n \<le> got \<or> (\<forall>bs. x = Data bs \<longrightarrow> bs = [])")
    case True
    then show ?thesis
      using "2.IH"(2) [OF _ _ "2.prems"] "2.prems" by (cases x) auto
  next
    case False
    then obtain bs where x: "\<not> n \<le> got" "x = Data bs" "bs \<noteq> []"
      by blast
    let ?buf = "take got buf @ take (n - got) bs @ drop (got + length (take (n - got) bs)) buf"
    have put: "put_at buf got (take (n - got) bs) = Some ?buf" and l: "length ?buf = length buf"
      using "2.prems" x(1) by (simp_all add: put_at_def)
    show ?thesis
    proof (cases "length bs \<le> n - got")
      case True
      show ?thesis
        using "2.IH"(1) [OF x put True] "2.prems" l x put True by simp
    next
      case False
      then show ?thesis
        using x put l by simp
    qed
  qed
qed simp

lemma drain_scratch_room:
  "scratch_len \<le> length scratch \<Longrightarrow> 0 < scratch_len \<Longrightarrow>
    \<exists>ok scratch' ys. drain_scratch xs scratch scratch_len bytes = Some (ok, scratch', ys) \<and> length scratch' = length scratch"
proof (induction xs scratch scratch_len bytes rule: drain_scratch.induct)
  case (1 xs scratch sl bytes)
  show ?case
  proof (cases "bytes = 0")
    case False
    have "min bytes sl \<le> length scratch"
      using "1.prems" by simp
    then obtain r scratch' ys where r: "read_full xs (min bytes sl) 0 scratch = Some (r, scratch', ys)" "length scratch' = length scratch"
      using read_full_room by blast
    then show ?thesis
      using "1.IH" [OF False _ refl r(1) refl refl] "1.prems" False
      by (subst drain_scratch.simps) (auto simp: Let_def)
  qed (simp add: drain_scratch.simps ex_bool_eq)
qed

lemma drain_bytes_room:
  "scratch_len \<le> length scratch \<Longrightarrow> 0 < scratch_len \<Longrightarrow>
    \<exists>ok scratch' ys. drain_bytes xs scratch scratch_len bytes = Some (ok, scratch', ys) \<and> length scratch' = length scratch"
  using drain_scratch_room by (auto simp: drain_bytes_def)

lemma hdr_fields:
  "i + 4 \<le> length hdr \<Longrightarrow> hdr_u32 hdr i = Some (rd_u32 hdr i)"
  "i + 2 \<le> length hdr \<Longrightarrow> hdr_u16 hdr i = Some (rd_u16 hdr i)"
  "i + 1 \<le> length hdr \<Longrightarrow> hdr_u8 hdr i = Some (hdr ! i)"
  by (simp_all add: hdr_u32_def hdr_u16_def hdr_u8_def bytes_at_def rd_u32_def rd_u16_def hd_conv_nth)

lemma put_front:
  "length bs = k \<Longrightarrow> k \<le> length buf \<Longrightarrow> \<exists>buf'. put_at buf 0 bs = Some buf' \<and> length buf' = length buf \<and> take k buf' = bs"
  by (auto simp: put_at_def)

definition stat_pages :: "kernel \<Rightarrow> server \<Rightarrow> log \<Rightarrow> 32 word" where
  "stat_pages K s lg = (let pages = fst (the (resident_pages K s lg)) in if pages > 2 ^ 32 - 1 then 2 ^ 32 - 1 else ucast pages)"

lemma fill_stat_ok:
  assumes "in_service s" "conn_ok s c"
  obtains lg buf where "fill_stat K s c = Some (c\<lparr>dc_buf := buf, dc_log := lg\<rparr>)"
    and "stays s c (c\<lparr>dc_buf := buf, dc_log := lg\<rparr>)"
    and "take STAT_BODY buf = wr_u64 (sv_base_row s) @ wr_u64 (sv_row_count s) @ wr_u32 (word_of_nat ROWD_BYTES) @
          wr_u32 (stat_pages K s (dc_log c)) @ wr_u64 (dc_served c)"
proof -
  obtain pages lg where r: "resident_pages K s (dc_log c) = Some (pages, lg)"
    by (rule resident_pages_some)
  let ?bs = "wr_u64 (sv_base_row s) @ wr_u64 (sv_row_count s) @ wr_u32 (word_of_nat ROWD_BYTES) @
          wr_u32 (stat_pages K s (dc_log c)) @ wr_u64 (dc_served c)"
  have l: "length ?bs = STAT_BODY"
    by (simp add: STAT_BODY_def)
  then obtain buf where b: "put_at (dc_buf c) 0 ?bs = Some buf" "length buf = length (dc_buf c)" "take STAT_BODY buf = ?bs"
    using put_front [OF l body_room(2) [OF assms]] by blast
  have "stays s c (c\<lparr>dc_buf := buf, dc_log := lg\<rparr>)"
    using assms(2) b(2) logs_mono [OF resident_pages_logs [OF r]] by (auto simp: stays_def conn_ok_def)
  moreover have "fill_stat K s c = Some (c\<lparr>dc_buf := buf, dc_log := lg\<rparr>)"
    using b(1) unfolding fill_stat_def r prod.case stat_pages_def option.sel fst_conv Let_def by (simp only: option.map option.case prod.case)
  ultimately show thesis
    using that b(3) by blast
qed

lemma fill_recharge_ok:
  assumes "in_service s" "conn_ok s c"
  obtains buf where "fill_recharge rep c = Some (c\<lparr>dc_buf := buf\<rparr>)" "conn_ok s (c\<lparr>dc_buf := buf\<rparr>)"
    and "take RECHARGE_BODY buf = wr_u64 (sw_before rep) @ wr_u64 (sw_after rep) @ wr_u64 (sw_recharged rep) @
        wr_u32 (sw_done rep) @ wr_u32 (sw_total rep) @ wr_u32 (sw_slice_pages rep) @ wr_u32 (sw_elapsed rep)"
proof -
  let ?bs = "wr_u64 (sw_before rep) @ wr_u64 (sw_after rep) @ wr_u64 (sw_recharged rep) @
        wr_u32 (sw_done rep) @ wr_u32 (sw_total rep) @ wr_u32 (sw_slice_pages rep) @ wr_u32 (sw_elapsed rep)"
  have l: "length ?bs = RECHARGE_BODY"
    by (simp add: RECHARGE_BODY_def)
  then obtain buf where "put_at (dc_buf c) 0 ?bs = Some buf" "length buf = length (dc_buf c)" "take RECHARGE_BODY buf = ?bs"
    using put_front [OF l body_room(1) [OF assms]] by blast
  then show thesis
    using that assms(2) by (simp add: fill_recharge_def conn_ok_def)
qed


text \<open>\<open>stays\<close> after a step that has changed the reads and a buffer.\<close>

lemma stays_read: "conn_ok s c \<Longrightarrow> length ids = length (dc_ids c) \<Longrightarrow> stays s c (c\<lparr>dc_in := xs, dc_ids := ids\<rparr>)"
  and stays_conn: "stays s c c' \<Longrightarrow> conn_ok s c'"
  by (simp_all add: stays_def conn_ok_def)

lemma ids_room:
  assumes "in_service s" "conn_ok s c"
  shows "unat (sv_max_rows s) * 4 \<le> length (dc_ids c)" "0 < unat (sv_max_rows s) * 4"
  using assms by (simp_all add: in_service_def conn_ok_def)

lemma serve_gather_stays:
  assumes "in_service s" "conn_ok s c"
  shows "\<exists>go c'. serve_gather s rid n c = Some (go, c') \<and> stays s c c'"
proof (cases "n > sv_max_rows s")
  case True
  obtain ok ids xs where d: "drain_bytes (dc_in c) (dc_ids c) (unat (sv_max_rows s) * 4) (unat n * 4) = Some (ok, ids, xs)"
      "length ids = length (dc_ids c)"
    using drain_bytes_room [OF ids_room [OF assms]] by blast
  note c = stays_read [OF assms(2) d(2), of xs]
  obtain ok' c' where "send_response rid ST_TOO_MANY 0 0 (c\<lparr>dc_in := xs, dc_ids := ids\<rparr>) = Some (ok', c')" "stays s c c'"
    using send_response_stays [OF _ stays_conn [OF c], of 0 rid ST_TOO_MANY 0] stays_trans [OF c] by auto
  then show ?thesis
    using True by (cases ok) (auto simp: serve_gather_def d(1))
next
  case False
  then have n: "unat n \<le> unat (sv_max_rows s)"
    by (simp add: word_le_nat_alt [symmetric] not_less)
  then have "unat n * 4 \<le> length (dc_ids c)"
    using assms(2) by (simp add: conn_ok_def)
  then obtain r ids xs where r: "(if n > 0 then read_full (dc_in c) (unat n * 4) 0 (dc_ids c) else Some (RD_OK, dc_ids c, dc_in c)) =
      Some (r, ids, xs)" "length ids = length (dc_ids c)"
    using read_full_room [of "unat n * 4" "dc_ids c" "dc_in c" 0] by (cases "n > 0") auto
  note c = stays_read [OF assms(2) r(2), of xs]
  have ids: "4 * unat n \<le> length ids" and dst: "unat n * ROWD_BYTES \<le> length (dc_buf c)"
    using assms(2) n r(2) by (simp_all add: conn_ok_def)
  obtain st buf where g: "gather_rows s ids (unat n) 0 (dc_buf c) = Some (st, buf)" "length buf = length (dc_buf c)"
    using gather_rows_all [OF assms(1) ids dst] by metis
  let ?c = "c\<lparr>dc_in := xs, dc_ids := ids, dc_buf := buf\<rparr>"
  have b: "stays s c ?c" "unat n * ROWD_BYTES \<le> length (dc_buf ?c)"
    using c dst g(2) by (simp_all add: stays_def conn_ok_def)
  obtain ok c' where 1: "send_response rid ST_OK n (unat n * ROWD_BYTES) ?c = Some (ok, c')" "stays s c c'"
    using send_response_stays [OF b(2) stays_conn [OF b(1)]] stays_trans [OF b(1)] by blast
  obtain ok' c'' where 2: "send_response rid st 0 0 ?c = Some (ok', c'')" "stays s c c''"
    using send_response_stays [OF _ stays_conn [OF b(1)], of 0 rid st 0] stays_trans [OF b(1)] by auto
  show ?thesis
    using False c 1 2 by (cases "r = RD_OK") (simp_all add: serve_gather_def r(1) g(1) Let_def ex_bool_eq)
qed

lemma serve_other_stays:
  assumes "in_service s" "conn_ok s c"
  shows "\<exists>go c'. serve_other K s op arg rid n c = Some (go, c') \<and> stays s c c'"
proof -
  obtain ok ids xs where d: "(if n > 0 then drain_bytes (dc_in c) (dc_ids c) (unat (sv_max_rows s) * 4) (unat n * 4)
      else Some (True, dc_ids c, dc_in c)) = Some (ok, ids, xs)" "length ids = length (dc_ids c)"
    using drain_bytes_room [OF ids_room [OF assms]] by (cases "n > 0") (auto, blast)
  let ?c = "c\<lparr>dc_in := xs, dc_ids := ids\<rparr>"
  have c: "stays s c ?c" "conn_ok s ?c"
    using stays_read [OF assms(2) d(2)] stays_conn by blast+
  have bare: "\<exists>ok' c'. send_response rid st k 0 c1 = Some (ok', c') \<and> stays s c c'" if "stays s c c1" for st k c1
    using send_response_stays [OF _ stays_conn [OF that], of 0 rid st k] stays_trans [OF that] by auto
  have full: "\<exists>ok' c'. send_response rid st k b c1 = Some (ok', c') \<and> stays s c c'"
    if "stays s c c1" "b \<in> {STAT_BODY, RECHARGE_BODY}" for st k b c1
    using send_response_stays [OF _ stays_conn [OF that(1)], of b rid st k] body_room [OF assms(1) stays_conn [OF that(1)]]
      that(2) stays_trans [OF that(1)] by blast
  obtain lg buf where stat: "fill_stat K s ?c = Some (?c\<lparr>dc_buf := buf, dc_log := lg\<rparr>)"
      "stays s ?c (?c\<lparr>dc_buf := buf, dc_log := lg\<rparr>)"
    using fill_stat_ok [OF assms(1) c(2)] by metis
  obtain st rep lg' where rc: "recharge_map K s arg (dc_log ?c) = Some (st, rep, lg')"
    by (rule recharge_map_some)
  have l: "stays s c (?c\<lparr>dc_log := lg'\<rparr>)"
    using recharge_logs [OF _ rc] assms(1) c(2) by (simp add: in_service_def stays_def conn_ok_def)
  show ?thesis
  proof (cases rep)
    case None
    then show ?thesis
      unfolding serve_other_def d(1) Let_def prod.case rc stat(1) option.case
      using bare [OF c(1)] bare [OF l] full [OF stays_trans [OF c(1) stat(2)], of STAT_BODY]
      by (fastforce split: if_splits)
  next
    case (Some r)
    obtain buf' where f: "fill_recharge r (?c\<lparr>dc_log := lg'\<rparr>) = Some (?c\<lparr>dc_log := lg', dc_buf := buf'\<rparr>)"
        "conn_ok s (?c\<lparr>dc_log := lg', dc_buf := buf'\<rparr>)"
      using fill_recharge_ok [OF assms(1) stays_conn [OF l], of r] by auto
    then have "stays s c (?c\<lparr>dc_log := lg', dc_buf := buf'\<rparr>)"
      using l by (simp add: stays_def)
    then show ?thesis
      unfolding serve_other_def d(1) Let_def prod.case rc stat(1) f(1) Some option.case
      using bare [OF c(1)] bare [OF l] full [OF stays_trans [OF c(1) stat(2)], of STAT_BODY]
        full [of "?c\<lparr>dc_log := lg', dc_buf := buf'\<rparr>" RECHARGE_BODY]
      by (fastforce split: if_splits)
  qed
qed

lemma serve_request_fields:
  assumes "length (dc_hdr c) = HEADER"
  shows "serve_request K s c = (let h = dc_hdr c in
     if unat (rd_u32 h 0) \<noteq> MAGIC_REQ \<or> unat (h ! 4) \<noteq> VERSION
     then map_option (\<lambda>(_, c). (False, c)) (send_response (rd_u32 h 8) ST_BAD_HEADER 0 0 c)
     else let c = c\<lparr>dc_served := dc_served c + 1\<rparr> in
       if unat (h ! 5) = OP_GATHER then serve_gather s (rd_u32 h 8) (rd_u32 h 12) c
       else serve_other K s (h ! 5) (unat (rd_u16 h 6)) (rd_u32 h 8) (rd_u32 h 12) c)"
  using assms by (simp add: serve_request_def hdr_fields HEADER_def Let_def)

lemma serve_step_stays:
  assumes "in_service s" "conn_ok s c"
  shows "\<exists>go c'. serve_step K s c = Some (go, c') \<and> stays s c c'"
proof -
  have "HEADER \<le> length (dc_hdr c)"
    using assms(2) by (simp add: conn_ok_def)
  then obtain r hdr xs where r: "read_full (dc_in c) HEADER 0 (dc_hdr c) = Some (r, hdr, xs)" "length hdr = length (dc_hdr c)"
    using read_full_room by blast
  let ?c = "c\<lparr>dc_in := xs, dc_hdr := hdr\<rparr>" and ?c1 = "c\<lparr>dc_in := xs, dc_hdr := hdr, dc_served := dc_served c + 1\<rparr>"
  have c: "conn_ok s ?c" "stays s c ?c" "conn_ok s ?c1" "stays s c ?c1" "length (dc_hdr ?c) = HEADER"
    using assms(2) r(2) by (simp_all add: conn_ok_def stays_def)
  have b: "\<exists>ok c'. send_response rid ST_BAD_HEADER 0 0 ?c = Some (ok, c') \<and> stays s c c'" for rid
    using send_response_stays [of 0 ?c s rid ST_BAD_HEADER 0] c(1) stays_trans [OF c(2)] by auto
  have "\<exists>go c'. serve_request K s ?c = Some (go, c') \<and> stays s c c'"
    using serve_gather_stays [OF assms(1) c(3)] serve_other_stays [OF assms(1) c(3)] stays_trans [OF c(4)]
      b [of "rd_u32 hdr 8"]
    unfolding serve_request_fields [OF c(5)] Let_def by (fastforce split: if_splits)
  then show ?thesis
    using c(2) unfolding serve_step_def Let_def r(1) option.case prod.case by auto
qed

lemma serve_loop_stays:
  "in_service s \<Longrightarrow> conn_ok s c \<Longrightarrow> \<exists>c'. serve_loop K s c = Some c' \<and> stays s c c'"
proof (induction K s c rule: serve_loop.induct)
  case (1 K s c)
  obtain go c' where c': "serve_step K s c = Some (go, c')" "stays s c c'"
    using serve_step_stays [OF "1.prems"] by blast
  then have "conn_ok s c'"
    by (simp add: stays_def)
  then show ?case
    using "1.IH" [OF c'(1) refl _ "1.prems"(1)] c' stays_trans [OF c'(2)]
    by (subst serve_loop.simps) (auto simp: c'(1))
qed

subsection \<open>A steady_reads peer\<close>

text \<open>The bytes a list of reads delivers; reads that deliver something or are interrupted.\<close>

fun incoming :: "rd list \<Rightarrow> byte list" where
  "incoming [] = []"
| "incoming (Data bs # xs) = bs @ incoming xs"
| "incoming (x # xs) = incoming xs"

definition steady_reads :: "rd list \<Rightarrow> bool" where
  "steady_reads xs \<longleftrightarrow> (\<forall>x\<in>set xs. x = Interrupted \<or> (\<exists>bs. x = Data bs \<and> bs \<noteq> []))"

definition writable :: "wr list \<Rightarrow> bool" where
  "writable ws \<longleftrightarrow> (\<forall>x\<in>set ws. x = WrInterrupted \<or> (\<exists>k>0. x = Took k))"

lemma read_full_steady:
  "steady_reads xs \<Longrightarrow> got \<le> n \<Longrightarrow> n \<le> length buf \<Longrightarrow> n - got \<le> length (incoming xs) \<Longrightarrow>
   \<exists>ys. read_full xs n got buf = Some (RD_OK, take got buf @ take (n - got) (incoming xs) @ drop n buf, ys) \<and>
     steady_reads ys \<and> incoming ys = drop (n - got) (incoming xs)"
proof (induction xs n got buf rule: read_full.induct)
  case (2 x xs n got buf)
  show ?case
  proof (cases "n \<le> got")
    case True
    then show ?thesis
      using "2.prems" by simp
  next
    case False
    have st: "steady_reads xs"
      using "2.prems"(1) by (simp add: steady_reads_def)
    consider "x = Interrupted" | bs where "x = Data bs" "bs \<noteq> []"
      using "2.prems"(1) by (auto simp: steady_reads_def)
    then show ?thesis
    proof cases
      case 1
      then show ?thesis
        using "2.IH"(2) [OF False 1 st] "2.prems" False by simp
    next
      case (2 bs)
      let ?buf = "take got buf @ take (n - got) bs @ drop (got + length (take (n - got) bs)) buf"
      have put: "put_at buf got (take (n - got) bs) = Some ?buf" and l: "length ?buf = length buf"
        using "2.prems"(3) False by (simp_all add: put_at_def)
      show ?thesis
      proof (cases "length bs \<le> n - got")
        case True
        have t: "take (got + length bs) ?buf = take got buf @ bs" "drop n ?buf = drop n buf"
          using True False "2.prems"(3) by (simp_all add: min_def)
        have pre: "got + length bs \<le> n" "n \<le> length ?buf" "n - (got + length bs) \<le> length (incoming xs)"
          using "2.prems"(3,4) l True False 2 by auto
        obtain ys where ys: "read_full xs n (got + length bs) ?buf =
              Some (RD_OK, take (got + length bs) ?buf @ take (n - (got + length bs)) (incoming xs) @ drop n ?buf, ys)"
            "steady_reads ys" "incoming ys = drop (n - (got + length bs)) (incoming xs)"
          using "2.IH"(1) [OF False 2 put True st pre] by blast
        have "take (n - got) (incoming (x # xs)) = bs @ take (n - (got + length bs)) (incoming xs)"
          "drop (n - got) (incoming (x # xs)) = drop (n - (got + length bs)) (incoming xs)"
          using True 2(1) by simp_all
        then show ?thesis
          using ys put True unfolding t by (simp add: 2 False)
      next
        case long: False
        then have "steady_reads (Data (drop (n - got) bs) # xs)"
          using st by (simp add: steady_reads_def)
        then show ?thesis
          using long False 2 put "2.prems"(2) by simp
      qed
    qed
  qed
qed simp

lemma read_full_done: "steady_reads xs \<Longrightarrow> incoming xs = [] \<Longrightarrow> 0 < n \<Longrightarrow> read_full xs n 0 buf = Some (RD_EOF, buf, [])"
proof (induction xs)
  case (Cons x xs)
  then show ?case
    by (cases x) (auto simp: steady_reads_def)
qed simp

lemma write_full_writable: "writable ws \<Longrightarrow> \<exists>ys. write_full ws bs = (True, bs, ys) \<and> writable ys"
proof (induction ws bs rule: write_full.induct)
  case (2 x xs bs)
  then have x: "writable xs" "x = WrInterrupted \<or> (\<exists>k>0. x = Took k)"
    by (simp_all add: writable_def)
  show ?case
  proof (cases "bs = []")
    case False
    from x(2) show ?thesis
    proof (elim disjE exE conjE)
      fix k assume k: "0 < k" "x = Took k"
      then obtain ys where "write_full xs (drop k bs) = (True, drop k bs, ys)" "writable ys"
        using "2.IH"(1) [OF False k(2)] x(1) by auto
      then show ?thesis
        using k False by simp
    qed (use "2.IH"(2) [OF False _ x(1)] False in simp)
  qed (use "2.prems" in simp)
qed (simp add: writable_def)


lemma drain_scratch_steady:
  "steady_reads xs \<Longrightarrow> bytes \<le> length (incoming xs) \<Longrightarrow> scratch_len \<le> length scratch \<Longrightarrow> 0 < scratch_len \<Longrightarrow>
   \<exists>scratch' ys. drain_scratch xs scratch scratch_len bytes = Some (True, scratch', ys) \<and> length scratch' = length scratch \<and>
     steady_reads ys \<and> incoming ys = drop bytes (incoming xs)"
proof (induction xs scratch scratch_len bytes rule: drain_scratch.induct)
  case (1 xs scratch sl bytes)
  show ?case
  proof (cases "bytes = 0")
    case False
    let ?n = "min bytes sl"
    let ?buf = "take ?n (incoming xs) @ drop ?n scratch"
    have n: "?n \<le> length scratch" "?n \<le> length (incoming xs)"
      using "1.prems" by simp_all
    obtain zs where z: "read_full xs ?n 0 scratch = Some (RD_OK, ?buf, zs)" "steady_reads zs" "incoming zs = drop ?n (incoming xs)"
      using read_full_steady [OF "1.prems"(1) _ n(1), of 0] n(2) by auto
    have l: "length ?buf = length scratch"
      using n by simp
    have "sl \<noteq> 0" "bytes - ?n \<le> length (incoming zs)" "sl \<le> length ?buf"
      using "1.prems" z(3) l by simp_all
    from "1.IH" [OF False this(1) refl z(1) refl refl refl z(2) this(2,3) "1.prems"(4)] show ?thesis
      unfolding drain_scratch.simps [of xs scratch sl bytes] Let_def if_not_P [OF False] if_not_P [OF \<open>sl \<noteq> 0\<close>] z(1) prod.case option.case
      using z(3) l by (auto simp: min_def split: if_splits)
  qed (use "1.prems" in \<open>simp add: drain_scratch.simps\<close>)
qed

text \<open>A peer that is steady, with the bytes that are still to come; a connection at a header boundary.\<close>

definition arriving :: "byte list \<Rightarrow> dconn \<Rightarrow> bool" where
  "arriving m c \<longleftrightarrow> steady_reads (dc_in c) \<and> writable (dc_wr c) \<and> incoming (dc_in c) = m"

definition at_boundary :: "server \<Rightarrow> byte list \<Rightarrow> dconn \<Rightarrow> bool" where
  "at_boundary s m c \<longleftrightarrow> conn_ok s c \<and> steady_reads (dc_in c) \<and> writable (dc_wr c) \<and> incoming (dc_in c) = m"

lemma send_response_boundary:
  assumes "at_boundary s m c" "body \<le> length (dc_buf c)"
  obtains c' where "send_response rid st n body c = Some (True, c')" "at_boundary s m c'"
    and "dc_out c' = dc_out c @ resp_head rid st n @ take body (dc_buf c)" "dc_served c' = dc_served c"
proof -
  have h: "length (dc_head c) = HEADER"
    using assms(1) by (simp add: at_boundary_def conn_ok_def)
  obtain ws where w: "write_full (dc_wr c) (resp_head rid st n @ take body (dc_buf c)) =
      (True, resp_head rid st n @ take body (dc_buf c), ws)" "writable ws"
    using write_full_writable assms(1) unfolding at_boundary_def by blast
  obtain ok sent ws' where
      r: "send_response rid st n body c = Some (ok, c\<lparr>dc_head := resp_head rid st n, dc_out := dc_out c @ sent, dc_wr := ws'\<rparr>)"
      "write_full (dc_wr c) (resp_head rid st n @ take body (dc_buf c)) = (ok, sent, ws')"
    by (rule send_response_ok [OF assms(2) h])
  have *: "ok" "sent = resp_head rid st n @ take body (dc_buf c)" "ws' = ws"
    using w(1) r(2) by simp_all
  show thesis
    by (rule that [of "c\<lparr>dc_head := resp_head rid st n, dc_out := dc_out c @ sent, dc_wr := ws'\<rparr>"])
      (use assms(1) w(2) r(1) * in \<open>simp_all add: at_boundary_def conn_ok_def\<close>)
qed

lemma request_header:
  assumes "pack_request op arg rid n = Inr h"
  shows "unat (rd_u32 h 0) = MAGIC_REQ" "unat (h ! 4) = VERSION" "unat (h ! 5) = op"
    "unat (rd_u16 h 6) = arg" "unat (rd_u32 h 8) = rid" "unat (rd_u32 h 12) = n" "length h = 16"
proof -
  note f = pack_request_Inr(6) [OF assms, of "[]", unfolded REQ_FMT_def append_Nil2]
  show l: "length h = 16"
    by (rule pack_request_Inr(1) [OF assms])
  have one: "le_decode (take 1 (drop i h)) = unat (h ! i)" if "i < 16" for i
    using that l by (simp add: take_Suc_conv_app_nth hd_drop_conv_nth take_Suc)
  show "unat (rd_u32 h 0) = MAGIC_REQ" "unat (rd_u32 h 8) = rid" "unat (rd_u32 h 12) = n"
    using f l by (simp_all add: unat_rd_u32)
  show "unat (rd_u16 h 6) = arg"
    using f l by (simp add: unat_rd_u16)
  show "unat (h ! 4) = VERSION" "unat (h ! 5) = op"
    using f one [of 4] one [of 5] by simp_all
qed

lemma resp_head_pack: "pack_response (unat rid) (unat st) (unat n) = Inr (resp_head rid st n)"
proof -
  have u: "nat (int (unat v)) = unat v" "field_fits 4 (int (unat v))" for v :: "32 word"
  proof -
    have "unat v < 256 ^ 4"
      using unsigned_less [of v] by simp
    then have "int (unat v) < int (256 ^ 4)"
      by (simp only: of_nat_less_iff)
    then show "field_fits 4 (int (unat v))"
      unfolding field_fits_def by (simp del: int_nat_eq)
  qed simp
  have m: "le_encode 4 MAGIC_RESP = wr_u32 (word_of_nat MAGIC_RESP)"
    using le_encode_wr_u32 [of "word_of_nat MAGIC_RESP"] by (simp add: MAGIC_RESP_def)
  show ?thesis
    using u m by (simp add: pack_response_def RESP_FMT_def resp_head_def le_encode_wr_u32 field_fits_def MAGIC_RESP_def)
qed


subsection \<open>What a request is answered with\<close>

definition gather_reply :: "server \<Rightarrow> 32 word \<Rightarrow> nat list \<Rightarrow> byte list" where
  "gather_reply s rid ids =
     (if length ids > unat (sv_max_rows s) then resp_head rid ST_TOO_MANY 0
      else if \<forall>i\<in>set ids. in_half s i
      then resp_head rid ST_OK (word_of_nat (length ids)) @ concat (map (mapped_row s) ids)
      else resp_head rid ST_RANGE 0)"

lemma serve_gather_boundary:
  assumes "in_service s" "at_boundary s (id_bytes ids @ rest) c" "length ids = unat n"
    and "\<forall>i\<in>set ids. i < 2 ^ 32" "4 * length ids \<le> MAX_DRAIN_BYTES"
  obtains c' where "serve_gather s rid n c = Some (True, c')" "at_boundary s rest c'"
    and "dc_out c' = dc_out c @ gather_reply s rid ids" "dc_served c' = dc_served c"
proof (cases "n > sv_max_rows s")
  case True
  have ok: "conn_ok s c" and b: "steady_reads (dc_in c)" "unat n * 4 \<le> length (incoming (dc_in c))" "\<not> unat n * 4 > MAX_DRAIN_BYTES"
    using assms by (simp_all add: at_boundary_def)
  obtain buf ys where ys: "drain_bytes (dc_in c) (dc_ids c) (unat (sv_max_rows s) * 4) (unat n * 4) = Some (True, buf, ys)"
      "length buf = length (dc_ids c)" "steady_reads ys" "incoming ys = rest"
    using drain_scratch_steady [OF b(1,2) ids_room [OF assms(1) ok]] assms(2,3) b(3)
    by (auto simp: drain_bytes_def at_boundary_def)
  have c: "at_boundary s rest (c\<lparr>dc_in := ys, dc_ids := buf\<rparr>)"
    using assms(2) ys by (simp add: at_boundary_def conn_ok_def)
  obtain c' where c': "send_response rid ST_TOO_MANY 0 0 (c\<lparr>dc_in := ys, dc_ids := buf\<rparr>) = Some (True, c')" "at_boundary s rest c'"
    "dc_out c' = dc_out c @ resp_head rid ST_TOO_MANY 0" "dc_served c' = dc_served c"
    using send_response_boundary [OF c, of 0 rid ST_TOO_MANY 0] by auto
  show thesis
    by (rule that [of c']) (use True c' assms(3) in \<open>simp_all add: serve_gather_def ys gather_reply_def word_less_nat_alt\<close>)
next
  case False
  then have n: "unat n \<le> unat (sv_max_rows s)"
    by (simp add: word_le_nat_alt [symmetric] not_less)
  let ?ids = "id_bytes ids @ drop (unat n * 4) (dc_ids c)"
  have room: "unat n * 4 \<le> length (dc_ids c)" and dst: "unat n * ROWD_BYTES \<le> length (dc_buf c)"
    using assms(2) n by (simp_all add: at_boundary_def conn_ok_def)
  obtain ys where ys: "(if n > 0 then read_full (dc_in c) (unat n * 4) 0 (dc_ids c) else Some (RD_OK, dc_ids c, dc_in c)) =
      Some (RD_OK, ?ids, ys)" "steady_reads ys" "incoming ys = rest"
  proof (cases "n = 0")
    case True
    then show thesis
      using that [of "dc_in c"] assms(2,3) by (simp add: at_boundary_def id_bytes_def)
  next
    case False
    have "unat n * 4 - 0 \<le> length (incoming (dc_in c))"
      using assms(2,3) by (simp add: at_boundary_def)
    then show thesis
      using that read_full_steady [of "dc_in c" 0 "unat n * 4" "dc_ids c"] assms(2,3) room False
      by (auto simp: at_boundary_def word_gt_0)
  qed
  have l: "length ?ids = length (dc_ids c)"
    using room assms(3) by simp
  have ids: "id_array (unat n) ?ids = ids"
    using id_array_bytes [OF assms(4), of "drop (unat n * 4) (dc_ids c)"] assms(3) by simp
  obtain buf where buf: "length buf = length (dc_buf c)"
      "gather_rows s ?ids (unat n) 0 (dc_buf c) = Some (if \<forall>k\<in>set ids. in_half s k then ST_OK else ST_RANGE, buf)"
      "\<forall>k\<in>set ids. in_half s k \<Longrightarrow> buf = concat (map (mapped_row s) ids) @ drop (unat n * ROWD_BYTES) (dc_buf c)"
    using gather_rows_all [OF assms(1) _ dst, of ?ids] assms(3) unfolding ids by auto
  let ?c = "c\<lparr>dc_in := ys, dc_ids := ?ids, dc_buf := buf\<rparr>"
  have c: "at_boundary s rest ?c"
    using assms(2) ys(2,3) buf(1) l by (simp add: at_boundary_def conn_ok_def)
  have g: "\<not> length ids > unat (sv_max_rows s)"
    using n assms(3) by simp
  show thesis
  proof (cases "\<forall>k\<in>set ids. in_half s k")
    case True
    have b: "unat n * ROWD_BYTES \<le> length (dc_buf ?c)"
      using dst buf(1) by simp
    have rows: "take (unat n * ROWD_BYTES) buf = concat (map (mapped_row s) ids)"
      using buf(3) [OF True] length_gathered [OF assms(1) True] assms(3) by simp
    have n': "word_of_nat (length ids) = n"
      using assms(3) by simp
    obtain c' where "send_response rid ST_OK n (unat n * ROWD_BYTES) ?c = Some (True, c')" "at_boundary s rest c'"
        "dc_out c' = dc_out c @ resp_head rid ST_OK n @ concat (map (mapped_row s) ids)" "dc_served c' = dc_served c"
      using send_response_boundary [OF c b, of rid ST_OK n] rows by auto
    then show ?thesis
      by (intro that [of c']) (use False ys buf(2) True g n' in \<open>simp_all add: serve_gather_def gather_reply_def Let_def\<close>)
  next
    case oor: False
    obtain c' where "send_response rid ST_RANGE 0 0 ?c = Some (True, c')" "at_boundary s rest c'"
        "dc_out c' = dc_out c @ resp_head rid ST_RANGE 0" "dc_served c' = dc_served c"
      using send_response_boundary [OF c, of 0 rid ST_RANGE 0] by auto
    then show ?thesis
      by (intro that [of c']) (use False ys buf(2) oor g in \<open>auto simp: serve_gather_def gather_reply_def st_defs Let_def\<close>)
  qed
qed


lemma dc_in_self [simp]: "(c :: dconn)\<lparr>dc_in := dc_in c\<rparr> = c"
  by simp

lemma header_read:
  assumes "steady_reads xs" "incoming xs = h @ m" "length h = 16"
  shows "length buf = HEADER \<Longrightarrow> \<exists>ys. read_full xs HEADER 0 buf = Some (RD_OK, h, ys) \<and> steady_reads ys \<and> incoming ys = m"
  using read_full_steady [OF assms(1), of 0 HEADER buf] assms(2,3) by (auto simp: HEADER_def)

lemma serve_step_header:
  assumes "at_boundary s (h @ m) c" "pack_request op arg rid n = Inr h"
  obtains c1 where "op = OP_GATHER \<Longrightarrow> serve_step K s c = serve_gather s (word_of_nat rid) (word_of_nat n) c1"
    and "op \<noteq> OP_GATHER \<Longrightarrow> serve_step K s c = serve_other K s (h ! 5) arg (word_of_nat rid) (word_of_nat n) c1"
    and "at_boundary s m c1" "unat (h ! 5) = op" "dc_out c1 = dc_out c" "dc_served c1 = dc_served c + 1"
    and "unat (word_of_nat n :: 32 word) = n" "dc_log c1 = dc_log c"
proof -
  note h = request_header [OF assms(2)]
  have b: "steady_reads (dc_in c)" "incoming (dc_in c) = h @ m"
    using assms(1) by (simp_all add: at_boundary_def)
  obtain xs where r: "read_full (dc_in c) HEADER 0 (dc_hdr c) = Some (RD_OK, h, xs)" "steady_reads xs" "incoming xs = m"
    using header_read [OF b h(7)] assms(1) by (auto simp: at_boundary_def conn_ok_def)
  have w: "rd_u32 h 8 = word_of_nat rid" "rd_u32 h 12 = word_of_nat n"
    using h(5,6) by auto
  have step: "serve_step K s c = serve_request K s (c\<lparr>dc_in := xs, dc_hdr := h\<rparr>)"
    by (simp add: serve_step_def r(1) Let_def)
  have l: "length (dc_hdr (c\<lparr>dc_in := xs, dc_hdr := h\<rparr>)) = HEADER"
    using h(7) by (simp add: HEADER_def)
  show thesis
    by (rule that [of "c\<lparr>dc_in := xs, dc_hdr := h, dc_served := dc_served c + 1\<rparr>"])
      (use assms(1) r h w l in \<open>simp_all add: step serve_request_fields Let_def at_boundary_def conn_ok_def\<close>)
qed

lemma serve_step_gather:
  assumes "in_service s" "at_boundary s (h @ id_bytes ids @ rest) c" "pack_request OP_GATHER arg rid (length ids) = Inr h"
    and "\<forall>i\<in>set ids. i < 2 ^ 32" "4 * length ids \<le> MAX_DRAIN_BYTES"
  obtains c' where "serve_step K s c = Some (True, c')" "at_boundary s rest c'"
    and "dc_out c' = dc_out c @ gather_reply s (word_of_nat rid) ids" "dc_served c' = dc_served c + 1"
proof (rule serve_step_header [OF assms(2,3), of K])
  fix c1
  assume x: "OP_GATHER = OP_GATHER \<Longrightarrow> serve_step K s c = serve_gather s (word_of_nat rid) (word_of_nat (length ids)) c1"
    "at_boundary s (id_bytes ids @ rest) c1" "dc_out c1 = dc_out c" "dc_served c1 = dc_served c + 1"
    "unat (word_of_nat (length ids) :: 32 word) = length ids"
  show thesis
    using serve_gather_boundary [OF assms(1) x(2) x(5) [symmetric] assms(4,5), of "word_of_nat rid"] x(1,3,4) that by auto
qed

lemma serve_step_bare:
  assumes "in_service s" "at_boundary s (h @ rest) c" "pack_request op arg rid 0 = Inr h" "op = OP_STAT \<or> op = OP_PING"
  obtains c' body where "serve_step K s c = Some (True, c')" "at_boundary s rest c'" "dc_served c' = dc_served c + 1"
    and "dc_out c' = dc_out c @ resp_head (word_of_nat rid) ST_OK 0 @ body"
    and "op = OP_PING \<longrightarrow> body = []"
    and "op = OP_STAT \<longrightarrow> body = wr_u64 (sv_base_row s) @ wr_u64 (sv_row_count s) @ wr_u32 (word_of_nat ROWD_BYTES) @
      wr_u32 (stat_pages K s (dc_log c)) @ wr_u64 (dc_served c + 1)"
proof (rule serve_step_header [OF assms(2,3), of K])
  fix c1
  assume x: "op \<noteq> OP_GATHER \<Longrightarrow> serve_step K s c = serve_other K s (h ! 5) arg (word_of_nat rid) (word_of_nat 0) c1"
    "at_boundary s rest c1" "unat (h ! 5) = op" "dc_out c1 = dc_out c" "dc_served c1 = dc_served c + 1" "dc_log c1 = dc_log c"
  have step: "serve_step K s c = serve_other K s (h ! 5) arg (word_of_nat rid) 0 c1"
    using x(1) assms(4) by (auto simp: wire_consts)
  have op_other: "OP_PING \<noteq> OP_STAT" "OP_STAT \<noteq> OP_PING"
    by (simp_all add: wire_consts)
  have other: "serve_other K s (h ! 5) arg (word_of_nat rid) 0 c1 = (if op = OP_PING then send_response (word_of_nat rid) ST_OK 0 0 c1
      else case fill_stat K s c1 of None \<Rightarrow> None | Some c' \<Rightarrow> send_response (word_of_nat rid) ST_OK 0 STAT_BODY c')"
    using assms(4) unfolding serve_other_def x(3) by (auto simp: op_other)
  have ping: "op = OP_PING \<Longrightarrow> serve_step K s c = send_response (word_of_nat rid) ST_OK 0 0 c1"
    using step other by simp
  have stat: "op = OP_STAT \<Longrightarrow> fill_stat K s c1 = Some c2 \<Longrightarrow> serve_step K s c = send_response (word_of_nat rid) ST_OK 0 STAT_BODY c2" for c2
    using step other op_other by simp
  show thesis
    using assms(4)
  proof
    assume op: "op = OP_PING"
    obtain c' where "send_response (word_of_nat rid) ST_OK 0 0 c1 = Some (True, c')" "at_boundary s rest c'"
        "dc_out c' = dc_out c1 @ resp_head (word_of_nat rid) ST_OK 0" "dc_served c' = dc_served c1"
      using send_response_boundary [OF x(2), of 0 "word_of_nat rid" ST_OK 0] by auto
    then show thesis
      using that [of c' "[]"] ping op x(4,5) by (simp only: append_Nil2 simp_thms op_other)
  next
    assume op: "op = OP_STAT"
    have ok: "conn_ok s c1"
      using x(2) by (simp add: at_boundary_def)
    obtain lg buf where f: "fill_stat K s c1 = Some (c1\<lparr>dc_buf := buf, dc_log := lg\<rparr>)"
        "stays s c1 (c1\<lparr>dc_buf := buf, dc_log := lg\<rparr>)"
        "take STAT_BODY buf = wr_u64 (sv_base_row s) @ wr_u64 (sv_row_count s) @ wr_u32 (word_of_nat ROWD_BYTES) @
          wr_u32 (stat_pages K s (dc_log c1)) @ wr_u64 (dc_served c1)"
      by (rule fill_stat_ok [OF assms(1) ok, of K]) (rule that)
    let ?d = "c1\<lparr>dc_buf := buf, dc_log := lg\<rparr>"
    have d: "at_boundary s rest ?d" "STAT_BODY \<le> length (dc_buf ?d)"
      using x(2) f(2) body_room(2) [OF assms(1), of ?d] by (simp_all add: at_boundary_def stays_def)
    obtain c' where "send_response (word_of_nat rid) ST_OK 0 STAT_BODY ?d = Some (True, c')" "at_boundary s rest c'"
        "dc_out c' = dc_out c1 @ resp_head (word_of_nat rid) ST_OK 0 @ take STAT_BODY buf" "dc_served c' = dc_served c1"
      using send_response_boundary [OF d, of "word_of_nat rid" ST_OK 0] by auto
    then show thesis
      using that [of c' "take STAT_BODY buf"] stat [OF op f(1)] op x(4,5,6) f(3)
      by (simp only: append_assoc op_other simp_thms)
  qed
qed


text \<open>Past the drain limit there is no way back to a boundary: one refusal, and the connection goes.\<close>

lemma serve_step_huge:
  assumes "in_service s" "at_boundary s (h @ m) c" "pack_request OP_GATHER arg rid n = Inr h"
    and "4 * n > MAX_DRAIN_BYTES"
  obtains c' where "serve_step K s c = Some (False, c')" "dc_out c' = dc_out c @ resp_head (word_of_nat rid) ST_TOO_MANY 0"
proof (rule serve_step_header [OF assms(2,3), of K])
  fix c1
  assume x: "OP_GATHER = OP_GATHER \<Longrightarrow> serve_step K s c = serve_gather s (word_of_nat rid) (word_of_nat n) c1"
    "at_boundary s m c1" "dc_out c1 = dc_out c" "unat (word_of_nat n :: 32 word) = n"
  have "unat (sv_max_rows s) < n"
    using assms(1,4) by (simp add: in_service_def MAX_MAX_ROWS_def MAX_DRAIN_BYTES_def)
  then have n: "word_of_nat n > sv_max_rows s"
    using x(4) by (simp add: word_less_nat_alt)
  obtain c' where "send_response (word_of_nat rid) ST_TOO_MANY 0 0 c1 = Some (True, c')"
      "dc_out c' = dc_out c1 @ resp_head (word_of_nat rid) ST_TOO_MANY 0"
    using send_response_boundary [OF x(2), of 0 "word_of_nat rid" ST_TOO_MANY 0] by auto
  moreover have "drain_bytes (dc_in c1) (dc_ids c1) (unat (sv_max_rows s) * 4) (n * 4) = Some (False, dc_ids c1, dc_in c1)"
    using assms(4) by (simp add: drain_bytes_def)
  ultimately show thesis
    using that [of c'] x(1,3) n by (simp add: serve_gather_def x(4) Let_def)
qed

lemma serve_loop_done: "at_boundary s [] c \<Longrightarrow> serve_loop K s c = Some (c\<lparr>dc_in := []\<rparr>)"
  by (subst serve_loop.simps)
    (simp add: serve_step_def at_boundary_def read_full_done HEADER_def)

lemma serve_loop_step:
  "serve_step K s c = Some (True, c') \<Longrightarrow> serve_loop K s c = serve_loop K s c'"
  "serve_step K s c = Some (False, c') \<Longrightarrow> serve_loop K s c = Some c'"
  by (simp_all add: serve_loop.simps [of K s c])

text \<open>Without buffers the one request is refused.\<close>

lemma serve_conn_refuses:
  assumes "arriving (h @ m) c" "pack_request op arg rid n = Inr h"
  obtains c' where "serve_conn K s False junk c = Some c'" "dc_out c' = dc_out c @ resp_head (word_of_nat rid) ST_INTERNAL 0"
proof -
  note h = request_header [OF assms(2)]
  have b: "steady_reads (dc_in c)" "incoming (dc_in c) = h @ m" "writable (dc_wr c)"
    using assms(1) by (simp_all add: arriving_def)
  obtain xs where r: "read_full (dc_in c) HEADER 0 (fresh junk HEADER) = Some (RD_OK, h, xs)"
    using header_read [OF b(1,2) h(7) length_fresh] by blast
  have w: "hdr_u32 h 8 = Some (word_of_nat rid)" and l: "length h = HEADER"
    using h(5,7) by (auto simp: hdr_fields HEADER_def)
  let ?c = "c\<lparr>dc_in := xs, dc_head := h, dc_buf := []\<rparr>"
  obtain ok sent ws where 1: "send_response (word_of_nat rid) ST_INTERNAL 0 0 ?c =
      Some (ok, ?c\<lparr>dc_head := resp_head (word_of_nat rid) ST_INTERNAL 0, dc_out := dc_out ?c @ sent, dc_wr := ws\<rparr>)"
      "write_full (dc_wr ?c) (resp_head (word_of_nat rid) ST_INTERNAL 0 @ take 0 (dc_buf ?c)) = (ok, sent, ws)"
    by (rule send_response_ok [of 0 ?c]) (simp_all add: l)
  obtain ws' where "write_full (dc_wr c) (resp_head (word_of_nat rid) ST_INTERNAL 0) = (True, resp_head (word_of_nat rid) ST_INTERNAL 0, ws')"
    using write_full_writable [OF b(3)] by blast
  then show thesis
    using that 1 by (simp add: serve_conn_def r w)
qed

text \<open>With buffers the loop starts at a header boundary.\<close>

lemma serve_conn_loop: "serve_conn K s True junk c = serve_loop K s (with_buffers s junk c)"
  by (simp add: serve_conn_def)

lemma with_buffers_ok: "conn_ok s (with_buffers s junk c)"
  by (simp add: with_buffers_def conn_ok_def)

lemma with_buffers_boundary: "arriving m c \<Longrightarrow> at_boundary s m (with_buffers s junk c)"
  using with_buffers_ok [of s junk c] by (simp add: at_boundary_def arriving_def with_buffers_def)

lemma with_buffers_sel [simp]:
  "dc_in (with_buffers s junk c) = dc_in c" "dc_wr (with_buffers s junk c) = dc_wr c" "dc_out (with_buffers s junk c) = dc_out c"
  "dc_served (with_buffers s junk c) = dc_served c" "dc_log (with_buffers s junk c) = dc_log c"
  by (simp_all add: with_buffers_def)

subsection \<open>The contract of a row server\<close>

definition one_row :: server where
  "one_row = \<lparr>sv_map = replicate ROWD_BYTES 0, sv_page = 4096, sv_base_row = 0, sv_row_count = 1, sv_base32 = 0,
     sv_rows32 = 1, sv_max_rows = 1\<rparr>"

lemma one_row_in_service: "in_service one_row"
  by (simp add: in_service_def one_row_def MAX_MAX_ROWS_def)

typedef live_server = "{s. in_service s}"
  morphisms server_of live_server_of
  using one_row_in_service by blast

lemma server_of_in_service: "in_service (server_of d)"
  using server_of [of d] by simp

text \<open>A request reaches the thread in any pieces, and the peer then sends nothing more.\<close>

definition daemon_answers :: "live_server \<Rightarrow> byte list \<Rightarrow> byte list \<Rightarrow> bool" where
  "daemon_answers d m out \<longleftrightarrow> (\<exists>K mem junk c c'. arriving m c \<and> dc_out c = [] \<and>
     serve_conn K (server_of d) mem junk c = Some c' \<and> dc_out c' = out)"

lemma refusal_head: "rid < 2 ^ 32 \<Longrightarrow> st \<noteq> ST_OK \<Longrightarrow> refusal rid (resp_head (word_of_nat rid) st 0)"
proof -
  assume r: "rid < 2 ^ 32" "st \<noteq> ST_OK"
  have "unat (word_of_nat rid :: 32 word) = rid"
    using r(1) by (simp add: unat_of_nat)
  then have "pack_response rid (unat st) 0 = Inr (resp_head (word_of_nat rid) st 0)"
    using resp_head_pack [of "word_of_nat rid" st 0] by simp
  then show ?thesis
    using r(2) by (intro refusalI [of "unat st"]) (simp_all add: st_defs unat_eq_zero)
qed

lemma head_ok: "rid < 2 ^ 32 \<Longrightarrow> n < 2 ^ 32 \<Longrightarrow> pack_response rid 0 n = Inr (resp_head (word_of_nat rid) ST_OK (word_of_nat n))"
  using resp_head_pack [of "word_of_nat rid" ST_OK "word_of_nat n"] by (simp add: unat_of_nat ST_OK_def)

lemma fits_word: "field_fits 4 (int (unat (v :: 32 word)))" "field_fits 8 (int (unat (u :: 64 word)))"
proof -
  have "unat v < 256 ^ 4" "unat u < 256 ^ 8"
    using unsigned_less [of v] unsigned_less [of u] by simp_all
  then have "int (unat v) < int (256 ^ 4)" "int (unat u) < int (256 ^ 8)"
    by (simp_all only: of_nat_less_iff)
  then show "field_fits 4 (int (unat v))" "field_fits 8 (int (unat u))"
    unfolding field_fits_def by (simp_all del: int_nat_eq)
qed

lemma stat_pack:
  "struct_pack STAT_FMT (map int [unat a, unat b, unat c, unat d, unat e]) =
     Inr (wr_u64 a @ wr_u64 b @ wr_u32 c @ wr_u32 d @ wr_u64 e)"
proof -
  have n: "nat (int k) = k" for k
    by simp
  show ?thesis
    unfolding STAT_FMT_def list.map struct_pack.simps n
    by (simp only: fits_word if_True sum.case n le_encode_wr_u32 le_encode_wr_u64 append_Nil2)
qed

lemma serve_conn_bare:
  assumes "in_service s" "arriving h c" "dc_out c = []" "serve_conn K s mem junk c = Some c'"
    and "pack_request op 0 rid 0 = Inr h" "op = OP_STAT \<or> op = OP_PING"
  shows "refusal rid (dc_out c') \<or> (\<exists>body res served. dc_out c' = resp_head (word_of_nat rid) ST_OK 0 @ body \<and>
    (op = OP_PING \<longrightarrow> body = []) \<and> (op = OP_STAT \<longrightarrow> body = wr_u64 (sv_base_row s) @ wr_u64 (sv_row_count s) @
      wr_u32 (word_of_nat ROWD_BYTES) @ wr_u32 res @ wr_u64 served))"
proof (cases mem)
  case True
  let ?c = "with_buffers s junk c"
  have b: "at_boundary s (h @ []) ?c"
    using with_buffers_boundary [OF assms(2)] by simp
  obtain c1 body where "serve_step K s ?c = Some (True, c1)" "at_boundary s [] c1"
      "dc_out c1 = dc_out ?c @ resp_head (word_of_nat rid) ST_OK 0 @ body"
      "op = OP_PING \<longrightarrow> body = []"
      "op = OP_STAT \<longrightarrow> body = wr_u64 (sv_base_row s) @ wr_u64 (sv_row_count s) @
        wr_u32 (word_of_nat ROWD_BYTES) @ wr_u32 (stat_pages K s (dc_log ?c)) @ wr_u64 (dc_served ?c + 1)"
    by (rule serve_step_bare [OF assms(1) b assms(5,6), of K]) (rule that)
  then show ?thesis
    using True assms(3,4) serve_loop_step(1) [of K s ?c c1] serve_loop_done [of s c1 K]
    by (auto simp: serve_conn_loop)
next
  case False
  have b: "arriving (h @ []) c"
    using assms(2) by simp
  obtain c1 where "serve_conn K s False junk c = Some c1" "dc_out c1 = dc_out c @ resp_head (word_of_nat rid) ST_INTERNAL 0"
    by (rule serve_conn_refuses [OF b assms(5), of K])
  then show ?thesis
    using False assms(3,4) refusal_head [OF pack_request_Inr(4) [OF assms(5)], of ST_INTERNAL] by (simp add: st_defs)
qed

interpretation daemon: row_service daemon_answers "\<lambda>d. unat (sv_base_row (server_of d))"
    "\<lambda>d. unat (sv_row_count (server_of d))" "\<lambda>_. ROWD_BYTES" "\<lambda>d. mapped_row (server_of d)"
proof
  fix d h ids out rid
  let ?s = "server_of d"
  assume a: "daemon_answers d (h @ id_bytes ids) out" and h: "pack_request OP_GATHER 0 rid (length ids) = Inr h"
    and ids: "\<forall>i\<in>set ids. i < 2 ^ 32"
  obtain K mem junk c c' where c: "arriving (h @ id_bytes ids) c" "dc_out c = []" "serve_conn K ?s mem junk c = Some c'" "dc_out c' = out"
    using a unfolding daemon_answers_def by blast
  note r = pack_request_Inr(4,5) [OF h]
  let ?c = "with_buffers ?s junk c"
  have b: "at_boundary ?s (h @ id_bytes ids) ?c"
    by (rule with_buffers_boundary [OF c(1)])
  have "out = gather_reply ?s (word_of_nat rid) ids \<or> refusal rid out"
  proof (cases "mem \<and> 4 * length ids \<le> MAX_DRAIN_BYTES")
    case True
    then have "serve_loop K ?s ?c = Some c'"
      using c(3) by (simp add: serve_conn_loop)
    moreover obtain c1 where "serve_step K ?s ?c = Some (True, c1)" "at_boundary ?s [] c1"
        "dc_out c1 = gather_reply ?s (word_of_nat rid) ids"
      using serve_step_gather [OF server_of_in_service, of d h ids "[]" ?c 0 rid K] b c(2) h ids True by auto
    ultimately show ?thesis
      using serve_loop_step(1) [of K ?s ?c c1] serve_loop_done [of ?s c1 K] c(4) by auto
  next
    case False
    show ?thesis
    proof (cases mem)
      case True
      then have big: "4 * length ids > MAX_DRAIN_BYTES" and l: "serve_loop K ?s ?c = Some c'"
        using False c(3) by (simp_all add: serve_conn_loop)
      obtain c1 where "serve_step K ?s ?c = Some (False, c1)" "dc_out c1 = resp_head (word_of_nat rid) ST_TOO_MANY 0"
        using serve_step_huge [OF server_of_in_service b h big, of K] c(2) by auto
      then show ?thesis
        using serve_loop_step(2) [of K ?s ?c c1] l c(4) refusal_head [OF r(1), of ST_TOO_MANY] by (auto simp: st_defs)
    next
      case False
      obtain c1 where "serve_conn K ?s False junk c = Some c1" "dc_out c1 = resp_head (word_of_nat rid) ST_INTERNAL 0"
        using serve_conn_refuses [OF c(1) h, of K ?s junk] c(2) by auto
      then show ?thesis
        using False c(3,4) refusal_head [OF r(1), of ST_INTERNAL] by (auto simp: st_defs)
    qed
  qed
  then show "refusal rid out \<or> (\<forall>i\<in>set ids. unat (sv_base_row ?s) \<le> i \<and> i < unat (sv_base_row ?s) + unat (sv_row_count ?s)) \<and>
      (\<exists>g. pack_response rid 0 (length ids) = Inr g \<and> out = g @ concat (map (mapped_row ?s) ids))"
    using head_ok [OF r] refusal_head [OF r(1)]
    by (auto simp: gather_reply_def in_half_def st_defs split: if_splits)
next
  fix d h out rid
  let ?s = "server_of d"
  assume a: "daemon_answers d h out" and h: "pack_request OP_STAT 0 rid 0 = Inr h"
  obtain K mem junk c c' where c: "arriving h c" "dc_out c = []" "serve_conn K ?s mem junk c = Some c'" "dc_out c' = out"
    using a unfolding daemon_answers_def by blast
  have w: "unat (word_of_nat ROWD_BYTES :: 32 word) = ROWD_BYTES"
    by (simp add: ROWD_BYTES_def)
  show "refusal rid out \<or> (\<exists>g b res served. pack_response rid 0 0 = Inr g \<and> out = g @ b \<and>
      struct_pack STAT_FMT (map int [unat (sv_base_row ?s), unat (sv_row_count ?s), ROWD_BYTES, res, served]) = Inr b)"
    using serve_conn_bare [OF server_of_in_service c(1,2,3) h disjI1 [OF refl]]
  proof (elim disjE exE conjE)
    fix body :: "byte list" and res :: "32 word" and served :: "64 word"
    assume o: "dc_out c' = resp_head (word_of_nat rid) ST_OK 0 @ body"
      and "OP_STAT = OP_STAT \<longrightarrow> body = wr_u64 (sv_base_row ?s) @ wr_u64 (sv_row_count ?s) @
        wr_u32 (word_of_nat ROWD_BYTES) @ wr_u32 res @ wr_u64 served"
    then have "struct_pack STAT_FMT (map int [unat (sv_base_row ?s), unat (sv_row_count ?s), ROWD_BYTES, unat res, unat served]) = Inr body"
      using stat_pack [of "sv_base_row ?s" "sv_row_count ?s" "word_of_nat ROWD_BYTES" res served] by (simp only: w simp_thms)
    moreover have "pack_response rid 0 0 = Inr (resp_head (word_of_nat rid) ST_OK 0)"
      using head_ok [OF pack_request_Inr(4) [OF h], of 0] by simp
    ultimately show ?thesis
      using o c(4) by blast
  qed (simp add: c(4))
next
  fix d h out rid
  let ?s = "server_of d"
  assume a: "daemon_answers d h out" and h: "pack_request OP_PING 0 rid 0 = Inr h"
  obtain K mem junk c c' where c: "arriving h c" "dc_out c = []" "serve_conn K ?s mem junk c = Some c'" "dc_out c' = out"
    using a unfolding daemon_answers_def by blast
  show "refusal rid out \<or> pack_response rid 0 0 = Inr out"
    using serve_conn_bare [OF server_of_in_service c(1,2,3) h] head_ok [OF pack_request_Inr(4) [OF h], of 0]
    unfolding c(4) by auto
next
  fix d i
  assume "unat (sv_base_row (server_of d)) \<le> i" "i < unat (sv_base_row (server_of d)) + unat (sv_row_count (server_of d))"
  then show "length (mapped_row (server_of d) i) = ROWD_BYTES"
    by (intro length_mapped_row [OF server_of_in_service]) (simp add: in_half_def)
qed

end
