(* ===== verification/Daemon_Main.thy ===== *)
theory Daemon_Main
  imports Daemon
begin

section \<open>The row server daemon: start-up, the log budget and the accept loop\<close>

text \<open>
  \<open>main\<close>, \<open>parse_u64\<close>, \<open>warm_map\<close>, \<open>ratelimit_take\<close> and the accept loop of \<open>server/rowserverd.c\<close>.
  \<open>getopt_long\<close> is a parameter in that \<open>main\<close> starts from the options it hands out in turn; \<open>strtoull\<close> is
  written out.  What \<open>main\<close> lets through is a server \<open>in_service\<close>.  The accept loop is a step relation
  in which the connection threads end whenever they like.
\<close>

unbundle bit_operations_syntax

definition ROWD_DEFAULT_PORT :: nat where "ROWD_DEFAULT_PORT = 9000"
definition ROWD_DEFAULT_MAX_ROWS :: "32 word" where "ROWD_DEFAULT_MAX_ROWS = 131072"
definition DEFAULT_THREADS :: nat where "DEFAULT_THREADS = 8"
definition MAX_THREADS :: nat where "MAX_THREADS = 256"
definition UINT32_MAX :: "64 word" where "UINT32_MAX = 4294967295"

subsection \<open>Numbers\<close>

definition c_isspace :: "char \<Rightarrow> bool" where
  "c_isspace c \<longleftrightarrow> of_char c \<in> {9 :: nat, 10, 11, 12, 13, 32}"

definition c_isdigit :: "char \<Rightarrow> bool" where
  "c_isdigit c \<longleftrightarrow> (48 :: nat) \<le> of_char c \<and> of_char c \<le> (57 :: nat)"

fun c_digits :: "nat \<Rightarrow> string \<Rightarrow> nat \<times> string" where
  "c_digits acc [] = (acc, [])"
| "c_digits acc (c # cs) = (if c_isdigit c then c_digits (acc * 10 + (of_char c - 48)) cs else (acc, c # cs))"

text \<open>\<open>strtoull\<close> in base 10: the value, where it stopped (\<open>None\<close>: no digits) and whether it was out of range.\<close>

definition strtoull :: "string \<Rightarrow> 64 word \<times> string option \<times> bool" where
  "strtoull text =
     (let t = dropWhile c_isspace text;
          neg = (t \<noteq> [] \<and> hd t = CHR ''-'');
          d = (if t \<noteq> [] \<and> hd t \<in> {CHR ''-'', CHR ''+''} then tl t else t)
      in if d = [] \<or> \<not> c_isdigit (hd d) then (0, None, False)
         else (case c_digits 0 d of (v, end_at) \<Rightarrow>
           if v \<ge> 2 ^ 64 then (- 1, Some end_at, True)
           else (if neg then - word_of_nat v else word_of_nat v, Some end_at, False)))"

definition parse_u64 :: "string \<Rightarrow> 64 word option" where
  "parse_u64 text = (case strtoull text of (v, stop, erange) \<Rightarrow>
     if erange \<or> stop = None \<or> stop \<noteq> Some [] then None else Some v)"

text \<open>A minus sign negates modulo \<open>2^64\<close>, and the ranges are checked only after that.\<close>

lemma negative_numbers_pass: "parse_u64 ''-18446744073709551552'' = Some 64"
  by (simp add: parse_u64_def strtoull_def c_isspace_def c_isdigit_def Let_def)

subsection \<open>\<open>main\<close>, up to the mapping\<close>

text \<open>What \<open>getopt_long\<close> hands out.\<close>

datatype opt = OptFile string | OptBase string | OptRows string | OptPort string | OptMax string
  | OptThreads string | OptWarm | OptNoWarm | OptHelp | OptUnknown

record conf =
  cf_path :: "string option"
  cf_base :: "64 word option"
  cf_rows :: "64 word option"
  cf_port :: nat
  cf_max :: "32 word"
  cf_threads :: nat
  cf_warm :: bool

definition conf0 :: conf where
  "conf0 = \<lparr>cf_path = None, cf_base = None, cf_rows = None, cf_port = ROWD_DEFAULT_PORT, cf_max = ROWD_DEFAULT_MAX_ROWS,
     cf_threads = DEFAULT_THREADS, cf_warm = True\<rparr>"

text \<open>A number between 1 and a bound.\<close>

definition opt_number :: "string \<Rightarrow> 64 word \<Rightarrow> 64 word option" where
  "opt_number text bound = (case parse_u64 text of None \<Rightarrow> None | Some n \<Rightarrow> if n < 1 \<or> n > bound then None else Some n)"

text \<open>The option loop; \<open>Inl\<close> is the exit status.\<close>

fun read_opts :: "opt list \<Rightarrow> conf \<Rightarrow> nat + conf" where
  "read_opts [] f = Inr f"
| "read_opts (OptFile p # os) f = read_opts os (f\<lparr>cf_path := Some p\<rparr>)"
| "read_opts (OptBase t # os) f = (case parse_u64 t of None \<Rightarrow> Inl 2 | Some v \<Rightarrow> read_opts os (f\<lparr>cf_base := Some v\<rparr>))"
| "read_opts (OptRows t # os) f = (case parse_u64 t of None \<Rightarrow> Inl 2 | Some v \<Rightarrow> read_opts os (f\<lparr>cf_rows := Some v\<rparr>))"
| "read_opts (OptPort t # os) f = (case opt_number t 65535 of None \<Rightarrow> Inl 2 | Some v \<Rightarrow> read_opts os (f\<lparr>cf_port := unat v\<rparr>))"
| "read_opts (OptMax t # os) f = (case opt_number t (word_of_nat MAX_MAX_ROWS) of None \<Rightarrow> Inl 2
     | Some v \<Rightarrow> read_opts os (f\<lparr>cf_max := ucast v\<rparr>))"
| "read_opts (OptThreads t # os) f = (case opt_number t (word_of_nat MAX_THREADS) of None \<Rightarrow> Inl 2
     | Some v \<Rightarrow> read_opts os (f\<lparr>cf_threads := unat v\<rparr>))"
| "read_opts (OptWarm # os) f = read_opts os (f\<lparr>cf_warm := True\<rparr>)"
| "read_opts (OptNoWarm # os) f = read_opts os (f\<lparr>cf_warm := False\<rparr>)"
| "read_opts (OptHelp # os) f = Inl 0"
| "read_opts (OptUnknown # os) f = Inl 2"

text \<open>What the file system answers: \<open>open\<close>, \<open>fstat\<close> and \<open>mmap\<close> may each fail.\<close>

datatype disk_file = CannotOpen | CannotStat | CannotMap nat | Mapped "byte list"

definition file_size :: "disk_file \<Rightarrow> nat" where
  "file_size x = (case x of CannotMap n \<Rightarrow> n | Mapped bs \<Rightarrow> length bs | _ \<Rightarrow> 0)"

definition set_up :: "conf \<Rightarrow> 64 word \<Rightarrow> 64 word \<Rightarrow> nat \<Rightarrow> disk_file \<Rightarrow> nat + server" where
  "set_up f base_row row_count page x =
     (if row_count = 0 then Inl 2
      else if base_row > UINT32_MAX \<or> row_count > UINT32_MAX \<or> base_row + row_count > UINT32_MAX then Inl 2
      else if x = CannotOpen then Inl 1
      else if x = CannotStat then Inl 1
      else if word_of_nat (file_size x) \<noteq> row_count * word_of_nat ROWD_BYTES then Inl 1
      else (case x of
          Mapped bs \<Rightarrow> Inr \<lparr>sv_map = bs, sv_page = page, sv_base_row = base_row, sv_row_count = row_count,
            sv_base32 = ucast base_row, sv_rows32 = ucast row_count, sv_max_rows = cf_max f\<rparr>
        | _ \<Rightarrow> Inl 1))"

definition boot :: "opt list \<Rightarrow> nat \<Rightarrow> (string \<Rightarrow> disk_file) \<Rightarrow> nat + conf \<times> server" where
  "boot os page disk = (case read_opts os conf0 of
     Inl rc \<Rightarrow> Inl rc
   | Inr f \<Rightarrow> (case (cf_path f, cf_base f, cf_rows f) of
       (Some p, Some b, Some r) \<Rightarrow> (case set_up f b r page (disk p) of Inl rc \<Rightarrow> Inl rc | Inr s \<Rightarrow> Inr (f, s))
     | _ \<Rightarrow> Inl 2))"

text \<open>The calls on the mapping before the socket is opened.\<close>

definition warm_map :: "server \<Rightarrow> log \<Rightarrow> log" where
  "warm_map s lg = Clock # touch_range s 0 (length (sv_map s)) (Clock # lg)"

definition warm_up :: "kernel \<Rightarrow> conf \<Rightarrow> server \<Rightarrow> log option" where
  "warm_up K f s = map_option snd (resident_pages K s
     (Random 0 (length (sv_map s)) # (if cf_warm f then warm_map s [] else [])))"

subsection \<open>One log line a second\<close>

record ratelimit =
  rl_last :: "int \<times> int"
  rl_dropped :: "64 word"
  rl_primed :: bool

definition rl_init :: ratelimit where
  "rl_init = \<lparr>rl_last = (0, 0), rl_dropped = 0, rl_primed = False\<rparr>"

text \<open>Lines dropped since the last one that got through, or \<open>None\<close> to drop this one too.\<close>

definition ratelimit_take :: "int \<times> int \<Rightarrow> ratelimit \<Rightarrow> 64 word option \<times> ratelimit" where
  "ratelimit_take t rl =
     (if rl_primed rl \<and> since_ms (rl_last rl) t < 1000 then (None, rl\<lparr>rl_dropped := rl_dropped rl + 1\<rparr>)
      else (Some (rl_dropped rl), rl\<lparr>rl_dropped := 0, rl_last := t, rl_primed := True\<rparr>))"

fun log_lines :: "(int \<times> int) list \<Rightarrow> ratelimit \<Rightarrow> ((int \<times> int) \<times> 64 word) list \<times> ratelimit" where
  "log_lines [] rl = ([], rl)"
| "log_lines (t # ts) rl = (case ratelimit_take t rl of (x, rl') \<Rightarrow>
     (case log_lines ts rl' of (ls, rl'') \<Rightarrow> (case x of None \<Rightarrow> (ls, rl'') | Some d \<Rightarrow> ((t, d) # ls, rl''))))"

fun spaced :: "(int \<times> int) option \<Rightarrow> ((int \<times> int) \<times> 64 word) list \<Rightarrow> bool" where
  "spaced prev [] \<longleftrightarrow> True"
| "spaced prev ((t, d) # ls) \<longleftrightarrow> (case prev of None \<Rightarrow> True | Some p \<Rightarrow> 1000 \<le> since_ms p t) \<and> spaced (Some t) ls"

lemma log_lines_spaced:
  "log_lines ts rl = (ls, rl') \<Longrightarrow> spaced (if rl_primed rl then Some (rl_last rl) else None) ls"
proof (induction ts arbitrary: rl ls rl')
  case (Cons t ts)
  obtain x rl1 ls1 where 1: "ratelimit_take t rl = (x, rl1)" "log_lines ts rl1 = (ls1, rl')"
    using Cons.prems by (auto split: prod.splits option.splits)
  show ?case
    using Cons.prems 1 Cons.IH [OF 1(2)]
    by (auto simp: ratelimit_take_def split: if_splits)
qed simp

lemma log_lines_count:
  "log_lines ts rl = (ls, rl') \<Longrightarrow>
   rl_dropped rl + word_of_nat (length ts) = word_of_nat (length ls) + sum_list (map snd ls) + rl_dropped rl'"
proof (induction ts arbitrary: rl ls rl')
  case (Cons t ts)
  obtain x rl1 ls1 where 1: "ratelimit_take t rl = (x, rl1)" "log_lines ts rl1 = (ls1, rl')"
    using Cons.prems by (auto split: prod.splits option.splits)
  show ?case
    using Cons.prems 1 Cons.IH [OF 1(2)]
    by (auto simp: ratelimit_take_def algebra_simps split: if_splits)
qed simp

subsection \<open>The accept loop\<close>

datatype spot = Looping | Waiting | Counted int | Stopped

record door =
  dr_live :: int
  dr_running :: nat
  dr_stopping :: bool
  dr_spot :: spot

definition door0 :: door where
  "door0 = \<lparr>dr_live = 0, dr_running = 0, dr_stopping = False, dr_spot = Looping\<rparr>"

text \<open>
  The steps of \<open>main\<close> with \<open>threads\<close> slots, one atomic operation each, between those of the connection
  threads and the signal handler.  \<open>Waiting\<close> is inside \<open>accept\<close>, \<open>Counted n\<close> after the
  \<open>atomic_fetch_add\<close> that returned \<open>n\<close>.
\<close>

inductive door_step :: "nat \<Rightarrow> door \<Rightarrow> door \<Rightarrow> bool" for threads where
  enter: "dr_spot d = Looping \<Longrightarrow> \<not> dr_stopping d \<Longrightarrow> door_step threads d (d\<lparr>dr_spot := Waiting\<rparr>)"
| leave: "dr_spot d = Looping \<Longrightarrow> dr_stopping d \<Longrightarrow> door_step threads d (d\<lparr>dr_spot := Stopped\<rparr>)"
| again: "dr_spot d = Waiting \<Longrightarrow> door_step threads d (d\<lparr>dr_spot := Looping\<rparr>)"
| broken: "dr_spot d = Waiting \<Longrightarrow> door_step threads d (d\<lparr>dr_spot := Stopped\<rparr>)"
| accepted: "dr_spot d = Waiting \<Longrightarrow>
    door_step threads d (d\<lparr>dr_spot := Counted (dr_live d), dr_live := dr_live d + 1\<rparr>)"
| refused: "dr_spot d = Counted n \<Longrightarrow> int threads \<le> n \<Longrightarrow>
    door_step threads d (d\<lparr>dr_spot := Looping, dr_live := dr_live d - 1\<rparr>)"
| no_thread: "dr_spot d = Counted n \<Longrightarrow> n < int threads \<Longrightarrow>
    door_step threads d (d\<lparr>dr_spot := Looping, dr_live := dr_live d - 1\<rparr>)"
| spawned: "dr_spot d = Counted n \<Longrightarrow> n < int threads \<Longrightarrow>
    door_step threads d (d\<lparr>dr_spot := Looping, dr_running := dr_running d + 1\<rparr>)"
| ended: "0 < dr_running d \<Longrightarrow>
    door_step threads d (d\<lparr>dr_running := dr_running d - 1, dr_live := dr_live d - 1\<rparr>)"
| signalled: "door_step threads d (d\<lparr>dr_stopping := True\<rparr>)"

inductive_cases door_stepE: "door_step threads d d'"

inductive door_reach :: "nat \<Rightarrow> door \<Rightarrow> bool" for threads where
  start: "door_reach threads door0"
| step: "door_reach threads d \<Longrightarrow> door_step threads d d' \<Longrightarrow> door_reach threads d'"

text \<open>The counter is the running threads and the one being admitted; what it returned bounds them.\<close>

definition door_ok :: "nat \<Rightarrow> door \<Rightarrow> bool" where
  "door_ok threads d \<longleftrightarrow> dr_running d \<le> threads \<and>
     dr_live d = int (dr_running d) + (case dr_spot d of Counted n \<Rightarrow> 1 | _ \<Rightarrow> 0) \<and>
     (\<forall>n. dr_spot d = Counted n \<longrightarrow> int (dr_running d) \<le> n)"

lemma door_step_ok: "door_step threads d d' \<Longrightarrow> door_ok threads d \<Longrightarrow> door_ok threads d'"
  by (erule door_stepE) (auto simp: door_ok_def split: spot.splits)

lemma door_reach_ok: "door_reach threads d \<Longrightarrow> door_ok threads d"
proof (induction rule: door_reach.induct)
  case start
  show ?case
    by (simp add: door_ok_def door0_def)
next
  case (step d d')
  then show ?case
    by (auto intro: door_step_ok)
qed

subsection \<open>What \<open>main\<close> lets through\<close>

definition conf_ok :: "conf \<Rightarrow> bool" where
  "conf_ok f \<longleftrightarrow> 1 \<le> cf_port f \<and> cf_port f \<le> 65535 \<and> 1 \<le> unat (cf_max f) \<and> unat (cf_max f) \<le> MAX_MAX_ROWS \<and>
     1 \<le> cf_threads f \<and> cf_threads f \<le> MAX_THREADS"

lemma opt_number_range: "opt_number t b = Some v \<Longrightarrow> 1 \<le> unat v \<and> unat v \<le> unat b"
  by (auto simp: opt_number_def word_less_nat_alt not_less split: option.splits if_splits)

lemma read_opts_ok: "read_opts os f = Inr f' \<Longrightarrow> conf_ok f \<Longrightarrow> conf_ok f'"
proof (induction os f rule: read_opts.induct)
  case (6 t os f)
  then obtain v where v: "opt_number t (word_of_nat MAX_MAX_ROWS) = Some v" "read_opts os (f\<lparr>cf_max := ucast v\<rparr>) = Inr f'"
    by (auto split: option.splits)
  have "unat (ucast v :: 32 word) = unat v"
    using opt_number_range [OF v(1)] by (simp add: unsigned_ucast_eq take_bit_eq_mod MAX_MAX_ROWS_def)
  then have "conf_ok (f\<lparr>cf_max := ucast v\<rparr>)"
    using "6.prems"(2) opt_number_range [OF v(1)] by (simp add: conf_ok_def MAX_MAX_ROWS_def)
  then show ?case
    using "6.IH" v by simp
qed (auto simp: conf_ok_def MAX_THREADS_def split: option.splits dest!: opt_number_range)

lemma conf0_ok: "conf_ok conf0"
  by (simp add: conf_ok_def conf0_def ROWD_DEFAULT_PORT_def ROWD_DEFAULT_MAX_ROWS_def DEFAULT_THREADS_def MAX_MAX_ROWS_def MAX_THREADS_def)

lemma set_up_in_service:
  assumes "set_up f b r page x = Inr s" "conf_ok f" "0 < page" "file_size x < 2 ^ 63"
  shows "in_service s \<and> x = Mapped (sv_map s) \<and> sv_base_row s = b \<and> sv_row_count s = r \<and> r \<noteq> 0 \<and> sv_max_rows s = cf_max f"
proof -
  obtain bs where bs: "x = Mapped bs" "\<not> (b > UINT32_MAX \<or> r > UINT32_MAX \<or> b + r > UINT32_MAX)" "r \<noteq> 0"
      "word_of_nat (length bs) = r * word_of_nat ROWD_BYTES"
      "s = \<lparr>sv_map = bs, sv_page = page, sv_base_row = b, sv_row_count = r,
            sv_base32 = ucast b, sv_rows32 = ucast r, sv_max_rows = cf_max f\<rparr>"
    using assms(1) by (auto simp: set_up_def file_size_def split: if_splits disk_file.splits)
  have le: "unat b < 2 ^ 32" "unat r < 2 ^ 32"
    using bs(2) by (auto simp: UINT32_MAX_def word_less_nat_alt not_less)
  then have "unat (b + r) = unat b + unat r"
    by (intro unat_plus_simple [THEN iffD1]) (simp add: word_le_nat_alt unat_word_ariths)
  then have sum: "unat b + unat r < 2 ^ 32"
    using bs(2) by (auto simp: UINT32_MAX_def word_less_nat_alt not_less)
  have "unat (r * word_of_nat ROWD_BYTES) = unat r * ROWD_BYTES"
    using le(2) by (simp add: unat_word_ariths ROWD_BYTES_def)
  moreover have "unat (word_of_nat (length bs) :: 64 word) = length bs"
    using assms(4) bs(1) by (simp add: file_size_def unat_of_nat)
  ultimately have "length bs = unat r * ROWD_BYTES"
    using bs(4) by metis
  then show ?thesis
    using bs(1,3,5) sum assms(2,3) by (simp add: in_service_def conf_ok_def)
qed

end
