(* ===== verification/Daemon_Guarantees.thy ===== *)
theory Daemon_Guarantees
  imports Daemon_Main
begin

section \<open>What the row server daemon guarantees\<close>

text \<open>
  The properties of \<open>server/rowserverd.c\<close>: whatever a peer sends no access leaves a buffer or the mapping;
  pipelined requests are answered in order and the stream stays at a header boundary; the cache sweep
  leaves nothing cold and counts right; what start-up lets through; how many connections run at once.
  That the daemon keeps the contract of a row server is the interpretation \<open>daemon\<close> of theory \<open>Daemon\<close>.
\<close>

text \<open>A kernel in which calls succeed or all fail, and a peer, for the witnesses.\<close>

definition plain_kernel :: "bool \<Rightarrow> kernel" where
  "plain_kernel ok = \<lparr>kn_mincore = (\<lambda>_. if ok then Some (\<lambda>_. 1) else None), kn_madvise = (\<lambda>_. ok), kn_fadvise = (\<lambda>_. ok),
     kn_clock = (\<lambda>_. (0, 0)), kn_busy = (\<lambda>_. False)\<rparr>"

definition plain_conn :: "rd list \<Rightarrow> dconn" where
  "plain_conn xs = \<lparr>dc_in = xs, dc_wr = [Took 3, WrInterrupted], dc_out = [], dc_hdr = [], dc_ids = [],
     dc_head = [], dc_buf = [], dc_served = 0, dc_log = []\<rparr>"

definition gather_bytes :: "nat \<Rightarrow> nat list \<Rightarrow> byte list" where
  "gather_bytes rid ids = (case pack_request OP_GATHER 0 rid (length ids) of Inl e \<Rightarrow> [] | Inr h \<Rightarrow> h @ id_bytes ids)"

lemma length_gather_bytes: "rid < 2 ^ 32 \<Longrightarrow> length ids < 2 ^ 32 \<Longrightarrow> length (gather_bytes rid ids) = 16 + 4 * length ids"
  using pack_request_ok [of OP_GATHER 0 rid "length ids"]
  by (auto simp: gather_bytes_def wire_consts dest: pack_request_Inr(1))

definition fair_request :: "nat \<times> nat list \<Rightarrow> bool" where
  "fair_request q \<longleftrightarrow> fst q < 2 ^ 32 \<and> (\<forall>i\<in>set (snd q). i < 2 ^ 32) \<and> 4 * length (snd q) \<le> MAX_DRAIN_BYTES"

lemma serve_loop_gathers:
  assumes "in_service s"
  shows "\<forall>q\<in>set qs. fair_request q \<Longrightarrow> at_boundary s (concat (map (\<lambda>(rid, ids). gather_bytes rid ids) qs)) c \<Longrightarrow>
    \<exists>c'. serve_loop K s c = Some c' \<and> dc_served c' = dc_served c + word_of_nat (length qs) \<and>
      dc_out c' = dc_out c @ concat (map (\<lambda>(rid, ids). gather_reply s (word_of_nat rid) ids) qs)"
proof (induction qs arbitrary: c)
  case Nil
  then show ?case
    by (simp add: serve_loop_done)
next
  case (Cons q qs)
  obtain rid ids where q: "q = (rid, ids)"
    by (cases q)
  then have f: "rid < 2 ^ 32" "\<forall>i\<in>set ids. i < 2 ^ 32" "4 * length ids \<le> MAX_DRAIN_BYTES"
    using Cons.prems(1) by (simp_all add: fair_request_def)
  have "length ids < 2 ^ 32"
    using f(3) by (simp add: MAX_DRAIN_BYTES_def)
  then obtain h where h: "pack_request OP_GATHER 0 rid (length ids) = Inr h"
    using pack_request_ok [of OP_GATHER 0 rid "length ids"] f(1) by (auto simp: wire_consts)
  have b: "at_boundary s (h @ id_bytes ids @ concat (map (\<lambda>(rid, ids). gather_bytes rid ids) qs)) c"
    using Cons.prems(2) by (simp add: q gather_bytes_def h)
  obtain c1 where 1: "serve_step K s c = Some (True, c1)"
      "at_boundary s (concat (map (\<lambda>(rid, ids). gather_bytes rid ids) qs)) c1"
      "dc_out c1 = dc_out c @ gather_reply s (word_of_nat rid) ids" "dc_served c1 = dc_served c + 1"
    by (rule serve_step_gather [OF assms b h f(2,3), of K]) (rule that)
  then show ?case
    using Cons.IH [OF _ 1(2)] Cons.prems(1) serve_loop_step(1) [OF 1(1)] by (auto simp: q algebra_simps)
qed

lemma serve_conn_stays:
  assumes "in_service s"
  obtains c' where "serve_conn K s mem junk c = Some c'" "logs (inside 0 (length (sv_map s))) (dc_log c) (dc_log c')"
proof (cases mem)
  case True
  then show thesis
    using serve_loop_stays [OF assms with_buffers_ok, of K junk c] that by (auto simp: serve_conn_def stays_def)
next
  case False
  obtain r hdr xs where r: "read_full (dc_in c) HEADER 0 (fresh junk HEADER) = Some (r, hdr, xs)" "length hdr = HEADER"
    using read_full_room [of HEADER "fresh junk HEADER" "dc_in c" 0] by auto
  let ?c = "c\<lparr>dc_in := xs, dc_head := hdr, dc_buf := []\<rparr>"
  obtain ok sent ws where "send_response (rd_u32 hdr 8) ST_INTERNAL 0 0 ?c =
      Some (ok, ?c\<lparr>dc_head := resp_head (rd_u32 hdr 8) ST_INTERNAL 0, dc_out := dc_out ?c @ sent, dc_wr := ws\<rparr>)"
    by (rule send_response_ok [of 0 ?c]) (simp_all add: r(2))
  moreover have "hdr_u32 hdr 8 = Some (rd_u32 hdr 8)"
    using r(2) by (simp add: hdr_fields HEADER_def)
  ultimately show thesis
    using False that by (cases "r = RD_OK") (simp_all add: serve_conn_def r(1))
qed

text \<open>C7. No reads, no answers of the kernel and no failing write make a connection thread of a server in service
  read or write outside its buffers or the mapping (the model's result is then \<open>None\<close>).  The buffers are those of the C code: the 16
  bytes of a request header, \<open>max_rows\<close> ids, a response header and \<open>max_rows\<close> rows, and the residency vector of
  \<open>MINCORE_PAGES\<close> bytes that \<open>mincore\<close> fills; what a peer sends is written to them byte for byte, drained ids
  included.  Every system call the thread makes on the mapping stays within it; and the thread ends once its peer has.\<close>

theorem daemon_stays_inside:
  assumes "in_service s"
  shows "\<exists>c'. serve_conn K s mem junk c = Some c' \<and> logs (inside 0 (length (sv_map s))) (dc_log c) (dc_log c')"
  by (rule serve_conn_stays [OF assms]) blast

lemma daemon_stays_inside_witness:
  "\<exists>c'. serve_conn (plain_kernel True) one_row True (\<lambda>_. 255) (plain_conn [Data (gather_bytes 7 [0, 0, 0]), Interrupted, Data [1, 2], ReadFailed]) =
       Some c' \<and> logs (inside 0 (length (sv_map one_row))) [] (dc_log c')"
  using daemon_stays_inside [OF one_row_in_service, of "plain_kernel True" True "\<lambda>_. 255"
      "plain_conn [Data (gather_bytes 7 [0, 0, 0]), Interrupted, Data [1, 2], ReadFailed]"]
  unfolding plain_conn_def dconn.select_convs .

text \<open>C6. However TCP cuts a stream of gathers into reads, the daemon answers them in order, each with exactly the
  reply due to it (the rows in request order, out of range, or too many), is at a header boundary after each, and counts each once.\<close>

theorem daemon_answers_in_order:
  assumes "in_service s" "steady_reads (dc_in c)" "writable (dc_wr c)" "\<forall>q\<in>set qs. fair_request q"
    and "incoming (dc_in c) = concat (map (\<lambda>(rid, ids). gather_bytes rid ids) qs)"
  shows "\<exists>c'. serve_conn K s True junk c = Some c' \<and> dc_served c' = dc_served c + word_of_nat (length qs) \<and>
      dc_out c' = dc_out c @ concat (map (\<lambda>(rid, ids). gather_reply s (word_of_nat rid) ids) qs)"
proof -
  have "arriving (concat (map (\<lambda>(rid, ids). gather_bytes rid ids) qs)) c"
    using assms(2,3,5) by (simp add: arriving_def)
  from serve_loop_gathers [OF assms(1,4) with_buffers_boundary [OF this], of K junk] show ?thesis
    by (simp add: serve_conn_loop)
qed

lemma daemon_answers_in_order_witness:
  "\<exists>c'. serve_conn (plain_kernel True) one_row True (\<lambda>_. 255)
      (plain_conn [Data (take 5 (gather_bytes 7 [0])), Interrupted, Data (drop 5 (gather_bytes 7 [0]) @ gather_bytes 8 [5])]) = Some c' \<and>
    dc_out c' = gather_reply one_row 7 [0] @ gather_reply one_row 8 [5]"
proof -
  have l: "length (gather_bytes 7 [0]) = 20"
    using length_gather_bytes [of 7 "[0]"] by simp
  then have n: "take 5 (gather_bytes 7 [0]) \<noteq> []" "drop 5 (gather_bytes 7 [0]) @ gather_bytes 8 [5] \<noteq> []"
    by auto
  have f: "fair_request (7, [0])" "fair_request (8, [5])"
    by (simp_all add: fair_request_def MAX_DRAIN_BYTES_def)
  show ?thesis
    using daemon_answers_in_order [OF one_row_in_service, of
        "plain_conn [Data (take 5 (gather_bytes 7 [0])), Interrupted, Data (drop 5 (gather_bytes 7 [0]) @ gather_bytes 8 [5])]"
        "[(7, [0]), (8, [5])]" "plain_kernel True" "\<lambda>_. 255"] f n
    by (simp add: plain_conn_def steady_reads_def writable_def) blast
qed

text \<open>C9. A cache sweep leaves no page dropped and untouched that was not before it, whichever system calls fail, whatever the
  clock says and whatever it was asked for; and at no moment of it is more cold than one slice.\<close>

theorem recharge_leaves_nothing_cold:
  assumes "0 < sv_page s" "sv_page s dvd WARM_CHUNK"
  shows "\<exists>st rep lg'. recharge_map K s mib lg = Some (st, rep, lg') \<and> cold (sv_page s) lg' \<subseteq> cold (sv_page s) lg \<and>
    one_piece s (slice_mib mib * 2 ^ 20) lg lg'"
proof -
  obtain st rep lg' where r: "recharge_map K s mib lg = Some (st, rep, lg')"
    by (rule recharge_map_some)
  show ?thesis
    using r recharge_cold [OF assms r] recharge_one_piece [OF assms r] by blast
qed

lemma recharge_leaves_nothing_cold_witness:
  "\<exists>st rep lg'. recharge_map (plain_kernel False) one_row 0 [] = Some (st, rep, lg') \<and> cold 4096 lg' = {}"
  using recharge_leaves_nothing_cold [of one_row "plain_kernel False" 0 "[]"] by (auto simp: one_row_def WARM_CHUNK_def)

text \<open>When no call fails, nobody else sweeps and the time does not run out, a sweep answers \<open>OK\<close>, does every slice and
  counts every page of the mapping as recharged, the part-filled last slice and page included.\<close>

lemma recharge_moves_every_page:
  assumes "0 < sv_page s" "sv_page s dvd 2 ^ 20" "mib \<le> RECHARGE_MAX_SLICE_MIB" "\<not> kn_busy K lg"
    and "\<forall>l. kn_madvise K l" "\<forall>l. kn_fadvise K l" "\<forall>l l'. fst (elapsed_ms K (kn_clock K l) l') < RECHARGE_MAX_MS"
  shows "\<exists>rep lg'. recharge_map K s mib lg = Some (ST_OK, Some rep, lg') \<and> sw_done rep = sw_total rep \<and>
    sw_recharged rep = word_of_nat (page_count (length (sv_map s)) (sv_page s))"
  by (rule recharge_whole [OF assms]) blast

lemma recharge_moves_every_page_witness:
  "\<exists>rep lg'. recharge_map (plain_kernel True) one_row 0 [] = Some (ST_OK, Some rep, lg') \<and> sw_done rep = sw_total rep \<and>
    sw_recharged rep = 1"
proof -
  have "page_count (length (sv_map one_row)) (sv_page one_row) = 1"
    by (simp add: page_count_def one_row_def ROWD_BYTES_def)
  then show ?thesis
    using recharge_moves_every_page [of one_row 0 "plain_kernel True" "[]"]
    by (simp add: one_row_def plain_kernel_def RECHARGE_MAX_SLICE_MIB_def RECHARGE_MAX_MS_def elapsed_ms_def since_ms_def)
qed

text \<open>C16. What start-up lets through is a server whose rows fit 32-bit ids without wrapping, whose file has exactly the rows it
  claims and whose buffers hold what it accepts, with the port and the threads in range.\<close>

theorem boot_in_service:
  assumes "boot os page disk = Inr (f, s)" "0 < page" "\<forall>p. file_size (disk p) < 2 ^ 63"
  shows "in_service s \<and> conf_ok f \<and> (\<exists>p. cf_path f = Some p \<and> disk p = Mapped (sv_map s)) \<and>
    cf_base f = Some (sv_base_row s) \<and> cf_rows f = Some (sv_row_count s)"
proof -
  obtain p b r where *: "read_opts os conf0 = Inr f" "cf_path f = Some p" "cf_base f = Some b" "cf_rows f = Some r"
      "set_up f b r page (disk p) = Inr s"
    using assms(1) by (auto simp: boot_def split: sum.splits option.splits)
  have f: "conf_ok f"
    by (rule read_opts_ok [OF *(1) conf0_ok])
  show ?thesis
    using set_up_in_service [OF *(5) f assms(2)] assms(3) f *(2,3,4) by auto
qed

lemma boot_in_service_witness:
  "case boot [OptFile ''half'', OptBase '' +7'', OptMax ''64'', OptRows ''2''] 4096 (\<lambda>_. Mapped (replicate 320 1)) of
     Inl rc \<Rightarrow> False | Inr (f, s) \<Rightarrow> in_service s \<and> conf_ok f"
proof -
  let ?b = "boot [OptFile ''half'', OptBase '' +7'', OptMax ''64'', OptRows ''2''] 4096 (\<lambda>_. Mapped (replicate 320 1))"
  have "\<not> isl ?b"
    by (simp add: boot_def conf0_def opt_number_def parse_u64_def strtoull_def c_isspace_def c_isdigit_def set_up_def
        file_size_def UINT32_MAX_def ROWD_BYTES_def MAX_MAX_ROWS_def Let_def)
  then obtain f s where b: "?b = Inr (f, s)"
    by (metis isl_def sum.exhaust surj_pair)
  then show ?thesis
    using boot_in_service [OF b] by (simp add: file_size_def)
qed

text \<open>C25. However connections come and go, at most \<open>--threads\<close> connection threads run at a time, and the counter is their
  number, plus one while a connection is being admitted.\<close>

theorem connections_bounded:
  assumes "door_reach threads d"
  shows "dr_running d \<le> threads \<and> (dr_live d = int (dr_running d) \<or> dr_live d = int (dr_running d) + 1)"
  using door_reach_ok [OF assms] by (auto simp: door_ok_def split: spot.splits)

lemma connections_bounded_witness: "dr_running (door0\<lparr>dr_spot := Looping, dr_running := 1, dr_live := 1\<rparr>) \<le> 1"
proof -
  let ?a = "door0\<lparr>dr_spot := Waiting\<rparr>" and ?b = "door0\<lparr>dr_spot := Counted 0, dr_live := 1\<rparr>"
  have "door_step 1 door0 ?a" "door_step 1 ?a ?b" "door_step 1 ?b (door0\<lparr>dr_spot := Looping, dr_running := 1, dr_live := 1\<rparr>)"
    using door_step.enter [of door0 1] door_step.accepted [of ?a 1] door_step.spawned [of ?b 0 1] by (simp_all add: door0_def)
  then have "door_reach 1 (door0\<lparr>dr_spot := Looping, dr_running := 1, dr_live := 1\<rparr>)"
    by (blast intro: door_reach.intros)
  from connections_bounded [OF this] show ?thesis
    by simp
qed

text \<open>A log budget lets at most one line through per second, and the counts on the lines with the lines let through
  account for every line there was.\<close>

lemma log_budget:
  "spaced None (fst (log_lines ts rl_init)) \<and>
   word_of_nat (length ts) = word_of_nat (length (fst (log_lines ts rl_init))) +
     sum_list (map snd (fst (log_lines ts rl_init))) + rl_dropped (snd (log_lines ts rl_init))"
  using log_lines_spaced [of ts rl_init, OF prod.collapse [symmetric]] log_lines_count [of ts rl_init, OF prod.collapse [symmetric]]
  by (simp add: rl_init_def)

end
