(* ===== verification/Deployed.thy ===== *)
theory Deployed
  imports Daemon_Guarantees Guarantees
begin

section \<open>The client over daemons\<close>

text \<open>
  The two halves of the system together: the client of \<open>client/ple_remote.py\<close> over a directory of
  daemons of \<open>server/rowserverd.c\<close>, on the wired network of theory \<open>Wired_Net\<close> with any script of
  faults.  What a daemon answers may depend on the kernel, on how TCP cuts the request and on whether
  \<open>malloc\<close> succeeds; any choice of these is allowed (\<open>true_to\<close>).
\<close>

definition true_to :: "(live_server \<Rightarrow> byte list \<Rightarrow> exn + byte list) \<Rightarrow> bool" where
  "true_to oracle \<longleftrightarrow> (\<forall>d m out. oracle d m = Inr out \<longrightarrow> daemon_answers d m out)"

definition split_of :: "(nat \<Rightarrow> byte list) \<Rightarrow> (addr \<Rightarrow> live_server option) \<Rightarrow> bool" where
  "split_of truth dir \<longleftrightarrow> (\<forall>a d i. dir a = Some d \<longrightarrow> in_half (server_of d) i \<longrightarrow> mapped_row (server_of d) i = truth i)"

abbreviation d_base :: "live_server \<Rightarrow> nat" where "d_base d \<equiv> unat (sv_base_row (server_of d))"
abbreviation d_count :: "live_server \<Rightarrow> nat" where "d_count d \<equiv> unat (sv_row_count (server_of d))"

lemma daemons_trusted:
  assumes "true_to oracle" "split_of truth dir"
  shows "trusted_net daemon_answers d_base d_count (\<lambda>_. ROWD_BYTES) (\<lambda>d. mapped_row (server_of d))
    (wired_net oracle dir) wired_view (listed dir) truth"
proof (intro trusted_net.intro trusted_net_axioms.intro)
  show "honest_net daemon_answers d_base d_count (\<lambda>_. ROWD_BYTES) (\<lambda>d. mapped_row (server_of d))
      (wired_net oracle dir) wired_view (listed dir)"
    using assms(1) by (intro wired_honest daemon.row_service_axioms) (simp add: true_to_def)
qed (use assms(2) in \<open>auto simp: split_of_def listed_def in_half_def\<close>)

subsection \<open>A daemon whose calls on the mapping fail, for computed runs\<close>

text \<open>Its oracle to a whole request, without the buffers.\<close>

definition plain_answer :: "live_server \<Rightarrow> byte list \<Rightarrow> exn + byte list" where
  "plain_answer d m = (case struct_fields REQ_FMT m of
     [magic, version, op, arg, rid, n] \<Rightarrow>
       if magic \<noteq> MAGIC_REQ \<or> version \<noteq> VERSION \<or> arg \<noteq> 0 then Inl (Exn ConnectionError (Env 5))
       else if op = OP_STAT \<and> n = 0 \<and> length m = 16 then
         join (pack_response rid 0 0) (struct_pack STAT_FMT (map int [d_base d, d_count d, ROWD_BYTES, 0, 1]))
       else if op = OP_GATHER \<and> length m = 16 + 4 * n \<and> 4 * n \<le> MAX_DRAIN_BYTES then
         Inr (gather_reply (server_of d) (word_of_nat rid) (id_array n (drop 16 m)))
       else Inl (Exn ConnectionError (Env 5))
   | _ \<Rightarrow> Inl (Exn ConnectionError (Env 5)))"

definition idle_conn :: "byte list \<Rightarrow> dconn" where
  "idle_conn m = \<lparr>dc_in = (if m = [] then [] else [Data m]), dc_wr = [], dc_out = [], dc_hdr = [], dc_ids = [],
     dc_head = [], dc_buf = [], dc_served = 0, dc_log = []\<rparr>"

lemma idle_conn_arriving: "arriving m (idle_conn m)"
  by (simp add: arriving_def idle_conn_def steady_reads_def writable_def)

lemma stat_pages_failing: "stat_pages (plain_kernel False) s lg = 0"
proof -
  have "fst (the (Daemon_Sweep.resident_pages (plain_kernel False) s lg)) = 0"
    unfolding Daemon_Sweep.resident_pages_def by (subst resident_loop.simps) (simp add: plain_kernel_def Let_def)
  then show ?thesis
    by (simp add: stat_pages_def)
qed

lemma id_bytes_array: "length bs = 4 * n \<Longrightarrow> id_bytes (id_array n bs) = bs"
proof (induction n arbitrary: bs)
  case (Suc n)
  have "le_encode 4 (le_decode (take 4 bs)) = take 4 bs"
    using le_encode_decode [of "take 4 bs"] Suc.prems by simp
  moreover have "id_bytes (id_array n (drop 4 bs)) = drop 4 bs"
    using Suc.prems by (intro Suc.IH) simp
  ultimately show ?case
    by (simp add: id_bytes_def)
qed (simp add: id_bytes_def)

lemma id_array_less: "\<forall>i\<in>set (id_array n bs). i < 2 ^ 32"
proof (induction n arbitrary: bs)
  case (Suc n)
  have "le_decode (take 4 bs) < 256 ^ length (take 4 bs)"
    by (rule le_decode_less)
  also have "\<dots> \<le> 256 ^ 4"
    by (intro power_increasing) simp_all
  finally show ?case
    using Suc.IH by simp
qed simp

text \<open>A request read back from its bytes.\<close>

lemma request_bytes:
  assumes "struct_fields REQ_FMT m = [MAGIC_REQ, VERSION, op, 0, rid, n]" "16 \<le> length m"
  shows "pack_request op 0 rid n = Inr (take 16 m)"
proof -
  have "struct_fields REQ_FMT (take 16 m) = struct_fields REQ_FMT m"
    by (simp add: REQ_FMT_def drop_take min_def)
  then show ?thesis
    using struct_pack_fields [of "take 16 m" REQ_FMT] assms by (simp add: pack_request_def)
qed

lemma plain_answer_true: "true_to plain_answer"
  unfolding true_to_def
proof (intro allI impI)
  fix d m out
  let ?s = "server_of d" and ?K = "plain_kernel False"
  let ?c = "with_buffers ?s (\<lambda>_. 0) (idle_conn m)"
  assume a: "plain_answer d m = Inr out"
  then obtain op rid n where f: "struct_fields REQ_FMT m = [MAGIC_REQ, VERSION, op, 0, rid, n]"
    by (auto simp: plain_answer_def split: list.splits if_splits)
  have answers: "daemon_answers d m out" if "serve_loop ?K ?s ?c = Some c'" "dc_out c' = out" for c'
    unfolding daemon_answers_def using idle_conn_arriving that
    by (intro exI [of _ ?K] exI [of _ True] exI [of _ "\<lambda>_. 0"] exI [of _ "idle_conn m"] exI [of _ c'])
      (simp add: serve_conn_loop idle_conn_def)
  have start: "at_boundary ?s m ?c"
    by (rule with_buffers_boundary [OF idle_conn_arriving])
  note last = serve_loop_step(1) serve_loop_done
  from a consider "op = OP_STAT" "n = 0" "length m = 16" | "op = OP_GATHER" "length m = 16 + 4 * n" "4 * n \<le> MAX_DRAIN_BYTES"
    by (auto simp: plain_answer_def f split: if_splits)
  then show "daemon_answers d m out"
  proof cases
    case 1
    have h: "pack_request OP_STAT 0 rid 0 = Inr m"
      using request_bytes [OF f] 1 by simp
    obtain c1 body where c1: "serve_step ?K ?s ?c = Some (True, c1)" "at_boundary ?s [] c1"
        "dc_out c1 = dc_out ?c @ resp_head (word_of_nat rid) ST_OK 0 @ body"
        "OP_STAT = OP_STAT \<longrightarrow> body = wr_u64 (sv_base_row ?s) @ wr_u64 (sv_row_count ?s) @ wr_u32 (word_of_nat ROWD_BYTES) @
          wr_u32 (stat_pages ?K ?s (dc_log ?c)) @ wr_u64 (dc_served ?c + 1)"
      by (rule serve_step_bare [OF server_of_in_service _ h, of d "[]" ?c ?K]) (simp_all add: start)
    have w: "unat (word_of_nat ROWD_BYTES :: 32 word) = ROWD_BYTES"
      by (simp add: ROWD_BYTES_def)
    have "struct_pack STAT_FMT (map int [d_base d, d_count d, ROWD_BYTES, 0, 1]) = Inr body"
      using stat_pack [of "sv_base_row ?s" "sv_row_count ?s" "word_of_nat ROWD_BYTES" 0 1] c1(4)
      by (simp only: w stat_pages_failing simp_thms unat_0 unat_1 with_buffers_sel idle_conn_def dconn.select_convs add_0)
    then have "out = dc_out c1"
      using a 1 head_ok [OF pack_request_Inr(4) [OF h], of 0] c1(3)
      by (simp add: plain_answer_def f join_def idle_conn_def)
    then show ?thesis
      using answers last(1) [OF c1(1)] last(2) [OF c1(2), of ?K] by simp
  next
    case 2
    let ?ids = "id_array n (drop 16 m)"
    have m: "take 16 m @ id_bytes ?ids @ [] = m"
      using 2 by (simp add: id_bytes_array)
    have h: "pack_request OP_GATHER 0 rid (length ?ids) = Inr (take 16 m)"
      using request_bytes [OF f] 2 by simp
    have b: "at_boundary ?s (take 16 m @ id_bytes ?ids @ []) ?c"
      unfolding m by (rule start)
    have n: "4 * length ?ids \<le> MAX_DRAIN_BYTES"
      using 2(3) by simp
    obtain c1 where c1: "serve_step ?K ?s ?c = Some (True, c1)" "at_boundary ?s [] c1"
        "dc_out c1 = dc_out ?c @ gather_reply ?s (word_of_nat rid) ?ids"
      by (rule serve_step_gather [OF server_of_in_service b h id_array_less n, of ?K]) (rule that)
    have "out = dc_out c1"
      using a 2 c1(3) by (simp add: plain_answer_def f idle_conn_def wire_consts)
    then show ?thesis
      using answers last(1) [OF c1(1)] last(2) [OF c1(2), of ?K] by simp
  qed
qed


lemma plain_answer_lives:
  assumes "pack_request OP_GATHER 0 rid (length ids) = Inr h" "\<forall>i\<in>set ids. d_base d \<le> i \<and> i < d_base d + d_count d"
    and "\<forall>i\<in>set ids. i < 2 ^ 32" "length ids \<le> unat (sv_max_rows (server_of d))"
  shows "\<exists>out. plain_answer d (h @ id_bytes ids) = Inr out \<and> \<not> refusal rid out"
proof -
  note p = pack_request_Inr [OF assms(1)]
  have "4 * length ids \<le> MAX_DRAIN_BYTES"
    using assms(4) server_of_in_service [of d] by (simp add: in_service_def MAX_MAX_ROWS_def MAX_DRAIN_BYTES_def)
  moreover have "id_array (length ids) (drop 16 (h @ id_bytes ids)) = ids"
    using id_array_bytes [OF assms(3), of "[]"] p(1) by simp
  ultimately have "plain_answer d (h @ id_bytes ids) = Inr (gather_reply (server_of d) (word_of_nat rid) ids)"
    using p(1) p(6) [of "id_bytes ids"] by (simp add: plain_answer_def wire_consts)
  moreover have "gather_reply (server_of d) (word_of_nat rid) ids =
      resp_head (word_of_nat rid) ST_OK (word_of_nat (length ids)) @ concat (map (mapped_row (server_of d)) ids)"
    using assms(2,4) by (simp add: gather_reply_def in_half_def)
  ultimately show ?thesis
    using not_refusal [OF head_ok [OF p(4,5)]] by simp
qed

lemma daemons_live:
  assumes "split_of truth dir" "\<forall>a d. dir a = Some d \<longrightarrow> limit \<le> unat (sv_max_rows (server_of d))"
  shows "live_net daemon_answers d_base d_count (\<lambda>_. ROWD_BYTES) (\<lambda>d. mapped_row (server_of d))
    (wired_net plain_answer dir) wired_view (listed dir) truth lo_calm limit"
proof (rule wired_live [OF daemons_trusted [OF plain_answer_true assms(1)]])
  fix d rid ids h
  assume "listed dir d" "pack_request OP_GATHER 0 rid (length ids) = Inr h"
    "\<forall>i\<in>set ids. d_base d \<le> i \<and> i < d_base d + d_count d" "\<forall>i\<in>set ids. i < 2 ^ 32" "length ids \<le> limit"
  then show "\<exists>out. plain_answer d (h @ id_bytes ids) = Inr out \<and> \<not> refusal rid out"
    using plain_answer_lives assms(2) by (auto simp: listed_def) (meson order_trans)
qed

text \<open>Two daemons over the halves of a file of eight zero rows.\<close>

definition zero_half :: "nat \<Rightarrow> server" where
  "zero_half lo = \<lparr>sv_map = replicate (4 * ROWD_BYTES) 0, sv_page = 4096, sv_base_row = word_of_nat lo, sv_row_count = 4,
     sv_base32 = word_of_nat lo, sv_rows32 = 4, sv_max_rows = 131072\<rparr>"

definition zero_dir :: "addr \<Rightarrow> live_server option" where
  "zero_dir a = (if a = (''127.0.0.1'', 9001) then Some (live_server_of (zero_half 0))
     else if a = (''127.0.0.1'', 9002) then Some (live_server_of (zero_half 4)) else None)"

lemma server_of_zero_half [simp]:
  "server_of (live_server_of (zero_half 0)) = zero_half 0" "server_of (live_server_of (zero_half 4)) = zero_half 4"
  by (simp_all add: live_server_of_inverse in_service_def zero_half_def MAX_MAX_ROWS_def)

lemma zero_half_sel [simp]:
  "sv_base_row (zero_half 0) = 0" "sv_base_row (zero_half 4) = 4"
  "sv_row_count (zero_half k) = 4" "sv_max_rows (zero_half k) = 131072"
  by (simp_all add: zero_half_def)

lemma zero_split: "split_of (\<lambda>_. replicate ROWD_BYTES 0) zero_dir"
proof -
  have "mapped_row (zero_half k) i = replicate ROWD_BYTES 0" if "in_half (zero_half k) i" "k \<in> {0, 4}" for k i
  proof -
    have "i - k < 4"
      using that by (auto simp: in_half_def zero_half_def)
    then have "(i - k) * ROWD_BYTES + ROWD_BYTES \<le> 4 * ROWD_BYTES"
      by (simp add: ROWD_BYTES_def)
    then show ?thesis
      using that(2) unfolding mapped_row_def zero_half_def by (auto simp: min_def ROWD_BYTES_def)
  qed
  then show ?thesis
    by (auto simp: split_of_def zero_dir_def split: if_splits)
qed

definition zero_world :: "fault list \<Rightarrow> live_server wires" where
  "zero_world script = \<lparr>lo_next = 0, lo_out = (\<lambda>k. []), lo_srv = (\<lambda>k. undefined), lo_addr = (\<lambda>k. ([], 0)),
     lo_clock = 0, lo_script = script\<rparr>"

lemma zero_run:
  "case init_table (wired_net plain_answer zero_dir) (\<lambda>s. Inl (Exn ValueError NoPeers)) (\<lambda>s. None) (loop_config 8 160)
     (zero_world []) of
     (Inl e, u) \<Rightarrow> False
   | (Inr t, u) \<Rightarrow> rows_total t = 8 \<and> failed t = None \<and> gather_deadline t = 120 \<and> max_rows t = 131072 \<and>
       at_ease t \<and> lo_calm 0 10 u"
  by (simp add: at_ease_def lo_calm_def all_run front_run plain_answer_def zero_dir_def zero_world_def ROWD_BYTES_def
      cong: run_congs)


lemma zero_opened:
  obtains t u where "init_table (wired_net plain_answer zero_dir) (\<lambda>s. Inl (Exn ValueError NoPeers)) (\<lambda>s. None)
      (loop_config 8 160) (zero_world []) = (Inr t, u)"
    and "rows_total t = 8" "failed t = None" "gather_deadline t = 120" "max_rows t = 131072" "at_ease t" "lo_calm 0 10 u"
  using zero_run by (auto split: prod.splits sum.splits)

text \<open>C2. End to end: over daemons that serve parts of one table, whatever the kernel does to them, however the
  network cuts, loses, delays or refuses, a gather of a client that returns has exactly the rows asked for, byte for
  byte the 160-byte rows of the daemons' files, in the order of the ids, and no id outside the table passes.\<close>

theorem client_reads_the_daemons_files:
  assumes "true_to oracle" and "split_of truth dir"
    and "init_table (wired_net oracle dir) to_float environ c w0 = (Inr t, w1)" and "rows_total t \<le> 2 ^ 32"
    and "session (wired_net oracle dir) (t, w1) s" and "gather_cpu (wired_net oracle dir) ids s = (Inr out, s')"
  shows "out = map (\<lambda>x. truth (nat x)) ids \<and> (\<forall>x\<in>set ids. 0 \<le> x \<and> x < rows_total t)"
proof -
  note net = daemons_trusted [OF assms(1,2)]
  have "v_wf wired_view w0"
    by (simp add: wired_view_def)
  note inv = trusted_net.session_from_init [OF net assms(3) this assms(4,5)]
  show ?thesis
    using trusted_net.gather_cpu_step [OF net inv(1,2) assms(6)] inv(3) by (auto simp: nat_less_iff)
qed

lemma client_reads_the_daemons_files_witness:
  "\<exists>t u s. gather_cpu (wired_net plain_answer zero_dir) [7, 0, 7] (t, u) = (Inr (replicate 3 (replicate ROWD_BYTES 0)), s) \<and>
     (\<forall>x\<in>{0, 7}. x < rows_total t)"
proof -
  obtain t u where o: "init_table (wired_net plain_answer zero_dir) (\<lambda>s. Inl (Exn ValueError NoPeers)) (\<lambda>s. None)
      (loop_config 8 160) (zero_world []) = (Inr t, u)"
    and t: "rows_total t = 8" "failed t = None" "gather_deadline t = 120" "max_rows t = 131072" "at_ease t" "lo_calm 0 10 u"
    by (rule zero_opened)
  have lim: "\<forall>a d. zero_dir a = Some d \<longrightarrow> 131072 \<le> unat (sv_max_rows (server_of d))"
    by (auto simp: zero_dir_def split: if_splits)
  note live = daemons_live [OF zero_split lim]
  note net = daemons_trusted [OF plain_answer_true zero_split]
  have wf: "v_wf wired_view (zero_world [])"
    by (simp add: wired_view_def)
  note inv = trusted_net.session_from_init [OF net o wf _ session.opened]
  have "\<exists>s. gather_cpu (wired_net plain_answer zero_dir) [7, 0, 7] (t, u) = (Inr (map (\<lambda>x. replicate ROWD_BYTES 0) [7 :: int, 0, 7]), s)"
    using live_net.gather_cpu_lives [OF live live_net.working_at_ease [OF live inv(1)] inv(2), of 0 10 "[7, 0, 7]"] t by auto
  then obtain s where s: "gather_cpu (wired_net plain_answer zero_dir) [7, 0, 7] (t, u) =
      (Inr (map (\<lambda>x. replicate ROWD_BYTES 0) [7 :: int, 0, 7]), s)"
    by blast
  from client_reads_the_daemons_files [OF plain_answer_true zero_split o _ session.opened s] t(1)
  have "\<forall>x\<in>{0, 7}. x < rows_total t"
    by simp
  then show ?thesis
    using s by (intro exI [of _ t] exI [of _ u] exI [of _ s]) (simp add: numeral_3_eq_3)
qed

end
