(* ===== verification/Connecting.thy ===== *)
theory Connecting
  imports Loop_Net
begin

section \<open>Connecting comes to an end\<close>

text \<open>
  The retry loop \<open>_connect\<close> of \<open>client/ple_remote.py\<close> ends: over a clock that does not run back and a
  sleep that lasts as long as it is asked to, twice the seconds to the deadline, rounded up, and one
  more are enough tries, and further fuel changes nothing.  \<open>timed_net\<close> states what it needs of time.
\<close>

locale timed_net =
  fixes E :: "'w net" and clk :: "'w \<Rightarrow> rat" and tw :: "'w \<Rightarrow> bool"
  assumes now_time: "tw w \<Longrightarrow> n_now E w = (t, w') \<Longrightarrow> clk w \<le> t \<and> t \<le> clk w' \<and> tw w'"
    and connect_time: "tw w \<Longrightarrow> 0 \<le> d \<Longrightarrow> n_connect E a d w = (r, w') \<Longrightarrow> clk w \<le> clk w' \<and> tw w'"
    and peername_time: "tw w \<Longrightarrow> n_peername E k w = (q, w') \<Longrightarrow> clk w \<le> clk w' \<and> tw w'"
    and sleep_time: "tw w \<Longrightarrow> 0 \<le> d \<Longrightarrow> clk w + d \<le> clk (n_sleep E d w) \<and> tw (n_sleep E d w)"
    and connect_error: "n_connect E a d w = (Inl e, w') \<Longrightarrow> exn_kind e \<noteq> NoReturn"
    and peername_error: "n_peername E k w = (Inl e, w') \<Longrightarrow> exn_kind e \<noteq> NoReturn"
begin

lemma connect_try:
  assumes "tw w" "0 \<le> d" "peer_connect E d tmo (p, w) = (r, (p', w'))"
  shows "clk w \<le> clk w' \<and> tw w' \<and> (\<forall>e. r = Inl e \<longrightarrow> exn_kind e \<noteq> NoReturn)"
proof -
  obtain rk w1 where 1: "n_connect E (addr p) d w = (rk, w1)"
    by fastforce
  note c = connect_time [OF assms(1,2) 1]
  show ?thesis
  proof (cases rk)
    case (Inl e)
    then show ?thesis
      using assms(3) 1 c connect_error [of "addr p" d w e] by (auto simp: peer_connect_def bnd_def io_def)
  next
    case (Inr k)
    obtain rq w2 where 2: "n_peername E k w1 = (rq, w2)"
      by fastforce
    have "clk w1 \<le> clk w2" "tw w2"
      using peername_time [OF _ 2] c by auto
    then show ?thesis
      using assms(3) 1 2 Inr c peername_error [of k w1]
      by (auto simp: peer_connect_def bnd_def seq_def io_def upd_def split: sum.splits)
  qed
qed

text \<open>What a round of the loop comes to.\<close>

lemma connect_round:
  assumes "tw w" "0 \<le> ct" "1 / 2 \<le> pause"
  shows "(\<exists>r s. (\<forall>f. connect_loop (Suc f) E ct tmo dl pause (p, w) = (r, s)) \<and> (\<forall>e. r = Inl e \<longrightarrow> exn_kind e \<noteq> NoReturn)) \<or>
    (\<exists>p' w'. (\<forall>f. connect_loop (Suc f) E ct tmo dl pause (p, w) = connect_loop f E ct tmo dl (min (pause * 2) 5) (p', w')) \<and>
      tw w' \<and> clk w < dl \<and> min dl (clk w + 1 / 2) \<le> clk w')"
proof -
  obtain t w1 where 1: "n_now E w = (t, w1)"
    by fastforce
  have t1: "clk w \<le> clk w1" "tw w1"
    using now_time [OF assms(1) 1] by auto
  let ?d = "min ct (max (dl - t) (1 / 1000))"
  obtain r p2 w2 where 2: "peer_connect E ?d tmo (p, w1) = (r, (p2, w2))"
    by (metis prod_cases3)
  have "0 \<le> ?d"
    using assms(2) by simp
  note c = connect_try [OF t1(2) this 2]
  obtain t' w3 where 3: "n_now E w2 = (t', w3)"
    by fastforce
  have t3: "clk w2 \<le> t'" "t' \<le> clk w3" "tw w3"
    using now_time [OF _ 3] c by auto
  note run = bnd_def now_def io_def handle_def 1 2 3
  show ?thesis
  proof (cases "\<exists>e. r = Inl e \<and> is_os_error e \<and> 0 < dl - t'")
    case False
    let ?x = "case r of Inr u \<Rightarrow> (Inr (), (p2, w2))
      | Inl e \<Rightarrow> if is_os_error e then (Inl (Exn TimeoutError StillUnreachable), (p2, w3)) else (Inl e, (p2, w2))"
    have "\<forall>f. connect_loop (Suc f) E ct tmo dl pause (p, w) = ?x"
      using False by (auto simp: run raise_run split: sum.splits)
    moreover have "\<forall>e. fst ?x = Inl e \<longrightarrow> exn_kind e \<noteq> NoReturn"
      using c by (auto split: sum.splits)
    ultimately show ?thesis
      by (intro disjI1 exI [of _ "fst ?x"] exI [of _ "snd ?x"] conjI) (simp_all only: prod.collapse simp_thms)
  next
    case True
    let ?p = "min pause (dl - t')" and ?w = "n_sleep E (min pause (dl - t')) w3"
    have s: "clk w3 + ?p \<le> clk ?w" "tw ?w"
      using sleep_time [OF t3(3), of ?p] True assms(3) by auto
    have "\<forall>f. connect_loop (Suc f) E ct tmo dl pause (p, w) = connect_loop f E ct tmo dl (min (pause * 2) 5) (p2, ?w)"
      using True by (auto simp: run sleep_def seq_def)
    moreover have "clk w < dl"
      using True t1 c t3 by auto
    moreover have "min dl (clk w + 1 / 2) \<le> clk ?w"
      using s(1) t1 c t3 assms(3) by (auto simp: min_def split: if_splits)
    ultimately show ?thesis
      using s(2) by blast
  qed
qed

lemma connect_ends:
  assumes "0 \<le> ct"
  shows "tw w \<Longrightarrow> 1 / 2 \<le> pause \<Longrightarrow> 2 * (dl - clk w) \<le> of_nat n \<Longrightarrow>
    \<exists>r s. (\<forall>f>n. connect_loop f E ct tmo dl pause (p, w) = (r, s)) \<and> (\<forall>e. r = Inl e \<longrightarrow> exn_kind e \<noteq> NoReturn)"
proof (induction n arbitrary: p w pause)
  case 0
  from connect_round [OF 0(1) assms 0(2), of tmo dl p] show ?case
  proof (elim disjE exE conjE)
    fix r s
    assume "\<forall>f. connect_loop (Suc f) E ct tmo dl pause (p, w) = (r, s)" "\<forall>e. r = Inl e \<longrightarrow> exn_kind e \<noteq> NoReturn"
    then show ?thesis
      by (intro exI [of _ r] exI [of _ s]) (auto simp: gr0_conv_Suc simp del: connect_loop.simps)
  next
    assume "clk w < dl"
    with 0(3) have False
      by simp
    then show ?thesis ..
  qed
next
  case (Suc n)
  from connect_round [OF Suc.prems(1) assms Suc.prems(2), of tmo dl p] show ?case
  proof (elim disjE exE conjE)
    fix r s
    assume "\<forall>f. connect_loop (Suc f) E ct tmo dl pause (p, w) = (r, s)" "\<forall>e. r = Inl e \<longrightarrow> exn_kind e \<noteq> NoReturn"
    then show ?thesis
      by (intro exI [of _ r] exI [of _ s]) (auto simp: Suc_less_eq2 simp del: connect_loop.simps)
  next
    fix p' w'
    assume a: "\<forall>f. connect_loop (Suc f) E ct tmo dl pause (p, w) = connect_loop f E ct tmo dl (min (pause * 2) 5) (p', w')"
      "tw w'" "min dl (clk w + 1 / 2) \<le> clk w'"
    have "2 * (dl - clk w') \<le> of_nat n" "1 / 2 \<le> min (pause * 2) 5"
      using a(3) Suc.prems(2,3) by (auto simp: min_def split: if_splits)
    from Suc.IH [OF a(2) this(2,1), of p'] obtain r s where
      "\<forall>f>n. connect_loop f E ct tmo dl (min (pause * 2) 5) (p', w') = (r, s)" "\<forall>e. r = Inl e \<longrightarrow> exn_kind e \<noteq> NoReturn"
      by blast
    then show ?thesis
      using a(1) by (intro exI [of _ r] exI [of _ s]) (auto simp: Suc_less_eq2 simp del: connect_loop.simps)
  qed
qed

end

subsection \<open>The wired network keeps time\<close>

definition on_time :: "'s wires \<Rightarrow> bool" where
  "on_time w \<longleftrightarrow> (\<forall>d. Late d \<in> set (lo_script w) \<longrightarrow> 0 \<le> d)"

lemma take_fault_time: "take_fault w = (f, w') \<Longrightarrow> on_time w \<Longrightarrow> lo_clock w \<le> lo_clock w' \<and> on_time w'"
  by (auto simp: take_fault_def on_time_def split: list.splits fault.splits)

lemma failing_time: "failing f d w = Some (e, w') \<Longrightarrow> 0 \<le> d \<Longrightarrow> on_time w \<Longrightarrow>
  lo_clock w \<le> lo_clock w' \<and> on_time w' \<and> exn_kind e \<noteq> NoReturn"
  by (auto simp: failing_def on_time_def split: fault.splits)

lemma failing_error: "failing f d w = Some (e, w') \<Longrightarrow> exn_kind e \<noteq> NoReturn"
  by (auto simp: failing_def split: fault.splits)

interpretation wired: timed_net "wired_net answer dir" lo_clock on_time for answer dir
proof
  fix w d a r w'
  assume w: "on_time w" "0 \<le> d" "n_connect (wired_net answer dir) a d w = (r, w')"
  obtain f w1 where 1: "take_fault w = (f, w1)"
    by fastforce
  note t = take_fault_time [OF 1 w(1)]
  have t2: "lo_clock w \<le> lo_clock w2 \<and> on_time w2" if "failing f d w1 = Some (e, w2)" for e w2
    using failing_time [OF that w(2)] t by auto
  show "lo_clock w \<le> lo_clock w' \<and> on_time w'"
    using w(3) 1 t t2
    by (auto simp: wired_net_def lo_connect_def on_time_def split: option.splits prod.splits)
next
  fix a d e w w'
  assume "n_connect (wired_net answer dir) a d w = (Inl e, w')"
  then show "exn_kind e \<noteq> NoReturn"
    by (auto simp: wired_net_def lo_connect_def dest: failing_error split: option.splits prod.splits)
qed (auto simp: wired_net_def lo_peername_def on_time_def)

text \<open>C17. Connecting to a peer ends, whatever the tries come to: with the number of tries allowed at or above twice the seconds left, rounded up,
  and one more, the outcome is the same for every such number and is not the model's mark for tries that ran out.\<close>

theorem connecting_ends:
  assumes "timed_net E clk tw" "tw w" "0 \<le> ct"
  shows "\<exists>r s. (\<forall>fuel > nat \<lceil>2 * (dl - clk w)\<rceil>. connect_loop fuel E ct tmo dl (1 / 2) (p, w) = (r, s)) \<and>
    (\<forall>e. r = Inl e \<longrightarrow> exn_kind e \<noteq> NoReturn)"
proof -
  have "2 * (dl - clk w) \<le> of_nat (nat \<lceil>2 * (dl - clk w)\<rceil>)"
    by linarith
  then show ?thesis
    by (intro timed_net.connect_ends [OF assms(1,3,2)]) simp_all
qed

lemma connecting_ends_witness:
  "\<exists>r s. (\<forall>fuel > 120. connect_loop fuel (loop_net (two_halves 8 1)) 5 30 60 (1 / 2) (new_peer ''127.0.0.1'' 9001, quiet_world [Broken, Hang, Late 3])
     = (r, s)) \<and> (\<forall>e. r = Inl e \<longrightarrow> exn_kind e \<noteq> NoReturn)"
  using connecting_ends [OF wired.timed_net_axioms, of "quiet_world [Broken, Hang, Late 3]" 5 60]
  by (simp add: on_time_def quiet_world_def)

end
