(* ===== verification/Self_Check.thy ===== *)
theory Self_Check
  imports Guarantees
begin

section \<open>The self-check\<close>

text \<open>
  \<open>_self_check\<close> and \<open>_expect_failure\<close> of \<open>client/ple_remote.py\<close>, with the size of the table, the ports the
  four stand-ins listen on and the random ids as arguments.  Starting a stand-in makes its port answer, which is
  the business of the world; that \<open>gather\<close> returns a view of \<open>out\<close> of type float8 is left out.
\<close>

definition sc_assert :: "bool \<Rightarrow> ('s, unit) prog" where
  "sc_assert b = (if b then ret () else raise (Exn AssertionError (Failed [])))"

definition expect_failure :: "('s, 'a) prog \<Rightarrow> ('s, unit) prog" where
  "expect_failure m s = (case m s of
     (Inl e, s') \<Rightarrow> if is_exception e then (Inr (), s') else (Inl e, s')
   | (Inr _, s') \<Rightarrow> (Inl (Exn AssertionError (Failed ''expected a failure, got none'')), s'))"

text \<open>\<open>heavy[1::3] = heavy[0]\<close>.\<close>

definition every_third :: "int list \<Rightarrow> int list" where
  "every_third xs = map (\<lambda>i. if i mod 3 = 1 then xs ! 0 else xs ! i) [0..<length xs]"

definition local_peers :: "int list \<Rightarrow> string" where
  "local_peers ports = (case map (\<lambda>p. ''127.0.0.1:'' @ show_int p) ports of
     [] \<Rightarrow> [] | x # xs \<Rightarrow> x @ concat (map (\<lambda>y. CHR '','' # y) xs))"

definition sc_config :: "int list \<Rightarrow> int \<Rightarrow> int \<Rightarrow> config" where
  "sc_config ports n w = \<lparr>c_peers = Some (local_peers ports), c_rows_total = Some n, c_row_bytes = w, c_max_rows = None,
     c_timeout = None, c_connect_timeout = None, c_connect_deadline = None, c_gather_deadline = None\<rparr>"

definition sc_pattern :: "int \<Rightarrow> int list" where
  "sc_pattern n = (let h = n div 2 in [0, n - 1, h, h - 1, 0, 0, h, 1, n - 1, h - 1, h - 1])"

definition sc_same :: "nat \<Rightarrow> nat \<Rightarrow> int list \<Rightarrow> byte list list \<Rightarrow> ('s, unit) prog" where
  "sc_same n w ids got = sc_assert (got = map (\<lambda>x. matrix_row (synthetic_table n w) (nat x)) ids)"

definition sc_gathers :: "'w net \<Rightarrow> nat \<Rightarrow> nat \<Rightarrow> int list \<Rightarrow> ('w, unit) tprog" where
  "sc_gathers E n w heavy = (let h = int n div 2; mixed = [h - 1, h, 3, 3] in
     bnd (gets fst) (\<lambda>t.
     seq (sc_assert (rows_total t = int n \<and> t_row_bytes t = int w \<and> num_shards t = 2))
     (bnd (gather_cpu E (sc_pattern (int n))) (\<lambda>got. seq (sc_same n w (sc_pattern (int n)) got)
     (bnd (gather_cpu E (every_third heavy)) (\<lambda>got. seq (sc_same n w (every_third heavy) got)
     (bnd (gather_cpu E []) (\<lambda>got. seq (sc_assert (got = []))
     (bnd (gather E mixed (Some (replicate 4 (replicate w (n_junk E))))) (\<lambda>(ret', out). seq (sc_same n w mixed out)
     (bnd (read_rows_contiguous E (h - 8) 16 1048576) (\<lambda>slab. sc_same n w (id_range (h - 8) 16) slab))))))))))))"

definition sc_rejections :: "'w net \<Rightarrow> nat \<Rightarrow> nat \<Rightarrow> ('w, unit) tprog" where
  "sc_rejections E n w =
     seq (expect_failure (gather_cpu E [0, int n]))
     (seq (upd (\<lambda>t. t\<lparr>max_rows := 4\<rparr>))
     (seq (expect_failure (gather_cpu E (id_range 0 64)))
     (seq (upd (\<lambda>t. t\<lparr>max_rows := DEFAULT_MAX_ROWS\<rparr>))
     (bnd (gather_cpu E [5, 6]) (\<lambda>got. sc_same n w [5, 6] got)))))"

definition sc_farewell :: "'w net \<Rightarrow> nat \<Rightarrow> ('w, unit) tprog" where
  "sc_farewell E n =
     bnd (Table.stat E) (\<lambda>stats. seq (sc_assert (map st_base_row stats = [0, n div 2]))
     (seq (ping E) (close E)))"

definition on_table :: "table \<Rightarrow> ('w, 'a) tprog \<Rightarrow> ('w, 'a) prog" where
  "on_table t m u = (case m (t, u) of (r, s) \<Rightarrow> (r, snd s))"

definition self_check :: "'w net \<Rightarrow> (string \<Rightarrow> exn + rat) \<Rightarrow> (string \<Rightarrow> string option) \<Rightarrow> nat \<Rightarrow> nat \<Rightarrow> int list \<Rightarrow>
    int \<Rightarrow> int \<Rightarrow> int \<Rightarrow> int \<Rightarrow> ('w, unit) prog" where
  "self_check E to_float environ n w heavy left right overlap gap =
     (let open_on = (\<lambda>ports total. init_table E to_float environ (sc_config ports total (int w))) in
      bnd (open_on [left, right] (int n)) (\<lambda>t.
      seq (on_table t (seq (sc_gathers E n w heavy) (seq (sc_rejections E n w) (sc_farewell E n))))
     (seq (expect_failure (open_on [left] (int n)))
     (seq (expect_failure (open_on [left, right] (int n + 1)))
     (seq (expect_failure (open_on [left, overlap] (int n)))
          (expect_failure (open_on [left, gap] (int n))))))))"



subsection \<open>Its pieces\<close>

lemma sc_assert_run: "sc_assert b s = (if b then (Inr (), s) else (Inl (Exn AssertionError (Failed [])), s))"
  by (simp add: sc_assert_def ret_run raise_run)

lemma expect_failure_run: "m s = (Inl e, s') \<Longrightarrow> is_exception e \<Longrightarrow> expect_failure m s = (Inr (), s')"
  by (simp add: expect_failure_def)

lemma length_every_third [simp]: "length (every_third xs) = length xs"
  by (simp add: every_third_def)

lemma every_third_subset: "set (every_third xs) \<subseteq> set xs"
  by (auto simp: every_third_def simp del: upt_Suc intro!: nth_mem)

lemma length_id_range [simp]: "length (id_range a n) = n"
  by (simp add: id_range_def)

lemma set_id_range: "x \<in> set (id_range a n) \<longleftrightarrow> a \<le> x \<and> x < a + int n"
proof
  assume "a \<le> x \<and> x < a + int n"
  then have "x = a + int (nat (x - a))" "nat (x - a) < n"
    by linarith+
  then show "x \<in> set (id_range a n)"
    unfolding id_range_def by (metis (no_types, lifting) atLeastLessThan_iff image_eqI le0 list.set_map set_upt)
qed (auto simp: id_range_def)

lemma positions_id_range:
  assumes "base_row p = 0" and "k \<le> row_count p" and "k \<le> n"
  shows "k \<le> length (positions (id_range 0 n) p)"
proof -
  have "set [0..<k] \<subseteq> set (positions (id_range 0 n) p)"
    using assms by (auto simp: set_positions owns_id_def id_range_def)
  then have "card (set [0..<k]) \<le> card (set (positions (id_range 0 n) p))"
    by (intro card_mono) simp_all
  then show ?thesis
    by (simp add: distinct_card)
qed

abbreviation bases :: "table \<times> 'w \<Rightarrow> nat list" where
  "bases s \<equiv> map base_row (peers (fst s))"

context live_net begin

lemma working_fields:
  assumes "working a b N m s" and "t = (fst s)\<lparr>staging := st, workspace := k, sel := ss\<rparr>"
    and "length ss = length (sel (fst s))"
  shows "working a b N m (t, snd s)"
  using assms inv_fields [of N s t] by (simp add: working_def prompt_def)

lemma working_max_rows:
  assumes "working a b N m s"
  shows "working a b N m' ((fst s)\<lparr>max_rows := m'\<rparr>, snd s)"
  using assms inv_fields [of N s "(fst s)\<lparr>max_rows := m'\<rparr>"] by (simp add: working_def prompt_def)

lemma gather_cpu_refused:
  assumes wk: "working a b N m s" and ids: "ids \<noteq> []"
    and bad: "(\<exists>x\<in>set ids. \<not> (0 \<le> x \<and> x < int N)) \<or> (\<exists>p\<in>set (peers (fst s)). \<not> fits (fst s) ids p)"
  shows "\<exists>e s'. gather_cpu E ids s = (Inl e, s') \<and> is_exception e \<and> working a b N m s' \<and>
    peers (fst s') = peers (fst s)"
proof -
  obtain r s' where run: "gather_cpu E ids s = (r, s')"
    by (cases "gather_cpu E ids s")
  have inv: "length (sel (fst s)) = length (peers (fst s))" "failed (fst s) = None \<longrightarrow> tiling (peers (fst s)) 0 N"
    using wk by (auto simp: working_def inv_def synced_def)
  from run inv show ?thesis
  proof (cases rule: gather_cpu_cases)
    case (refused t e)
    then have "working a b N m (t, snd s)"
      using working_fields [OF wk refused(9)] by simp
    then show ?thesis
      using run refused by (intro exI [of _ e] exI [of _ "(t, snd s)"]) simp
  qed (use ids bad in auto)
qed

lemma slice_lives:
  assumes wk: "working a b N m s" and N: "N \<le> 2 ^ 32" and "0 \<le> start" "start + int n \<le> int N"
    and "0 < n" "int n \<le> m" "int n \<le> chunk" and lim: "m \<le> int limit" "m < 2 ^ 32"
  shows "\<exists>s'. read_rows_contiguous E start (int n) chunk s =
    (Inr (map (\<lambda>x. truth (nat x)) (id_range start n)), s') \<and> working a b N m s' \<and>
    bases s' = bases s"
proof -
  have "\<forall>x\<in>set (id_range start n). 0 \<le> x \<and> x < int N"
    using assms(3,4) by (auto simp: set_id_range)
  then obtain s' where 1: "gather_cpu E (id_range start n) s = (Inr (map (\<lambda>x. truth (nat x)) (id_range start n)), s')"
    "working a b N m s'" "bases s' = bases s"
    using gather_cpu_lives [OF wk N _ _ lim, of "id_range start n"] assms(6) by auto
  have "max_rows (fst s) = m"
    using wk by (simp add: working_def)
  then have "min (max (nat (max 1 (min chunk (max_rows (fst s))))) 1) (n - 0) = n"
    using assms(5-7) by linarith
  then show ?thesis
    using assms(5) 1
    by (simp add: read_rows_contiguous_def read_chunks_more read_chunks_end bnd_def del: diff_zero)
qed


lemma sc_rows:
  fixes s :: "table \<times> 'w"
  assumes "\<forall>i<N. truth i = matrix_row (synthetic_table N w) i" and "\<forall>x\<in>set ids. 0 \<le> x \<and> x < int N"
  shows "sc_same N w ids (map (\<lambda>x. truth (nat x)) ids) s = (Inr (), s)"
proof -
  have "truth (nat x) = matrix_row (synthetic_table N w) (nat x)" if "x \<in> set ids" for x
    using assms that by (simp add: nat_less_iff)
  then show ?thesis
    by (simp add: sc_same_def sc_assert_run)
qed

lemma sc_gathers_live:
  assumes wk: "working a b N m s" and N: "N \<le> 2 ^ 32" "16 \<le> N" and lim: "m \<le> int limit" "m < 2 ^ 32"
    and same: "\<forall>i<N. truth i = matrix_row (synthetic_table N w) i"
    and heavy: "\<forall>x\<in>set heavy. 0 \<le> x \<and> x < int N" "int (length heavy) \<le> m" and m: "16 \<le> m"
    and t: "rows_total (fst s) = int N" "t_row_bytes (fst s) = int w" "num_shards (fst s) = 2"
  shows "\<exists>s'. sc_gathers E N w heavy s = (Inr (), s') \<and> working a b N m s' \<and> bases s' = bases s"
proof -
  define h where "h = int N div 2"
  have h: "8 \<le> h" "h + 8 \<le> int N" "int N div 2 = h"
    using N(2) by (simp_all add: h_def)
  note lives = gather_cpu_lives [OF _ N(1) _ _ lim] and rows = sc_rows [OF same]
  have r1: "\<forall>x\<in>set (sc_pattern (int N)). 0 \<le> x \<and> x < int N" "int (length (sc_pattern (int N))) \<le> m"
    using h N(2) m by (simp_all add: sc_pattern_def)
  obtain s1 where 1: "gather_cpu E (sc_pattern (int N)) s = (Inr (map (\<lambda>x. truth (nat x)) (sc_pattern (int N))), s1)"
      "working a b N m s1" "bases s1 = bases s"
    using lives [OF wk r1] by blast
  have r2: "\<forall>x\<in>set (every_third heavy). 0 \<le> x \<and> x < int N" "int (length (every_third heavy)) \<le> m"
    using heavy every_third_subset [of heavy] by auto
  obtain s2 where 2: "gather_cpu E (every_third heavy) s1 = (Inr (map (\<lambda>x. truth (nat x)) (every_third heavy)), s2)"
      "working a b N m s2" "bases s2 = bases s1"
    using lives [OF 1(2) r2] by blast
  obtain s3 where 3: "gather_cpu E [] s2 = (Inr [], s3)" "working a b N m s3" "bases s3 = bases s2"
    using lives [OF 2(2), of "[]"] m by auto
  let ?mixed = "[h - 1, h, 3, 3]"
  have r4: "\<forall>x\<in>set ?mixed. 0 \<le> x \<and> x < int N" "int (length ?mixed) \<le> m"
    using h m by simp_all
  obtain s4 where 4: "gather_cpu E ?mixed s3 = (Inr (map (\<lambda>x. truth (nat x)) ?mixed), s4)" "working a b N m s4" "bases s4 = bases s3"
    using lives [OF 3(2) r4] by blast
  have g4: "gather E ?mixed (Some (replicate 4 (replicate w (n_junk E)))) s3
      = (Inr (map (\<lambda>x. truth (nat x)) ?mixed, map (\<lambda>x. truth (nat x)) ?mixed), s4)"
    using 4(1) by (simp add: gather_def bnd_def copy_rows_def of_sum_run ret_run)
  have "h - 8 + int 16 \<le> int N" "0 \<le> h - 8" "int 16 \<le> m"
    using h m by simp_all
  then obtain s5 where 5: "read_rows_contiguous E (h - 8) (int 16) 1048576 s4
      = (Inr (map (\<lambda>x. truth (nat x)) (id_range (h - 8) 16)), s5)" "working a b N m s5" "bases s5 = bases s4"
    using slice_lives [OF 4(2) N(1) _ _ _ _ _ lim, of "h - 8" 16 1048576] by auto
  have r5: "\<forall>x\<in>set (id_range (h - 8) 16). 0 \<le> x \<and> x < int N"
    using h by (auto simp: set_id_range)
  show ?thesis
    using 1(1,3) 2(1,3) 3(1,3) 4(3) g4 5 t h(3) rows [OF r1(1)] rows [OF r2(1)] rows [OF r4(1)] rows [OF r5]
    by (intro exI [of _ s5]) (simp add: sc_gathers_def bnd_def seq_run sc_assert_run Let_def del: list.map)
qed

lemma owner_of_row_0:
  assumes "inv N s" and "failed (fst s) = None" and "0 < N"
  shows "\<exists>p\<in>set (peers (fst s)). base_row p = 0 \<and> (\<exists>sv. deployed sv \<and> base sv = 0 \<and> count sv = row_count p)"
proof -
  have sy: "synced N s"
    using assms(1,2) by (simp add: inv_def)
  then have "owners (peers (fst s)) 0 = 1"
    using assms(3) by (simp add: synced_def tiling_def)
  then obtain p where p: "p \<in> set (peers (fst s))" "owns p 0"
    by (metis owners_pos zero_less_one)
  obtain i where "i < length (peers (fst s))" "p = peers (fst s) ! i"
    using p(1) by (metis in_set_conv_nth)
  then have "\<exists>sv. deployed sv \<and> base sv = base_row p \<and> count sv = row_count p"
    using sy by (auto simp: synced_def idle_def serves_def)
  then show ?thesis
    using p by (intro bexI [of _ p]) (auto simp: owns_def)
qed

lemma sc_rejections_live:
  assumes wk: "working a b N m s" and N: "N \<le> 2 ^ 32" "7 \<le> N" and m: "2 \<le> m"
    and lim: "DEFAULT_MAX_ROWS \<le> int limit"
    and same: "\<forall>i<N. truth i = matrix_row (synthetic_table N w) i"
    and wide: "\<forall>sv. deployed sv \<longrightarrow> base sv = 0 \<longrightarrow> 5 \<le> count sv"
  shows "\<exists>s'. sc_rejections E N w s = (Inr (), s') \<and> working a b N DEFAULT_MAX_ROWS s' \<and> bases s' = bases s"
proof -
  obtain e1 s1 where 1: "gather_cpu E [0, int N] s = (Inl e1, s1)" "is_exception e1" "working a b N m s1"
      "peers (fst s1) = peers (fst s)"
    using gather_cpu_refused [OF wk, of "[0, int N]"] by auto
  let ?s2 = "((fst s1)\<lparr>max_rows := 4\<rparr>, snd s1)"
  have w2: "working a b N 4 ?s2"
    by (rule working_max_rows [OF 1(3)])
  then have "inv N ?s2" "failed (fst ?s2) = None"
    by (simp_all only: working_def)
  then obtain p where p: "p \<in> set (peers (fst ?s2))" "base_row p = 0" "5 \<le> row_count p"
    using owner_of_row_0 [of N ?s2] N(2) wide by force
  then have "\<not> fits (fst ?s2) (id_range 0 64) p"
    using positions_id_range [of p 5 64] by (simp add: fits_def)
  then obtain e2 s3 where 2: "gather_cpu E (id_range 0 64) ?s2 = (Inl e2, s3)" "is_exception e2" "working a b N 4 s3"
      "peers (fst s3) = peers (fst ?s2)"
    using gather_cpu_refused [OF w2, of "id_range 0 64"] p(1) length_id_range [of 0 64] by fastforce
  let ?s4 = "((fst s3)\<lparr>max_rows := DEFAULT_MAX_ROWS\<rparr>, snd s3)"
  have w4: "working a b N DEFAULT_MAX_ROWS ?s4"
    by (rule working_max_rows [OF 2(3)])
  have r: "\<forall>x\<in>set [5, 6 :: int]. 0 \<le> x \<and> x < int N"
    using N(2) by simp
  obtain s5 where 3: "gather_cpu E [5, 6] ?s4 = (Inr (map (\<lambda>x. truth (nat x)) [5, 6]), s5)" "working a b N DEFAULT_MAX_ROWS s5"
      "bases s5 = bases ?s4"
    using gather_cpu_lives [OF w4 N(1) r _ lim] by (auto simp: DEFAULT_MAX_ROWS_def)
  show ?thesis
    using expect_failure_run [of "gather_cpu E [0, int N]", OF 1(1,2)]
      expect_failure_run [of "gather_cpu E (id_range 0 64)", OF 2(1,2)] 3 1(4) 2(4) sc_rows [OF same r]
    by (intro exI [of _ s5]) (simp add: sc_rejections_def seq_run bnd_def upd_def)
qed

end

context calling_net begin

lemma sc_farewell_live:
  assumes wk: "working a b N m s" and b: "bases s = [0, n div 2]"
  shows "\<exists>s'. sc_farewell E n s = (Inr (), s') \<and> calm a b (snd s')"
proof -
  obtain sts s1 where 1: "Table.stat E s = (Inr sts, s1)" "map st_base_row sts = bases s" "working a b N m s1"
    using stat_lives [OF wk] by blast
  obtain s2 where 2: "ping E s1 = (Inr (), s2)" "working a b N m s2"
    using ping_lives [OF 1(3)] by blast
  obtain s3 where 3: "Table.close E s2 = (Inr (), s3)" "calm a b (snd s3)"
    using table_close_lives [OF 2(2)] by blast
  show ?thesis
    using 1(1,2) 2(1) 3 b by (intro exI [of _ s3]) (simp add: sc_farewell_def bnd_def seq_run sc_assert_run)
qed

end

subsection \<open>It passes on the model\<close>

definition sc_dir :: "nat \<Rightarrow> nat \<Rightarrow> addr \<Rightarrow> standin option" where
  "sc_dir n w a =
     (if a = (''127.0.0.1'', 9003) then Some (slice_server (synthetic_table n w) 0 (n div 2))
      else if a = (''127.0.0.1'', 9004) then Some (slice_server (synthetic_table n w) (n div 2 + 1) n)
      else two_halves n w a)"

definition plain_floats :: "string \<Rightarrow> exn + rat" where
  "plain_floats s = (if s = DEFAULT_TIMEOUT then Inr 30 else if s = DEFAULT_CONNECT_TIMEOUT then Inr 5
     else if s = DEFAULT_CONNECT_DEADLINE then Inr 60 else if s = DEFAULT_GATHER_DEADLINE then Inr 120
     else Inl (Exn ValueError (NotAnInteger s)))"

lemmas sc_run = sc_config_def sc_dir_def plain_floats_def DEFAULT_TIMEOUT_def DEFAULT_CONNECT_TIMEOUT_def
  DEFAULT_CONNECT_DEADLINE_def DEFAULT_GATHER_DEADLINE_def env_or_def

lemma sc_shown:
  "show_int 9001 = ''9001''" "show_int 9002 = ''9002''" "show_int 9003 = ''9003''" "show_int 9004 = ''9004''"
  "show_int DEFAULT_MAX_ROWS = ''131072''"
  by (simp_all add: show_int_def show_nat.simps digit_char_def DEFAULT_MAX_ROWS_def char_of_def bit_0)

lemma sc_local_peers:
  "local_peers [9001, 9002] = ''127.0.0.1:9001,127.0.0.1:9002''" "local_peers [9001] = ''127.0.0.1:9001''"
  "local_peers [9001, 9003] = ''127.0.0.1:9001,127.0.0.1:9003''" "local_peers [9001, 9004] = ''127.0.0.1:9001,127.0.0.1:9004''"
  by (simp_all add: local_peers_def sc_shown)

lemma on_table_weak: "t = t' \<Longrightarrow> on_table t m = on_table t' m" by simp
lemma expect_weak: "expect_failure m = expect_failure m" by simp
lemmas sc_congs = run_congs on_table_weak expect_weak
lemma sc_refused:
  assumes "lo_script u = []"
  shows "\<exists>u'. expect_failure (init_table (loop_net (sc_dir 4096 160)) plain_floats (\<lambda>s. None) (sc_config [9001] 4096 160)) u = (Inr (), u') \<and> lo_script u' = []"
    "\<exists>u'. expect_failure (init_table (loop_net (sc_dir 4096 160)) plain_floats (\<lambda>s. None) (sc_config [9001, 9002] 4097 160)) u = (Inr (), u') \<and> lo_script u' = []"
    "\<exists>u'. expect_failure (init_table (loop_net (sc_dir 4096 160)) plain_floats (\<lambda>s. None) (sc_config [9001, 9003] 4096 160)) u = (Inr (), u') \<and> lo_script u' = []"
    "\<exists>u'. expect_failure (init_table (loop_net (sc_dir 4096 160)) plain_floats (\<lambda>s. None) (sc_config [9001, 9004] 4096 160)) u = (Inr (), u') \<and> lo_script u' = []"
  using assms by (simp_all add: expect_failure_def sc_local_peers sc_shown sc_run all_run front_run cong: sc_congs)

lemma sc_open:
  "case init_table (loop_net (sc_dir 4096 160)) plain_floats (\<lambda>s. None) (sc_config [9001, 9002] 4096 160) (quiet_world []) of
     (Inl e, u) \<Rightarrow> False | (Inr t, u) \<Rightarrow> rows_total t = 4096 \<and> t_row_bytes t = 160 \<and> num_shards t = 2 \<and> failed t = None \<and>
     gather_deadline t = 120 \<and> max_rows t = 131072 \<and> at_ease t \<and> lo_calm 0 1 u \<and> map base_row (peers t) = [0, 2048]"
  by (simp add: at_ease_def lo_calm_def sc_local_peers sc_shown sc_run all_run front_run cong: run_congs)

lemma sc_slices:
  assumes "0 < n"
  shows "slices n w (sc_dir n w)"
  unfolding slices_def
proof (intro allI impI)
  fix a s assume "sc_dir n w a = Some s"
  then consider "s = slice_server (synthetic_table n w) 0 (n div 2)"
    | "s = slice_server (synthetic_table n w) (n div 2 + 1) n" | "two_halves n w a = Some s"
    unfolding sc_dir_def by (metis option.inject)
  then show "\<exists>lo hi. lo \<le> n \<and> hi \<le> n \<and> s = slice_server (synthetic_table n w) lo hi"
  proof cases
    case 1
    then show ?thesis
      by (intro exI [of _ 0] exI [of _ "n div 2"]) simp
  next
    case 2
    moreover have "n div 2 + 1 \<le> n"
      using assms by linarith
    ultimately show ?thesis
      by blast
  next
    case 3
    then show ?thesis
      using two_slices [of n w] unfolding slices_def by blast
  qed
qed

interpretation sc: calling_net si_answers si_base "\<lambda>s. m_rows (si_table s)"
    "\<lambda>s. m_cols (si_table s)" si_row "loop_net (sc_dir 4096 160)" loop_view "listed (sc_dir 4096 160)"
    "matrix_row (synthetic_table 4096 160)" lo_calm "2 ^ 32"
  by (rule slices_calling [OF sc_slices]) simp_all

lemma sc_row_0: "listed (sc_dir 4096 160) sv \<Longrightarrow> si_base sv = 0 \<Longrightarrow> 5 \<le> m_rows (si_table sv)"
  by (auto simp: listed_def sc_dir_def two_halves_def slice_server_def split: if_splits)

text \<open>
  C4.  Run over its four stand-ins at its own sizes, the self-check passes whatever ids it draws: the rows come
  back in the order asked with duplicates and across the peers, the two rejected requests leave the connections
  in step, \<open>stat\<close>, \<open>ping\<close> and \<open>close\<close> return, and each of the four wrong deployments is refused.
\<close>

theorem self_check_passes:
  assumes "\<forall>x\<in>set heavy. 0 \<le> x \<and> x < 4096" and "length heavy = 4096"
  shows "fst (self_check (loop_net (sc_dir 4096 160)) plain_floats (\<lambda>s. None) 4096 160 heavy
    9001 9002 9003 9004 (quiet_world [])) = Inr ()"
proof -
  let ?E = "loop_net (sc_dir 4096 160)"
  obtain t u where o: "init_table ?E plain_floats (\<lambda>s. None) (sc_config [9001, 9002] 4096 160) (quiet_world []) = (Inr t, u)"
    and t: "rows_total t = 4096" "t_row_bytes t = 160" "num_shards t = 2" "failed t = None"
      "gather_deadline t = 120" "max_rows t = 131072" "at_ease t" "lo_calm 0 1 u" "bases (t, u) = [0, 2048]"
    using sc_open by (auto split: prod.splits sum.splits)
  note inv = sc.session_from_init [OF o _ _ session.opened]
  have wk: "sc.working 0 1 4096 131072 (t, u)"
    using sc.working_at_ease [of 4096 "(t, u)" 0 1] inv t by (simp add: loop_view_def)
  obtain s1 where 1: "sc_gathers ?E 4096 160 heavy (t, u) = (Inr (), s1)" "sc.working 0 1 4096 131072 s1"
      "bases s1 = bases (t, u)"
    using sc.sc_gathers_live [OF wk, of 160 heavy] assms t by auto
  obtain s2 where 2: "sc_rejections ?E 4096 160 s1 = (Inr (), s2)" "sc.working 0 1 4096 DEFAULT_MAX_ROWS s2"
      "bases s2 = bases s1"
    using sc.sc_rejections_live [OF 1(2), of 160] sc_row_0 by (auto simp: DEFAULT_MAX_ROWS_def)
  obtain s3 where 3: "sc_farewell ?E 4096 s2 = (Inr (), s3)" "lo_calm 0 1 (snd s3)"
    using sc.sc_farewell_live [OF 2(2), of 4096] 1(3) 2(3) t(9) by auto
  have w3: "lo_script (snd s3) = []"
    using 3(2) by (simp add: lo_calm_def)
  obtain u1 where 4: "expect_failure (init_table ?E plain_floats (\<lambda>s. None) (sc_config [9001] 4096 160)) (snd s3) = (Inr (), u1)"
      "lo_script u1 = []"
    using sc_refused(1) [OF w3] by blast
  obtain u2 where 5: "expect_failure (init_table ?E plain_floats (\<lambda>s. None) (sc_config [9001, 9002] 4097 160)) u1 = (Inr (), u2)"
      "lo_script u2 = []"
    using sc_refused(2) [OF 4(2)] by blast
  obtain u3 where 6: "expect_failure (init_table ?E plain_floats (\<lambda>s. None) (sc_config [9001, 9003] 4096 160)) u2 = (Inr (), u3)"
      "lo_script u3 = []"
    using sc_refused(3) [OF 5(2)] by blast
  obtain u4 where 7: "expect_failure (init_table ?E plain_floats (\<lambda>s. None) (sc_config [9001, 9004] 4096 160)) u3 = (Inr (), u4)"
    using sc_refused(4) [OF 6(2)] by blast
  show ?thesis
    using o 1(1) 2(1) 3(1) 4(1) 5(1) 6(1) 7
    by (simp add: self_check_def bnd_def seq_run on_table_def)
qed

theorem self_check_passes_witness:
  "fst (self_check (loop_net (sc_dir 4096 160)) plain_floats (\<lambda>s. None) 4096 160 (replicate 4096 7)
    9001 9002 9003 9004 (quiet_world [])) = Inr ()"
  by (rule self_check_passes) simp_all

end
