(* ===== verification/Closing.thy ===== *)
theory Closing
  imports Guarantees
begin

section \<open>The connections a constructor that raises has made\<close>

text \<open>
  What the program does to its connections is read off the calls it makes: \<open>recording E\<close> is the net \<open>E\<close>
  that also keeps the list of them, latest first.  It answers every call as \<open>E\<close> does (\<open>mirrors\<close>), so
  a run over it is the run over \<open>E\<close> with the calls written down.  (\<open>n_connect\<close> stands for
  \<open>create_connection\<close> and the two socket options after it; a connection is opened when all three return.)
\<close>

datatype conn_event = Opened nat | Unnamed nat | Closing nat

definition recording :: "'w net \<Rightarrow> ('w \<times> conn_event list) net" where
  "recording E = \<lparr>
     n_connect = (\<lambda>a t (w, ev). case n_connect E a t w of
         (Inl e, w') \<Rightarrow> (Inl e, (w', ev)) | (Inr k, w') \<Rightarrow> (Inr k, (w', Opened k # ev))),
     n_peername = (\<lambda>k (w, ev). case n_peername E k w of
         (Inl e, w') \<Rightarrow> (Inl e, (w', Unnamed k # ev)) | (Inr a, w') \<Rightarrow> (Inr a, (w', ev))),
     n_send = (\<lambda>k t m (w, ev). case n_send E k t m w of (r, w') \<Rightarrow> (r, (w', ev))),
     n_recv = (\<lambda>k t n (w, ev). case n_recv E k t n w of (r, w') \<Rightarrow> (r, (w', ev))),
     n_select = (\<lambda>ks t (w, ev). case n_select E ks t w of (r, w') \<Rightarrow> (r, (w', ev))),
     n_close = (\<lambda>k ab (w, ev). case n_close E k ab w of (r, w') \<Rightarrow> (r, (w', Closing k # ev))),
     n_now = (\<lambda>(w, ev). case n_now E w of (t, w') \<Rightarrow> (t, (w', ev))),
     n_sleep = (\<lambda>d (w, ev). (n_sleep E d w, ev)),
     n_junk = n_junk E, n_fuel = n_fuel E\<rparr>"

text \<open>
  The connections that are open after the calls, and those whose \<open>getpeername\<close> failed: such a socket is
  replaced by the next try of \<open>_connect\<close>, without a \<open>close\<close>, or is the last thing tried.
\<close>

primrec still_open :: "conn_event list \<Rightarrow> nat multiset" where
  "still_open [] = {#}"
| "still_open (x # ev) = (case x of
     Opened k \<Rightarrow> add_mset k (still_open ev) | Unnamed k \<Rightarrow> still_open ev | Closing k \<Rightarrow> still_open ev - {#k#})"

primrec unnamed :: "conn_event list \<Rightarrow> nat multiset" where
  "unnamed [] = {#}"
| "unnamed (x # ev) = (case x of Unnamed k \<Rightarrow> add_mset k (unnamed ev) | _ \<Rightarrow> unnamed ev)"

subsection \<open>A recorded run is the run\<close>

definition mirrors :: "('x \<times> 'w, 'a) prog \<Rightarrow> ('x \<times> ('w \<times> conn_event list), 'a) prog \<Rightarrow> bool" where
  "mirrors m m' \<longleftrightarrow> (\<forall>x w ev. \<exists>r x' w' ev'. m' (x, (w, ev)) = (r, (x', (w', ev'))) \<and> m (x, w) = (r, (x', w')))"

named_theorems mirroring \<open>programs over the recording net that run as over the net itself\<close>

lemma mirrors_ret [mirroring]: "mirrors (ret x) (ret x)"
  and mirrors_raise [mirroring]: "mirrors (raise e) (raise e)"
  and mirrors_upd [mirroring]: "mirrors (upd f) (upd f)"
  and mirrors_of_sum [mirroring]: "mirrors (of_sum y) (of_sum y)"
  and mirrors_gets_fst [mirroring]: "mirrors (gets (\<lambda>s. g (fst s))) (gets (\<lambda>s. g (fst s)))"
  by (simp_all add: mirrors_def ret_run raise_run of_sum_run)

lemma mirrors_fst [mirroring]: "mirrors (gets fst) (gets fst)"
  by (simp add: mirrors_def)

lemma mirrors_indices [mirroring]: "mirrors (gets peer_indices) (gets peer_indices)"
  by (simp add: mirrors_def peer_indices_def)

lemma mirrorsE:
  assumes "mirrors m m'"
  obtains r x' w' ev' where "m' (x, (w, ev)) = (r, (x', (w', ev')))" "m (x, w) = (r, (x', w'))"
  using assms unfolding mirrors_def by blast

lemma mirrorsI:
  assumes "\<And>x w ev. \<exists>r x' w' ev'. m' (x, (w, ev)) = (r, (x', (w', ev'))) \<and> m (x, w) = (r, (x', w'))"
  shows "mirrors m m'"
  unfolding mirrors_def using assms by blast

lemma mirrors_bnd:
  assumes "mirrors m m'" and "\<And>x. mirrors (f x) (f' x)"
  shows "mirrors (bnd m f) (bnd m' f')"
proof (rule mirrorsI)
  fix x w ev
  obtain r x1 w1 ev1 where 1: "m' (x, (w, ev)) = (r, (x1, (w1, ev1)))" "m (x, w) = (r, (x1, w1))"
    by (rule mirrorsE [OF assms(1)])
  show "\<exists>r x' w' ev'. bnd m' f' (x, (w, ev)) = (r, (x', (w', ev'))) \<and> bnd m f (x, w) = (r, (x', w'))"
  proof (cases r)
    case (Inr y)
    obtain r2 x2 w2 ev2 where "f' y (x1, (w1, ev1)) = (r2, (x2, (w2, ev2)))" "f y (x1, w1) = (r2, (x2, w2))"
      by (rule mirrorsE [OF assms(2)])
    then show ?thesis
      using 1 Inr by (simp add: bnd_def)
  qed (use 1 in \<open>simp add: bnd_def\<close>)
qed

lemma mirrors_seq: "mirrors m m' \<Longrightarrow> mirrors n n' \<Longrightarrow> mirrors (seq m n) (seq m' n')"
  by (simp add: seq_def mirrors_bnd)

lemma mirrors_if: "mirrors m m' \<Longrightarrow> mirrors n n' \<Longrightarrow> mirrors (if b then m else n) (if b then m' else n')"
  by simp

lemma mirrors_option:
  "mirrors m m' \<Longrightarrow> (\<And>x. mirrors (f x) (f' x)) \<Longrightarrow>
    mirrors (case z of None \<Rightarrow> m | Some x \<Rightarrow> f x) (case z of None \<Rightarrow> m' | Some x \<Rightarrow> f' x)"
  by (simp split: option.split)

lemma mirrors_handle:
  assumes "mirrors m m'" and "\<And>e. mirrors (h e) (h' e)"
  shows "mirrors (handle m c h) (handle m' c h')"
proof (rule mirrorsI)
  fix x w ev
  obtain r x1 w1 ev1 where 1: "m' (x, (w, ev)) = (r, (x1, (w1, ev1)))" "m (x, w) = (r, (x1, w1))"
    by (rule mirrorsE [OF assms(1)])
  show "\<exists>r x' w' ev'. handle m' c h' (x, (w, ev)) = (r, (x', (w', ev'))) \<and> handle m c h (x, w) = (r, (x', w'))"
  proof (cases r)
    case (Inl e)
    obtain r2 x2 w2 ev2 where "h' e (x1, (w1, ev1)) = (r2, (x2, (w2, ev2)))" "h e (x1, w1) = (r2, (x2, w2))"
      by (rule mirrorsE [OF assms(2)])
    then show ?thesis
      using 1 Inl by (simp add: handle_def)
  qed (use 1 in \<open>simp add: handle_def\<close>)
qed

lemma mirrors_with_sock: "(\<And>k. mirrors (f k) (f' k)) \<Longrightarrow> mirrors (with_sock f) (with_sock f')"
  unfolding with_sock_def by (intro mirrors_bnd mirrors_option mirroring)

lemma mirrors_each: "(\<And>x. mirrors (f x) (f' x)) \<Longrightarrow> mirrors (each xs f) (each xs f')"
  by (induction xs) (simp_all add: mirrors_seq mirrors_ret)

lemma mirrors_on_peer:
  assumes "mirrors m m'"
  shows "mirrors (on_peer i m) (on_peer i m')"
proof (rule mirrorsI)
  fix t :: table and w ev
  obtain r p w1 ev1 where "m' (peers t ! i, (w, ev)) = (r, (p, (w1, ev1)))" "m (peers t ! i, w) = (r, (p, w1))"
    by (rule mirrorsE [OF assms])
  then show "\<exists>r t' w' ev'. on_peer i m' (t, (w, ev)) = (r, (t', (w', ev'))) \<and> on_peer i m (t, w) = (r, (t', w'))"
    by (simp add: on_peer_def)
qed

lemmas mirrors_intros = mirrors_seq mirrors_bnd mirrors_if mirrors_option mirrors_handle mirrors_with_sock
  mirrors_each mirrors_on_peer

lemma mirrors_io [mirroring]:
  "mirrors (io (n_connect E a t)) (io (n_connect (recording E) a t))"
  "mirrors (io (n_peername E k)) (io (n_peername (recording E) k))"
  "mirrors (io (n_send E k t m)) (io (n_send (recording E) k t m))"
  "mirrors (io (n_recv E k t n)) (io (n_recv (recording E) k t n))"
  "mirrors (io (n_close E k ab)) (io (n_close (recording E) k ab))"
  "mirrors (now E) (now (recording E))"
  "mirrors (sleep E d) (sleep (recording E) d)"
  by (auto simp: mirrors_def io_def now_def sleep_def recording_def split: prod.splits sum.splits)

lemma mirrors_arm [mirroring]: "mirrors (arm E) (arm (recording E))"
  unfolding arm_def by (intro mirrors_intros mirroring)

lemma mirrors_recv [mirroring]: "mirrors (recv E a n) (recv (recording E) a n)"
  unfolding recv_def by (intro mirrors_intros mirroring)

lemma mirrors_recv_exact [mirroring]: "mirrors (recv_exact E n bs) (recv_exact (recording E) n bs)"
proof -
  have "\<exists>r x' w' ev'. recv_exact (recording E) n bs (x, (w, ev)) = (r, (x', (w', ev'))) \<and>
      recv_exact E n bs (x, w) = (r, (x', w'))" for x w ev
  proof (induction "n - length bs" arbitrary: bs x w ev rule: less_induct)
    case less
    obtain r x1 w1 ev1 where run: "recv (recording E) (n - length bs) (n - length bs) (x, (w, ev)) = (r, (x1, (w1, ev1)))"
      "recv E (n - length bs) (n - length bs) (x, w) = (r, (x1, w1))"
      by (rule mirrorsE [OF mirrors_recv])
    consider (full) "\<not> length bs < n" | (raised) e where "length bs < n" "r = Inl e" | (eof) "length bs < n" "r = Inr []"
      | (more) c cs where "length bs < n" "r = Inr (c # cs)"
      by (cases r; metis list.exhaust)
    then show ?case
    proof cases
      case more
      then have "n - length (bs @ c # cs) < n - length bs"
        by simp
      from less.hyps [OF this, of x1 w1 ev1] show ?thesis
        using run more by (subst (1 2) recv_exact.simps) simp
    qed (use run in \<open>subst (1 2) recv_exact.simps, simp\<close>)+
  qed
  then show ?thesis
    by (rule mirrorsI)
qed

lemma mirrors_peer [mirroring]:
  "mirrors (peer_connect E ct tm) (peer_connect (recording E) ct tm)"
  "mirrors (peer_close E ab) (peer_close (recording E) ab)"
  "mirrors (send_bare E op rid) (send_bare (recording E) op rid)"
  unfolding peer_connect_def peer_close_def send_bare_def by (intro mirrors_intros mirroring)+

lemma mirrors_check_header [mirroring]: "mirrors (check_header fs) (check_header fs)"
  unfolding check_header_def
  by (auto split: list.split intro!: mirrors_intros mirroring)

lemma mirrors_query_stat [mirroring]: "mirrors (query_stat E rid) (query_stat (recording E) rid)"
  unfolding query_stat_def read_header_def by (intro mirrors_intros mirroring)

lemma mirrors_connect_loop [mirroring]:
  "mirrors (connect_loop fuel E ct tm dl pause) (connect_loop fuel (recording E) ct tm dl pause)"
  by (induction fuel arbitrary: pause) (auto intro!: mirrors_intros mirroring)

lemma mirrors_apply_stat [mirroring]: "mirrors (apply_stat width st) (apply_stat width st)"
  unfolding apply_stat_def by (intro mirrors_intros mirroring)

lemma mirrors_table [mirroring]:
  "mirrors next_req_id next_req_id" "mirrors check_split check_split"
  "mirrors (close_all E) (close_all (recording E))"
  unfolding next_req_id_def check_split_def close_all_def by (intro mirrors_intros mirroring)+

lemma recording_fuel: "n_fuel (recording E) = n_fuel E"
  by (simp add: recording_def)

lemma mirrors_bring_up [mirroring]: "mirrors (bring_up E dl i) (bring_up (recording E) dl i)"
  unfolding bring_up_def connect_peer_def stat_peer_def recording_fuel by (intro mirrors_intros mirroring)

lemma mirrors_connect_all: "mirrors (connect_all E) (connect_all (recording E))"
  unfolding connect_all_def by (intro mirrors_intros mirroring)


lemma mirrors_init_table:
  "\<exists>r w' ev'. init_table (recording E) to_float environ c (w, ev) = (r, (w', ev')) \<and> init_table E to_float environ c w = (r, w')"
proof -
  have new: "new_table to_float environ c v = (fst (new_table to_float environ c w), v)" for v :: "'v" and w :: "'w"
    by (auto simp: new_table_def bnd_def of_sum_run ret_run split: sum.split)
  show ?thesis
  proof (cases "fst (new_table to_float environ c w)")
    case (Inr t)
    obtain r t' w' ev' where "connect_all (recording E) (t, (w, ev)) = (r, (t', (w', ev')))" "connect_all E (t, w) = (r, (t', w'))"
      by (rule mirrorsE [OF mirrors_connect_all])
    then show ?thesis
      using Inr new [of "(w, ev)" w] new [of w w] by (cases r) (simp_all add: init_table_def bnd_def)
  qed (use new [of "(w, ev)" w] new [of w w] in \<open>simp add: init_table_def bnd_def\<close>)
qed

subsection \<open>Every connection but an unnamed one is a peer's, or closed\<close>

definition held :: "peer \<Rightarrow> nat multiset" where
  "held p = (case sock p of None \<Rightarrow> {#} | Some k \<Rightarrow> {#k#})"

definition accounted :: "nat multiset \<Rightarrow> peer \<times> ('w \<times> conn_event list) \<Rightarrow> bool" where
  "accounted R s \<longleftrightarrow> still_open (snd (snd s)) \<subseteq># unnamed (snd (snd s)) + R + held (fst s)"

definition spare :: "nat multiset \<Rightarrow> peer \<times> ('w \<times> conn_event list) \<Rightarrow> bool" where
  "spare R s \<longleftrightarrow> still_open (snd (snd s)) \<subseteq># unnamed (snd (snd s)) + R"

lemma spare_accounted: "spare R s \<Longrightarrow> accounted R s"
  by (auto simp: spare_def accounted_def intro: subset_mset.order_trans [OF _ mset_subset_eq_add_left])

lemma accounted_spare: "accounted R s \<Longrightarrow> sock (fst s) = None \<Longrightarrow> spare R s"
  by (simp add: spare_def accounted_def held_def)

lemma connect_accounted: "triple (spare R) (peer_connect (recording E) ct tm) (\<lambda>_. accounted R) (\<lambda>_. spare R)"
proof (rule tripleI)
  fix s :: "peer \<times> ('a \<times> conn_event list)" and u s'
  obtain p w ev where s: "s = (p, (w, ev))"
    by (cases s) auto
  assume "spare R s" "peer_connect (recording E) ct tm s = (Inr u, s')"
  then show "accounted R s'"
    by (auto simp: s peer_connect_def recording_def bnd_def seq_def io_def spare_def accounted_def held_def
        split: prod.splits sum.splits)
next
  fix s :: "peer \<times> ('a \<times> conn_event list)" and e s'
  obtain p w ev where s: "s = (p, (w, ev))"
    by (cases s) auto
  assume "spare R s" "peer_connect (recording E) ct tm s = (Inl e, s')"
  then show "spare R s'"
    by (auto simp: s peer_connect_def recording_def bnd_def seq_def io_def spare_def
        split: prod.splits sum.splits)
qed

lemma close_spare:
  assumes "\<And>k ab w. \<exists>w'. n_close E k ab w = (Inr (), w')"
  shows "triple (accounted R) (peer_close (recording E) ab) (\<lambda>_ s. spare R s \<and> sock (fst s) = None) (\<lambda>_ _. False)"
proof (rule tripleI)
  fix s :: "peer \<times> ('a \<times> conn_event list)" and u s'
  obtain p w ev where s: "s = (p, (w, ev))"
    by (cases s) auto
  assume "accounted R s" "peer_close (recording E) ab s = (Inr u, s')"
  then show "spare R s' \<and> sock (fst s') = None"
    by (auto simp: s peer_close_def recording_def bnd_def seq_def io_def spare_def accounted_def held_def ret_run
        subset_eq_diff_conv split: prod.splits option.splits)
next
  fix s :: "peer \<times> ('a \<times> conn_event list)" and e s'
  obtain p w ev where s: "s = (p, (w, ev))"
    by (cases s) auto
  have "\<exists>w'. n_close E k ab w = (Inr (), w')" for k
    by (rule assms)
  moreover assume "peer_close (recording E) ab s = (Inl e, s')"
  ultimately show False
    by (auto simp: s peer_close_def recording_def bnd_def seq_def io_def ret_run split: prod.splits option.splits)
      (metis Inl_Inr_False prod.inject)
qed


text \<open>Between a connect and a close, a peer's socket and the list of calls stay as they are.\<close>

definition quiet :: "(peer \<times> ('w \<times> conn_event list), 'a) prog \<Rightarrow> bool" where
  "quiet m \<longleftrightarrow> (\<forall>s. sock (fst (snd (m s))) = sock (fst s) \<and> snd (snd (snd (m s))) = snd (snd s))"

named_theorems quieting \<open>programs that neither connect nor close\<close>

lemma quiet_ret [quieting]: "quiet (ret x)"
  and quiet_raise [quieting]: "quiet (raise e)"
  and quiet_gets [quieting]: "quiet (gets f)"
  and quiet_of_sum [quieting]: "quiet (of_sum y)"
  by (simp_all add: quiet_def ret_run raise_run of_sum_run)

lemma quiet_io [quieting]:
  "quiet (io (n_send (recording E) k t m))" "quiet (io (n_recv (recording E) k t n))" "quiet (now (recording E))"
  by (auto simp: quiet_def io_def now_def recording_def split: prod.split)

lemma quiet_upd: "(\<And>p. sock (f p) = sock p) \<Longrightarrow> quiet (upd f)"
  by (simp add: quiet_def)

lemma quiet_bnd: "quiet m \<Longrightarrow> (\<And>x. quiet (f x)) \<Longrightarrow> quiet (bnd m f)"
  unfolding quiet_def bnd_def by (auto split: prod.split sum.split) (metis fst_conv snd_conv)+

lemma quiet_seq: "quiet m \<Longrightarrow> quiet n \<Longrightarrow> quiet (seq m n)"
  by (simp add: seq_def quiet_bnd)

lemma quiet_if: "quiet m \<Longrightarrow> quiet n \<Longrightarrow> quiet (if b then m else n)"
  by simp

lemma quiet_option: "quiet m \<Longrightarrow> (\<And>x. quiet (f x)) \<Longrightarrow> quiet (case z of None \<Rightarrow> m | Some x \<Rightarrow> f x)"
  by (simp split: option.split)

lemma quiet_handle: "quiet m \<Longrightarrow> (\<And>e. quiet (h e)) \<Longrightarrow> quiet (handle m c h)"
  unfolding quiet_def handle_def by (auto split: prod.split sum.split) (metis fst_conv snd_conv)+

lemma quiet_with_sock: "(\<And>k. quiet (f k)) \<Longrightarrow> quiet (with_sock f)"
  unfolding with_sock_def by (intro quiet_bnd quiet_option quieting)

lemmas quiet_intros = quiet_seq quiet_bnd quiet_if quiet_option quiet_handle quiet_with_sock quiet_upd

lemma quiet_arm [quieting]: "quiet (arm (recording E))"
  unfolding arm_def by (auto intro!: quiet_intros quieting)

lemma quiet_recv [quieting]: "quiet (recv (recording E) a n)"
  unfolding recv_def by (auto intro!: quiet_intros quieting)

lemma quiet_recv_exact [quieting]: "quiet (recv_exact (recording E) n bs)"
proof -
  have "sock (fst (snd (recv_exact (recording E) n bs s))) = sock (fst s) \<and>
      snd (snd (snd (recv_exact (recording E) n bs s))) = snd (snd s)" for s :: "peer \<times> ('a \<times> conn_event list)"
  proof (induction "recording E" n bs s rule: recv_exact.induct)
    case (1 want got s)
    obtain r s1 where run: "recv (recording E) (want - length got) (want - length got) s = (r, s1)"
      by (metis surj_pair)
    have "sock (fst s1) = sock (fst s) \<and> snd (snd s1) = snd (snd s)"
      using quiet_recv run unfolding quiet_def by (metis snd_conv)
    then show ?case
      using "1.hyps" [OF _ run [symmetric]] run
      by (subst (1 2) recv_exact.simps) (auto split: sum.split)
  qed
  then show ?thesis
    by (simp add: quiet_def)
qed

lemma quiet_send_bare [quieting]: "quiet (send_bare (recording E) op rid)"
  unfolding send_bare_def by (auto intro!: quiet_intros quieting)

lemma quiet_check_header [quieting]: "quiet (check_header fs)"
  unfolding check_header_def by (auto split: list.split intro!: quiet_intros quieting)

lemma quiet_query_stat [quieting]: "quiet (query_stat (recording E) rid)"
  unfolding query_stat_def read_header_def by (auto intro!: quiet_intros quieting)

lemma quiet_apply_stat [quieting]: "quiet (apply_stat width st)"
  unfolding apply_stat_def note_stat_def by (auto intro!: quiet_intros quieting)

lemma quietD: "quiet m \<Longrightarrow> m s = (r, s') \<Longrightarrow> sock (fst s') = sock (fst s) \<and> snd (snd s') = snd (snd s)"
  unfolding quiet_def by (metis snd_conv)

lemma connect_loop_accounted:
  "triple (spare R) (connect_loop fuel (recording E) ct tm dl pause) (\<lambda>_. accounted R) (\<lambda>_. spare R)"
proof (induction fuel arbitrary: pause)
  case 0
  then show ?case
    by (auto intro: triple_raise)
next
  case (Suc fuel)
  have same: "triple (spare R) (now (recording E)) (\<lambda>_. spare R) (\<lambda>_. spare R)"
    "triple (spare R) (sleep (recording E) d) (\<lambda>_. spare R) (\<lambda>_. spare R)" for d
    by (auto simp: triple_def spare_def now_def sleep_def io_def recording_def split: prod.split)
  show ?case
    unfolding connect_loop.simps
    by (intro triple_bnd [OF same(1)] triple_handle [OF connect_accounted] triple_if triple_raise
        triple_seq [OF same(2)] Suc.IH)
qed


subsection \<open>The constructor\<close>

text \<open>
  \<open>fleet n B\<close>: there are \<open>n\<close> peers, every open connection but an unnamed one is the socket of one of
  them, and those at the positions of \<open>B\<close> have no socket.
\<close>

definition fleet :: "nat \<Rightarrow> nat set \<Rightarrow> table \<times> ('w \<times> conn_event list) \<Rightarrow> bool" where
  "fleet n B s \<longleftrightarrow> length (peers (fst s)) = n \<and>
     still_open (snd (snd s)) \<subseteq># unnamed (snd (snd s)) + (\<Sum>p\<in>#mset (peers (fst s)). held p) \<and>
     (\<forall>i \<in> B. i < n \<longrightarrow> sock (peers (fst s) ! i) = None)"

lemma fleet_mono: "fleet n B s \<Longrightarrow> B' \<subseteq> B \<Longrightarrow> fleet n B' s"
  by (auto simp: fleet_def)

lemma held_update:
  assumes "i < length ps"
  shows "(\<Sum>p\<in>#mset (ps[i := q]). held p) = (\<Sum>p\<in>#mset ps - {#ps ! i#}. held p) + held q"
    and "(\<Sum>p\<in>#mset ps. held p) = (\<Sum>p\<in>#mset ps - {#ps ! i#}. held p) + held (ps ! i)"
proof -
  show upd: "(\<Sum>p\<in>#mset (ps[i := q]). held p) = (\<Sum>p\<in>#mset ps - {#ps ! i#}. held p) + held q" for q
    using assms by (simp add: mset_update)
  show "(\<Sum>p\<in>#mset ps. held p) = (\<Sum>p\<in>#mset ps - {#ps ! i#}. held p) + held (ps ! i)"
    using upd [of "ps ! i"] by simp
qed

lemma on_peer_fleet:
  assumes "\<And>R. triple (\<lambda>s. accounted R s \<and> (i \<in> B \<longrightarrow> sock (fst s) = None)) m
      (\<lambda>_ s. accounted R s \<and> (i \<in> B' \<longrightarrow> sock (fst s) = None)) (\<lambda>_ s. \<not> sure \<and> accounted R s)"
    and "B' - {i} \<subseteq> B" and "i < n"
  shows "triple (fleet n B) (on_peer i m) (\<lambda>_. fleet n B') (\<lambda>_ s. \<not> sure \<and> fleet n {} s)"
proof -
  have "case on_peer i m (t, (w, ev)) of (Inl e, s') \<Rightarrow> \<not> sure \<and> fleet n {} s' | (Inr x, s') \<Rightarrow> fleet n B' s'"
    if fleet: "fleet n B (t, (w, ev))" for t :: table and w ev
  proof -
    have n: "length (peers t) = n" and i: "i < length (peers t)"
      using fleet assms(3) by (simp_all add: fleet_def)
    let ?R = "\<Sum>p\<in>#mset (peers t) - {#peers t ! i#}. held p"
    obtain r p' w' ev' where run: "m (peers t ! i, (w, ev)) = (r, (p', (w', ev')))"
      by (metis surj_pair)
    have pre: "accounted ?R (peers t ! i, (w, ev)) \<and> (i \<in> B \<longrightarrow> sock (peers t ! i) = None)"
      using fleet i held_update(2) [OF i] by (auto simp: fleet_def accounted_def ac_simps)
    have post: "fleet n C (t\<lparr>peers := (peers t)[i := p']\<rparr>, (w', ev'))"
      if "accounted ?R (p', (w', ev'))" "C - {i} \<subseteq> B" "i \<in> C \<longrightarrow> sock p' = None" for C
    proof -
      have "sock ((peers t)[i := p'] ! j) = None" if "j \<in> C" "j < n" for j
        using that \<open>C - {i} \<subseteq> B\<close> \<open>i \<in> C \<longrightarrow> sock p' = None\<close> fleet i by (cases "j = i") (auto simp: fleet_def)
      then show ?thesis
        using that(1) n held_update(1) [OF i, of p'] by (simp add: fleet_def accounted_def ac_simps)
    qed
    show ?thesis
    proof (cases r)
      case (Inl e)
      have "\<not> sure \<and> accounted ?R (p', (w', ev'))"
        using triple_InlD [OF assms(1) [of ?R], of "(peers t ! i, (w, ev))" e "(p', (w', ev'))"] pre run Inl by simp
      then show ?thesis
        using post [of "{}"] i run Inl by (simp add: on_peer_def)
    next
      case (Inr x)
      have "accounted ?R (p', (w', ev')) \<and> (i \<in> B' \<longrightarrow> sock p' = None)"
        using triple_InrD [OF assms(1) [of ?R], of "(peers t ! i, (w, ev))" x "(p', (w', ev'))"] pre run Inr by simp
      then show ?thesis
        using post [of B'] assms(2) i run Inr by (simp add: on_peer_def)
    qed
  qed
  then show ?thesis
    by (auto simp: triple_def)
qed

lemmas on_peer_fleet_raising = on_peer_fleet [where sure = False, unfolded not_False_eq_True simp_thms]
lemmas on_peer_fleet_sure = on_peer_fleet [where sure = True, unfolded not_True_eq_False simp_thms]

lemma quiet_fleet:
  assumes "quiet m" and "i < n"
  shows "triple (fleet n B) (on_peer i m) (\<lambda>_. fleet n B) (\<lambda>_. fleet n {})"
proof (rule on_peer_fleet_raising [OF _ _ assms(2)])
  show "triple (\<lambda>s. accounted R s \<and> (i \<in> B \<longrightarrow> sock (fst s) = None)) m
      (\<lambda>_ s. accounted R s \<and> (i \<in> B \<longrightarrow> sock (fst s) = None)) (\<lambda>_. accounted R)" for R
  proof (rule tripleI)
    fix s x s'
    assume "accounted R s \<and> (i \<in> B \<longrightarrow> sock (fst s) = None)" "m s = (Inr x, s')"
    then show "accounted R s' \<and> (i \<in> B \<longrightarrow> sock (fst s') = None)"
      using quietD [OF assms(1), of s "Inr x" s'] by (simp add: accounted_def held_def)
  next
    fix s e s'
    assume "accounted R s \<and> (i \<in> B \<longrightarrow> sock (fst s) = None)" "m s = (Inl e, s')"
    then show "accounted R s'"
      using quietD [OF assms(1), of s "Inl e" s'] by (simp add: accounted_def held_def)
  qed
qed blast

lemma fleet_table: "(\<And>t. peers (f t) = peers t) \<Longrightarrow> triple (fleet n B) (upd f) (\<lambda>_. fleet n B) (\<lambda>_. fleet n {})"
  by (simp add: triple_def fleet_def)

lemma bring_up_fleet:
  assumes "i < n"
  shows "triple (fleet n {i..}) (bring_up (recording E) dl i) (\<lambda>_. fleet n {Suc i..}) (\<lambda>_. fleet n {})"
proof -
  have connect: "triple (fleet n {i..}) (connect_peer (recording E) i dl) (\<lambda>_. fleet n {Suc i..}) (\<lambda>_. fleet n {})"
    unfolding connect_peer_def
  proof (rule triple_gets, rule triple_pre, rule on_peer_fleet_raising [OF _ _ assms])
    fix t :: table and R
    show "triple (\<lambda>s. accounted R s \<and> (i \<in> {i..} \<longrightarrow> sock (fst s) = None))
      (connect_loop (n_fuel (recording E)) (recording E) (connect_timeout t) (t_timeout t) dl (1 / 2))
      (\<lambda>_ s. accounted R s \<and> (i \<in> {Suc i..} \<longrightarrow> sock (fst s) = None)) (\<lambda>_. accounted R)"
      by (rule triple_weaken [OF connect_loop_accounted]) (auto intro: accounted_spare spare_accounted)
  qed auto
  have "triple (fleet n {Suc i..}) next_req_id (\<lambda>_. fleet n {Suc i..}) (\<lambda>_. fleet n {})"
    unfolding next_req_id_def
    by (rule triple_gets, rule triple_pre, rule triple_seq [OF fleet_table]) (auto intro: triple_ret)
  then have "triple (fleet n {Suc i..}) (stat_peer (recording E) i) (\<lambda>_. fleet n {Suc i..}) (\<lambda>_. fleet n {})"
    unfolding stat_peer_def by (rule triple_bnd) (intro quiet_fleet quieting assms)
  moreover have "triple (fleet n {Suc i..}) (bnd (gets fst) (\<lambda>t. on_peer i (apply_stat (t_row_bytes t) st)))
      (\<lambda>_. fleet n {Suc i..}) (\<lambda>_. fleet n {})" for st
    by (rule triple_gets, rule triple_pre, rule quiet_fleet, rule quiet_apply_stat, rule assms) auto
  ultimately show ?thesis
    unfolding bring_up_def by (rule triple_seq [OF connect triple_bnd])
qed

lemma upt_around:
  assumes "[0..<n] = ys @ i # zs"
  shows "i = length ys \<and> i < n"
proof -
  have "length ys < n"
    using arg_cong [OF assms, of length] by simp
  moreover from this have "[0..<n] ! length ys = length ys"
    by simp
  ultimately show ?thesis
    using assms by simp
qed

lemma close_all_fleet:
  assumes "\<And>k ab w. \<exists>w'. n_close E k ab w = (Inr (), w')"
  shows "triple (fleet n {}) (close_all (recording E)) (\<lambda>_. fleet n {..<n}) (\<lambda>_ _. False)"
proof -
  have close: "triple (fleet n {..<i}) (on_peer i (peer_close (recording E) False)) (\<lambda>_. fleet n {..<Suc i}) (\<lambda>_ _. False)"
    if "i < n" for i
  proof (rule on_peer_fleet_sure [OF _ _ that])
    show "triple (\<lambda>s. accounted R s \<and> (i \<in> {..<i} \<longrightarrow> sock (fst s) = None)) (peer_close (recording E) False)
        (\<lambda>_ s. accounted R s \<and> (i \<in> {..<Suc i} \<longrightarrow> sock (fst s) = None)) (\<lambda>_ s. False)" for R
      by (rule triple_weaken [OF close_spare [OF assms]]) (auto intro: spare_accounted)
  qed auto
  have "triple (fleet n {..<length ([] :: nat list)}) (each [0..<n] (\<lambda>i. on_peer i (peer_close (recording E) False)))
    (\<lambda>_. fleet n {..<length [0..<n]}) (\<lambda>_ _. False)"
  proof (rule triple_each [of _ "\<lambda>ys zs. fleet n {..<length ys}"])
    fix ys zs :: "nat list" and i
    assume "[0..<n] = ys @ i # zs"
    then have "i = length ys" "i < n"
      by (simp_all add: upt_around)
    then show "triple (fleet n {..<length ys}) (on_peer i (peer_close (recording E) False))
      (\<lambda>_. fleet n {..<length (ys @ [i])}) (\<lambda>_ _. False)"
      using close [of i] by simp
  qed
  then have all: "triple (fleet n {}) (each [0..<n] (\<lambda>i. on_peer i (peer_close (recording E) False)))
      (\<lambda>_. fleet n {..<n}) (\<lambda>_ _. False)"
    by simp
  have "triple (\<lambda>s. fleet n {} s \<and> peer_indices s = is) (each is (\<lambda>i. on_peer i (peer_close (recording E) False)))
      (\<lambda>_. fleet n {..<n}) (\<lambda>_ _. False)" for "is"
  proof (cases "is = [0..<n]")
    case True
    then show ?thesis
      using all by (auto intro: triple_pre)
  qed (auto simp: triple_def fleet_def peer_indices_def)
  then show ?thesis
    unfolding close_all_def by (rule triple_gets)
qed

lemma check_split_fleet: "triple (fleet n {}) check_split (\<lambda>_. fleet n {}) (\<lambda>_. fleet n {})"
proof -
  have "triple (fleet n {}) (upd (\<lambda>t. t\<lparr>peers := sort_key base_row (peers t)\<rparr>)) (\<lambda>_. fleet n {}) (\<lambda>_. fleet n {})"
    by (simp add: triple_def fleet_def)
  moreover have "triple (fleet n {}) (of_sum y) (\<lambda>_. fleet n {}) (\<lambda>_. fleet n {})" for y :: "exn + nat"
    by (simp add: triple_def of_sum_run split: sum.split)
  ultimately show ?thesis
    unfolding check_split_def
    by (intro triple_seq triple_gets triple_bnd triple_if triple_raise triple_ret) (auto intro: triple_pre)
qed


lemma connect_all_fleet:
  assumes "\<And>k ab w. \<exists>w'. n_close E k ab w = (Inr (), w')"
  shows "triple (fleet n UNIV) (connect_all (recording E)) (\<lambda>_. fleet n {})
    (\<lambda>e s. is_exception e \<longrightarrow> still_open (snd (snd s)) \<subseteq># unnamed (snd (snd s)))"
proof -
  have "triple (fleet n {length ([] :: nat list)..}) (each [0..<n] (bring_up (recording E) dl))
      (\<lambda>_. fleet n {length [0..<n]..}) (\<lambda>_. fleet n {})" for dl
  proof (rule triple_each [of _ "\<lambda>ys zs. fleet n {length ys..}"])
    fix ys zs :: "nat list" and i
    assume "[0..<n] = ys @ i # zs"
    then have "i = length ys" "i < n"
      by (simp_all add: upt_around)
    then show "triple (fleet n {length ys..}) (bring_up (recording E) dl i) (\<lambda>_. fleet n {length (ys @ [i])..}) (\<lambda>_. fleet n {})"
      using bring_up_fleet [of i n E dl] by simp
  qed
  then have each: "triple (fleet n UNIV) (each [0..<n] (bring_up (recording E) dl)) (\<lambda>_. fleet n {}) (\<lambda>_. fleet n {})" for dl
    by (rule triple_weaken) (auto intro: fleet_mono)
  have body: "triple (fleet n UNIV)
     (bnd (now (recording E)) (\<lambda>t0. bnd (gets (\<lambda>s. t0 + connect_deadline (fst s))) (\<lambda>dl.
        bnd (gets peer_indices) (\<lambda>is. seq (each is (bring_up (recording E) dl)) check_split))))
     (\<lambda>_. fleet n {}) (\<lambda>_. fleet n {})"
  proof (rule triple_bnd [of _ _ "\<lambda>_. fleet n UNIV"])
    show "triple (fleet n UNIV) (now (recording E)) (\<lambda>_. fleet n UNIV) (\<lambda>_. fleet n {})"
      by (auto simp: triple_def fleet_def now_def io_def recording_def split: prod.split)
    show "triple (fleet n UNIV) (bnd (gets (\<lambda>s. t0 + connect_deadline (fst s))) (\<lambda>dl.
        bnd (gets peer_indices) (\<lambda>is. seq (each is (bring_up (recording E) dl)) check_split)))
      (\<lambda>_. fleet n {}) (\<lambda>_. fleet n {})" for t0
    proof (intro triple_gets)
      fix dl "is"
      show "triple (\<lambda>s. (fleet n UNIV s \<and> t0 + connect_deadline (fst s) = dl) \<and> peer_indices s = is)
          (seq (each is (bring_up (recording E) dl)) check_split) (\<lambda>_. fleet n {}) (\<lambda>_. fleet n {})"
      proof (cases "is = [0..<n]")
        case True
        then show ?thesis
          using triple_seq [OF each check_split_fleet] by (auto intro: triple_pre)
      qed (auto simp: triple_def fleet_def peer_indices_def)
    qed
  qed
  show ?thesis
    unfolding connect_all_def
  proof (rule triple_handle [OF body])
    fix e
    have "still_open (snd (snd s)) \<subseteq># unnamed (snd (snd s))" if "fleet n {..<n} s" for s :: "table \<times> ('a \<times> conn_event list)"
    proof -
      have "held p = {#}" if "p \<in># mset (peers (fst s))" for p
        using that \<open>fleet n {..<n} s\<close> by (auto simp: fleet_def held_def in_set_conv_nth)
      then have "image_mset held (mset (peers (fst s))) = image_mset (\<lambda>p. {#}) (mset (peers (fst s)))"
        by (rule image_mset_cong)
      then show ?thesis
        using that by (simp add: fleet_def)
    qed
    then show "triple (fleet n {}) (seq (close_all (recording E)) (raise e)) (\<lambda>_. fleet n {})
        (\<lambda>e s. is_exception e \<longrightarrow> still_open (snd (snd s)) \<subseteq># unnamed (snd (snd s)))"
      by (intro triple_seq [OF triple_weaken [OF close_all_fleet [OF assms]]] triple_raise) auto
  qed simp
qed


lemma new_table_fleet:
  assumes "new_table to_float environ c v = (Inr t, v')"
  shows "fleet (length (peers t)) UNIV (t, (w, []))"
proof -
  have "\<forall>p \<in> set (peers t). sock p = None"
    using new_table_Inr(3) [OF assms] by (auto simp: blank_def)
  moreover from this have "image_mset held (mset (peers t)) = image_mset (\<lambda>p. {#}) (mset (peers t))"
    by (intro image_mset_cong) (simp add: held_def)
  ultimately show ?thesis
    by (simp add: fleet_def)
qed

lemma init_table_fleet:
  assumes "\<And>k ab w. \<exists>w'. n_close E k ab w = (Inr (), w')"
    and "init_table (recording E) to_float environ c (w, []) = (r, (w', ev))"
  shows "case r of Inl e \<Rightarrow> is_exception e \<longrightarrow> still_open ev \<subseteq># unnamed ev
    | Inr t \<Rightarrow> still_open ev \<subseteq># unnamed ev + (\<Sum>p\<in>#mset (peers t). held p)"
proof -
  obtain rt v where new: "new_table to_float environ c (w, [] :: conn_event list) = (rt, v)"
    by (metis surj_pair)
  have v: "v = (w, [])"
    using new by (auto simp: new_table_def bnd_def of_sum_run ret_run split: sum.splits)
  show ?thesis
  proof (cases rt)
    case (Inl e)
    then show ?thesis
      using assms(2) new v by (auto simp: init_table_def bnd_def)
  next
    case (Inr t)
    obtain rc s where run: "connect_all (recording E) (t, (w, [])) = (rc, s)"
      by (metis surj_pair)
    note fleet = new_table_fleet [OF new [unfolded Inr], of w]
    show ?thesis
    proof (cases rc)
      case [simp]: (Inl e)
      show ?thesis
        using triple_InlD [OF connect_all_fleet [OF assms(1)] fleet run [unfolded Inl]] assms(2) new v Inr run
        by (auto simp: init_table_def bnd_def)
    next
      case [simp]: (Inr u)
      show ?thesis
        using triple_InrD [OF connect_all_fleet [OF assms(1)] fleet run [unfolded Inr]] assms(2) new v \<open>rt = Inr t\<close> run
        by (auto simp: init_table_def bnd_def fleet_def)
    qed
  qed
qed

text \<open>
  C22.  A constructor that raises has closed every connection it made, provided closing a socket does not
  itself raise: of the connections opened in the run, those not closed again are ones whose
  \<open>getpeername\<close> failed, which the next try of \<open>_connect\<close> replaces without a \<open>close\<close>.
\<close>

theorem failed_constructor_closes_every_connection:
  assumes "\<And>k ab w. \<exists>w'. n_close E k ab w = (Inr (), w')"
    and "init_table E to_float environ c w = (Inl e, w')" and "is_exception e"
  shows "\<exists>ev. init_table (recording E) to_float environ c (w, []) = (Inl e, (w', ev)) \<and> still_open ev \<subseteq># unnamed ev"
proof -
  obtain ev where "init_table (recording E) to_float environ c (w, []) = (Inl e, (w', ev))"
    using mirrors_init_table [of E to_float environ c w "[]"] assms(2) by auto
  then show ?thesis
    using init_table_fleet [OF assms(1)] assms(3) by fastforce
qed

text \<open>A constructor that returns holds every connection it made in one of its peers, or has closed it.\<close>

lemma constructor_holds_its_connections:
  assumes "\<And>k ab w. \<exists>w'. n_close E k ab w = (Inr (), w')"
    and "init_table E to_float environ c w = (Inr t, w')"
  shows "\<exists>ev. init_table (recording E) to_float environ c (w, []) = (Inr t, (w', ev)) \<and>
    still_open ev \<subseteq># unnamed ev + (\<Sum>p\<in>#mset (peers t). held p)"
proof -
  obtain ev where "init_table (recording E) to_float environ c (w, []) = (Inr t, (w', ev))"
    using mirrors_init_table [of E to_float environ c w "[]"] assms(2) by auto
  then show ?thesis
    using init_table_fleet [OF assms(1)] by fastforce
qed

lemma unbuilt_run:
  "case init_table (recording (loop_net (two_halves 8 1))) (\<lambda>s. Inl (Exn ValueError NoPeers)) (\<lambda>s. None) (loop_config 8 1)
      (quiet_world [Fine, Fine, Fine, Fine, Fine, Broken], []) of
     (r, (u, ev)) \<Rightarrow> map_sum id (\<lambda>t. ()) r = Inl (Exn ConnectionError (Env 0)) \<and> ev = [Closing 1, Closing 0, Opened 1, Opened 0]"
  by (simp add: recording_def all_run front_run cong: run_congs)


theorem failed_constructor_closes_every_connection_witness:
  "\<exists>u ev. init_table (recording (loop_net (two_halves 8 1))) (\<lambda>s. Inl (Exn ValueError NoPeers)) (\<lambda>s. None) (loop_config 8 1)
      (quiet_world [Fine, Fine, Fine, Fine, Fine, Broken], []) = (Inl (Exn ConnectionError (Env 0)), (u, ev)) \<and>
     ev = [Closing 1, Closing 0, Opened 1, Opened 0] \<and> still_open ev \<subseteq># unnamed ev"
proof -
  let ?w = "quiet_world [Fine, Fine, Fine, Fine, Fine, Broken]"
  let ?init = "\<lambda>E. init_table E (\<lambda>s. Inl (Exn ValueError NoPeers)) (\<lambda>s. None) (loop_config 8 1)"
  obtain r u ev where run: "?init (recording (loop_net (two_halves 8 1))) (?w, []) = (r, (u, ev))"
    by (metis surj_pair)
  then have r: "r = Inl (Exn ConnectionError (Env 0))" "ev = [Closing 1, Closing 0, Opened 1, Opened 0]"
    using unbuilt_run by (auto split: sum.splits) (cases r; auto)
  then have "?init (loop_net (two_halves 8 1)) ?w = (Inl (Exn ConnectionError (Env 0)), u)"
    using run mirrors_init_table [of "loop_net (two_halves 8 1)" "\<lambda>s. Inl (Exn ValueError NoPeers)" "\<lambda>s. None"
        "loop_config 8 1" ?w "[]"] by auto
  then have "\<exists>ev. ?init (recording (loop_net (two_halves 8 1))) (?w, []) = (Inl (Exn ConnectionError (Env 0)), (u, ev)) \<and>
      still_open ev \<subseteq># unnamed ev"
    by (rule failed_constructor_closes_every_connection [rotated]) (simp_all add: wired_net_def)
  then show ?thesis
    using run r by simp
qed

text \<open>
  The exception is real: when \<open>getpeername\<close> fails on a connection just made, the next try overwrites
  \<open>self.sock\<close>, and nothing closes the first one.
\<close>

definition nameless :: "loop net" where
  "nameless = (loop_net (two_halves 8 1))\<lparr>n_peername := (\<lambda>k w. if k = 0 then (Inl (Exn OSError (Env 1)), w)
     else n_peername (loop_net (two_halves 8 1)) k w)\<rparr>"

lemma unnamed_socket_is_dropped:
  "case init_table (recording nameless) (\<lambda>s. Inl (Exn ValueError NoPeers)) (\<lambda>s. None) (loop_config 8 1) (quiet_world [], []) of
     (r, (u, ev)) \<Rightarrow> (\<exists>t. r = Inr t \<and> map sock (peers t) = [Some 1, Some 2]) \<and> still_open ev = {#0, 1, 2#}"
  by (simp add: nameless_def recording_def all_run front_run cong: run_congs)

end
