(* ===== verification/Spec2Isabelle.thy ===== *)
theory Spec2Isabelle
  imports Bench_Proof Kv Export Spans Probe_Guarantees Recharge_Guarantees Thrash Pauses_Guarantees Eviction
    Typed_Guarantees Deployed Connecting Self_Check Closing
begin

text \<open>
  A verification development for ple-row-server: row servers that hold halves of an embedding table in
  memory, the Python client that gathers rows from them inside every forward pass of an inference
  engine, and the tools around both.

  \<^bold>\<open>The program.\<close>  \<open>client/ple_remote.py\<close> is the core.  A table (\<open>PLERemoteTable\<close>) owns one connection per
  row server (\<open>_Peer\<close>), checks at construction that the servers' ranges tile the table, and serves
  gathers: it routes ids by range, writes them into per-peer request buffers, sends every request before
  it reads an answer, drains the answers with \<open>select\<close>, replaces connections that fail and reissues the
  request within one deadline, and scatters the rows back into request order.  \<open>server/rowserverd.c\<close> is the
  daemon at the other end: one thread per connection answers gathers out of a mapped file, and can sweep
  the file's page cache onto its own account.  The benchmarks
  (\<open>bench/bench_remote.py\<close>, \<open>bench/probe.py\<close>) measure and verify such deployments, the first through the
  client, the second through a client of its own; \<open>tools/ple_export_half.py\<close> cuts the halves out of the
  checkpoint; \<open>tools/recharge_cache.py\<close> has a running server recharge its page cache; the remaining
  scripts of \<open>bench/\<close> and \<open>deploy/\<close> size the cache, analyse traces and logs, and time the inference server.

  \<^bold>\<open>How it is modelled.\<close>  A program is a function from a state to a result and a state (\<open>prog\<close>, theory
  Prelude): the result is an exception (\<open>exn\<close>, a Python class and a reason) or a value; \<open>bnd\<close>, \<open>seq\<close>,
  \<open>handle\<close>, \<open>ensure\<close>, \<open>each\<close> are sequencing, \<open>try/except\<close>, \<open>try/finally\<close> and loops.  The state pairs the object
  of the method with a world of any type; sockets, clock and uninitialised memory are the operations of
  a record \<open>net\<close> (theory Net).  Python integers are \<open>int\<close> or \<open>nat\<close>, bytes are \<open>8 word\<close>, fields of a
  header wrap or are refused at their width as \<open>struct\<close> does, seconds and other floats are exact
  rationals.  Exceptions that Python does not raise mark what never returns (\<open>NoReturn\<close>).  The daemon is modelled
  at C's widths, with its buffers as lists of their length and \<open>None\<close> for an access outside of one; what its system
  calls return is given by lists (a connection's reads and writes) and by functions of the calls made so far (\<open>kernel\<close>).

  \<^bold>\<open>Theories and code.\<close>
  \<^item> Prelude, Stats: programs, triples, order statistics of the standard library.
  \<^item> Wire: the formats of \<open>docs/protocol.md\<close> as the Python code packs and unpacks them.  Net: the interfaces.
    \<open>row_service\<close> is what a row server may answer, \<open>honest_net\<close> (Net) that bytes come from the server a
    socket is connected to, \<open>trusted_net\<close> (Exchange\_Sync) that servers hold the true rows, \<open>live_net\<close> (Live) that
    a calm network answers gathers in time, \<open>calling_net\<close> (Calls\_Live) that it answers the other requests too.  Wired\_Net is a network with scripted faults over any row service; Loop\_Net
    and Server interpret all of them on the stand-in servers of \<open>_self_check\<close>; Run holds the equations that run
    the client there.
  \<^item> Daemon\_Table, Daemon\_Sweep, Daemon, Daemon\_Main: \<open>server/rowserverd.c\<close>: \<open>struct server\<close>, the byte order helpers and
    \<open>gather_rows\<close>; \<open>resident_pages\<close>, \<open>touch_range\<close> and \<open>recharge_map\<close>; the socket loops and \<open>serve_conn\<close>, with the
    interpretation of \<open>row_service\<close>; the options and checks of \<open>main\<close>, \<open>ratelimit_take\<close> and the accept loop.
    Daemon\_Guarantees: its properties.  Deployed: the client over daemons, end to end.
  \<^item> Settings: \<open>_env\<close>, \<open>_parse_peers\<close>, Python's \<open>int()\<close> and \<open>str()\<close>.
  \<^item> Peer: \<open>_Peer\<close>, method by method.  Table: the constructor, \<open>_connect\<close>, \<open>_check_range\<close>, \<open>_apply_stat\<close>,
    \<open>_check_split\<close>, \<open>ping\<close>, \<open>stat\<close>, \<open>close\<close>.  Connecting: that \<open>_connect\<close> ends.  Closing: what becomes of the
    connections of a constructor that raises, over a net that records the calls.  Partition: \<open>_staging_for\<close>, \<open>_partition\<close>, \<open>_raise_unroutable\<close>.  Exchange:
    \<open>_exchange\<close> and \<open>_drain\<close>.  Gather: \<open>gather_cpu\<close>, \<open>gather\<close>, \<open>read_rows_contiguous\<close>.
  \<^item> Link, Peer\_Sync, Exchange\_Sync, Exchange\_Proof, Gather\_Proof, Table\_Proof, Session: what each step does to
    the connections of a table, up to the invariant of a session; Live: that it returns; Typed: what holds of the
    buffers whatever the network does.  Calls\_Live: that \<open>ping\<close>, \<open>stat\<close> and \<open>close\<close> return.  Self\_Check: \<open>_self_check\<close>,
    and that it passes.  Guarantees, Typed\_Guarantees: the properties of the client.
  \<^item> Bench, Bench\_Proof: \<open>bench/bench_remote.py\<close> over the client.  Bare: the receive loop of the small clients.  Probe
    and its proofs: \<open>bench/probe.py\<close>.  Recharge, Recharge\_Guarantees: \<open>tools/recharge_cache.py\<close>.
  \<^item> Export: \<open>tools/ple_export_half.py\<close>.  Kv: \<open>bench/kv_sizing.py\<close>.  Spans: \<open>bench/trace_summary.py\<close>,
    \<open>trace_gaps.py\<close>, \<open>trace_gap_detail.py\<close>.  Thrash: \<open>deploy/thrash_trend.py\<close>.
  \<^item> Metrics, Pauses, Pauses\_Guarantees: \<open>bench/itl_ab.py\<close>, \<open>itl_pauses.py\<close>, \<open>prove_prefill_pause.py\<close>.  Eviction:
    \<open>bench/prefix_eviction.py\<close>, \<open>retention_threshold.py\<close>, \<open>review_bench.py\<close>.

  \<^bold>\<open>What is shown.\<close>
  \<^item> Client, over servers that answer as the protocol says but may fail at any byte: a gather that returns has
    the true rows in the order asked, after any session and any faults; it returns if the network is calm for as long
    as a gather may take; every usable table is in step with its servers; an answer is accepted only for
    the request that is pending; a failed gather condemns the table; bad ids are refused before any traffic;
    a constructor that raises has closed what it opened.  The self-check passes over its stand-ins whatever ids it draws.
  \<^item> Client and daemon: a gather over daemons that returns has, byte for byte, the rows of the files they mapped,
    whatever the network, the kernels and the peers' reads do.
  \<^item> Daemon: no input makes it read or write outside its buffers (header, ids, response, residency vector) or the mapping, and a connection ends with its peer; pipelined gathers
    are answered in order and the stream stays at a header boundary; the sweep leaves nothing cold and at no
    moment more than a slice; start-up lets through only servers whose ids cannot wrap; the slots hold.
  \<^item> Client, over any network at all: every buffer keeps the size on record and every row the width asked for.
  \<^item> Formats: messages and peer lists round-trip, rows survive any splitting into receives.
  \<^item> Benchmarks: the checks count exactly the rows that differ; the probe's gather refines the lookup in the table.
  \<^item> Tools: an export writes exactly the bytes of its rows; a recharge reports what the server sent and its exit
    status says what the report says.
  \<^item> Analyses: busy time, gaps and attribution equal their definitions on sets of points in time; the reported context is the
    largest that fits; the trend compares one run; the pauses shown are the longest, the threshold is the first loss.

  \<^bold>\<open>Bounds and fuel.\<close>  Receive loops end by the bytes still wanted, the drain by the bytes unread, the stream loops
  by the lines left: all are total functions.  Only \<open>connect_loop\<close> takes fuel (\<open>n_fuel\<close>, one unit per
  try); running out is \<open>NoReturn\<close>, which no handler catches.  Over a clock that does not run back, twice the
  seconds to the deadline and one more are enough tries, and more change nothing (\<open>connecting_ends\<close>; the
  thousand of the wired network suffice for eight minutes).  The liveness theorems hold for every fuel, since they start from tables
  whose connections stand.  The export is a partial function, as a block size of zero never returns; for
  all other sizes it is shown to return.

  The loops of the daemon end by what is left of the mapping or of the reads.

  \<^bold>\<open>Not modelled.\<close>  Of the daemon the text of log lines, signals beyond the flag they set, socket options and
  the listening socket; that other threads sweep at the same time is an answer of the kernel.
  Threads and locks: an operation of a table is the critical section its lock makes of it, and the sampling threads
  of the experiments appear as one turn and as what they have left when they are read.  Devices, pinned
  memory and tensor views do not change bytes.  HTTP, JSON, regular expressions, argparse, random generators and the
  file system are parameters.  Printed lines are the values they show.  Shell tools, build files and tests
  are left out.
\<close>

end
